(* ===== verification/Telix_Prelude.thy ===== *)
theory Telix_Prelude
  imports Main "HOL-Library.Word" "HOL-Library.Multiset" "HOL-Library.Monad_Syntax"
begin

unbundle bit_operations_syntax

text \<open>
  Shared material of the Telix development: the machine types, Rust's truncating casts, the
  early-return scan of an array (\<open>first_idx\<close>), the abstract page allocator and the lemma
  collections the component theories extend.

  Conventions used by every theory:
  \<^item> values that the code combines bitwise are words of their width (\<open>u8\<close>, \<open>u32\<close>, \<open>u64\<close>);
  \<^item> indices, lengths and counters of type usize are \<open>nat\<close>; a truncating cast of one is written
    out (\<open>as_u16\<close>, \<open>as_u32\<close>);
  \<^item> a model function that can leave the defined behaviour of the code (an index out of range, a
    null page, an unbounded recursion) returns an \<open>option\<close>, with None for that case, and the
    theorems show that None does not occur.
\<close>

section \<open>Machine types\<close>

type_synonym u8 = "8 word"
type_synonym u16 = "16 word"
type_synonym u32 = "32 word"
type_synonym u64 = "64 word"

definition U32_MAX :: nat where
  "U32_MAX = 4294967295"

definition as_u16 :: "nat \<Rightarrow> nat" where
  "as_u16 n = n mod 65536"

definition as_u32 :: "nat \<Rightarrow> nat" where
  "as_u32 n = n mod 4294967296"

lemma as_u16_id [simp]: "n < 65536 \<Longrightarrow> as_u16 n = n"
  by (simp add: as_u16_def)

lemma as_u32_id [simp]: "n < 4294967296 \<Longrightarrow> as_u32 n = n"
  by (simp add: as_u32_def)

lemma word64_bit_bound:
  fixes p :: u64
  assumes "p < 2 ^ k" "k < 64" "bit p n"
  shows "n < k"
proof -
  have "unat (of_nat (2 ^ k) :: u64) = 2 ^ k"
    using assms(2) by (simp only: unsigned_of_nat) (simp add: take_bit_nat_eq_self)
  then have "unat p < 2 ^ k" using assms(1) by (simp add: word_less_nat_alt)
  then have "take_bit k (unat p) = unat p" by (simp add: take_bit_nat_eq_self)
  moreover have "bit (unat p) n" using assms(3) by (simp add: bit_unsigned_iff bit_imp_le_length)
  ultimately show ?thesis by (metis bit_take_bit_iff)
qed

section \<open>Lemma collections\<close>

named_theorems model_defs \<open>definitions of the model's small operations\<close>
named_theorems word_facts \<open>facts on fixed-width words the components share\<close>

section \<open>Scanning an array\<close>

text \<open>
  The loop \<open>for i in 0..n { if P(a[i]) { return i } }\<close>: the first index whose element satisfies
  the test.
\<close>

fun first_idx :: "('a \<Rightarrow> bool) \<Rightarrow> 'a list \<Rightarrow> nat option" where
  "first_idx P [] = None"
| "first_idx P (x # xs) = (if P x then Some 0 else map_option Suc (first_idx P xs))"

lemma first_idx_None: "first_idx P xs = None \<longleftrightarrow> (\<forall>x\<in>set xs. \<not> P x)"
  by (induction xs) auto

lemma first_idx_Some:
  "first_idx P xs = Some i \<longleftrightarrow> i < length xs \<and> P (xs ! i) \<and> (\<forall>j<i. \<not> P (xs ! j))"
proof (induction xs arbitrary: i)
  case Nil
  then show ?case by simp
next
  case (Cons x xs)
  show ?case
  proof (cases i)
    case 0
    then show ?thesis by auto
  next
    case (Suc k)
    then show ?thesis using Cons.IH [of k] by (auto simp: nth_Cons' less_Suc_eq_0_disj)
  qed
qed

lemma first_idx_SomeD:
  assumes "first_idx P xs = Some i"
  shows "i < length xs" "P (xs ! i)" "j < i \<Longrightarrow> \<not> P (xs ! j)"
  using assms by (auto simp: first_idx_Some)

lemma first_idx_unique:
  assumes "i < length xs" "P (xs ! i)" "\<And>j. j < length xs \<Longrightarrow> P (xs ! j) \<Longrightarrow> j = i"
  shows "first_idx P xs = Some i"
  unfolding first_idx_Some using assms by (metis nat_neq_iff order.strict_trans)

lemma first_idx_ex: "x \<in> set xs \<Longrightarrow> P x \<Longrightarrow> \<exists>i. first_idx P xs = Some i"
  using first_idx_None [of P xs] by (cases "first_idx P xs") auto

lemma first_idx_snoc:
  "first_idx P xs = None \<Longrightarrow> first_idx P (xs @ [x]) = (if P x then Some (length xs) else None)"
  by (induction xs) (auto split: if_splits)

section \<open>The page allocator as seen by its clients\<close>

text \<open>
  The outcomes of the coming calls of \<open>phys::alloc_page\<close>: True for a page, False (or the end of
  the list) for None. Clients of this file own the page they get and hold its contents by value.
\<close>

type_synonym alloc_outcomes = "bool list"

fun alloc_page :: "alloc_outcomes \<Rightarrow> bool \<times> alloc_outcomes" where
  "alloc_page [] = (False, [])"
| "alloc_page (b # bs) = (b, bs)"

end
