(* ===== verification/PortId.thy ===== *)
theory PortId
  imports Telix_Prelude
begin

text \<open>
  Port identifiers, \<open>ipc/port.rs\<close>: twenty bits of a node above forty-four bits of a local index.
\<close>

section \<open>Identifiers\<close>

definition port_node :: "u64 \<Rightarrow> u32" where
  "port_node i = ucast (drop_bit 44 i)"

definition port_local :: "u64 \<Rightarrow> u64" where
  "port_local i = i AND 0xFFFFFFFFFFF"

definition make_port_id :: "u32 \<Rightarrow> u64 \<Rightarrow> u64" where
  "make_port_id node local = (push_bit 44 (ucast node)) OR (local AND 0xFFFFFFFFFFF)"

section \<open>Facts about identifiers\<close>

lemma local_mask: "(0xFFFFFFFFFFF :: u64) = mask 44"
  by (simp add: mask_eq_exp_minus_1)

lemma unat_44: "unat (2 ^ 44 :: u64) = 2 ^ 44"
  by simp

lemma and_local:
  assumes "w < 2 ^ 44"
  shows "w AND 0xFFFFFFFFFFF = (w :: u64)"
proof -
  have "unat w < 2 ^ 44" using assms unfolding word_less_nat_alt unat_44 .
  then have "unat (take_bit 44 w) = unat w" by (simp only: unsigned_take_bit_eq take_bit_nat_eq_self)
  then have "take_bit 44 w = w" by (rule word_unat_eq_iff [THEN iffD2])
  then show ?thesis by (simp only: local_mask take_bit_eq_mask)
qed

lemma local_less: "port_local i < 2 ^ 44"
proof -
  have "unat (take_bit 44 i) < 2 ^ 44" by (simp only: unsigned_take_bit_eq take_bit_nat_less_exp)
  then have "take_bit 44 i < 2 ^ 44" unfolding word_less_nat_alt unat_44 .
  then show ?thesis by (simp only: port_local_def local_mask take_bit_eq_mask)
qed

lemma port_local_small: "w < 2 ^ 44 \<Longrightarrow> port_local w = w"
  by (simp add: port_local_def and_local)

lemma make_port_id_small: "w < 2 ^ 44 \<Longrightarrow> make_port_id 0 w = w"
  by (simp add: make_port_id_def and_local)

lemma port_id_parts: "make_port_id (port_node i) (port_local i) = i"
proof (rule bit_eqI)
  fix n assume "possible_bit TYPE(u64) n"
  then have n: "n < 64" by (simp add: possible_bit_word)
  then show "bit (make_port_id (port_node i) (port_local i)) n \<longleftrightarrow> bit i n"
    unfolding make_port_id_def port_node_def port_local_def local_mask
    by (cases "n < 44") (auto simp: bit_or_iff bit_and_iff bit_push_bit_iff bit_mask_iff bit_ucast_iff bit_drop_bit_eq)
qed

end
