(* ===== verification/Capability.thy ===== *)
theory Capability
  imports Telix_Prelude
begin

text \<open>
  \<open>kernel/src/cap/capability.rs\<close>: the rights bitfield, the kinds of kernel object and the
  capability record with its attenuating derivation. Rights are given the library's lattice
  classes, so that \<open>r \<le> s\<close> reads "s contains r".
\<close>

section \<open>Rights\<close>

datatype Rights = Rights (bits: u32)

definition NONE :: Rights where "NONE = Rights 0"
definition SEND :: Rights where "SEND = Rights (push_bit 0 1)"
definition RECV :: Rights where "RECV = Rights (push_bit 1 1)"
definition GRANT :: Rights where "GRANT = Rights (push_bit 2 1)"
definition READ :: Rights where "READ = Rights (push_bit 3 1)"
definition WRITE :: Rights where "WRITE = Rights (push_bit 4 1)"
definition EXEC :: Rights where "EXEC = Rights (push_bit 5 1)"
definition MANAGE :: Rights where "MANAGE = Rights (push_bit 6 1)"

lemmas rights_consts [model_defs] =
  NONE_def SEND_def RECV_def GRANT_def READ_def WRITE_def EXEC_def MANAGE_def

definition from_bits :: "u32 \<Rightarrow> Rights" where
  "from_bits b = Rights b"

definition union_rights :: "Rights \<Rightarrow> Rights \<Rightarrow> Rights" where
  "union_rights r s = Rights (bits r OR bits s)"

definition intersect :: "Rights \<Rightarrow> Rights \<Rightarrow> Rights" where
  "intersect r s = Rights (bits r AND bits s)"

definition contains :: "Rights \<Rightarrow> Rights \<Rightarrow> bool" where
  "contains r s \<longleftrightarrow> (bits r AND bits s) = bits s"

definition is_empty_rights :: "Rights \<Rightarrow> bool" where
  "is_empty_rights r \<longleftrightarrow> bits r = 0"

text \<open>The Debug formatter: the names of the flags that are set, separated by a bar.\<close>

definition rights_flags :: "(Rights \<times> string) list" where
  "rights_flags =
     [(SEND, ''SEND''), (RECV, ''RECV''), (GRANT, ''GRANT''), (READ, ''READ''),
      (WRITE, ''WRITE''), (EXEC, ''EXEC''), (MANAGE, ''MANAGE'')]"

fun fmt_flags :: "Rights \<Rightarrow> (Rights \<times> string) list \<Rightarrow> bool \<Rightarrow> string \<Rightarrow> bool \<times> string" where
  "fmt_flags r [] is_first out = (is_first, out)"
| "fmt_flags r ((flag, name) # rest) is_first out =
     (if contains r flag
      then fmt_flags r rest False (out @ (if is_first then '''' else ''|'') @ name)
      else fmt_flags r rest is_first out)"

definition fmt_rights :: "Rights \<Rightarrow> string" where
  "fmt_rights r =
     (let (is_first, out) = fmt_flags r rights_flags True ''''
      in if is_first then out @ ''NONE'' else out)"

section \<open>Rights as a lattice\<close>

lemma and_eq_iff_bits: "(a AND b) = b \<longleftrightarrow> (\<forall>n. bit b n \<longrightarrow> bit a n)" for a b :: "'a::len word"
proof
  assume "(a AND b) = b"
  then show "\<forall>n. bit b n \<longrightarrow> bit a n" by (metis bit_and_iff)
qed (auto intro!: bit_eqI simp: bit_and_iff)

lemma contains_iff_bits: "contains r s \<longleftrightarrow> (\<forall>n. bit (bits s) n \<longrightarrow> bit (bits r) n)"
  by (simp add: contains_def and_eq_iff_bits)

instantiation Rights :: "{lattice, order_bot}"
begin

definition "(r :: Rights) \<le> s \<longleftrightarrow> contains s r"
definition "(r :: Rights) < s \<longleftrightarrow> contains s r \<and> \<not> contains r s"
definition "inf (r :: Rights) s = intersect r s"
definition "sup (r :: Rights) s = union_rights r s"
definition "(bot :: Rights) = NONE"

instance
proof
  fix r s t :: Rights
  show "r < s \<longleftrightarrow> r \<le> s \<and> \<not> s \<le> r"
    by (simp add: less_Rights_def less_eq_Rights_def)
  show "r \<le> r"
    by (simp add: less_eq_Rights_def contains_iff_bits)
  show "r \<le> s \<Longrightarrow> s \<le> t \<Longrightarrow> r \<le> t"
    by (simp add: less_eq_Rights_def contains_iff_bits)
  show "r \<le> s \<Longrightarrow> s \<le> r \<Longrightarrow> r = s"
    by (cases r; cases s) (auto simp: less_eq_Rights_def contains_iff_bits intro!: bit_eqI)
  show "inf r s \<le> r" "inf r s \<le> s" "r \<le> s \<Longrightarrow> r \<le> t \<Longrightarrow> r \<le> inf s t"
    by (auto simp: less_eq_Rights_def inf_Rights_def intersect_def contains_iff_bits bit_and_iff)
  show "r \<le> sup r s" "s \<le> sup r s" "s \<le> r \<Longrightarrow> t \<le> r \<Longrightarrow> sup s t \<le> r"
    by (auto simp: less_eq_Rights_def sup_Rights_def union_rights_def contains_iff_bits bit_or_iff)
  show "bot \<le> r"
    by (simp add: less_eq_Rights_def bot_Rights_def NONE_def contains_iff_bits)
qed

end

lemma contains_le: "contains r s \<longleftrightarrow> s \<le> r"
  by (simp add: less_eq_Rights_def)

lemma union_sup: "union_rights r s = sup r s"
  by (simp add: sup_Rights_def)

lemma contains_union [simp]: "contains r (union_rights s t) \<longleftrightarrow> contains r s \<and> contains r t"
  by (auto simp: contains_le union_sup)

lemma contains_flag: "contains r (Rights (push_bit n 1)) \<longleftrightarrow> bit (bits r) n" if "n < 32"
  using that by (auto simp: contains_iff_bits bit_exp_iff)

section \<open>Capabilities\<close>

datatype CapType = Null | Port | Memory | Task | Thread | CNode | Irq

record Capability =
  cap_type :: CapType
  rights :: Rights
  object :: nat
  cdt_index :: nat

definition null_cap :: Capability where
  "null_cap = \<lparr>cap_type = Null, rights = NONE, object = 0, cdt_index = U32_MAX\<rparr>"

definition new_cap :: "CapType \<Rightarrow> Rights \<Rightarrow> nat \<Rightarrow> Capability" where
  "new_cap t r obj = \<lparr>cap_type = t, rights = r, object = obj, cdt_index = U32_MAX\<rparr>"

definition is_null :: "Capability \<Rightarrow> bool" where
  "is_null c \<longleftrightarrow> cap_type c = Null"

definition derive :: "Capability \<Rightarrow> Rights \<Rightarrow> Capability option" where
  "derive c new_rights =
     (if is_null c then None
      else if \<not> contains (rights c) new_rights then None
      else Some \<lparr>cap_type = cap_type c, rights = new_rights, object = object c, cdt_index = U32_MAX\<rparr>)"

text \<open>Deriving repeatedly, as a capability travels through a chain of tasks.\<close>

fun derive_chain :: "Capability \<Rightarrow> Rights list \<Rightarrow> Capability option" where
  "derive_chain c [] = Some c"
| "derive_chain c (r # rs) = (case derive c r of None \<Rightarrow> None | Some d \<Rightarrow> derive_chain d rs)"

lemma is_null_null_cap [simp]: "is_null null_cap"
  by (simp add: is_null_def null_cap_def)

lemma is_null_new_cap [simp]: "is_null (new_cap t r obj) \<longleftrightarrow> t = Null"
  by (simp add: is_null_def new_cap_def)

lemma derive_SomeD:
  assumes "derive c r = Some d"
  shows "\<not> is_null c" "rights d = r" "r \<le> rights c" "cap_type d = cap_type c" "object d = object c"
    "cdt_index d = U32_MAX" "\<not> is_null d"
  using assms by (auto simp: derive_def contains_le is_null_def split: if_splits)

lemma derive_iff:
  "(\<exists>d. derive c r = Some d) \<longleftrightarrow> \<not> is_null c \<and> r \<le> rights c"
  by (auto simp: derive_def contains_le)

lemma derive_chain_defined:
  "(\<exists>d. derive_chain c rs = Some d) \<longleftrightarrow>
     rs = [] \<or> (\<not> is_null c \<and> sorted_wrt (\<ge>) (rights c # rs))"
proof (induction rs arbitrary: c)
  case Nil
  then show ?case by simp
next
  case (Cons r rs)
  show ?case
  proof (cases "derive c r")
    case None
    then show ?thesis using derive_iff [of c r] by auto
  next
    case (Some d)
    note d = derive_SomeD [OF Some]
    have "(\<exists>e. derive_chain d rs = Some e) \<longleftrightarrow> rs = [] \<or> sorted_wrt (\<ge>) (r # rs)"
      using Cons.IH [of d] d by auto
    then show ?thesis using d Some by (auto intro: order_trans)
  qed
qed

text \<open>The Debug formatter of a capability; the object is printed as \<open>{:#x}\<close>.\<close>

definition hex_digit :: "nat \<Rightarrow> char" where
  "hex_digit d = ''0123456789abcdef'' ! d"

fun hex_digits :: "nat \<Rightarrow> string" where
  "hex_digits n = (if n < 16 then [hex_digit n] else hex_digits (n div 16) @ [hex_digit (n mod 16)])"

fun captype_name :: "CapType \<Rightarrow> string" where
  "captype_name Null = ''Null''"
| "captype_name Port = ''Port''"
| "captype_name Memory = ''Memory''"
| "captype_name Task = ''Task''"
| "captype_name Thread = ''Thread''"
| "captype_name CNode = ''CNode''"
| "captype_name Irq = ''Irq''"

definition fmt_capability :: "Capability \<Rightarrow> string" where
  "fmt_capability c =
     (if is_null c then ''Cap(Null)''
      else ''Cap('' @ captype_name (cap_type c) @ '', '' @ fmt_rights (rights c)
             @ '', obj=0x'' @ hex_digits (object c) @ '')'')"

declare hex_digits.simps [simp del]

lemma derive_chain_SomeD:
  assumes "derive_chain c rs = Some d"
  shows "rights d = last (rights c # rs) \<and> rights d \<le> rights c \<and> object d = object c \<and>
    cap_type d = cap_type c"
  using assms
proof (induction rs arbitrary: c)
  case Nil
  then show ?case by simp
next
  case (Cons r rs)
  then obtain e where e: "derive c r = Some e" and "derive_chain e rs = Some d"
    by (auto split: option.splits)
  with Cons.IH [of e] have IH: "rights d = last (rights e # rs)" "rights d \<le> rights e"
    "object d = object e" "cap_type d = cap_type e" by blast+
  note e = derive_SomeD [OF e]
  have "rights d \<le> rights c" using IH(2) e(2,3) by order
  moreover have "rights d = last (rights c # r # rs)" using IH(1) unfolding e(2) by simp
  ultimately show ?case using IH(3,4) e(4,5) by simp
qed

text \<open>
  C1 (attenuation). A chain of derivations of any length succeeds exactly when the source is not
  null and every step asks for rights contained in those of the step before; the capability it
  ends with names the same object, has the last requested rights, and these never exceed the
  rights of the source.
\<close>

theorem derive_chain_attenuates:
  assumes "rs \<noteq> []"
  shows "(\<not> is_null c \<and> sorted_wrt (\<ge>) (rights c # rs) \<longleftrightarrow> derive_chain c rs \<noteq> None) \<and>
    (\<forall>d. derive_chain c rs = Some d \<longrightarrow>
       rights d = last rs \<and> contains (rights c) (rights d) \<and>
       object d = object c \<and> cap_type d = cap_type c)"
proof (intro conjI allI impI)
  show "\<not> is_null c \<and> sorted_wrt (\<ge>) (rights c # rs) \<longleftrightarrow> derive_chain c rs \<noteq> None"
    using assms derive_chain_defined [of c rs] by (metis not_None_eq)
  fix d assume "derive_chain c rs = Some d"
  note * = derive_chain_SomeD [OF this]
  show "rights d = last rs" using * assms by simp
  show "contains (rights c) (rights d)" using * unfolding contains_le by blast
  show "object d = object c" "cap_type d = cap_type c" using * by simp_all
qed

lemma derive_chain_attenuates_witness:
  "derive_chain (new_cap Port (Rights 7) 9) [Rights 3, Rights 1] \<noteq> None \<and>
   derive_chain (new_cap Port (Rights 3) 9) [Rights 1, Rights 2] = None"
  using derive_chain_attenuates [of "[Rights 3, Rights 1]" "new_cap Port (Rights 7) 9"]
    derive_chain_attenuates [of "[Rights 1, Rights 2]" "new_cap Port (Rights 3) 9"]
  by (simp add: new_cap_def is_null_def less_eq_Rights_def contains_def)

end
