(* ===== verification/CapSet.thy ===== *)
theory CapSet
  imports Capability
begin

text \<open>
  \<open>kernel/src/cap/capset.rs\<close>: the per-task permission set that the IPC fast path reads. Its 128
  packed 64-bit entries are refined to a finite map from port locals to permission bytes; every
  operation is shown to be the corresponding map operation. Whether a port is active, which
  \<open>grant\<close> asks of \<open>ipc/port.rs\<close> when the set is full, is the parameter \<open>port_is_active_local\<close>.
\<close>

section \<open>Entries\<close>

definition PERM_SEND :: u8 where "PERM_SEND = 1"
definition PERM_RECV :: u8 where "PERM_RECV = 2"
definition PERM_MANAGE :: u8 where "PERM_MANAGE = 4"
definition INLINE_CAP :: nat where "INLINE_CAP = 128"

definition make_entry :: "u64 \<Rightarrow> u8 \<Rightarrow> u64" where
  "make_entry port_local perms = (push_bit 8 port_local OR ucast perms)"

definition entry_port :: "u64 \<Rightarrow> u64" where
  "entry_port e = drop_bit 8 e"

definition entry_perms :: "u64 \<Rightarrow> u8" where
  "entry_perms e = ucast (e AND 0xFF)"

section \<open>The set\<close>

record CapSet =
  entries :: "u64 list"

definition new_capset :: CapSet where
  "new_capset = \<lparr>entries = replicate INLINE_CAP 0\<rparr>"

definition is_entry_of :: "u64 \<Rightarrow> u64 \<Rightarrow> bool" where
  "is_entry_of port_local e \<longleftrightarrow> e \<noteq> 0 \<and> entry_port e = port_local"

definition has :: "CapSet \<Rightarrow> u64 \<Rightarrow> u8 \<Rightarrow> bool" where
  "has cs port_local needed_perms =
     (case first_idx (is_entry_of port_local) (entries cs) of
        None \<Rightarrow> False
      | Some i \<Rightarrow> (entry_perms (entries cs ! i) AND needed_perms) = needed_perms)"

definition store_entry :: "CapSet \<Rightarrow> nat \<Rightarrow> u64 \<Rightarrow> CapSet" where
  "store_entry cs i e = cs\<lparr>entries := (entries cs)[i := e]\<rparr>"

definition is_stale :: "(u64 \<Rightarrow> bool) \<Rightarrow> u64 \<Rightarrow> bool" where
  "is_stale port_is_active_local e \<longleftrightarrow> e \<noteq> 0 \<and> \<not> port_is_active_local (entry_port e)"

definition evict_stale :: "(u64 \<Rightarrow> bool) \<Rightarrow> CapSet \<Rightarrow> bool \<times> CapSet" where
  "evict_stale port_is_active_local cs =
     (list_ex (is_stale port_is_active_local) (entries cs),
      cs\<lparr>entries := map (\<lambda>e. if is_stale port_is_active_local e then 0 else e) (entries cs)\<rparr>)"

definition grant :: "(u64 \<Rightarrow> bool) \<Rightarrow> CapSet \<Rightarrow> u64 \<Rightarrow> u8 \<Rightarrow> bool \<times> CapSet" where
  "grant port_is_active_local cs port_local perms =
     (case first_idx (is_entry_of port_local) (entries cs) of
        Some i \<Rightarrow>
          let new_perms = entry_perms (entries cs ! i) OR perms
          in (True, store_entry cs i (make_entry port_local new_perms))
      | None \<Rightarrow>
          (case first_idx (\<lambda>e. e = 0) (entries cs) of
             Some i \<Rightarrow> (True, store_entry cs i (make_entry port_local perms))
           | None \<Rightarrow>
               let (evicted, cs') = evict_stale port_is_active_local cs
               in if evicted
                  then (case first_idx (\<lambda>e. e = 0) (entries cs') of
                          Some i \<Rightarrow> (True, store_entry cs' i (make_entry port_local perms))
                        | None \<Rightarrow> (False, cs'))
                  else (False, cs')))"

definition remove_entry :: "CapSet \<Rightarrow> u64 \<Rightarrow> CapSet" where
  "remove_entry cs port_local =
     (case first_idx (is_entry_of port_local) (entries cs) of
        Some i \<Rightarrow> store_entry cs i 0
      | None \<Rightarrow> cs)"

definition reset :: "CapSet \<Rightarrow> CapSet" where
  "reset cs = cs\<lparr>entries := map (\<lambda>_. 0) (entries cs)\<rparr>"

definition has_recv :: "CapSet \<Rightarrow> u64 \<Rightarrow> bool" where
  "has_recv cs port_local = has cs port_local PERM_RECV"

definition copy_from :: "CapSet \<Rightarrow> CapSet \<Rightarrow> CapSet" where
  "copy_from cs other = cs\<lparr>entries := entries other\<rparr>"

section \<open>Packing\<close>

lemma ff_mask: "(0xFF :: u64) = mask 8"
  by (simp add: mask_eq_exp_minus_1)

lemma entry_perms_make [simp]: "entry_perms (make_entry p q) = q"
  by (rule bit_word_eqI) (auto simp: entry_perms_def make_entry_def ff_mask bit_simps)

lemma entry_port_make [simp]:
  assumes "p < 2 ^ 56"
  shows "entry_port (make_entry p q) = p"
  using word64_bit_bound [OF assms]
  by (intro bit_word_eqI) (auto simp: entry_port_def make_entry_def bit_simps dest: bit_imp_le_length)

lemma make_entry_split: "make_entry (entry_port e) (entry_perms e) = e"
proof (rule bit_word_eqI)
  fix n assume "n < LENGTH(64)"
  then show "bit (make_entry (entry_port e) (entry_perms e)) n = bit e n"
    by (cases "n < 8") (auto simp: entry_port_def entry_perms_def make_entry_def ff_mask bit_simps)
qed

lemma make_entry_eq_0:
  assumes "p < 2 ^ 56"
  shows "make_entry p q = 0 \<longleftrightarrow> p = 0 \<and> q = 0"
proof
  assume "make_entry p q = 0"
  with entry_port_make [OF assms, of q] entry_perms_make [of p q] show "p = 0 \<and> q = 0"
    by (simp add: entry_port_def entry_perms_def)
qed (simp add: make_entry_def)

section \<open>Refinement to a permission map\<close>

definition capset_map :: "CapSet \<Rightarrow> u64 \<Rightarrow> u8 option" where
  "capset_map cs p = map_option (\<lambda>i. entry_perms (entries cs ! i)) (first_idx (is_entry_of p) (entries cs))"

definition wf_capset :: "CapSet \<Rightarrow> bool" where
  "wf_capset cs \<longleftrightarrow> length (entries cs) = INLINE_CAP \<and>
     (\<forall>i<INLINE_CAP. \<forall>j<INLINE_CAP.
        entries cs ! i \<noteq> 0 \<and> entries cs ! j \<noteq> 0 \<and>
        entry_port (entries cs ! i) = entry_port (entries cs ! j) \<longrightarrow> i = j)"

lemma wf_capset_iff:
  "wf_capset cs \<longleftrightarrow> length (entries cs) = INLINE_CAP \<and>
     (\<forall>i<INLINE_CAP. \<forall>j<INLINE_CAP. \<forall>p.
        is_entry_of p (entries cs ! i) \<and> is_entry_of p (entries cs ! j) \<longrightarrow> i = j)"
  unfolding wf_capset_def by (auto simp: is_entry_of_def)

lemma wf_capset_unique:
  "wf_capset cs \<Longrightarrow> i < INLINE_CAP \<Longrightarrow> j < INLINE_CAP \<Longrightarrow> is_entry_of p (entries cs ! i) \<Longrightarrow>
   is_entry_of p (entries cs ! j) \<Longrightarrow> i = j"
  unfolding wf_capset_iff by blast

lemma length_entries: "wf_capset cs \<Longrightarrow> length (entries cs) = INLINE_CAP"
  by (simp add: wf_capset_def)

lemma capset_map_Some:
  assumes "wf_capset cs"
  shows "capset_map cs p = Some q \<longleftrightarrow>
    (\<exists>i<INLINE_CAP. is_entry_of p (entries cs ! i) \<and> entry_perms (entries cs ! i) = q)"
proof
  assume "capset_map cs p = Some q"
  then obtain i where "first_idx (is_entry_of p) (entries cs) = Some i" "q = entry_perms (entries cs ! i)"
    by (auto simp: capset_map_def)
  then show "\<exists>i<INLINE_CAP. is_entry_of p (entries cs ! i) \<and> entry_perms (entries cs ! i) = q"
    using assms first_idx_SomeD(1,2) [of "is_entry_of p" "entries cs" i] by (auto simp: wf_capset_def)
next
  assume "\<exists>i<INLINE_CAP. is_entry_of p (entries cs ! i) \<and> entry_perms (entries cs ! i) = q"
  then obtain i where i: "i < INLINE_CAP" "is_entry_of p (entries cs ! i)" "entry_perms (entries cs ! i) = q"
    by blast
  have "first_idx (is_entry_of p) (entries cs) = Some i"
  proof (rule first_idx_unique)
    show "i < length (entries cs)" using assms i(1) by (simp add: wf_capset_def)
    show "j = i" if "j < length (entries cs)" "is_entry_of p (entries cs ! j)" for j
      using wf_capset_unique [OF assms] i(1,2) that length_entries [OF assms] by simp
  qed (rule i(2))
  with i show "capset_map cs p = Some q" by (simp add: capset_map_def)
qed

lemma capset_map_None:
  "capset_map cs p = None \<longleftrightarrow> (\<forall>e\<in>set (entries cs). \<not> is_entry_of p e)"
  by (simp add: capset_map_def first_idx_None)

lemma has_map:
  "has cs p n \<longleftrightarrow> (\<exists>q. capset_map cs p = Some q \<and> (q AND n) = n)"
  by (auto simp: has_def capset_map_def split: option.splits)

lemma nth_store:
  assumes "wf_capset cs" "i < INLINE_CAP" "j < INLINE_CAP"
  shows "entries (store_entry cs i e) ! j = (if j = i then e else entries cs ! j)"
  using assms by (simp add: store_entry_def nth_list_update length_entries)

lemma wf_store:
  assumes wf: "wf_capset cs" and i: "i < INLINE_CAP"
    and fresh: "\<And>j p. j < INLINE_CAP \<Longrightarrow> j \<noteq> i \<Longrightarrow> is_entry_of p e \<Longrightarrow> \<not> is_entry_of p (entries cs ! j)"
  shows "wf_capset (store_entry cs i e)"
  unfolding wf_capset_iff
proof (intro conjI allI impI)
  show "length (entries (store_entry cs i e)) = INLINE_CAP"
    using wf by (simp add: store_entry_def length_entries)
  fix j k p assume jk: "j < INLINE_CAP" "k < INLINE_CAP"
    and "is_entry_of p (entries (store_entry cs i e) ! j) \<and> is_entry_of p (entries (store_entry cs i e) ! k)"
  then show "j = k"
    using fresh [OF jk(1), of p] fresh [OF jk(2), of p] wf_capset_unique [OF wf jk, of p]
    by (auto simp: nth_store [OF wf i] split: if_splits)
qed

lemma map_store:
  assumes wf: "wf_capset cs" and i: "i < INLINE_CAP"
    and fresh: "\<And>j p. j < INLINE_CAP \<Longrightarrow> j \<noteq> i \<Longrightarrow> is_entry_of p e \<Longrightarrow> \<not> is_entry_of p (entries cs ! j)"
  shows "capset_map (store_entry cs i e) p =
    (if is_entry_of p e then Some (entry_perms e)
     else if is_entry_of p (entries cs ! i) then None else capset_map cs p)" (is "?l = ?r")
proof -
  have wf': "wf_capset (store_entry cs i e)" using assms by (rule wf_store)
  note nth = nth_store [OF wf i]
  have "?l = Some q \<longleftrightarrow> ?r = Some q" for q
  proof (cases "is_entry_of p e \<or> is_entry_of p (entries cs ! i)")
    case True
    have *: "is_entry_of p (entries (store_entry cs i e) ! j) \<longleftrightarrow> j = i \<and> is_entry_of p e"
      if j: "j < INLINE_CAP" for j
      using True fresh [OF j, of p] wf_capset_unique [OF wf j i, of p] by (auto simp: nth [OF j])
    show ?thesis
      unfolding capset_map_Some [OF wf'] using True i nth [OF i] * by auto
  next
    case False
    have *: "is_entry_of p (entries (store_entry cs i e) ! j) \<longleftrightarrow> is_entry_of p (entries cs ! j)"
      if "j < INLINE_CAP" for j
      using False by (auto simp: nth [OF that])
    show ?thesis
      using False * nth by (auto simp: capset_map_Some [OF wf] capset_map_Some [OF wf'])
  qed
  then show ?thesis by (metis not_None_eq)
qed

section \<open>The operations as map operations\<close>

lemma wf_new_capset [simp]: "wf_capset new_capset"
  by (simp add: wf_capset_def new_capset_def)

lemma map_new_capset [simp]: "capset_map new_capset = Map.empty"
  by (rule ext) (simp add: capset_map_None new_capset_def is_entry_of_def)

lemma is_entry_of_make:
  assumes "p < 2 ^ 56" "p \<noteq> 0 \<or> q \<noteq> 0"
  shows "is_entry_of p' (make_entry p q) \<longleftrightarrow> p' = p"
  using assms by (auto simp: is_entry_of_def make_entry_eq_0)

lemma store_at_match:
  assumes wf: "wf_capset cs" and p: "p < 2 ^ 56"
    and i: "first_idx (is_entry_of p) (entries cs) = Some i"
  shows "wf_capset (store_entry cs i (make_entry p (entry_perms (entries cs ! i) OR q)))"
    and "capset_map (store_entry cs i (make_entry p (entry_perms (entries cs ! i) OR q))) =
      (capset_map cs)(p \<mapsto> the (capset_map cs p) OR q)"
proof -
  note i' = first_idx_SomeD(1,2) [OF i, unfolded length_entries [OF wf]]
  have nz: "p \<noteq> 0 \<or> entry_perms (entries cs ! i) \<noteq> 0"
    using i'(2) make_entry_split [of "entries cs ! i"] by (auto simp: is_entry_of_def make_entry_def)
  let ?q = "entry_perms (entries cs ! i) OR q"
  have nz': "p \<noteq> 0 \<or> ?q \<noteq> 0"
    using nz by (metis or_eq_0_iff)
  have fresh: "\<not> is_entry_of p' (entries cs ! j)"
    if "j < INLINE_CAP" "j \<noteq> i" "is_entry_of p' (make_entry p ?q)" for j p'
    using that wf_capset_unique [OF wf that(1) i'(1), of p] i'(2) by (auto simp: is_entry_of_make [OF p nz'])
  show "wf_capset (store_entry cs i (make_entry p ?q))"
    by (rule wf_store [OF wf i'(1) fresh])
  show "capset_map (store_entry cs i (make_entry p ?q)) = (capset_map cs)(p \<mapsto> the (capset_map cs p) OR q)"
  proof
    fix p'
    have "is_entry_of p' (entries cs ! i) \<longleftrightarrow> p' = p" using i'(2) by (auto simp: is_entry_of_def)
    moreover have "capset_map cs p = Some (entry_perms (entries cs ! i))" using i by (simp add: capset_map_def)
    ultimately show "capset_map (store_entry cs i (make_entry p ?q)) p' =
        ((capset_map cs)(p \<mapsto> the (capset_map cs p) OR q)) p'"
      using map_store [OF wf i'(1), of "make_entry p ?q" p'] fresh by (simp add: is_entry_of_make [OF p nz'])
  qed
qed

lemma store_at_empty:
  assumes wf: "wf_capset cs" and p: "p < 2 ^ 56" "p \<noteq> 0 \<or> q \<noteq> 0" and new: "capset_map cs p = None"
    and i: "first_idx (\<lambda>e. e = 0) (entries cs) = Some i"
  shows "wf_capset (store_entry cs i (make_entry p q))"
    and "capset_map (store_entry cs i (make_entry p q)) = (capset_map cs)(p \<mapsto> q)"
proof -
  note i' = first_idx_SomeD(1,2) [OF i, unfolded length_entries [OF wf]]
  have fresh: "\<not> is_entry_of p' (entries cs ! j)"
    if "j < INLINE_CAP" "j \<noteq> i" "is_entry_of p' (make_entry p q)" for j p'
    using that new by (auto simp: is_entry_of_make [OF p] capset_map_None length_entries [OF wf])
  show "wf_capset (store_entry cs i (make_entry p q))"
    by (rule wf_store [OF wf i'(1) fresh])
  show "capset_map (store_entry cs i (make_entry p q)) = (capset_map cs)(p \<mapsto> q)"
  proof
    fix p'
    have "\<not> is_entry_of p' (entries cs ! i)" using i'(2) by (simp add: is_entry_of_def)
    then show "capset_map (store_entry cs i (make_entry p q)) p' = ((capset_map cs)(p \<mapsto> q)) p'"
      using map_store [OF wf i'(1), of "make_entry p q" p'] fresh by (simp add: is_entry_of_make [OF p])
  qed
qed

lemma evict_stale_spec:
  assumes wf: "wf_capset cs" and ev: "evict_stale act cs = (ev, cs')"
  shows "wf_capset cs'" "capset_map cs' = capset_map cs |` {p. act p}"
    and "ev \<longleftrightarrow> (\<exists>p. p \<in> dom (capset_map cs) \<and> \<not> act p)"
    and "ev \<longleftrightarrow> (\<exists>e\<in>set (entries cs). e \<noteq> 0 \<and> \<not> act (entry_port e))"
    and "ev \<Longrightarrow> 0 \<in> set (entries cs')" "\<not> ev \<Longrightarrow> cs' = cs"
proof -
  have cs': "cs' = cs\<lparr>entries := map (\<lambda>e. if is_stale act e then 0 else e) (entries cs)\<rparr>"
    and ev': "ev \<longleftrightarrow> list_ex (is_stale act) (entries cs)"
    using ev by (auto simp: evict_stale_def)
  have nth: "is_entry_of p (entries cs' ! j) \<longleftrightarrow> act p \<and> is_entry_of p (entries cs ! j)"
    "is_entry_of p (entries cs' ! j) \<Longrightarrow> entries cs' ! j = entries cs ! j"
    if "j < INLINE_CAP" for j p
    using that by (auto simp: cs' length_entries [OF wf] is_entry_of_def is_stale_def split: if_splits)
  show wf': "wf_capset cs'"
    using nth(1) wf_capset_unique [OF wf] length_entries [OF wf]
    unfolding wf_capset_iff by (auto simp: cs')
  have "capset_map cs' p = Some q \<longleftrightarrow> (capset_map cs |` {p. act p}) p = Some q" for p q
    unfolding capset_map_Some [OF wf'] restrict_map_def
    using nth by (auto simp: capset_map_Some [OF wf])
  then show "capset_map cs' = capset_map cs |` {p. act p}"
    by (intro ext) (metis not_None_eq)
  show ex: "ev \<longleftrightarrow> (\<exists>e\<in>set (entries cs). e \<noteq> 0 \<and> \<not> act (entry_port e))"
    by (auto simp: ev' list_ex_iff is_stale_def)
  show "ev \<longleftrightarrow> (\<exists>p. p \<in> dom (capset_map cs) \<and> \<not> act p)"
    unfolding ex dom_def using capset_map_None [of cs] by (auto simp: is_entry_of_def)
  show "ev \<Longrightarrow> 0 \<in> set (entries cs')" by (force simp: cs' ev' list_ex_iff)
  show "\<not> ev \<Longrightarrow> cs' = cs"
    by (cases cs) (auto simp: cs' ev' list_ex_iff intro!: map_idI)
qed

lemma grant_spec:
  assumes wf: "wf_capset cs" and p: "p < 2 ^ 56" "p \<noteq> 0 \<or> q \<noteq> 0"
    and g: "grant act cs p q = (ok, cs')"
  shows "wf_capset cs'"
    and "ok \<longleftrightarrow> p \<in> dom (capset_map cs) \<or> 0 \<in> set (entries cs) \<or> (\<exists>p'\<in>dom (capset_map cs). \<not> act p')"
    and "capset_map cs' =
      (if p \<in> dom (capset_map cs) then (capset_map cs)(p \<mapsto> the (capset_map cs p) OR q)
       else if 0 \<in> set (entries cs) then (capset_map cs)(p \<mapsto> q)
       else if ok then (capset_map cs |` {p'. act p'})(p \<mapsto> q)
       else capset_map cs)"
proof -
  obtain ev cs1 where ev: "evict_stale act cs = (ev, cs1)" by fastforce
  note evs = evict_stale_spec [OF wf ev]
  have "wf_capset cs' \<and>
    (ok \<longleftrightarrow> p \<in> dom (capset_map cs) \<or> 0 \<in> set (entries cs) \<or> (\<exists>p'\<in>dom (capset_map cs). \<not> act p')) \<and>
    capset_map cs' =
      (if p \<in> dom (capset_map cs) then (capset_map cs)(p \<mapsto> the (capset_map cs p) OR q)
       else if 0 \<in> set (entries cs) then (capset_map cs)(p \<mapsto> q)
       else if ok then (capset_map cs |` {p'. act p'})(p \<mapsto> q)
       else capset_map cs)"
  proof (cases "first_idx (is_entry_of p) (entries cs)")
    case (Some i)
    then have "p \<in> dom (capset_map cs)" by (simp add: capset_map_def domIff)
    with Some g store_at_match [OF wf p(1) Some, of q] show ?thesis
      by (simp add: grant_def Let_def del: fun_upd_apply)
  next
    case None
    then have new: "capset_map cs p = None" by (simp add: capset_map_def)
    then have nd: "p \<notin> dom (capset_map cs)" by auto
    show ?thesis
    proof (cases "first_idx (\<lambda>e. e = 0) (entries cs)")
      case (Some i)
      then have "0 \<in> set (entries cs)" using first_idx_SomeD(1,2) [OF Some] by (metis nth_mem)
      with None Some nd g store_at_empty [OF wf p new Some] show ?thesis
        by (simp add: grant_def del: fun_upd_apply)
    next
      case full: None
      then have nz: "0 \<notin> set (entries cs)" by (auto simp: first_idx_None)
      have new1: "capset_map cs1 p = None" using new evs(2) by (simp add: restrict_map_def)
      show ?thesis
      proof (cases ev)
        case True
        with evs(5) obtain i where i: "first_idx (\<lambda>e. e = 0) (entries cs1) = Some i"
          using first_idx_ex [of 0 "entries cs1" "\<lambda>e. e = 0"] by auto
        with True None full ev g have "ok" "cs' = store_entry cs1 i (make_entry p q)"
          by (simp_all add: grant_def)
        then show ?thesis using True nd nz store_at_empty [OF evs(1) p new1 i] evs(2,3) by auto
      next
        case False
        with None full ev g have "\<not> ok" "cs' = cs" by (simp_all add: grant_def evs(6))
        then show ?thesis using False nd nz wf evs(3) by auto
      qed
    qed
  qed
  then show "wf_capset cs'"
    "ok \<longleftrightarrow> p \<in> dom (capset_map cs) \<or> 0 \<in> set (entries cs) \<or> (\<exists>p'\<in>dom (capset_map cs). \<not> act p')"
    "capset_map cs' =
      (if p \<in> dom (capset_map cs) then (capset_map cs)(p \<mapsto> the (capset_map cs p) OR q)
       else if 0 \<in> set (entries cs) then (capset_map cs)(p \<mapsto> q)
       else if ok then (capset_map cs |` {p'. act p'})(p \<mapsto> q)
       else capset_map cs)" by blast+
qed

lemma remove_spec:
  assumes wf: "wf_capset cs"
  shows "wf_capset (remove_entry cs p)" "capset_map (remove_entry cs p) = (capset_map cs)(p := None)"
proof -
  have "wf_capset (remove_entry cs p) \<and> capset_map (remove_entry cs p) = (capset_map cs)(p := None)"
  proof (cases "first_idx (is_entry_of p) (entries cs)")
    case None
    then have "capset_map cs p = None" by (simp add: capset_map_def)
    with None wf show ?thesis by (auto simp: remove_entry_def fun_eq_iff)
  next
    case (Some i)
    note i = first_idx_SomeD(1,2) [OF Some, unfolded length_entries [OF wf]]
    have fresh: "\<not> is_entry_of p' (entries cs ! j)"
      if "j < INLINE_CAP" "j \<noteq> i" "is_entry_of p' 0" for j p'
      using that by (simp add: is_entry_of_def)
    have iff: "is_entry_of p' (entries cs ! i) \<longleftrightarrow> p' = p" for p'
      using i(2) by (auto simp: is_entry_of_def)
    have "\<not> is_entry_of p' 0" for p' by (simp add: is_entry_of_def)
    then show ?thesis
      using wf_store [OF wf i(1), of 0] map_store [OF wf i(1), of 0] fresh
      by (auto simp: remove_entry_def Some fun_eq_iff iff)
  qed
  then show "wf_capset (remove_entry cs p)" "capset_map (remove_entry cs p) = (capset_map cs)(p := None)"
    by simp_all
qed

lemma reset_spec: "wf_capset cs \<Longrightarrow> reset cs = new_capset"
  by (cases cs) (auto simp: reset_def new_capset_def map_replicate_const dest: length_entries)

lemma copy_from_spec: "copy_from cs other = other"
  by (cases cs; cases other) (simp add: copy_from_def)

lemma room_iff:
  assumes wf: "wf_capset cs"
  shows "0 \<in> set (entries cs) \<longleftrightarrow> card (dom (capset_map cs)) < INLINE_CAP"
proof -
  let ?I = "{i. i < INLINE_CAP \<and> entries cs ! i \<noteq> 0}"
  have "dom (capset_map cs) = (\<lambda>i. entry_port (entries cs ! i)) ` ?I"
    by (auto simp: dom_def capset_map_Some [OF wf] is_entry_of_def image_iff)
  moreover have "inj_on (\<lambda>i. entry_port (entries cs ! i)) ?I"
    using wf by (auto simp: inj_on_def wf_capset_def)
  ultimately have card: "card (dom (capset_map cs)) = card ?I" by (simp add: card_image)
  have sub: "?I \<subseteq> {..<INLINE_CAP}" by auto
  have le: "card ?I \<le> INLINE_CAP" using card_mono [OF finite_lessThan sub] by simp
  have "(card ?I = card {..<INLINE_CAP}) = (?I = {..<INLINE_CAP})"
    by (rule iffI, erule card_subset_eq [OF finite_lessThan sub], erule arg_cong)
  moreover have "(?I = {..<INLINE_CAP}) = (\<forall>i<INLINE_CAP. entries cs ! i \<noteq> 0)" by blast
  moreover have "(\<forall>i<INLINE_CAP. entries cs ! i \<noteq> 0) = (0 \<notin> set (entries cs))"
    using length_entries [OF wf] by (metis in_set_conv_nth)
  ultimately have "(card ?I = INLINE_CAP) = (0 \<notin> set (entries cs))" by (simp only: card_lessThan)
  with le show ?thesis unfolding card by (cases "0 \<in> set (entries cs)") simp_all
qed

section \<open>The contract of a permission set\<close>

text \<open>
  What the capability system relies on: a check reads the permission map, a grant adds at most the
  requested bits for the requested port (it may drop entries of other ports to make room), a remove
  deletes one port. The bound on what a history of operations can have granted is proved from these
  laws alone. \<open>'e\<close> is the environment a grant consults (which ports are active at that moment).
\<close>

datatype ('e, 'p) perm_op = Grant 'e 'p u8 | Remove 'p

fun granted_since :: "'p \<Rightarrow> u8 \<Rightarrow> ('e, 'p) perm_op list \<Rightarrow> u8" where
  "granted_since p acc [] = acc"
| "granted_since p acc (Grant e p' q # ops) = granted_since p (if p' = p then acc OR q else acc) ops"
| "granted_since p acc (Remove p' # ops) = granted_since p (if p' = p then 0 else acc) ops"

fun well_formed_op :: "('p \<Rightarrow> u8 \<Rightarrow> bool) \<Rightarrow> ('e, 'p) perm_op \<Rightarrow> bool" where
  "well_formed_op valid (Grant e p q) = valid p q"
| "well_formed_op valid (Remove p) = True"

locale permission_set =
  fixes inv :: "'s \<Rightarrow> bool"
    and perms_of :: "'s \<Rightarrow> 'p \<Rightarrow> u8 option"
    and valid :: "'p \<Rightarrow> u8 \<Rightarrow> bool"
    and check_perms :: "'s \<Rightarrow> 'p \<Rightarrow> u8 \<Rightarrow> bool"
    and do_grant :: "'e \<Rightarrow> 's \<Rightarrow> 'p \<Rightarrow> u8 \<Rightarrow> bool \<times> 's"
    and do_remove :: "'s \<Rightarrow> 'p \<Rightarrow> 's"
  assumes check_iff: "inv s \<Longrightarrow> check_perms s p n \<longleftrightarrow> (\<exists>q. perms_of s p = Some q \<and> (q AND n) = n)"
    and grant_inv: "inv s \<Longrightarrow> valid p q \<Longrightarrow> inv (snd (do_grant e s p q))"
    and grant_other: "inv s \<Longrightarrow> valid p q \<Longrightarrow> p' \<noteq> p \<Longrightarrow> perms_of (snd (do_grant e s p q)) p' = Some r \<Longrightarrow>
      perms_of s p' = Some r"
    and grant_same: "inv s \<Longrightarrow> valid p q \<Longrightarrow>
      perms_of (snd (do_grant e s p q)) p =
        (if fst (do_grant e s p q)
         then Some (case perms_of s p of None \<Rightarrow> q | Some r \<Rightarrow> r OR q) else None)"
    and remove_inv: "inv s \<Longrightarrow> inv (do_remove s p)"
    and remove_perms: "inv s \<Longrightarrow> perms_of (do_remove s p) = (perms_of s)(p := None)"
begin

definition perm_step :: "('e, 'p) perm_op \<Rightarrow> 's \<Rightarrow> 's" where
  "perm_step op s = (case op of Grant e p q \<Rightarrow> snd (do_grant e s p q) | Remove p \<Rightarrow> do_remove s p)"

lemma check_after_grant:
  assumes "inv s" "valid p q" "do_grant e s p q = (True, s')"
  shows "check_perms s' p q"
proof -
  have "inv s'" using grant_inv [OF assms(1,2), of e] assms(3) by simp
  moreover have "perms_of s' p = Some (case perms_of s p of None \<Rightarrow> q | Some r \<Rightarrow> r OR q)"
    using grant_same [OF assms(1,2), of e] assms(3) by simp
  ultimately show ?thesis
    by (auto simp: check_iff intro!: bit_word_eqI simp: bit_and_iff bit_or_iff split: option.splits)
qed

lemma no_check_after_remove: "inv s \<Longrightarrow> \<not> check_perms (do_remove s p) p n"
  by (simp add: check_iff remove_inv remove_perms)

lemma perm_step_inv: "inv s \<Longrightarrow> well_formed_op valid op \<Longrightarrow> inv (perm_step op s)"
  by (cases op) (simp_all add: perm_step_def grant_inv remove_inv)

lemma perm_step_bound:
  assumes "inv s" "well_formed_op valid op" "\<forall>r. perms_of s p = Some r \<longrightarrow> (r AND acc) = r"
    and "perms_of (perm_step op s) p = Some r"
  shows "(r AND granted_since p acc [op]) = r"
proof (cases op)
  case (Grant e p' q)
  show ?thesis
  proof (cases "p' = p")
    case True
    with assms Grant grant_same [of s p q e]
    have "r = (case perms_of s p of None \<Rightarrow> q | Some r \<Rightarrow> r OR q)"
      by (auto simp: perm_step_def split: if_splits)
    then show ?thesis using assms(3) Grant True
      by (auto split: option.splits simp: bit_eq_iff bit_and_iff bit_or_iff)
  next
    case False
    with assms Grant grant_other [of s p' q p e r] show ?thesis by (simp add: perm_step_def)
  qed
next
  case (Remove p')
  with assms show ?thesis by (auto simp: perm_step_def remove_perms split: if_splits)
qed

lemma granted_since_append: "granted_since p acc (xs @ ys) = granted_since p (granted_since p acc xs) ys"
  by (induction p acc xs rule: granted_since.induct) simp_all

lemma history_bound:
  assumes "inv s" "list_all (well_formed_op valid) ops" "\<forall>r. perms_of s p = Some r \<longrightarrow> (r AND acc) = r"
  shows "inv (fold perm_step ops s)"
    and "perms_of (fold perm_step ops s) p = Some r \<Longrightarrow> (r AND granted_since p acc ops) = r"
proof -
  have "inv (fold perm_step ops s) \<and>
    (\<forall>r. perms_of (fold perm_step ops s) p = Some r \<longrightarrow> (r AND granted_since p acc ops) = r)"
    using assms
  proof (induction ops arbitrary: s acc)
    case Nil
    then show ?case by simp
  next
    case (Cons op ops)
    have "granted_since p acc (op # ops) = granted_since p (granted_since p acc [op]) ops"
      using granted_since_append [of p acc "[op]" ops] by simp
    moreover have "\<forall>r. perms_of (perm_step op s) p = Some r \<longrightarrow> (r AND granted_since p acc [op]) = r"
      using perm_step_bound [of s op p acc] Cons.prems by auto
    ultimately show ?case
      using Cons.IH [of "perm_step op s" "granted_since p acc [op]"] Cons.prems perm_step_inv [of s op]
      by simp
  qed
  then show "inv (fold perm_step ops s)"
    and "perms_of (fold perm_step ops s) p = Some r \<Longrightarrow> (r AND granted_since p acc ops) = r" by auto
qed

lemma history_check:
  assumes "inv s" "list_all (well_formed_op valid) ops" "perms_of s p = None"
    and "check_perms (fold perm_step ops s) p n"
  shows "(n AND granted_since p 0 ops) = n"
proof -
  obtain r where r: "perms_of (fold perm_step ops s) p = Some r" "(r AND n) = n"
    using check_iff history_bound(1) [OF assms(1,2), of p] assms(3,4) by auto
  then have "(r AND granted_since p 0 ops) = r"
    using history_bound(2) [OF assms(1,2), of p 0 r] assms(3) by simp
  with r(2) show ?thesis by (metis and.assoc and.commute)
qed

end

definition valid_entry :: "u64 \<Rightarrow> u8 \<Rightarrow> bool" where
  "valid_entry p q \<longleftrightarrow> p < 2 ^ 56 \<and> (p \<noteq> 0 \<or> q \<noteq> 0)"

interpretation cs: permission_set wf_capset capset_map valid_entry has grant remove_entry
proof
  fix s p p' q e r and n :: u8
  assume wf: "wf_capset s"
  show "has s p n \<longleftrightarrow> (\<exists>q. capset_map s p = Some q \<and> (q AND n) = n)" by (rule has_map)
  show "wf_capset (remove_entry s p)" "capset_map (remove_entry s p) = (capset_map s)(p := None)"
    by (fact remove_spec [OF wf])+
  assume "valid_entry p q"
  then have v: "p < 2 ^ 56" "p \<noteq> 0 \<or> q \<noteq> 0" by (auto simp: valid_entry_def)
  note g = grant_spec [OF wf v prod.collapse [symmetric], of e]
  show "wf_capset (snd (grant e s p q))" by (fact g(1))
  show "capset_map s p' = Some r" if "p' \<noteq> p" "capset_map (snd (grant e s p q)) p' = Some r"
    using that unfolding g(3) by (auto split: if_splits simp: restrict_map_def)
  show "capset_map (snd (grant e s p q)) p =
      (if fst (grant e s p q) then Some (case capset_map s p of None \<Rightarrow> q | Some r \<Rightarrow> r OR q) else None)"
    unfolding g(3) using g(2) by (auto split: option.splits)
qed

section \<open>Properties\<close>

text \<open>
  C7 (grant refines map update, on every branch). For a representable port and permission byte,
  \<open>grant\<close> keeps the set well formed and succeeds exactly when the port already has an entry, fewer
  than 128 ports are present, or some present port is dead; on success the map gains exactly the
  requested bits, with the dead ports evicted only when the set was full; on failure nothing changes.
\<close>

theorem grant_refines:
  assumes "wf_capset cs" "valid_entry p q" "grant act cs p q = (ok, cs')"
  shows "wf_capset cs' \<and>
    (ok \<longleftrightarrow> p \<in> dom (capset_map cs) \<or> card (dom (capset_map cs)) < INLINE_CAP
        \<or> (\<exists>p'\<in>dom (capset_map cs). \<not> act p')) \<and>
    capset_map cs' =
      (if p \<in> dom (capset_map cs) then (capset_map cs)(p \<mapsto> the (capset_map cs p) OR q)
       else if card (dom (capset_map cs)) < INLINE_CAP then (capset_map cs)(p \<mapsto> q)
       else if ok then (capset_map cs |` {p'. act p'})(p \<mapsto> q)
       else capset_map cs)"
  using grant_spec [OF assms(1) _ _ assms(3)] assms(2)
  unfolding room_iff [OF assms(1)] valid_entry_def by blast

lemma grant_refines_witness:
  "capset_map (snd (grant (\<lambda>_. True) new_capset 5 3)) = [5 \<mapsto> 3]"
  using grant_refines [of new_capset 5 3 "\<lambda>_. True" "fst (grant (\<lambda>_. True) new_capset 5 3)"
      "snd (grant (\<lambda>_. True) new_capset 5 3)"]
  by (simp add: valid_entry_def INLINE_CAP_def)

text \<open>
  C25 (no permission without a grant). Start from the empty set and run any sequence of grants (each
  under its own notion of which ports are active) and removals: whatever the fast-path check \<open>has\<close>
  then admits for a port is contained in the union of the permissions granted for that port since
  its last removal.
\<close>

theorem has_only_granted:
  assumes "list_all (well_formed_op valid_entry) ops"
    and "has (fold cs.perm_step ops new_capset) p n"
  shows "(n AND granted_since p 0 ops) = n"
  using cs.history_check [OF _ assms(1) _ assms(2)] by simp

lemma has_only_granted_witness:
  "(1 AND granted_since 5 0 [Grant (\<lambda>_. True) 5 1, Grant (\<lambda>_. True) 6 2 :: (u64 \<Rightarrow> bool, u64) perm_op]) = (1 :: u8)"
proof (rule has_only_granted)
  show "has (fold cs.perm_step [Grant (\<lambda>_. True) 5 1, Grant (\<lambda>_. True) 6 2] new_capset) 5 1"
    unfolding has_map
    using grant_spec(1,3) [of new_capset 5 1 "\<lambda>_. True", OF _ _ _ prod.collapse [symmetric]]
    by (auto simp: cs.perm_step_def grant_spec(3) [OF _ _ _ prod.collapse [symmetric]] room_iff INLINE_CAP_def)
qed (simp add: valid_entry_def)

end
