(* ===== verification/CNode.thy ===== *)
theory CNode
  imports Capability
begin

text \<open>
  \<open>kernel/src/cap/cnode.rs\<close>: a task's capability slots, one lazily allocated page. The slot pointer
  is null or the list of the slots' contents; the number of slots that fit a page is the parameter
  \<open>ns\<close> (\<open>cnode_slots\<close> of the page size). \<open>slots_of\<close> reads the slots; \<open>wf_cnode\<close> says that the pointer
  is non-null whenever the slot count is positive, so the indexed reads below stay in the page.
\<close>

definition cnode_slots :: "nat \<Rightarrow> nat \<Rightarrow> nat" where
  "cnode_slots page_size size_of_Capability = page_size div size_of_Capability"

record CNode =
  slots :: "Capability list option"
  num_slots :: nat

definition new_cnode :: CNode where
  "new_cnode = \<lparr>slots = None, num_slots = 0\<rparr>"

text \<open>The capability that zeroed memory denotes: null, but with CDT index 0.\<close>

definition zero_cap :: Capability where
  "zero_cap = \<lparr>cap_type = Null, rights = NONE, object = 0, cdt_index = 0\<rparr>"

definition ensure_slots :: "nat \<Rightarrow> CNode \<Rightarrow> alloc_outcomes \<Rightarrow> bool \<times> CNode \<times> alloc_outcomes" where
  "ensure_slots ns cn os =
     (if slots cn \<noteq> None then (True, cn, os)
      else (case alloc_page os of
              (False, os') \<Rightarrow> (False, cn, os')
            | (True, os') \<Rightarrow> (True, cn\<lparr>slots := Some (replicate ns zero_cap), num_slots := ns\<rparr>, os')))"

definition slots_of :: "CNode \<Rightarrow> Capability list" where
  "slots_of cn = (case slots cn of None \<Rightarrow> [] | Some cs \<Rightarrow> cs)"

definition cnode_get :: "CNode \<Rightarrow> nat \<Rightarrow> Capability option" where
  "cnode_get cn index = (if index < num_slots cn then Some (slots_of cn ! index) else None)"

definition cnode_get_mut :: "CNode \<Rightarrow> nat \<Rightarrow> (Capability \<Rightarrow> Capability) \<Rightarrow> CNode option" where
  "cnode_get_mut cn index f =
     (if index < num_slots cn
      then Some (cn\<lparr>slots := Some ((slots_of cn)[index := f (slots_of cn ! index)])\<rparr>) else None)"

definition cnode_insert ::
  "nat \<Rightarrow> CNode \<Rightarrow> nat \<Rightarrow> Capability \<Rightarrow> alloc_outcomes \<Rightarrow> Capability option \<times> CNode \<times> alloc_outcomes" where
  "cnode_insert ns cn index cap os =
     (case ensure_slots ns cn os of
        (False, cn', os') \<Rightarrow> (None, cn', os')
      | (True, cn', os') \<Rightarrow>
          if index < num_slots cn'
          then (Some (slots_of cn' ! index), cn'\<lparr>slots := Some ((slots_of cn')[index := cap])\<rparr>, os')
          else (None, cn', os'))"

definition cnode_remove :: "CNode \<Rightarrow> nat \<Rightarrow> Capability option \<times> CNode" where
  "cnode_remove cn index =
     (if index < num_slots cn
      then (Some (slots_of cn ! index), cn\<lparr>slots := Some ((slots_of cn)[index := null_cap])\<rparr>)
      else (None, cn))"

definition find_empty :: "nat \<Rightarrow> CNode \<Rightarrow> alloc_outcomes \<Rightarrow> nat option \<times> CNode \<times> alloc_outcomes" where
  "find_empty ns cn os =
     (case ensure_slots ns cn os of
        (False, cn', os') \<Rightarrow> (None, cn', os')
      | (True, cn', os') \<Rightarrow> (first_idx is_null (slots_of cn'), cn', os'))"

definition cnode_count :: "CNode \<Rightarrow> nat" where
  "cnode_count cn = length (filter (\<lambda>c. \<not> is_null c) (slots_of cn))"

section \<open>Invariant and behaviour\<close>

definition wf_cnode :: "CNode \<Rightarrow> bool" where
  "wf_cnode cn \<longleftrightarrow> length (slots_of cn) = num_slots cn"

lemma is_null_zero_cap [simp]: "is_null zero_cap"
  by (simp add: is_null_def zero_cap_def)

lemma wf_new_cnode [simp]: "wf_cnode new_cnode"
  by (simp add: wf_cnode_def new_cnode_def slots_of_def)

text \<open>The capabilities held, as seen through lookups: only non-null slots count.\<close>

definition caps_of :: "CNode \<Rightarrow> nat \<Rightarrow> Capability option" where
  "caps_of cn i = (case cnode_get cn i of Some c \<Rightarrow> if is_null c then None else Some c | None \<Rightarrow> None)"

lemma caps_of_Some: "caps_of cn i = Some c \<longleftrightarrow> i < num_slots cn \<and> slots_of cn ! i = c \<and> \<not> is_null c"
  by (auto simp: caps_of_def cnode_get_def)

lemma ensure_slots_spec:
  assumes "wf_cnode cn" "ensure_slots ns cn os = (ok, cn', os')"
  shows "wf_cnode cn'" "caps_of cn' = caps_of cn" "ok \<longleftrightarrow> slots cn' \<noteq> None" "\<not> ok \<Longrightarrow> cn' = cn"
    "num_slots cn' \<noteq> num_slots cn \<Longrightarrow> num_slots cn' = ns"
proof -
  have "wf_cnode cn' \<and> caps_of cn' = caps_of cn \<and> (ok \<longleftrightarrow> slots cn' \<noteq> None) \<and> (\<not> ok \<longrightarrow> cn' = cn) \<and>
    (num_slots cn' \<noteq> num_slots cn \<longrightarrow> num_slots cn' = ns)"
    using assms
    by (auto simp: ensure_slots_def wf_cnode_def slots_of_def caps_of_def cnode_get_def fun_eq_iff
        split: if_splits prod.splits bool.splits)
  then show "wf_cnode cn'" "caps_of cn' = caps_of cn" "ok \<longleftrightarrow> slots cn' \<noteq> None" "\<not> ok \<Longrightarrow> cn' = cn"
    "num_slots cn' \<noteq> num_slots cn \<Longrightarrow> num_slots cn' = ns" by blast+
qed

lemma ensure_slots_present [simp]: "slots cn \<noteq> None \<Longrightarrow> ensure_slots ns cn os = (True, cn, os)"
  by (simp add: ensure_slots_def)

lemma find_empty_spec:
  assumes "wf_cnode cn" "find_empty ns cn os = (r, cn', os')"
  shows "wf_cnode cn'" "caps_of cn' = caps_of cn"
    and "r = Some i \<Longrightarrow> slots cn' \<noteq> None \<and> i < num_slots cn' \<and> caps_of cn i = None"
proof -
  obtain ok cn1 os1 where e: "ensure_slots ns cn os = (ok, cn1, os1)" by (rule prod_cases3)
  note es = ensure_slots_spec [OF assms(1) e]
  have cn': "cn' = cn1" using assms(2) e by (auto simp: find_empty_def split: bool.splits)
  show "wf_cnode cn'" "caps_of cn' = caps_of cn" using es(1,2) cn' by simp_all
  assume "r = Some i"
  then have ok: ok and i: "first_idx is_null (slots_of cn1) = Some i"
    using assms(2) unfolding find_empty_def e by (cases ok; simp)+
  have "i < num_slots cn1" using first_idx_SomeD(1) [OF i] es(1) by (simp add: wf_cnode_def)
  moreover have "slots cn1 \<noteq> None" using ok es(3) by blast
  moreover have "caps_of cn1 i = None" using first_idx_SomeD(2) [OF i] by (simp add: caps_of_def cnode_get_def)
  ultimately show "slots cn' \<noteq> None \<and> i < num_slots cn' \<and> caps_of cn i = None" unfolding es(2) cn' by blast
qed

lemma cnode_insert_spec:
  assumes "wf_cnode cn" "slots cn \<noteq> None" "i < num_slots cn"
  shows "\<exists>cn'. cnode_insert ns cn i cap os = (cnode_get cn i, cn', os) \<and> wf_cnode cn' \<and>
    num_slots cn' = num_slots cn \<and> slots cn' \<noteq> None \<and>
    caps_of cn' = (caps_of cn)(i := (if is_null cap then None else Some cap))"
proof -
  let ?cn = "cn\<lparr>slots := Some ((slots_of cn)[i := cap])\<rparr>"
  have "slots_of ?cn = (slots_of cn)[i := cap]" by (simp add: slots_of_def)
  then have "wf_cnode ?cn" "caps_of ?cn = (caps_of cn)(i := (if is_null cap then None else Some cap))"
    using assms by (auto simp: wf_cnode_def caps_of_def cnode_get_def fun_eq_iff nth_list_update)
  then show ?thesis using assms by (auto simp: cnode_insert_def cnode_get_def)
qed

lemma cnode_remove_spec:
  assumes "wf_cnode cn" "cnode_remove cn i = (r, cn')"
  shows "wf_cnode cn'" "caps_of cn' = (caps_of cn)(i := None)" "r = cnode_get cn i"
proof -
  have "slots_of (cn\<lparr>slots := Some ((slots_of cn)[i := null_cap])\<rparr>) = (slots_of cn)[i := null_cap]"
    by (simp add: slots_of_def)
  then show "wf_cnode cn'" "caps_of cn' = (caps_of cn)(i := None)" "r = cnode_get cn i"
    using assms
    by (auto simp: cnode_remove_def wf_cnode_def caps_of_def cnode_get_def fun_eq_iff nth_list_update split: if_splits)
qed

lemma cnode_count_card:
  assumes "wf_cnode cn"
  shows "cnode_count cn = card (dom (caps_of cn))"
proof -
  have "dom (caps_of cn) = {i. i < length (slots_of cn) \<and> \<not> is_null (slots_of cn ! i)}"
    using assms by (auto simp: dom_def caps_of_Some wf_cnode_def)
  then show ?thesis by (simp add: cnode_count_def length_filter_conv_card)
qed

end
