(* ===== verification/PagedArray.thy ===== *)
theory PagedArray
  imports Telix_Prelude
begin

text \<open>
  \<open>kernel/src/mm/paged_array.rs\<close>: a growable array backed by physical pages, and the contract its
  clients rely on (\<open>indexed_store\<close>). The directory is null or a list of page pointers; a page is
  held by value as the list of its items. The boot-time page size, the size of an item and the item
  that an all-zero page holds are the fields of \<open>pa_config\<close>. An access through a null pointer or out
  of the directory is the value None.
\<close>

section \<open>The array\<close>

record 'a pa_config =
  page_size :: nat
  size_of_T :: nat
  zeroed :: 'a

record 'a PagedArray =
  dir :: "'a list option list option"
  dir_capacity :: nat
  num_pages :: nat

definition items_per_page :: "'a pa_config \<Rightarrow> nat" where
  "items_per_page g = page_size g div size_of_T g"

definition dir_slots :: "'a pa_config \<Rightarrow> nat" where
  "dir_slots g = page_size g div 8"

definition new_pa :: "'a PagedArray" where
  "new_pa = \<lparr>dir = None, dir_capacity = 0, num_pages = 0\<rparr>"

definition capacity :: "'a pa_config \<Rightarrow> 'a PagedArray \<Rightarrow> nat" where
  "capacity g a = num_pages a * items_per_page g"

definition add_page :: "'a pa_config \<Rightarrow> 'a PagedArray \<Rightarrow> 'a PagedArray" where
  "add_page g a =
     a\<lparr>dir := map_option (\<lambda>d. d[num_pages a := Some (replicate (items_per_page g) (zeroed g))]) (dir a),
       num_pages := num_pages a + 1\<rparr>"

function grow :: "'a pa_config \<Rightarrow> 'a PagedArray \<Rightarrow> nat \<Rightarrow> alloc_outcomes \<Rightarrow> bool \<times> 'a PagedArray \<times> alloc_outcomes" where
  "grow g a needed os =
     (if capacity g a < needed then
        (if num_pages a \<ge> dir_capacity a then (False, a, os)
         else (case alloc_page os of
                 (False, os') \<Rightarrow> (False, a, os')
               | (True, os') \<Rightarrow> grow g (add_page g a) needed os'))
      else (True, a, os))"
  by pat_completeness auto
termination
  by (relation "measure (\<lambda>(g, a, needed, os). dir_capacity a - num_pages a)") (auto simp: add_page_def)

declare grow.simps [simp del]

definition ensure_capacity ::
  "'a pa_config \<Rightarrow> 'a PagedArray \<Rightarrow> nat \<Rightarrow> alloc_outcomes \<Rightarrow> bool \<times> 'a PagedArray \<times> alloc_outcomes" where
  "ensure_capacity g a needed os =
     (if dir a = None \<and> needed > 0 then
        (case alloc_page os of
           (False, os') \<Rightarrow> (False, a, os')
         | (True, os') \<Rightarrow>
             grow g (a\<lparr>dir := Some (replicate (dir_slots g) None), dir_capacity := dir_slots g\<rparr>) needed os')
      else grow g a needed os)"

definition get :: "'a pa_config \<Rightarrow> 'a PagedArray \<Rightarrow> nat \<Rightarrow> 'a option" where
  "get g a idx =
     (let page = idx div items_per_page g; offset = idx mod items_per_page g in
      case dir a of
        None \<Rightarrow> None
      | Some d \<Rightarrow>
          if page < length d
          then (case d ! page of
                  None \<Rightarrow> None
                | Some pg \<Rightarrow> if offset < length pg then Some (pg ! offset) else None)
          else None)"

text \<open>\<open>get_mut\<close> hands out a reference; the model applies the caller's update through it.\<close>

definition get_mut :: "'a pa_config \<Rightarrow> 'a PagedArray \<Rightarrow> nat \<Rightarrow> ('a \<Rightarrow> 'a) \<Rightarrow> 'a PagedArray option" where
  "get_mut g a idx f =
     (let page = idx div items_per_page g; offset = idx mod items_per_page g in
      case dir a of
        None \<Rightarrow> None
      | Some d \<Rightarrow>
          if page < length d
          then (case d ! page of
                  None \<Rightarrow> None
                | Some pg \<Rightarrow>
                    if offset < length pg
                    then Some (a\<lparr>dir := Some (d[page := Some (pg[offset := f (pg ! offset)])])\<rparr>)
                    else None)
          else None)"

section \<open>Invariant\<close>

fun slot_ok :: "'a pa_config \<Rightarrow> nat \<Rightarrow> nat \<Rightarrow> 'a list option \<Rightarrow> bool" where
  "slot_ok g np i None \<longleftrightarrow> np \<le> i"
| "slot_ok g np i (Some pg) \<longleftrightarrow> i < np \<and> length pg = items_per_page g"

definition wf_pa :: "'a pa_config \<Rightarrow> 'a PagedArray \<Rightarrow> bool" where
  "wf_pa g a \<longleftrightarrow>
     (case dir a of
        None \<Rightarrow> dir_capacity a = 0 \<and> num_pages a = 0
      | Some d \<Rightarrow> length d = dir_capacity a \<and> dir_capacity a = dir_slots g \<and> num_pages a \<le> dir_capacity a \<and>
          (\<forall>i<length d. slot_ok g (num_pages a) i (d ! i)))"

lemma wf_slot: "wf_pa g a \<Longrightarrow> dir a = Some d \<Longrightarrow> i < length d \<Longrightarrow> slot_ok g (num_pages a) i (d ! i)"
  by (simp add: wf_pa_def)

lemma wf_new_pa [simp]: "wf_pa g new_pa"
  by (simp add: wf_pa_def new_pa_def)

lemma capacity_new_pa [simp]: "capacity g new_pa = 0"
  by (simp add: capacity_def new_pa_def)

lemma capacity_bound: "wf_pa g a \<Longrightarrow> capacity g a \<le> dir_slots g * items_per_page g"
  by (auto simp: wf_pa_def capacity_def split: option.splits)

lemma wf_page:
  assumes "wf_pa g a" "idx < capacity g a"
  obtains d pg where "dir a = Some d" "idx div items_per_page g < length d"
    "d ! (idx div items_per_page g) = Some pg" "length pg = items_per_page g"
    "idx mod items_per_page g < items_per_page g"
proof -
  have ipp: "0 < items_per_page g" using assms(2) by (cases "items_per_page g") (auto simp: capacity_def)
  have page: "idx div items_per_page g < num_pages a"
    using assms(2) by (simp add: capacity_def less_mult_imp_div_less)
  then obtain d where d: "dir a = Some d" using assms(1) by (cases "dir a") (auto simp: wf_pa_def)
  let ?p = "idx div items_per_page g"
  have p: "?p < length d" using assms(1) page d by (simp add: wf_pa_def)
  then have "slot_ok g (num_pages a) ?p (d ! ?p)" by (rule wf_slot [OF assms(1) d])
  then obtain pg where "d ! ?p = Some pg" "length pg = items_per_page g"
    using page by (cases "d ! ?p") auto
  then show ?thesis using that d ipp p by simp
qed

lemma get_iff:
  assumes "wf_pa g a"
  shows "get g a idx \<noteq> None \<longleftrightarrow> idx < capacity g a"
proof
  assume "idx < capacity g a"
  from wf_page [OF assms this] obtain d pg where "dir a = Some d" "idx div items_per_page g < length d"
    "d ! (idx div items_per_page g) = Some pg" "idx mod items_per_page g < length pg" by metis
  then show "get g a idx \<noteq> None" by (simp add: get_def Let_def)
next
  assume a: "get g a idx \<noteq> None"
  then obtain d pg where d: "dir a = Some d" "idx div items_per_page g < length d"
    "d ! (idx div items_per_page g) = Some pg" "idx mod items_per_page g < length pg"
    by (auto simp: get_def Let_def split: option.splits if_splits)
  with wf_slot [OF assms d(1,2)] have "idx div items_per_page g < num_pages a" "length pg = items_per_page g"
    by auto
  with d(4) show "idx < capacity g a"
    by (simp add: capacity_def) (metis div_less_iff_less_mult gr_zeroI not_less_zero)
qed

lemma div_mod_neq: "i \<noteq> j \<Longrightarrow> i div n \<noteq> j div n \<or> i mod n \<noteq> j mod n" for i j n :: nat
  by (metis div_mult_mod_eq)

lemma div_eq_between: "0 < n \<Longrightarrow> i div n = k \<longleftrightarrow> k * n \<le> i \<and> i < k * n + n" for i n k :: nat
  using dividend_less_div_times [of n i] div_nat_eqI [of n k i] by (auto simp: mult.commute)

lemma get_mut_spec:
  assumes wf: "wf_pa g a" and idx: "idx < capacity g a"
  obtains a' where "get_mut g a idx f = Some a'" "wf_pa g a'" "capacity g a' = capacity g a"
    "get g a' = (get g a)(idx := map_option f (get g a idx))"
proof -
  from wf_page [OF wf idx] obtain d pg where d: "dir a = Some d" "idx div items_per_page g < length d"
    "d ! (idx div items_per_page g) = Some pg" "length pg = items_per_page g"
    "idx mod items_per_page g < items_per_page g" by metis
  let ?a = "a\<lparr>dir := Some (d[idx div items_per_page g := Some (pg[idx mod items_per_page g := f (pg ! (idx mod items_per_page g))])])\<rparr>"
  have "get_mut g a idx f = Some ?a" using d by (simp add: get_mut_def Let_def)
  moreover have "wf_pa g ?a"
    using wf d wf_slot [OF wf d(1,2)] by (auto simp: wf_pa_def nth_list_update)
  moreover have "get g ?a j = ((get g a)(idx := map_option f (get g a idx))) j" for j
    using d div_mod_neq [of idx j "items_per_page g"]
    by (auto simp: get_def Let_def nth_list_update split: option.splits)
  moreover have "capacity g ?a = capacity g a" by (simp add: capacity_def)
  ultimately show thesis by (intro that [of ?a] ext)
qed

lemma get_mut_None: "wf_pa g a \<Longrightarrow> capacity g a \<le> idx \<Longrightarrow> get_mut g a idx f = None"
  using get_iff [of g a idx] by (auto simp: get_def get_mut_def Let_def split: option.splits if_splits)

section \<open>Growing\<close>

lemma slot_ok_Suc: "slot_ok g np i p \<Longrightarrow> i \<noteq> np \<Longrightarrow> slot_ok g (Suc np) i p"
  by (cases p) auto

lemma add_page_spec:
  assumes wf: "wf_pa g a" and room: "num_pages a < dir_capacity a"
  shows "wf_pa g (add_page g a)" "capacity g (add_page g a) = capacity g a + items_per_page g"
    and "get g (add_page g a) i =
      (if capacity g a \<le> i \<and> i < capacity g a + items_per_page g then Some (zeroed g) else get g a i)"
proof -
  obtain d where d: "dir a = Some d" "length d = dir_capacity a"
    using wf room by (cases "dir a") (auto simp: wf_pa_def)
  show wf': "wf_pa g (add_page g a)"
    using wf room d slot_ok_Suc [of g "num_pages a"] by (auto simp: wf_pa_def add_page_def nth_list_update)
  show cap: "capacity g (add_page g a) = capacity g a + items_per_page g"
    by (simp add: capacity_def add_page_def)
  have new: "capacity g a \<le> i \<and> i < capacity g a + items_per_page g \<longleftrightarrow>
      i div items_per_page g = num_pages a \<and> 0 < items_per_page g"
    using div_eq_between [of "items_per_page g" i "num_pages a"]
    by (cases "items_per_page g = 0") (auto simp: capacity_def)
  show "get g (add_page g a) i =
      (if capacity g a \<le> i \<and> i < capacity g a + items_per_page g then Some (zeroed g) else get g a i)"
  proof (cases "capacity g a \<le> i \<and> i < capacity g a + items_per_page g")
    case True
    with new have "i div items_per_page g = num_pages a" "0 < items_per_page g" by auto
    then show ?thesis using True d room by (simp add: get_def add_page_def Let_def)
  next
    case False
    show ?thesis
    proof (cases "items_per_page g = 0")
      case True
      then have "capacity g a = 0" "capacity g (add_page g a) = 0" by (simp_all add: capacity_def)
      with get_iff [OF wf, of i] get_iff [OF wf', of i] True show ?thesis by simp
    next
      case ipp: False
      with False new have "i div items_per_page g \<noteq> num_pages a" by simp
      then show ?thesis unfolding if_not_P [OF False] using d
        by (simp add: get_def add_page_def Let_def)
    qed
  qed
qed

lemma grow_spec:
  assumes "wf_pa g a" "grow g a needed os = (ok, a', os')"
  shows "wf_pa g a' \<and> capacity g a \<le> capacity g a' \<and> (ok \<longrightarrow> needed \<le> capacity g a') \<and>
    (\<forall>i. get g a' i = (if capacity g a \<le> i \<and> i < capacity g a' then Some (zeroed g) else get g a i))"
  using assms
proof (induction g a needed os rule: grow.induct)
  case (1 g a needed os)
  have same: "get g a i = (if capacity g a \<le> i \<and> i < capacity g a then Some (zeroed g) else get g a i)" for i
    by auto
  show ?case
  proof (cases "capacity g a < needed \<and> num_pages a < dir_capacity a \<and> fst (alloc_page os)")
    case False
    with 1 same show ?thesis by (auto simp: grow.simps [of g a] split: if_splits prod.splits bool.splits)
  next
    case True
    then obtain os1 where os1: "alloc_page os = (True, os1)" by (cases "alloc_page os") auto
    note ap = add_page_spec [OF 1(2)]
    have room: "num_pages a < dir_capacity a" using True by simp
    have "grow g (add_page g a) needed os1 = (ok, a', os')"
      using 1(3) True os1 by (simp add: grow.simps [of g a])
    with 1(1) [OF _ _ os1 [symmetric]] True os1 ap(1) [OF room]
    have IH: "wf_pa g a' \<and> capacity g (add_page g a) \<le> capacity g a' \<and> (ok \<longrightarrow> needed \<le> capacity g a') \<and>
      (\<forall>i. get g a' i = (if capacity g (add_page g a) \<le> i \<and> i < capacity g a' then Some (zeroed g)
                         else get g (add_page g a) i))" by auto
    then show ?thesis using ap(2,3) [OF room] by auto
  qed
qed

lemma ensure_capacity_spec:
  assumes wf: "wf_pa g a" and e: "ensure_capacity g a needed os = (ok, a', os')"
  shows "wf_pa g a'" "capacity g a \<le> capacity g a'" "ok \<Longrightarrow> needed \<le> capacity g a'"
    "get g a' i = (if capacity g a \<le> i \<and> i < capacity g a' then Some (zeroed g) else get g a i)"
proof -
  let ?b = "a\<lparr>dir := Some (replicate (dir_slots g) None), dir_capacity := dir_slots g\<rparr>"
  have *: "wf_pa g a' \<and> capacity g a \<le> capacity g a' \<and> (ok \<longrightarrow> needed \<le> capacity g a') \<and>
    (\<forall>i. get g a' i = (if capacity g a \<le> i \<and> i < capacity g a' then Some (zeroed g) else get g a i))"
  proof (cases "dir a = None \<and> needed > 0")
    case False
    with grow_spec [OF wf] e show ?thesis by (auto simp: ensure_capacity_def)
  next
    case True
    then have np: "num_pages a = 0" using wf by (simp add: wf_pa_def)
    have b: "wf_pa g ?b" "capacity g ?b = capacity g a" "get g ?b = get g a"
      using True np by (auto simp: wf_pa_def capacity_def get_def Let_def fun_eq_iff)
    show ?thesis
    proof (cases "fst (alloc_page os)")
      case alloc: True
      then obtain os1 where os1: "alloc_page os = (True, os1)" by (cases "alloc_page os") auto
      with e True have "grow g ?b needed os1 = (ok, a', os')" by (simp add: ensure_capacity_def)
      from grow_spec [OF b(1) this] show ?thesis by (simp add: b(2,3))
    next
      case no: False
      then obtain os1 where os1: "alloc_page os = (False, os1)" by (cases "alloc_page os") auto
      with e True have "\<not> ok" "a' = a" by (auto simp: ensure_capacity_def)
      then show ?thesis using wf by auto
    qed
  qed
  then show "wf_pa g a'" "capacity g a \<le> capacity g a'" "ok \<Longrightarrow> needed \<le> capacity g a'"
    "get g a' i = (if capacity g a \<le> i \<and> i < capacity g a' then Some (zeroed g) else get g a i)" by blast+
qed

lemma grow_fail: "grow g a needed os = (False, a', os') \<Longrightarrow> capacity g a' < needed"
  by (induction g a needed os rule: grow.induct)
    (subst (asm) (2) grow.simps, auto split: if_splits prod.splits bool.splits)

lemma ensure_capacity_fail:
  assumes "wf_pa g a" "ensure_capacity g a needed os = (False, a', os')"
  shows "capacity g a' < needed"
  using assms
  by (auto simp: ensure_capacity_def wf_pa_def capacity_def split: if_splits prod.splits bool.splits
      dest!: grow_fail)

section \<open>The contract of an indexed store\<close>

text \<open>
  What the array's clients use: an item is defined exactly below the capacity, an update through a
  reference changes that item and nothing else, and growing keeps every item and zeroes the new ones.
\<close>

locale indexed_store =
  fixes inv :: "'s \<Rightarrow> bool"
    and cap :: "'s \<Rightarrow> nat"
    and item :: "'s \<Rightarrow> nat \<Rightarrow> 'a option"
    and upd :: "'s \<Rightarrow> nat \<Rightarrow> ('a \<Rightarrow> 'a) \<Rightarrow> 's option"
  assumes item_iff: "inv s \<Longrightarrow> item s i \<noteq> None \<longleftrightarrow> i < cap s"
    and upd_Some: "inv s \<Longrightarrow> i < cap s \<Longrightarrow>
      \<exists>s'. upd s i f = Some s' \<and> inv s' \<and> cap s' = cap s \<and> item s' = (item s)(i := map_option f (item s i))"
    and upd_None: "inv s \<Longrightarrow> cap s \<le> i \<Longrightarrow> upd s i f = None"
begin

fun upd_range :: "(nat \<Rightarrow> 'a \<Rightarrow> 'a) \<Rightarrow> nat list \<Rightarrow> 's \<Rightarrow> 's option" where
  "upd_range f [] s = Some s"
| "upd_range f (i # is) s = Option.bind (upd s i (f i)) (upd_range f is)"

lemma upd_range_spec:
  assumes "inv s" "\<forall>i\<in>set is. i < cap s" "distinct is"
  shows "\<exists>s'. upd_range f is s = Some s' \<and> inv s' \<and> cap s' = cap s \<and>
    (\<forall>j. item s' j = (if j \<in> set is then map_option (f j) (item s j) else item s j))"
  using assms
proof (induction "is" arbitrary: s)
  case Nil
  then show ?case by simp
next
  case (Cons i "is")
  from upd_Some [of s i "f i"] Cons.prems obtain s1 where s1: "upd s i (f i) = Some s1" "inv s1"
    "cap s1 = cap s" "item s1 = (item s)(i := map_option (f i) (item s i))" by auto
  from Cons.IH [OF s1(2)] Cons.prems s1(3) obtain s2 where
    "upd_range f is s1 = Some s2" "inv s2" "cap s2 = cap s1"
    "\<forall>j. item s2 j = (if j \<in> set is then map_option (f j) (item s1 j) else item s1 j)" by auto
  with s1 Cons.prems(3) show ?case by auto
qed

lemma upd_defined: "inv s \<Longrightarrow> upd s i f \<noteq> None \<longleftrightarrow> i < cap s"
  using upd_Some [of s i f] upd_None [of s i f] by (cases "i < cap s") auto

lemma updE:
  assumes "inv s" "i < cap s"
  obtains s' where "upd s i f = Some s'" "inv s'" "cap s' = cap s"
    "item s' = (item s)(i := map_option f (item s i))"
  using upd_Some [OF assms, of f] by blast

lemma itemE:
  assumes "inv s" "i < cap s"
  obtains x where "item s i = Some x"
  using item_iff [OF assms(1), of i] assms(2) by auto

end

interpretation pa: indexed_store "wf_pa g" "capacity g" "get g" "get_mut g" for g :: "'a pa_config"
proof
  fix s :: "'a PagedArray" and i f
  assume wf: "wf_pa g s"
  show "get g s i \<noteq> None \<longleftrightarrow> i < capacity g s" by (rule get_iff [OF wf])
  show "\<exists>s'. get_mut g s i f = Some s' \<and> wf_pa g s' \<and> capacity g s' = capacity g s \<and>
      get g s' = (get g s)(i := map_option f (get g s i))" if "i < capacity g s"
    using get_mut_spec [OF wf that, of f] by metis
  show "get_mut g s i f = None" if "capacity g s \<le> i" by (rule get_mut_None [OF wf that])
qed

section \<open>Properties\<close>

lemma grow_succeeds:
  assumes "wf_pa g a" "dir a \<noteq> None" "needed \<le> dir_slots g * items_per_page g"
    and "dir_capacity a - num_pages a \<le> k" "os = replicate k True @ rest"
  shows "fst (grow g a needed os)"
  using assms
proof (induction k arbitrary: a os)
  case 0
  then have "num_pages a = dir_slots g" by (auto simp: wf_pa_def)
  with 0 show ?case by (simp add: grow.simps [of g a] capacity_def)
next
  case (Suc k)
  show ?case
  proof (cases "capacity g a < needed")
    case True
    then have room: "num_pages a < dir_capacity a"
      using Suc.prems by (auto simp: wf_pa_def capacity_def not_less) (metis le_antisym not_less)
    have "fst (grow g (add_page g a) needed (replicate k True @ rest))"
    proof (rule Suc.IH [OF add_page_spec(1) [OF Suc.prems(1) room] _ Suc.prems(3)])
      show "dir (add_page g a) \<noteq> None" "dir_capacity (add_page g a) - num_pages (add_page g a) \<le> k"
        using Suc.prems(2,4) by (auto simp: add_page_def)
    qed (rule refl)
    with True room Suc.prems(5) show ?thesis by (simp add: grow.simps [of g a])
  next
    case False
    then show ?thesis by (simp add: grow.simps [of g a])
  qed
qed

text \<open>
  \<open>ensure_capacity\<close> keeps the array well formed, never shrinks it,
  leaves every existing item where and what it was, zero-initialises every new one and, when it
  reports success, gives the requested capacity. It does succeed whenever the request fits the
  directory and the page allocator delivers one page per directory slot and one for the directory.
\<close>

theorem ensure_capacity_stable:
  assumes "wf_pa g a" "ensure_capacity g a needed os = (ok, a', os')"
  shows "wf_pa g a' \<and> capacity g a \<le> capacity g a' \<and>
    (\<forall>i<capacity g a. get g a' i = get g a i) \<and>
    (\<forall>i. capacity g a \<le> i \<and> i < capacity g a' \<longrightarrow> get g a' i = Some (zeroed g)) \<and>
    (ok \<longrightarrow> needed \<le> capacity g a') \<and>
    (needed \<le> dir_slots g * items_per_page g \<and> os = replicate (Suc (dir_slots g)) True @ rest \<longrightarrow> ok)"
proof -
  note spec = ensure_capacity_spec [OF assms]
  have ok if fits: "needed \<le> dir_slots g * items_per_page g"
    and os: "os = replicate (Suc (dir_slots g)) True @ rest"
  proof (cases "dir a")
    case None
    let ?b = "a\<lparr>dir := Some (replicate (dir_slots g) None), dir_capacity := dir_slots g\<rparr>"
    have "num_pages a = 0" using None assms(1) by (simp add: wf_pa_def)
    then have "wf_pa g ?b" by (simp add: wf_pa_def)
    then have "fst (grow g ?b needed (replicate (dir_slots g) True @ rest))"
      by (rule grow_succeeds [OF _ _ fits]) auto
    moreover have "fst (grow g a needed os)" if "needed = 0"
      using that by (simp add: grow.simps [of g a])
    ultimately show ?thesis using None os assms(2) by (cases "needed = 0") (auto simp: ensure_capacity_def)
  next
    case (Some d)
    then have "fst (grow g a needed os)"
      using assms(1) os by (intro grow_succeeds [OF assms(1) _ fits, of "Suc (dir_slots g)" _ rest])
        (auto simp: wf_pa_def)
    then show ?thesis using Some assms(2) by (simp add: ensure_capacity_def)
  qed
  with spec show ?thesis by auto
qed

lemma ensure_capacity_stable_witness:
  "let g = \<lparr>page_size = 32, size_of_T = 16, zeroed = 0 :: nat\<rparr>;
       r = ensure_capacity g new_pa 3 (replicate 5 True)
   in fst r \<and> 3 \<le> capacity g (fst (snd r)) \<and> get g (fst (snd r)) 2 = Some 0"
proof -
  let ?g = "\<lparr>page_size = 32, size_of_T = 16, zeroed = 0 :: nat\<rparr>"
  obtain ok a' os' where e: "ensure_capacity ?g new_pa 3 (replicate 5 True) = (ok, a', os')"
    by (rule prod_cases3)
  note st = ensure_capacity_stable [OF wf_new_pa e, of "[]"]
  have "replicate 5 True = replicate (Suc (dir_slots ?g)) True @ []"
    by (simp add: dir_slots_def)
  moreover have "3 \<le> dir_slots ?g * items_per_page ?g" by (simp add: dir_slots_def items_per_page_def)
  ultimately have ok using st by blast
  moreover from this have cap: "3 \<le> capacity ?g a'" using st by blast
  moreover have "\<forall>i. capacity ?g new_pa \<le> i \<and> i < capacity ?g a' \<longrightarrow> get ?g a' i = Some (zeroed ?g)"
    using st by blast
  then have "get ?g a' 2 = Some 0" using cap by simp
  ultimately show ?thesis by (simp add: Let_def e)
qed

end
