(* ===== verification/Cdt.thy ===== *)
theory Cdt
  imports Capability PagedArray
begin

text \<open>
  \<open>kernel/src/cap/cdt.rs\<close>: the capability derivation tree. Nodes live in a paged array and are
  linked by parent, first-child and next-sibling indices; unused nodes form a free list threaded
  through the sibling index. The state is related to a forest of rose trees
  (\<open>forest_rel\<close>), and every operation is shown to be the corresponding operation on the forest,
  without an out-of-range access and with both recursive walks terminating.

  The recursion of \<open>revoke_subtree\<close> through its while loop is one partial function
  (\<open>revoke_loop\<close>); the lemma \<open>revoke_loop_unfold\<close> restates it in the nested form of the source.
\<close>

section \<open>State\<close>

definition CDT_NONE :: nat where
  "CDT_NONE = U32_MAX"

record CdtNode =
  n_cap_type :: CapType
  n_object :: nat
  parent :: nat
  first_child :: nat
  next_sibling :: nat
  task_id :: nat
  slot_index :: nat
  active :: bool

definition empty_node :: CdtNode where
  "empty_node = \<lparr>n_cap_type = Null, n_object = 0, parent = CDT_NONE, first_child = CDT_NONE,
     next_sibling = CDT_NONE, task_id = 0, slot_index = 0, active = False\<rparr>"

text \<open>The node that the bytes of a zeroed page denote.\<close>

definition zero_node :: CdtNode where
  "zero_node = \<lparr>n_cap_type = Null, n_object = 0, parent = 0, first_child = 0, next_sibling = 0,
     task_id = 0, slot_index = 0, active = False\<rparr>"

record Cdt =
  nodes :: "CdtNode PagedArray"
  free_head :: nat

type_synonym cdt_cfg = "CdtNode pa_config"

definition new_cdt :: Cdt where
  "new_cdt = \<lparr>nodes = new_pa, free_head = CDT_NONE\<rparr>"

definition node_at :: "cdt_cfg \<Rightarrow> Cdt \<Rightarrow> nat \<Rightarrow> CdtNode option" where
  "node_at g c = get g (nodes c)"

definition upd_node :: "cdt_cfg \<Rightarrow> Cdt \<Rightarrow> nat \<Rightarrow> (CdtNode \<Rightarrow> CdtNode) \<Rightarrow> Cdt option" where
  "upd_node g c i f = map_option (\<lambda>a. c\<lparr>nodes := a\<rparr>) (get_mut g (nodes c) i f)"

definition cdt_cap :: "cdt_cfg \<Rightarrow> Cdt \<Rightarrow> nat" where
  "cdt_cap g c = capacity g (nodes c)"

section \<open>Operations\<close>

text \<open>The loop that chains the nodes \<open>i..<hi\<close> into a free list.\<close>

function chain_free :: "cdt_cfg \<Rightarrow> nat \<Rightarrow> nat \<Rightarrow> Cdt \<Rightarrow> Cdt option" where
  "chain_free g i hi c =
     (if i < hi then
        upd_node g c i (\<lambda>n. n\<lparr>next_sibling := (if i + 1 < hi then as_u32 (i + 1) else CDT_NONE)\<rparr>)
          \<bind> chain_free g (i + 1) hi
      else Some c)"
  by pat_completeness auto
termination by (relation "measure (\<lambda>(g, i, hi, c). hi - i)") auto

declare chain_free.simps [simp del]

definition init :: "cdt_cfg \<Rightarrow> Cdt \<Rightarrow> alloc_outcomes \<Rightarrow> (Cdt \<times> alloc_outcomes) option" where
  "init g c os =
     (case ensure_capacity g (nodes c) 1 os of
        (False, a, os') \<Rightarrow> Some (c\<lparr>nodes := a\<rparr>, os')
      | (True, a, os') \<Rightarrow> do {
          c' \<leftarrow> chain_free g 0 (capacity g a) (c\<lparr>nodes := a\<rparr>);
          Some (c'\<lparr>free_head := 0\<rparr>, os')
        })"

definition take_free :: "cdt_cfg \<Rightarrow> Cdt \<Rightarrow> (nat \<times> Cdt) option" where
  "take_free g c = do {
     let idx = free_head c;
     n \<leftarrow> node_at g c idx;
     c' \<leftarrow> upd_node g (c\<lparr>free_head := next_sibling n\<rparr>) idx (\<lambda>_. empty_node);
     Some (idx, c')
   }"

definition alloc_node :: "cdt_cfg \<Rightarrow> Cdt \<Rightarrow> alloc_outcomes \<Rightarrow> (nat option \<times> Cdt \<times> alloc_outcomes) option" where
  "alloc_node g c os =
     (if free_head c = CDT_NONE then
        (let old_cap = cdt_cap g c in
         case ensure_capacity g (nodes c) (old_cap + 1) os of
           (False, a, os') \<Rightarrow> Some (None, c\<lparr>nodes := a\<rparr>, os')
         | (True, a, os') \<Rightarrow> do {
             c1 \<leftarrow> chain_free g old_cap (capacity g a) (c\<lparr>nodes := a\<rparr>);
             (idx, c2) \<leftarrow> take_free g (c1\<lparr>free_head := as_u32 old_cap\<rparr>);
             Some (Some idx, c2, os')
           })
      else do {
        (idx, c2) \<leftarrow> take_free g c;
        Some (Some idx, c2, os)
      })"

definition free_node :: "cdt_cfg \<Rightarrow> Cdt \<Rightarrow> nat \<Rightarrow> Cdt option" where
  "free_node g c idx = do {
     c1 \<leftarrow> upd_node g c idx (\<lambda>_. empty_node);
     c2 \<leftarrow> upd_node g c1 idx (\<lambda>n. n\<lparr>next_sibling := free_head c1\<rparr>);
     Some (c2\<lparr>free_head := idx\<rparr>)
   }"

definition insert_root ::
  "cdt_cfg \<Rightarrow> Cdt \<Rightarrow> Capability \<Rightarrow> nat \<Rightarrow> nat \<Rightarrow> alloc_outcomes \<Rightarrow> (nat option \<times> Cdt \<times> alloc_outcomes) option" where
  "insert_root g c cap tid slot os = do {
     (r, c1, os1) \<leftarrow> alloc_node g c os;
     case r of
       None \<Rightarrow> Some (None, c1, os1)
     | Some idx \<Rightarrow> do {
         c2 \<leftarrow> upd_node g c1 idx (\<lambda>n. n\<lparr>n_cap_type := cap_type cap, n_object := object cap,
                 parent := CDT_NONE, first_child := CDT_NONE, next_sibling := CDT_NONE,
                 task_id := tid, slot_index := slot, active := True\<rparr>);
         Some (Some idx, c2, os1)
       }
   }"

text \<open>The guard shared by the public operations: in range and active.\<close>

definition is_active :: "cdt_cfg \<Rightarrow> Cdt \<Rightarrow> nat \<Rightarrow> bool" where
  "is_active g c idx \<longleftrightarrow> idx < cdt_cap g c \<and> (case node_at g c idx of Some n \<Rightarrow> active n | None \<Rightarrow> False)"

definition insert_derived ::
  "cdt_cfg \<Rightarrow> Cdt \<Rightarrow> nat \<Rightarrow> Capability \<Rightarrow> nat \<Rightarrow> nat \<Rightarrow> alloc_outcomes \<Rightarrow> (nat option \<times> Cdt \<times> alloc_outcomes) option" where
  "insert_derived g c parent_idx cap tid slot os =
     (if \<not> is_active g c parent_idx then Some (None, c, os)
      else do {
        (r, c1, os1) \<leftarrow> alloc_node g c os;
        case r of
          None \<Rightarrow> Some (None, c1, os1)
        | Some idx \<Rightarrow> do {
            p \<leftarrow> node_at g c1 parent_idx;
            let parents_first_child = first_child p;
            c2 \<leftarrow> upd_node g c1 idx (\<lambda>n. n\<lparr>n_cap_type := cap_type cap, n_object := object cap,
                    parent := parent_idx, first_child := CDT_NONE, next_sibling := parents_first_child,
                    task_id := tid, slot_index := slot, active := True\<rparr>);
            c3 \<leftarrow> upd_node g c2 parent_idx (\<lambda>n. n\<lparr>first_child := idx\<rparr>);
            Some (Some idx, c3, os1)
          }
      })"

partial_function (option) revoke_loop :: "cdt_cfg \<Rightarrow> nat \<Rightarrow> nat \<Rightarrow> Cdt \<Rightarrow> (nat \<times> Cdt) option" where
  "revoke_loop g child cnt c =
     (if child = CDT_NONE then Some (cnt, c)
      else do {
        n \<leftarrow> node_at g c child;
        (k, c1) \<leftarrow> revoke_loop g (first_child n) 1 c;
        c2 \<leftarrow> free_node g c1 child;
        revoke_loop g (next_sibling n) (cnt + k) c2
      })"

definition revoke_subtree :: "cdt_cfg \<Rightarrow> nat \<Rightarrow> Cdt \<Rightarrow> (nat \<times> Cdt) option" where
  "revoke_subtree g idx c = do {
     n \<leftarrow> node_at g c idx;
     (cnt, c1) \<leftarrow> revoke_loop g (first_child n) 1 c;
     c2 \<leftarrow> free_node g c1 idx;
     Some (cnt, c2)
   }"

lemma revoke_loop_unfold:
  "revoke_loop g child cnt c =
     (if child = CDT_NONE then Some (cnt, c)
      else do {
        n \<leftarrow> node_at g c child;
        let next = next_sibling n;
        (k, c1) \<leftarrow> revoke_subtree g child c;
        revoke_loop g next (cnt + k) c1
      })"
  by (subst revoke_loop.simps) (auto simp: revoke_subtree_def Let_def split: bind_splits)

definition revoke_children :: "cdt_cfg \<Rightarrow> nat \<Rightarrow> Cdt \<Rightarrow> (nat \<times> Cdt) option" where
  "revoke_children g parent_idx c =
     (if \<not> is_active g c parent_idx then Some (0, c)
      else do {
        p \<leftarrow> node_at g c parent_idx;
        (cnt, c1) \<leftarrow> revoke_loop g (first_child p) 0 c;
        c2 \<leftarrow> upd_node g c1 parent_idx (\<lambda>n. n\<lparr>first_child := CDT_NONE\<rparr>);
        Some (cnt, c2)
      })"

partial_function (option) unlink_loop :: "cdt_cfg \<Rightarrow> nat \<Rightarrow> nat \<Rightarrow> Cdt \<Rightarrow> Cdt option" where
  "unlink_loop g prev child c =
     (if prev = CDT_NONE then Some c
      else do {
        n \<leftarrow> node_at g c prev;
        let next = next_sibling n;
        if next = child then do {
          ch \<leftarrow> node_at g c child;
          upd_node g c prev (\<lambda>n. n\<lparr>next_sibling := next_sibling ch\<rparr>)
        }
        else unlink_loop g next child c
      })"

definition unlink_child :: "cdt_cfg \<Rightarrow> nat \<Rightarrow> nat \<Rightarrow> Cdt \<Rightarrow> Cdt option" where
  "unlink_child g par child c = do {
     p \<leftarrow> node_at g c par;
     let first = first_child p;
     if first = child then do {
       ch \<leftarrow> node_at g c child;
       upd_node g c par (\<lambda>n. n\<lparr>first_child := next_sibling ch\<rparr>)
     }
     else unlink_loop g first child c
   }"

definition cdt_remove :: "cdt_cfg \<Rightarrow> nat \<Rightarrow> Cdt \<Rightarrow> (nat \<times> Cdt) option" where
  "cdt_remove g idx c =
     (if \<not> is_active g c idx then Some (0, c)
      else do {
        n \<leftarrow> node_at g c idx;
        c1 \<leftarrow> (if parent n \<noteq> CDT_NONE then unlink_child g (parent n) idx c else Some c);
        revoke_subtree g idx c1
      })"

definition get_location :: "cdt_cfg \<Rightarrow> Cdt \<Rightarrow> nat \<Rightarrow> (nat \<times> nat) option" where
  "get_location g c idx =
     (if \<not> is_active g c idx then None
      else map_option (\<lambda>n. (task_id n, slot_index n)) (node_at g c idx))"

section \<open>Nodes as an indexed store\<close>

abbreviation cdt_wf :: "cdt_cfg \<Rightarrow> Cdt \<Rightarrow> bool" where
  "cdt_wf g c \<equiv> wf_pa g (nodes c)"

lemma node_at_free_head [simp]: "node_at g (c\<lparr>free_head := x\<rparr>) = node_at g c"
  by (simp add: node_at_def)

lemma cdt_cap_free_head [simp]: "cdt_cap g (c\<lparr>free_head := x\<rparr>) = cdt_cap g c"
  by (simp add: cdt_cap_def)

lemma upd_nodeE:
  assumes "cdt_wf g c" "i < cdt_cap g c"
  obtains c' where "upd_node g c i f = Some c'" "cdt_wf g c'" "cdt_cap g c' = cdt_cap g c"
    "free_head c' = free_head c" "node_at g c' = (node_at g c)(i := map_option f (node_at g c i))"
proof -
  obtain a where "get_mut g (nodes c) i f = Some a" "wf_pa g a" "capacity g a = capacity g (nodes c)"
    "get g a = (get g (nodes c))(i := map_option f (get g (nodes c) i))"
    using pa.updE [OF assms(1), of i f] assms(2) unfolding cdt_cap_def by metis
  then show thesis
    by (intro that [of "c\<lparr>nodes := a\<rparr>"]) (simp_all add: upd_node_def cdt_cap_def node_at_def)
qed

interpretation cdt: indexed_store "cdt_wf g" "cdt_cap g" "node_at g" "upd_node g" for g :: cdt_cfg
proof
  fix c :: Cdt and i f
  assume wf: "cdt_wf g c"
  show "node_at g c i \<noteq> None \<longleftrightarrow> i < cdt_cap g c"
    using pa.item_iff [OF wf] by (simp add: node_at_def cdt_cap_def)
  show "\<exists>s'. upd_node g c i f = Some s' \<and> cdt_wf g s' \<and> cdt_cap g s' = cdt_cap g c \<and>
      node_at g s' = (node_at g c)(i := map_option f (node_at g c i))" if "i < cdt_cap g c"
    using upd_nodeE [OF wf that, of f] by metis
  show "upd_node g c i f = None" if "cdt_cap g c \<le> i"
    using pa.upd_None [OF wf, of i f] that by (simp add: upd_node_def cdt_cap_def)
qed

definition cfg_ok :: "cdt_cfg \<Rightarrow> bool" where
  "cfg_ok g \<longleftrightarrow> 0 < items_per_page g \<and> dir_slots g * items_per_page g \<le> U32_MAX \<and> zeroed g = zero_node"

lemma idx_not_NONE:
  assumes "cfg_ok g" "cdt_wf g c" "i < cdt_cap g c"
  shows "i \<noteq> CDT_NONE" "i < 4294967296" "as_u32 i = i"
proof -
  have "i < U32_MAX" using assms capacity_bound [OF assms(2)] by (simp add: cfg_ok_def cdt_cap_def)
  then show "i \<noteq> CDT_NONE" "i < 4294967296" "as_u32 i = i" by (auto simp: CDT_NONE_def U32_MAX_def)
qed

section \<open>Forests and the free list\<close>

datatype rtree = RNode (rid: nat) (rinfo: "CapType \<times> nat \<times> nat \<times> nat") (rkids: "rtree list")

fun hd_id :: "rtree list \<Rightarrow> nat" where
  "hd_id [] = CDT_NONE"
| "hd_id (t # ts) = rid t"

fun idxs :: "rtree list \<Rightarrow> nat list" where
  "idxs [] = []"
| "idxs (RNode i d ks # ts) = i # idxs ks @ idxs ts"

definition info_of :: "CdtNode \<Rightarrow> CapType \<times> nat \<times> nat \<times> nat" where
  "info_of n = (n_cap_type n, n_object n, task_id n, slot_index n)"

text \<open>The node of a tree is linked to its parent, its next sibling and its first child.\<close>

definition node_ok :: "CdtNode \<Rightarrow> nat \<Rightarrow> nat \<Rightarrow> CapType \<times> nat \<times> nat \<times> nat \<Rightarrow> rtree list \<Rightarrow> bool" where
  "node_ok n par nxt d ks \<longleftrightarrow>
     active n \<and> parent n = par \<and> next_sibling n = nxt \<and> first_child n = hd_id ks \<and> info_of n = d"

text \<open>
  A sibling list: the trees \<open>ts\<close> hang below \<open>par\<close>. The roots (\<open>rt\<close>) are not linked to each other.
\<close>

fun repr :: "(nat \<Rightarrow> CdtNode option) \<Rightarrow> bool \<Rightarrow> nat \<Rightarrow> rtree list \<Rightarrow> bool" where
  "repr nd rt par [] \<longleftrightarrow> True"
| "repr nd rt par (RNode i d ks # ts) \<longleftrightarrow>
     (\<exists>n. nd i = Some n \<and> node_ok n par (if rt then CDT_NONE else hd_id ts) d ks) \<and>
     repr nd False i ks \<and> repr nd rt par ts"

fun free_chain :: "(nat \<Rightarrow> CdtNode option) \<Rightarrow> nat \<Rightarrow> nat list \<Rightarrow> bool" where
  "free_chain nd x [] \<longleftrightarrow> x = CDT_NONE"
| "free_chain nd x (i # fs) \<longleftrightarrow> x = i \<and> (\<exists>n. nd i = Some n \<and> \<not> active n \<and> free_chain nd (next_sibling n) fs)"

definition cdt_inv :: "cdt_cfg \<Rightarrow> Cdt \<Rightarrow> nat list \<Rightarrow> rtree list \<Rightarrow> bool" where
  "cdt_inv g c fs rs \<longleftrightarrow>
     cdt_wf g c \<and> free_chain (node_at g c) (free_head c) fs \<and> repr (node_at g c) True CDT_NONE rs \<and>
     distinct (fs @ idxs rs) \<and> set (fs @ idxs rs) = {..<cdt_cap g c}"

definition forest_rel :: "cdt_cfg \<Rightarrow> Cdt \<Rightarrow> rtree list \<Rightarrow> bool" where
  "forest_rel g c rs \<longleftrightarrow> (\<exists>fs. cdt_inv g c fs rs)"

lemma idxs_append [simp]: "idxs (ts @ us) = idxs ts @ idxs us"
  by (induction ts rule: idxs.induct) auto

lemma idxs_Cons: "idxs (t # ts) = idxs [t] @ idxs ts"
  by (cases t) simp

lemma rid_in_idxs: "rid t \<in> set (idxs [t])"
  by (cases t) simp

lemma repr_cong: "(\<And>j. j \<in> set (idxs ts) \<Longrightarrow> nd j = nd' j) \<Longrightarrow> repr nd rt par ts = repr nd' rt par ts"
  by (induction ts arbitrary: rt par rule: idxs.induct) auto

lemma repr_nodes: "repr nd rt par ts \<Longrightarrow> j \<in> set (idxs ts) \<Longrightarrow> \<exists>n. nd j = Some n \<and> active n"
  by (induction ts arbitrary: rt par rule: idxs.induct) (auto simp: node_ok_def)

lemma free_chain_cong: "(\<And>j. j \<in> set fs \<Longrightarrow> nd j = nd' j) \<Longrightarrow> free_chain nd x fs = free_chain nd' x fs"
  by (induction fs arbitrary: x) auto

lemma repr_keep: "repr nd rt par ts \<Longrightarrow> (\<And>j. j \<in> set (idxs ts) \<Longrightarrow> nd' j = nd j) \<Longrightarrow> repr nd' rt par ts"
  using repr_cong [of ts nd nd'] by simp

lemma free_chain_keep: "free_chain nd x fs \<Longrightarrow> (\<And>j. j \<in> set fs \<Longrightarrow> nd' j = nd j) \<Longrightarrow> free_chain nd' x fs"
  using free_chain_cong [of fs nd nd'] by simp

lemma free_chain_nodes: "free_chain nd x fs \<Longrightarrow> j \<in> set fs \<Longrightarrow> \<exists>n. nd j = Some n \<and> \<not> active n"
  by (induction fs arbitrary: x) auto

section \<open>Allocating and freeing nodes\<close>

definition chain_link :: "nat \<Rightarrow> nat \<Rightarrow> CdtNode \<Rightarrow> CdtNode" where
  "chain_link hi i n = n\<lparr>next_sibling := (if i + 1 < hi then as_u32 (i + 1) else CDT_NONE)\<rparr>"

lemma chain_free_range: "chain_free g lo hi c = cdt.upd_range g (chain_link hi) [lo..<hi] c"
proof (induction g lo hi c rule: chain_free.induct)
  case (1 g i hi c)
  then show ?case
    by (subst chain_free.simps) (auto simp: chain_link_def [abs_def] upt_conv_Cons split: bind_split)
qed

lemma upd_range_free_head:
  "cdt.upd_range g f is c = Some c' \<Longrightarrow> free_head c' = free_head c"
  by (induction "is" arbitrary: c) (auto simp: upd_node_def split: bind_splits)

lemma chain_freeE:
  assumes "cdt_wf g c" "hi \<le> cdt_cap g c"
  obtains c' where "chain_free g lo hi c = Some c'" "cdt_wf g c'" "cdt_cap g c' = cdt_cap g c"
    "\<And>j. node_at g c' j = (if lo \<le> j \<and> j < hi then map_option (chain_link hi j) (node_at g c j) else node_at g c j)"
  using cdt.upd_range_spec [OF assms(1), of "[lo..<hi]" "chain_link hi"] assms(2)
  by (auto simp: chain_free_range)

lemma free_chain_upt:
  assumes "\<And>j. lo \<le> j \<Longrightarrow> j < hi \<Longrightarrow>
      \<exists>n. nd j = Some n \<and> \<not> active n \<and> next_sibling n = (if j + 1 < hi then j + 1 else CDT_NONE)"
    and "lo < hi"
  shows "free_chain nd lo [lo..<hi]"
  using assms
proof (induction "hi - lo" arbitrary: lo)
  case (Suc k)
  obtain n where n: "nd lo = Some n" "\<not> active n" "next_sibling n = (if lo + 1 < hi then lo + 1 else CDT_NONE)"
    using Suc.prems by blast
  have "free_chain nd (next_sibling n) [Suc lo..<hi]"
  proof (cases "lo + 1 < hi")
    case True
    have "free_chain nd (Suc lo) [Suc lo..<hi]"
    proof (rule Suc.hyps(1))
      show "\<exists>n. nd j = Some n \<and> \<not> active n \<and> next_sibling n = (if j + 1 < hi then j + 1 else CDT_NONE)"
        if "Suc lo \<le> j" "j < hi" for j
        using Suc.prems(1) [of j] that by simp
    qed (use Suc True in simp_all)
    then show ?thesis using n True by simp
  qed (use n in simp)
  then show ?case using n Suc.prems(2) by (simp add: upt_conv_Cons)
qed simp

text \<open>Growing an exhausted tree by at least one page makes the new nodes the free list.\<close>

lemma grow_nodes:
  assumes cfg: "cfg_ok g" and wf: "cdt_wf g c"
    and e: "ensure_capacity g (nodes c) (cdt_cap g c + 1) os = (True, a, os')"
  obtains c1 where "chain_free g (cdt_cap g c) (capacity g a) (c\<lparr>nodes := a\<rparr>) = Some c1" "cdt_wf g c1"
    "cdt_cap g c1 = capacity g a" "cdt_cap g c < capacity g a"
    "free_chain (node_at g c1) (cdt_cap g c) [cdt_cap g c..<capacity g a]"
    "\<And>j. j < cdt_cap g c \<Longrightarrow> node_at g c1 j = node_at g c j"
proof -
  let ?c = "c\<lparr>nodes := a\<rparr>" and ?lo = "cdt_cap g c" and ?hi = "capacity g a"
  note spec = ensure_capacity_spec [OF wf e]
  have wf': "cdt_wf g ?c" and cap: "cdt_cap g ?c = ?hi" and lohi: "?lo < ?hi"
    using spec(1,3) by (simp_all add: cdt_cap_def)
  have old: "node_at g ?c j = (if ?lo \<le> j \<and> j < ?hi then Some zero_node else node_at g c j)" for j
    using spec(4) cfg by (simp add: node_at_def cdt_cap_def cfg_ok_def)
  obtain c1 where c1: "chain_free g ?lo ?hi ?c = Some c1" "cdt_wf g c1" "cdt_cap g c1 = ?hi"
    "\<And>j. node_at g c1 j = (if ?lo \<le> j \<and> j < ?hi then map_option (chain_link ?hi j) (node_at g ?c j) else node_at g ?c j)"
    using chain_freeE [OF wf', of ?hi ?lo] cap by auto
  have "free_chain (node_at g c1) ?lo [?lo..<?hi]"
  proof (rule free_chain_upt [OF _ lohi])
    fix j assume j: "?lo \<le> j" "j < ?hi"
    have "as_u32 (j + 1) = j + 1" if "j + 1 < ?hi"
      using idx_not_NONE(3) [OF cfg c1(2)] that c1(3) by simp
    with j show "\<exists>n. node_at g c1 j = Some n \<and> \<not> active n \<and> next_sibling n = (if j + 1 < ?hi then j + 1 else CDT_NONE)"
      by (auto simp: c1(4) old chain_link_def zero_node_def)
  qed
  with c1 lohi show thesis by (intro that [of c1]) (auto simp: old)
qed

lemma take_freeE:
  assumes "cdt_wf g c" "free_chain (node_at g c) (free_head c) (i # fs)" "i \<notin> set fs"
  obtains c' where "take_free g c = Some (i, c')" "cdt_wf g c'" "cdt_cap g c' = cdt_cap g c"
    "free_chain (node_at g c') (free_head c') fs" "node_at g c' = (node_at g c)(i \<mapsto> empty_node)"
proof -
  from assms(2) obtain n where n: "free_head c = i" "node_at g c i = Some n"
    "free_chain (node_at g c) (next_sibling n) fs" by auto
  then have i: "i < cdt_cap g c" using cdt.item_iff [OF assms(1), of i] by simp
  let ?c = "c\<lparr>free_head := next_sibling n\<rparr>"
  have "cdt_wf g ?c" "i < cdt_cap g ?c" using assms(1) i by simp_all
  from upd_nodeE [OF this, of "\<lambda>_. empty_node"] obtain c' where c': "upd_node g ?c i (\<lambda>_. empty_node) = Some c'"
    "cdt_wf g c'" "cdt_cap g c' = cdt_cap g ?c" "free_head c' = free_head ?c"
    "node_at g c' = (node_at g ?c)(i := map_option (\<lambda>_. empty_node) (node_at g ?c i))" by metis
  have "free_chain (node_at g c') (next_sibling n) fs"
    using n(3) by (rule free_chain_cong [THEN iffD1, rotated]) (use c'(5) assms(3) in auto)
  then show thesis using c' n by (intro that [of c']) (simp_all add: take_free_def)
qed

lemma alloc_nodeE:
  assumes cfg: "cfg_ok g" and wf: "cdt_wf g c" and fc: "free_chain (node_at g c) (free_head c) fs"
    and dist: "distinct fs" and part: "set fs \<union> A = {..<cdt_cap g c}" "set fs \<inter> A = {}"
  obtains (full) c' os' where "alloc_node g c os = Some (None, c', os')" "cdt_wf g c'"
      "cdt_cap g c' = cdt_cap g c" "free_head c' = free_head c" "node_at g c' = node_at g c"
    | (ok) i c' os' fs' where "alloc_node g c os = Some (Some i, c', os')" "cdt_wf g c'"
      "free_chain (node_at g c') (free_head c') fs'" "distinct (i # fs')" "i \<notin> A" "set fs' \<inter> A = {}"
      "insert i (set fs' \<union> A) = {..<cdt_cap g c'}" "\<And>j. j \<in> A \<Longrightarrow> node_at g c' j = node_at g c j"
      "node_at g c' i = Some empty_node"
proof (cases fs)
  case (Cons i fs')
  have i: "i < cdt_cap g c" using part(1) Cons by auto
  have fh: "free_head c = i" using fc Cons by simp
  obtain c' where c': "take_free g c = Some (i, c')" "cdt_wf g c'" "cdt_cap g c' = cdt_cap g c"
    "free_chain (node_at g c') (free_head c') fs'" "node_at g c' = (node_at g c)(i \<mapsto> empty_node)"
    using take_freeE [OF wf, of i fs'] fc dist Cons by auto
  have "alloc_node g c os = Some (Some i, c', os)"
    using idx_not_NONE(1) [OF cfg wf i] fh c'(1) by (simp add: alloc_node_def)
  then show thesis
    by (rule ok) (use c' Cons dist part in auto)
next
  case Nil
  then have fh: "free_head c = CDT_NONE" using fc by simp
  have A: "A = {..<cdt_cap g c}" using part Nil by simp
  obtain b a os' where e: "ensure_capacity g (nodes c) (cdt_cap g c + 1) os = (b, a, os')" by (rule prod_cases3)
  show thesis
  proof (cases b)
    case False
    have e: "ensure_capacity g (nodes c) (cdt_cap g c + 1) os = (False, a, os')" using e False by simp
    note spec = ensure_capacity_spec [OF wf e]
    have "capacity g a = cdt_cap g c"
      using ensure_capacity_fail [OF wf e] spec(2) by (simp add: cdt_cap_def)
    then show thesis
      using fh e False spec(1,4) by (intro full [of "c\<lparr>nodes := a\<rparr>" os'])
        (auto simp: alloc_node_def cdt_cap_def node_at_def fun_eq_iff)
  next
    case True
    have e: "ensure_capacity g (nodes c) (cdt_cap g c + 1) os = (True, a, os')" using e True by simp
    let ?lo = "cdt_cap g c" and ?hi = "capacity g a"
    obtain c1 where c1: "chain_free g ?lo ?hi (c\<lparr>nodes := a\<rparr>) = Some c1" "cdt_wf g c1"
      "cdt_cap g c1 = ?hi" "?lo < ?hi" "free_chain (node_at g c1) ?lo [?lo..<?hi]"
      "\<And>j. j < ?lo \<Longrightarrow> node_at g c1 j = node_at g c j"
      using grow_nodes [OF cfg wf e] by metis
    have lo: "as_u32 ?lo = ?lo" using idx_not_NONE(3) [OF cfg c1(2)] c1(3,4) by simp
    let ?c1 = "c1\<lparr>free_head := ?lo\<rparr>"
    have "cdt_wf g ?c1" "free_chain (node_at g ?c1) (free_head ?c1) (?lo # [Suc ?lo..<?hi])"
      using c1 by (simp_all add: upt_conv_Cons)
    from take_freeE [OF this] obtain c2 where c2: "take_free g ?c1 = Some (?lo, c2)" "cdt_wf g c2"
      "cdt_cap g c2 = cdt_cap g ?c1" "free_chain (node_at g c2) (free_head c2) [Suc ?lo..<?hi]"
      "node_at g c2 = (node_at g ?c1)(?lo \<mapsto> empty_node)" by auto
    have "alloc_node g c os = Some (Some ?lo, c2, os')"
      using fh e c1(1) c2(1) lo by (simp add: alloc_node_def Let_def)
    then show thesis
      by (rule ok) (use c1 c2 A in auto)
  qed
qed

lemma free_nodeE:
  assumes wf: "cdt_wf g c" and i: "i < cdt_cap g c" and fc: "free_chain (node_at g c) (free_head c) fs" "i \<notin> set fs"
  obtains c' where "free_node g c i = Some c'" "cdt_wf g c'" "cdt_cap g c' = cdt_cap g c"
    "free_chain (node_at g c') (free_head c') (i # fs)" "\<And>j. j \<noteq> i \<Longrightarrow> node_at g c' j = node_at g c j"
proof -
  obtain n where n: "node_at g c i = Some n" using cdt.itemE [OF wf i] .
  obtain c1 where c1: "upd_node g c i (\<lambda>_. empty_node) = Some c1" "cdt_wf g c1" "cdt_cap g c1 = cdt_cap g c"
    "free_head c1 = free_head c" "node_at g c1 = (node_at g c)(i := map_option (\<lambda>_. empty_node) (node_at g c i))"
    using upd_nodeE [OF wf i, of "\<lambda>_. empty_node"] by metis
  let ?f = "\<lambda>n :: CdtNode. n\<lparr>next_sibling := free_head c1\<rparr>"
  have "i < cdt_cap g c1" using i c1(3) by simp
  from upd_nodeE [OF c1(2) this, of ?f] obtain c2 where c2: "upd_node g c1 i ?f = Some c2" "cdt_wf g c2"
    "cdt_cap g c2 = cdt_cap g c1" "free_head c2 = free_head c1"
    "node_at g c2 = (node_at g c1)(i := map_option ?f (node_at g c1 i))" by metis
  have "free_chain (node_at g c2) (free_head c) fs"
    using fc(1) by (rule free_chain_cong [THEN iffD1, rotated]) (use c1(5) c2(5) fc(2) in auto)
  then show thesis
    using c1 c2 n by (intro that [of "c2\<lparr>free_head := i\<rparr>"]) (simp_all add: free_node_def empty_node_def)
qed

section \<open>Revocation\<close>

lemma revoke_loop_spec:
  assumes "cfg_ok g" "cdt_wf g c" "repr (node_at g c) False par ts" "distinct (idxs ts)"
    and "free_chain (node_at g c) (free_head c) fs" "distinct fs" "set (idxs ts) \<inter> set fs = {}"
  shows "\<exists>c' fs'. revoke_loop g (hd_id ts) k c = Some (k + length (idxs ts), c') \<and> cdt_wf g c' \<and>
    cdt_cap g c' = cdt_cap g c \<and> free_chain (node_at g c') (free_head c') fs' \<and> distinct fs' \<and>
    set fs' = set fs \<union> set (idxs ts) \<and> (\<forall>j. j \<notin> set (idxs ts) \<longrightarrow> node_at g c' j = node_at g c j)"
  using assms
proof (induction ts arbitrary: par c fs k rule: idxs.induct)
  case 1
  then show ?case by (auto simp: revoke_loop.simps [of g CDT_NONE])
next
  case (2 i d ks ts)
  from 2(5) obtain n where n: "node_at g c i = Some n" "next_sibling n = hd_id ts" "first_child n = hd_id ks"
    "repr (node_at g c) False i ks" "repr (node_at g c) False par ts" by (auto simp: node_ok_def)
  have i: "i < cdt_cap g c" using n(1) cdt.item_iff [OF 2(4), of i] by simp
  from 2(1) [OF 2(3) 2(4) n(4) _ 2(7) 2(8), of 1] 2(6,9) obtain c1 fs1 where
    c1: "revoke_loop g (hd_id ks) 1 c = Some (1 + length (idxs ks), c1)" "cdt_wf g c1"
    "cdt_cap g c1 = cdt_cap g c" "free_chain (node_at g c1) (free_head c1) fs1" "distinct fs1"
    "set fs1 = set fs \<union> set (idxs ks)" "\<And>j. j \<notin> set (idxs ks) \<Longrightarrow> node_at g c1 j = node_at g c j" by auto
  have "i < cdt_cap g c1" "i \<notin> set fs1" using i c1(3,6) 2(6,9) by auto
  from free_nodeE [OF c1(2) this(1) c1(4) this(2)] obtain c2 where
    c2: "free_node g c1 i = Some c2" "cdt_wf g c2" "cdt_cap g c2 = cdt_cap g c1"
    "free_chain (node_at g c2) (free_head c2) (i # fs1)" "\<And>j. j \<noteq> i \<Longrightarrow> node_at g c2 j = node_at g c1 j" by metis
  have "repr (node_at g c2) False par ts"
    using n(5) by (rule repr_cong [THEN iffD1, rotated]) (use c1(7) c2(5) 2(6) in \<open>force simp: disjoint_iff\<close>)
  moreover have "distinct (idxs ts)" "distinct (i # fs1)" using 2(6,9) c1(5,6) by auto
  moreover have "set (idxs ts) \<inter> set (i # fs1) = {}" using 2(6,9) c1(6) by (simp add: disjoint_iff) blast
  ultimately obtain c3 fs3 where
    "revoke_loop g (hd_id ts) (k + (1 + length (idxs ks))) c2 = Some (k + (1 + length (idxs ks)) + length (idxs ts), c3)"
    "cdt_wf g c3" "cdt_cap g c3 = cdt_cap g c2" "free_chain (node_at g c3) (free_head c3) fs3" "distinct fs3"
    "set fs3 = set (i # fs1) \<union> set (idxs ts)" "\<And>j. j \<notin> set (idxs ts) \<Longrightarrow> node_at g c3 j = node_at g c2 j"
    using 2(2) [OF 2(3) c2(2) _ _ c2(4), of par "k + (1 + length (idxs ks))"] by blast
  moreover from this have "revoke_loop g i k c = Some (k + length (idxs (RNode i d ks # ts)), c3)"
    using idx_not_NONE(1) [OF 2(3,4) i] n c1(1) c2(1)
    by (subst revoke_loop.simps) (simp add: add.assoc)
  ultimately show ?case using c1 c2 by (intro exI [of _ c3] exI [of _ fs3]) auto
qed

section \<open>Operations on forests\<close>

fun kids_of :: "nat \<Rightarrow> rtree list \<Rightarrow> rtree list" where
  "kids_of q [] = []"
| "kids_of q (RNode i d ks # ts) = (if i = q then ks else kids_of q ks @ kids_of q ts)"

fun set_kids :: "nat \<Rightarrow> rtree list \<Rightarrow> rtree list \<Rightarrow> rtree list" where
  "set_kids q new [] = []"
| "set_kids q new (RNode i d ks # ts) =
     RNode i d (if i = q then new else set_kids q new ks) # set_kids q new ts"

fun drop_tree :: "nat \<Rightarrow> rtree list \<Rightarrow> rtree list" where
  "drop_tree q [] = []"
| "drop_tree q (RNode i d ks # ts) = (if i = q then ts else RNode i d (drop_tree q ks) # drop_tree q ts)"

fun info_at :: "nat \<Rightarrow> rtree list \<Rightarrow> (CapType \<times> nat \<times> nat \<times> nat) option" where
  "info_at q [] = None"
| "info_at q (RNode i d ks # ts) =
     (if i = q then Some d else case info_at q ks of Some e \<Rightarrow> Some e | None \<Rightarrow> info_at q ts)"

lemma kids_of_notin: "q \<notin> set (idxs ts) \<Longrightarrow> kids_of q ts = []"
  by (induction ts rule: idxs.induct) auto

lemma set_kids_notin [simp]: "q \<notin> set (idxs ts) \<Longrightarrow> set_kids q new ts = ts"
  by (induction ts rule: idxs.induct) auto

lemma drop_tree_notin [simp]: "q \<notin> set (idxs ts) \<Longrightarrow> drop_tree q ts = ts"
  by (induction ts rule: idxs.induct) auto

lemma kids_of_subset: "set (idxs (kids_of q ts)) \<subseteq> set (idxs ts)"
  by (induction ts rule: idxs.induct) auto

lemma hd_id_set_kids [simp]: "hd_id (set_kids q new ts) = hd_id ts"
  by (cases ts rule: idxs.cases) auto

lemma mset_set_kids:
  "q \<in> set (idxs ts) \<Longrightarrow> distinct (idxs ts) \<Longrightarrow>
   mset (idxs (set_kids q new ts)) + mset (idxs (kids_of q ts)) = mset (idxs ts) + mset (idxs new)"
proof (induction ts rule: idxs.induct)
  case (2 i d ks ts)
  consider "i = q" | "i \<noteq> q" "q \<in> set (idxs ks)" "q \<notin> set (idxs ts)" | "i \<noteq> q" "q \<notin> set (idxs ks)" "q \<in> set (idxs ts)"
    using 2(3,4) by auto
  then show ?case
    by cases (use 2 in \<open>auto simp: kids_of_notin ac_simps\<close>)
qed simp

lemma distinct_kids: "distinct (idxs ts) \<Longrightarrow> distinct (idxs (kids_of q ts)) \<and> q \<notin> set (idxs (kids_of q ts))"
proof (induction ts rule: idxs.induct)
  case (2 i d ks ts)
  then show ?case using kids_of_subset [of q ks] kids_of_subset [of q ts] by auto
qed simp

lemma repr_kids:
  assumes "repr nd rt par ts" "q \<in> set (idxs ts)" "distinct (idxs ts)"
  shows "\<exists>n. nd q = Some n \<and> active n \<and> first_child n = hd_id (kids_of q ts) \<and> repr nd False q (kids_of q ts)"
  using assms
proof (induction ts arbitrary: rt par rule: idxs.induct)
  case (2 i d ks ts)
  consider "i = q" | "i \<noteq> q" "q \<in> set (idxs ks)" "q \<notin> set (idxs ts)" | "i \<noteq> q" "q \<notin> set (idxs ks)" "q \<in> set (idxs ts)"
    using 2(4,5) by auto
  then show ?case
  proof cases
    case 1
    then show ?thesis using 2(3) by (auto simp: node_ok_def)
  next
    case c: 2
    then show ?thesis using 2(1) [of False i] 2(3,5) by (auto simp: kids_of_notin)
  next
    case c: 3
    then show ?thesis using 2(2) [of rt par] 2(3,5) by (auto simp: kids_of_notin)
  qed
qed simp

text \<open>
  Replacing the children of one node: what every structural change of the tree amounts to.
\<close>

lemma repr_set_kids:
  assumes "repr nd rt par ts" "q \<in> set (idxs ts)" "distinct (idxs ts)"
    and "repr nd' False q new"
    and "nd' q = map_option (\<lambda>n. n\<lparr>first_child := hd_id new\<rparr>) (nd q)"
    and "\<And>j. j \<in> set (idxs ts) \<Longrightarrow> j \<noteq> q \<Longrightarrow> j \<notin> set (idxs (kids_of q ts)) \<Longrightarrow> nd' j = nd j"
  shows "repr nd' rt par (set_kids q new ts)"
  using assms
proof (induction ts arbitrary: rt par rule: idxs.induct)
  case (2 i d ks ts)
  note agree = 2(8)
  consider "i = q" "q \<notin> set (idxs ks)" "q \<notin> set (idxs ts)"
    | "i \<noteq> q" "q \<in> set (idxs ks)" "q \<notin> set (idxs ts)" | "i \<noteq> q" "q \<notin> set (idxs ks)" "q \<in> set (idxs ts)"
    using 2(4,5) by auto
  then show ?case
  proof cases
    case 1
    have "repr nd' rt par ts"
      by (rule repr_cong [THEN iffD1, of ts nd])
        (use 2(3,5) 1 in \<open>auto simp: disjoint_iff intro!: agree [symmetric]\<close>)
    then show ?thesis using 1 2(3,6,7) by (auto simp: node_ok_def info_of_def)
  next
    case c: 2
    have i: "nd' i = nd i" using agree [of i] c 2(5) kids_of_subset [of q ks] by (auto simp: kids_of_notin)
    have "repr nd' rt par ts"
      by (rule repr_cong [THEN iffD1, of ts nd])
        (use 2(3,5) c kids_of_subset [of q ks] in \<open>auto simp: kids_of_notin intro!: agree [symmetric]\<close>)
    moreover have "repr nd' False i (set_kids q new ks)"
      by (rule 2(1)) (use 2 c in \<open>auto simp: kids_of_notin\<close>)
    ultimately show ?thesis using i c 2(3) by (auto simp: node_ok_def)
  next
    case c: 3
    have i: "nd' i = nd i" using agree [of i] c 2(5) kids_of_subset [of q ts] by (auto simp: kids_of_notin)
    have "repr nd' False i ks"
      by (rule repr_cong [THEN iffD1, of ks nd])
        (use 2(3,5) c kids_of_subset [of q ts] in \<open>auto simp: kids_of_notin intro!: agree [symmetric]\<close>)
    moreover have "repr nd' rt par (set_kids q new ts)"
      by (rule 2(2)) (use 2 c in \<open>auto simp: kids_of_notin\<close>)
    ultimately show ?thesis using i c 2(3) by (auto simp: node_ok_def)
  qed
qed simp

lemma part_mset: "distinct xs \<and> set xs = {..<n} \<longleftrightarrow> mset xs = mset [0..<n]"
proof
  assume "distinct xs \<and> set xs = {..<n}"
  then show "mset xs = mset [0..<n]"
    using set_eq_iff_mset_eq_distinct [of xs "[0..<n]"] by (simp add: lessThan_atLeast0)
next
  assume m: "mset xs = mset [0..<n]"
  show "distinct xs \<and> set xs = {..<n}"
    using mset_eq_imp_distinct_iff [OF m] mset_eq_setD [OF m] by (simp add: lessThan_atLeast0)
qed

lemma cdt_invI:
  assumes "cdt_wf g c" "free_chain (node_at g c) (free_head c) fs" "repr (node_at g c) True CDT_NONE rs"
    and "mset fs + mset (idxs rs) = mset [0..<cdt_cap g c]"
  shows "cdt_inv g c fs rs"
  using assms part_mset [of "fs @ idxs rs" "cdt_cap g c"] by (simp add: cdt_inv_def)

lemma cdt_invD:
  assumes "cdt_inv g c fs rs"
  shows "cdt_wf g c" "free_chain (node_at g c) (free_head c) fs" "repr (node_at g c) True CDT_NONE rs"
    and "mset fs + mset (idxs rs) = mset [0..<cdt_cap g c]" "distinct fs" "distinct (idxs rs)"
    and "set fs \<inter> set (idxs rs) = {}" "set fs \<union> set (idxs rs) = {..<cdt_cap g c}"
proof -
  have d: "distinct (fs @ idxs rs)" "set (fs @ idxs rs) = {..<cdt_cap g c}" using assms by (simp_all add: cdt_inv_def)
  then show "mset fs + mset (idxs rs) = mset [0..<cdt_cap g c]"
    using iffD1 [OF part_mset, of "fs @ idxs rs" "cdt_cap g c"] unfolding mset_append by blast
  show "distinct fs" "distinct (idxs rs)" "set fs \<inter> set (idxs rs) = {}" using d(1) by auto
  show "set fs \<union> set (idxs rs) = {..<cdt_cap g c}" using d(2) by simp
  show "cdt_wf g c" "free_chain (node_at g c) (free_head c) fs" "repr (node_at g c) True CDT_NONE rs"
    using assms unfolding cdt_inv_def by blast+
qed

lemma is_active_iff:
  assumes "cdt_inv g c fs rs"
  shows "is_active g c i \<longleftrightarrow> i \<in> set (idxs rs)"
proof -
  note inv = cdt_invD [OF assms]
  show ?thesis
  proof (cases "i \<in> set (idxs rs)")
    case True
    then have "i < cdt_cap g c" using inv(8) by blast
    then show ?thesis using True repr_nodes [OF inv(3) True] by (auto simp: is_active_def)
  next
    case False
    then have "i < cdt_cap g c \<Longrightarrow> i \<in> set fs" using inv(8) by blast
    then show ?thesis using False free_chain_nodes [OF inv(2), of i] by (auto simp: is_active_def)
  qed
qed

lemma info_at_notin: "q \<notin> set (idxs ts) \<Longrightarrow> info_at q ts = None"
  by (induction ts rule: idxs.induct) auto

lemma info_at_in: "q \<in> set (idxs ts) \<Longrightarrow> \<exists>d. info_at q ts = Some d"
  by (induction ts rule: idxs.induct) (auto split: option.splits)

lemma repr_info:
  "repr nd rt par ts \<Longrightarrow> q \<in> set (idxs ts) \<Longrightarrow> \<exists>n. nd q = Some n \<and> info_at q ts = Some (info_of n)"
proof (induction ts arbitrary: rt par rule: idxs.induct)
  case (2 i d ks ts)
  show ?case
  proof (cases "i = q")
    case True
    then show ?thesis using 2(3) by (auto simp: node_ok_def)
  next
    case False
    then show ?thesis
    proof (cases "q \<in> set (idxs ks)")
      case True
      then show ?thesis using False 2(1) [of False i] 2(3) by auto
    next
      case no: False
      then show ?thesis using False 2(2) [of rt par] 2(3,4) by (auto simp: info_at_notin)
    qed
  qed
qed simp

section \<open>The operations on forests\<close>

lemma new_cdt_inv: "cdt_inv g new_cdt [] []"
  by (simp add: cdt_inv_def new_cdt_def cdt_cap_def)

lemma insert_root_spec:
  assumes cfg: "cfg_ok g" and inv: "cdt_inv g c fs rs"
  shows "\<exists>r c' os'. insert_root g c cap tid slot os = Some (r, c', os') \<and>
    (case r of None \<Rightarrow> cdt_inv g c' fs rs
     | Some i \<Rightarrow> i \<notin> set (idxs rs) \<and>
         (\<exists>fs'. cdt_inv g c' fs' (RNode i (cap_type cap, object cap, tid, slot) [] # rs)))"
proof -
  note inv' = cdt_invD [OF inv]
  from cfg inv'(1,2,5,8,7) show ?thesis
  proof (cases rule: alloc_nodeE [where os = os])
    case (full c' os')
    then have "cdt_inv g c' fs rs" using inv' by (simp add: cdt_inv_def)
    with full(1) show ?thesis by (auto simp: insert_root_def)
  next
    case (ok i c1 os' fs')
    let ?f = "\<lambda>n. n\<lparr>n_cap_type := cap_type cap, n_object := object cap,
                 parent := CDT_NONE, first_child := CDT_NONE, next_sibling := CDT_NONE,
                 task_id := tid, slot_index := slot, active := True\<rparr>"
    have i: "i < cdt_cap g c1" using ok(7) by auto
    obtain c2 where c2: "upd_node g c1 i ?f = Some c2" "cdt_wf g c2" "cdt_cap g c2 = cdt_cap g c1"
      "free_head c2 = free_head c1" "node_at g c2 = (node_at g c1)(i := map_option ?f (node_at g c1 i))"
      using upd_nodeE [OF ok(2) i, of ?f] by metis
    have "free_chain (node_at g c2) (free_head c2) fs'"
      unfolding c2(4) by (rule free_chain_keep [OF ok(3)]) (use ok(4) c2(5) in auto)
    moreover have "repr (node_at g c2) True CDT_NONE rs"
      by (rule repr_keep [OF inv'(3)]) (use ok(5,8) c2(5) in auto)
    moreover have "distinct (fs' @ i # idxs rs)" "set (fs' @ i # idxs rs) = {..<cdt_cap g c2}"
      using ok(4-7) inv'(6) c2(3) by auto
    ultimately have "cdt_inv g c2 fs' (RNode i (cap_type cap, object cap, tid, slot) [] # rs)"
      using c2 ok(9) by (simp add: cdt_inv_def node_ok_def info_of_def)
    moreover have "insert_root g c cap tid slot os = Some (Some i, c2, os')"
      using ok(1) c2(1) by (simp add: insert_root_def)
    ultimately show ?thesis using ok(5) by auto
  qed
qed

lemma insert_root_room:
  assumes cfg: "cfg_ok g" and inv: "cdt_inv g c (i # fs) rs"
  shows "\<exists>c'. insert_root g c cap tid slot os = Some (Some i, c', os) \<and>
    cdt_inv g c' fs (RNode i (cap_type cap, object cap, tid, slot) [] # rs)"
proof -
  note inv' = cdt_invD [OF inv]
  have i: "i < cdt_cap g c" using inv'(8) by auto
  obtain c1 where c1: "take_free g c = Some (i, c1)" "cdt_wf g c1" "cdt_cap g c1 = cdt_cap g c"
    "free_chain (node_at g c1) (free_head c1) fs" "node_at g c1 = (node_at g c)(i \<mapsto> empty_node)"
    using take_freeE [OF inv'(1,2)] inv'(5) by auto
  let ?f = "\<lambda>n. n\<lparr>n_cap_type := cap_type cap, n_object := object cap,
                 parent := CDT_NONE, first_child := CDT_NONE, next_sibling := CDT_NONE,
                 task_id := tid, slot_index := slot, active := True\<rparr>"
  obtain c2 where c2: "upd_node g c1 i ?f = Some c2" "cdt_wf g c2" "cdt_cap g c2 = cdt_cap g c1"
    "free_head c2 = free_head c1" "node_at g c2 = (node_at g c1)(i := map_option ?f (node_at g c1 i))"
    using upd_nodeE [OF c1(2), of i ?f] i c1(3) by metis
  have "alloc_node g c os = Some (Some i, c1, os)"
    using idx_not_NONE(1) [OF cfg inv'(1) i] inv'(2) c1(1) by (simp add: alloc_node_def)
  then have "insert_root g c cap tid slot os = Some (Some i, c2, os)" using c2(1) by (simp add: insert_root_def)
  moreover have "cdt_inv g c2 fs (RNode i (cap_type cap, object cap, tid, slot) [] # rs)"
  proof (rule cdt_invI [OF c2(2)])
    show "free_chain (node_at g c2) (free_head c2) fs"
      unfolding c2(4) by (rule free_chain_keep [OF c1(4)]) (use inv'(5) c2(5) in auto)
    have "repr (node_at g c2) True CDT_NONE rs"
      by (rule repr_keep [OF inv'(3)]) (use inv'(7) c1(5) c2(5) in auto)
    then show "repr (node_at g c2) True CDT_NONE (RNode i (cap_type cap, object cap, tid, slot) [] # rs)"
      using c1(5) c2(5) by (simp add: node_ok_def info_of_def)
    show "mset fs + mset (idxs (RNode i (cap_type cap, object cap, tid, slot) [] # rs)) = mset [0..<cdt_cap g c2]"
      using inv'(4) c1(3) c2(3) by simp
  qed
  ultimately show ?thesis by blast
qed

lemma insert_derived_spec:
  assumes cfg: "cfg_ok g" and inv: "cdt_inv g c fs rs"
  shows "\<exists>r c' os'. insert_derived g c p cap tid slot os = Some (r, c', os') \<and>
    (p \<notin> set (idxs rs) \<longrightarrow> r = None) \<and>
    (case r of None \<Rightarrow> cdt_inv g c' fs rs
     | Some i \<Rightarrow> i \<notin> set (idxs rs) \<and>
         (\<exists>fs'. cdt_inv g c' fs' (set_kids p (RNode i (cap_type cap, object cap, tid, slot) [] # kids_of p rs) rs)))"
proof (cases "p \<in> set (idxs rs)")
  case False
  then show ?thesis using inv is_active_iff [OF inv] by (simp add: insert_derived_def)
next
  case p: True
  note inv' = cdt_invD [OF inv]
  have act: "is_active g c p" using p is_active_iff [OF inv] by simp
  from cfg inv'(1,2,5,8,7) show ?thesis
  proof (cases rule: alloc_nodeE [where os = os])
    case (full c' os')
    then have "cdt_inv g c' fs rs" using inv' by (simp add: cdt_inv_def)
    with full(1) act p show ?thesis by (auto simp: insert_derived_def)
  next
    case (ok i c1 os' fs')
    obtain pn where pn: "node_at g c p = Some pn" "first_child pn = hd_id (kids_of p rs)"
      "repr (node_at g c) False p (kids_of p rs)" using repr_kids [OF inv'(3) p inv'(6)] by auto
    have ip: "i \<noteq> p" and pf: "p \<notin> set fs'" using ok(5,6) p by auto
    let ?f = "\<lambda>n. n\<lparr>n_cap_type := cap_type cap, n_object := object cap,
                    parent := p, first_child := CDT_NONE, next_sibling := first_child pn,
                    task_id := tid, slot_index := slot, active := True\<rparr>"
    let ?g = "\<lambda>n :: CdtNode. n\<lparr>first_child := i\<rparr>"
    have i: "i < cdt_cap g c1" using ok(7) by auto
    obtain c2 where c2: "upd_node g c1 i ?f = Some c2" "cdt_wf g c2" "cdt_cap g c2 = cdt_cap g c1"
      "free_head c2 = free_head c1" "node_at g c2 = (node_at g c1)(i := map_option ?f (node_at g c1 i))"
      using upd_nodeE [OF ok(2) i, of ?f] by metis
    have "p < cdt_cap g c2" using ok(7) p c2(3) by auto
    from upd_nodeE [OF c2(2) this, of ?g] obtain c3 where c3: "upd_node g c2 p ?g = Some c3" "cdt_wf g c3"
      "cdt_cap g c3 = cdt_cap g c2" "free_head c3 = free_head c2"
      "node_at g c3 = (node_at g c2)(p := map_option ?g (node_at g c2 p))" by metis
    let ?t = "RNode i (cap_type cap, object cap, tid, slot) []" and ?nd = "node_at g c3"
    have agree: "?nd j = node_at g c j" if "j \<in> set (idxs rs)" "j \<noteq> p" for j
      using that ok(5,8) c2(5) c3(5) by auto
    have fc: "free_chain ?nd (free_head c3) fs'"
      unfolding c3(4) c2(4) by (rule free_chain_keep [OF ok(3)]) (use ok(4) pf c2(5) c3(5) in auto)
    note kids = distinct_kids [OF inv'(6), of p] kids_of_subset [of p rs]
    have "repr ?nd False p (kids_of p rs)"
      by (rule repr_keep [OF pn(3)]) (use kids in \<open>auto intro!: agree\<close>)
    then have new: "repr ?nd False p (?t # kids_of p rs)"
      using ip ok(9) c2(5) c3(5) pn(2) by (auto simp: node_ok_def info_of_def)
    have "repr ?nd True CDT_NONE (set_kids p (?t # kids_of p rs) rs)"
      by (rule repr_set_kids [OF inv'(3) p inv'(6) new]) (use agree ip p ok(8) c2(5) c3(5) in auto)
    moreover have "mset fs' + mset (idxs (set_kids p (?t # kids_of p rs) rs)) = mset [0..<cdt_cap g c3]"
    proof -
      have "distinct (fs' @ i # idxs rs)" "set (fs' @ i # idxs rs) = {..<cdt_cap g c3}"
        using ok(4-7) inv'(6) c2(3) c3(3) by auto
      then have "mset (fs' @ i # idxs rs) = mset [0..<cdt_cap g c3]" using part_mset by blast
      then show ?thesis using mset_set_kids [OF p inv'(6), of "?t # kids_of p rs"] by simp
    qed
    ultimately have "cdt_inv g c3 fs' (set_kids p (?t # kids_of p rs) rs)"
      using c3(2) fc by (intro cdt_invI)
    moreover have "insert_derived g c p cap tid slot os = Some (Some i, c3, os')"
      using act ok(1,8) p pn(1) c2(1) c3(1) by (simp add: insert_derived_def)
    ultimately show ?thesis using ok(5) p by auto
  qed
qed

lemma init_spec:
  assumes cfg: "cfg_ok g"
  shows "\<exists>c' os' fs'. init g new_cdt os = Some (c', os') \<and> cdt_inv g c' fs' []"
proof -
  obtain b a os' where e: "ensure_capacity g (nodes new_cdt) 1 os = (b, a, os')" by (rule prod_cases3)
  have wf: "cdt_wf g new_cdt" and cap: "cdt_cap g new_cdt = 0" by (simp_all add: new_cdt_def cdt_cap_def)
  note spec = ensure_capacity_spec [OF wf e]
  show ?thesis
  proof (cases b)
    case False
    then have "capacity g a < 1" using ensure_capacity_fail [OF wf, of 1 os a os'] e by simp
    then have "cdt_inv g (new_cdt\<lparr>nodes := a\<rparr>) [] []"
      using spec(1) by (simp add: cdt_inv_def cdt_cap_def new_cdt_def)
    then show ?thesis using False e by (auto simp: init_def)
  next
    case True
    then have "ensure_capacity g (nodes new_cdt) (cdt_cap g new_cdt + 1) os = (True, a, os')" using e cap by simp
    from grow_nodes [OF cfg wf this] obtain c1 where
      c1: "chain_free g 0 (capacity g a) (new_cdt\<lparr>nodes := a\<rparr>) = Some c1" "cdt_wf g c1"
      "cdt_cap g c1 = capacity g a" "free_chain (node_at g c1) 0 [0..<capacity g a]" by (metis cap)
    then have "cdt_inv g (c1\<lparr>free_head := 0\<rparr>) [0..<capacity g a] []"
      by (intro cdt_invI) simp_all
    moreover have "init g new_cdt os = Some (c1\<lparr>free_head := 0\<rparr>, os')"
      using True e c1(1) by (simp add: init_def)
    ultimately show ?thesis by blast
  qed
qed

lemma revoke_children_spec:
  assumes cfg: "cfg_ok g" and inv: "cdt_inv g c fs rs" and p: "p \<in> set (idxs rs)"
  shows "\<exists>c' fs'. revoke_children g p c = Some (length (idxs (kids_of p rs)), c') \<and>
    cdt_inv g c' fs' (set_kids p [] rs)"
proof -
  note inv' = cdt_invD [OF inv]
  have act: "is_active g c p" using p is_active_iff [OF inv] by simp
  obtain pn where pn: "node_at g c p = Some pn" "first_child pn = hd_id (kids_of p rs)"
    "repr (node_at g c) False p (kids_of p rs)" using repr_kids [OF inv'(3) p inv'(6)] by auto
  note kids = distinct_kids [OF inv'(6), of p] kids_of_subset [of p rs]
  have "set (idxs (kids_of p rs)) \<inter> set fs = {}" using inv'(7) kids(2) by blast
  from revoke_loop_spec [OF cfg inv'(1) pn(3) conjunct1 [OF kids(1)] inv'(2,5) this, of 0]
  obtain c1 fs1 where c1: "revoke_loop g (hd_id (kids_of p rs)) 0 c = Some (length (idxs (kids_of p rs)), c1)"
    "cdt_wf g c1" "cdt_cap g c1 = cdt_cap g c" "free_chain (node_at g c1) (free_head c1) fs1" "distinct fs1"
    "set fs1 = set fs \<union> set (idxs (kids_of p rs))"
    "\<And>j. j \<notin> set (idxs (kids_of p rs)) \<Longrightarrow> node_at g c1 j = node_at g c j" by auto
  let ?f = "\<lambda>n :: CdtNode. n\<lparr>first_child := CDT_NONE\<rparr>"
  have pcap: "p < cdt_cap g c1" using p inv'(8) c1(3) by auto
  obtain c2 where c2: "upd_node g c1 p ?f = Some c2" "cdt_wf g c2" "cdt_cap g c2 = cdt_cap g c1"
    "free_head c2 = free_head c1" "node_at g c2 = (node_at g c1)(p := map_option ?f (node_at g c1 p))"
    using upd_nodeE [OF c1(2) pcap, of ?f] by metis
  have pf: "p \<notin> set fs1" using c1(6) kids(1) p inv'(7) by auto
  have "free_chain (node_at g c2) (free_head c2) fs1"
    unfolding c2(4) by (rule free_chain_keep [OF c1(4)]) (use pf c2(5) in auto)
  moreover have "repr (node_at g c2) True CDT_NONE (set_kids p [] rs)"
    by (rule repr_set_kids [OF inv'(3) p inv'(6)]) (use c1(7) c2(5) kids(1) in auto)
  moreover have "mset fs1 + mset (idxs (set_kids p [] rs)) = mset [0..<cdt_cap g c2]"
  proof -
    have "mset fs1 = mset (fs @ idxs (kids_of p rs))"
      using c1(5,6) kids(1) inv'(5,7) kids(2) set_eq_iff_mset_eq_distinct [of fs1 "fs @ idxs (kids_of p rs)"]
      by auto
    then have "mset fs1 + mset (idxs (set_kids p [] rs)) =
        mset fs + (mset (idxs (set_kids p [] rs)) + mset (idxs (kids_of p rs)))" by (simp add: ac_simps)
    also have "\<dots> = mset fs + mset (idxs rs)" using mset_set_kids [OF p inv'(6), of "[]"] by simp
    finally show ?thesis using inv'(4) c1(3) c2(3) by simp
  qed
  ultimately have "cdt_inv g c2 fs1 (set_kids p [] rs)" using c2(2) by (intro cdt_invI)
  moreover have "revoke_children g p c = Some (length (idxs (kids_of p rs)), c2)"
    using act pn(1,2) c1(1) c2(1) by (simp add: revoke_children_def)
  ultimately show ?thesis by blast
qed

section \<open>Removing a subtree\<close>

lemma repr_append:
  "repr nd rt par (us @ vs) \<Longrightarrow> repr nd rt par vs"
  by (induction us rule: idxs.induct) auto

lemma unlink_loop_spec:
  assumes "repr (node_at g c) False par (us @ RNode p d ks # vs)" "us \<noteq> []"
    and "distinct (idxs (us @ RNode p d ks # vs))" "cfg_ok g" "cdt_wf g c"
  shows "unlink_loop g (hd_id us) p c = upd_node g c (rid (last us)) (\<lambda>n. n\<lparr>next_sibling := hd_id vs\<rparr>)"
  using assms
proof (induction us rule: idxs.induct)
  case (2 i d' ks' us)
  obtain n where n: "node_at g c i = Some n" "next_sibling n = hd_id (us @ RNode p d ks # vs)"
    using 2(3) by (auto simp: node_ok_def)
  obtain m where m: "node_at g c p = Some m" "next_sibling m = hd_id vs"
    using repr_append [of "node_at g c" False par us "RNode p d ks # vs"] 2(3) by (auto simp: node_ok_def)
  have i: "i \<noteq> CDT_NONE" using n(1) cdt.item_iff [OF 2(7), of i] idx_not_NONE(1) [OF 2(6,7)] by auto
  show ?case
  proof (cases us rule: idxs.cases)
    case 1
    then show ?thesis using n m i by (subst unlink_loop.simps) simp
  next
    case (2 j e ls us')
    then have "j \<noteq> p" using \<open>distinct (idxs ((RNode i d' ks' # us) @ RNode p d ks # vs))\<close> by auto
    moreover have "unlink_loop g j p c = upd_node g c (rid (last us)) (\<lambda>n. n\<lparr>next_sibling := hd_id vs\<rparr>)"
      using "2.IH"(2) "2.prems" 2 by simp
    ultimately show ?thesis using n i 2 by (subst unlink_loop.simps) simp
  qed
qed simp

lemma repr_unlink:
  assumes "repr nd False par (us @ RNode p d ks # vs)" "us \<noteq> []" "distinct (idxs (us @ RNode p d ks # vs))"
    and "nd' = nd(rid (last us) := map_option (\<lambda>n. n\<lparr>next_sibling := hd_id vs\<rparr>) (nd (rid (last us))))"
  shows "repr nd' False par (us @ vs)"
  using assms
proof (induction us rule: idxs.induct)
  case (2 i d' ks' us)
  let ?l = "rid (last (RNode i d' ks' # us))"
  show ?case
  proof (cases "us = []")
    case True
    have "repr nd' False par vs" "repr nd' False i ks'"
      using 2(3,5,6) True by (auto intro!: repr_keep [of nd])
    then show ?thesis using True 2(3,6) by (auto simp: node_ok_def info_of_def)
  next
    case False
    then have l: "?l \<in> set (idxs us)"
      by (induction us rule: rev_induct) (auto simp: rid_in_idxs)
    have "repr nd' False i ks'" by (rule repr_keep [of nd]) (use 2(3,5,6) False l in auto)
    moreover have "nd' i = nd i" using l 2(5,6) by auto
    moreover have "repr nd' False par (us @ vs)" using 2 False by auto
    moreover have "hd_id (us @ vs) = hd_id (us @ RNode p d ks # vs)" using False by (cases us) auto
    ultimately show ?thesis using 2(3) by auto
  qed
qed simp

lemma drop_tree_at: "distinct (idxs (us @ RNode p d ks # vs)) \<Longrightarrow> drop_tree p (us @ RNode p d ks # vs) = us @ vs"
  by (induction us rule: idxs.induct) auto

lemma repr_True_append: "repr nd True par (us @ vs) \<longleftrightarrow> repr nd True par us \<and> repr nd True par vs"
  by (induction us rule: idxs.induct) auto

lemma kids_of_at: "distinct (idxs (us @ RNode p d ks # vs)) \<Longrightarrow> kids_of p (us @ RNode p d ks # vs) = ks"
  by (induction us rule: idxs.induct) (auto simp: kids_of_notin)

text \<open>
  A node of a forest is a root, or a child of some node; deleting its tree then replaces the
  children of that node.
\<close>

lemma locate:
  assumes "p \<in> set (idxs ts)" "distinct (idxs ts)"
  shows "(\<exists>us d vs. ts = us @ RNode p d (kids_of p ts) # vs) \<or>
    (\<exists>q us d vs. q \<in> set (idxs ts) \<and> kids_of q ts = us @ RNode p d (kids_of p ts) # vs \<and>
       drop_tree p ts = set_kids q (us @ vs) ts)"
  using assms
proof (induction ts rule: idxs.induct)
  case (2 i e ls ts)
  let ?ts = "RNode i e ls # ts"
  consider "i = p" | "i \<noteq> p" "p \<in> set (idxs ls)" "p \<notin> set (idxs ts)" | "i \<noteq> p" "p \<notin> set (idxs ls)" "p \<in> set (idxs ts)"
    using 2(3,4) by auto
  then show ?case
  proof cases
    case 1
    then have "?ts = [] @ RNode p e (kids_of p ?ts) # ts" by simp
    then show ?thesis by blast
  next
    case c: 2
    have k: "kids_of p ?ts = kids_of p ls" using c by (simp add: kids_of_notin)
    have "distinct (idxs ls)" using 2(4) by simp
    from 2(1) [OF c(2) this] show ?thesis
    proof (elim disjE exE conjE, goal_cases)
      case (1 us d vs)
      then have "drop_tree p ls = us @ vs" using 2(4) drop_tree_at [of us p d "kids_of p ls" vs] by simp
      then have "drop_tree p ?ts = set_kids i (us @ vs) ?ts" using c 2(4) by simp
      moreover have "i \<in> set (idxs ?ts)" "kids_of i ?ts = us @ RNode p d (kids_of p ls) # vs"
        using 1 by simp_all
      ultimately show ?thesis unfolding k by blast
    next
      case (2 q us d vs)
      then have "i \<noteq> q" "q \<notin> set (idxs ts)" using \<open>distinct (idxs ?ts)\<close> by auto
      with 2 c have "q \<in> set (idxs ?ts)" "kids_of q ?ts = us @ RNode p d (kids_of p ls) # vs"
        "drop_tree p ?ts = set_kids q (us @ vs) ?ts"
        by (simp_all add: kids_of_notin)
      then show ?thesis unfolding k by blast
    qed
  next
    case c: 3
    have k: "kids_of p ?ts = kids_of p ts" using c by (simp add: kids_of_notin)
    have "distinct (idxs ts)" using 2(4) by simp
    from 2(2) [OF c(3) this] show ?thesis
    proof (elim disjE exE conjE, goal_cases)
      case (1 us d vs)
      then show ?thesis unfolding k by (metis append_Cons)
    next
      case (2 q us d vs)
      then have "i \<noteq> q" "q \<notin> set (idxs ls)" using \<open>distinct (idxs ?ts)\<close> by auto
      with 2 c have "q \<in> set (idxs ?ts)" "kids_of q ?ts = us @ RNode p d (kids_of p ts) # vs"
        "drop_tree p ?ts = set_kids q (us @ vs) ?ts"
        by (simp_all add: kids_of_notin)
      then show ?thesis unfolding k by blast
    qed
  qed
qed simp

lemma revoke_subtreeE:
  assumes cfg: "cfg_ok g" and wf: "cdt_wf g c" and n: "node_at g c p = Some n" "first_child n = hd_id ks"
    and ks: "repr (node_at g c) False p ks" "distinct (p # idxs ks)"
    and fs: "free_chain (node_at g c) (free_head c) fs" "distinct fs" "set (p # idxs ks) \<inter> set fs = {}"
  obtains c' fs' where "revoke_subtree g p c = Some (Suc (length (idxs ks)), c')" "cdt_wf g c'"
    "cdt_cap g c' = cdt_cap g c" "free_chain (node_at g c') (free_head c') fs'"
    "mset fs' = mset fs + mset (p # idxs ks)" "\<And>j. j \<notin> set (p # idxs ks) \<Longrightarrow> node_at g c' j = node_at g c j"
proof -
  have "distinct (idxs ks)" "set (idxs ks) \<inter> set fs = {}" using ks(2) fs(3) by auto
  from revoke_loop_spec [OF cfg wf ks(1) this(1) fs(1,2) this(2), of 1]
  obtain c1 fs1 where c1: "revoke_loop g (hd_id ks) 1 c = Some (1 + length (idxs ks), c1)"
    "cdt_wf g c1" "cdt_cap g c1 = cdt_cap g c" "free_chain (node_at g c1) (free_head c1) fs1" "distinct fs1"
    "set fs1 = set fs \<union> set (idxs ks)" "\<And>j. j \<notin> set (idxs ks) \<Longrightarrow> node_at g c1 j = node_at g c j" by auto
  have "p < cdt_cap g c1" "p \<notin> set fs1"
    using n(1) cdt.item_iff [OF wf, of p] c1(3,6) ks(2) fs(3) by auto
  from free_nodeE [OF c1(2) this(1) c1(4) this(2)] obtain c2 where
    c2: "free_node g c1 p = Some c2" "cdt_wf g c2" "cdt_cap g c2 = cdt_cap g c1"
    "free_chain (node_at g c2) (free_head c2) (p # fs1)" "\<And>j. j \<noteq> p \<Longrightarrow> node_at g c2 j = node_at g c1 j" by metis
  have "mset fs1 = mset (fs @ idxs ks)"
    using c1(5,6) ks(2) fs(2,3) set_eq_iff_mset_eq_distinct [of fs1 "fs @ idxs ks"] by auto
  then show thesis
    using c1 c2 n by (intro that [of c2 "p # fs1"]) (auto simp: revoke_subtree_def)
qed

lemma remove_root:
  assumes cfg: "cfg_ok g" and inv: "cdt_inv g c fs (us @ RNode p d ks # vs)"
  shows "\<exists>c' fs'. cdt_remove g p c = Some (Suc (length (idxs ks)), c') \<and> cdt_inv g c' fs' (us @ vs)"
proof -
  note inv' = cdt_invD [OF inv]
  have act: "is_active g c p" using is_active_iff [OF inv] by simp
  obtain n where n: "node_at g c p = Some n" "first_child n = hd_id ks" "parent n = CDT_NONE"
    "repr (node_at g c) False p ks" using inv'(3) by (auto simp: repr_True_append node_ok_def)
  have "distinct (p # idxs ks)" "set (p # idxs ks) \<inter> set fs = {}" using inv'(6,7) by auto
  from revoke_subtreeE [OF cfg inv'(1) n(1,2,4) this(1) inv'(2,5) this(2)] obtain c' fs' where
    c': "revoke_subtree g p c = Some (Suc (length (idxs ks)), c')" "cdt_wf g c'"
    "cdt_cap g c' = cdt_cap g c" "free_chain (node_at g c') (free_head c') fs'"
    "mset fs' = mset fs + mset (p # idxs ks)" "\<And>j. j \<notin> set (p # idxs ks) \<Longrightarrow> node_at g c' j = node_at g c j"
    by metis
  have "repr (node_at g c) True CDT_NONE (us @ vs)" using inv'(3) by (simp add: repr_True_append)
  then have "repr (node_at g c') True CDT_NONE (us @ vs)"
    by (rule repr_keep) (use inv'(6) in \<open>auto intro!: c'(6)\<close>)
  moreover have "mset fs' + mset (idxs (us @ vs)) = mset [0..<cdt_cap g c']"
    using inv'(4) c'(3,5) by (simp add: ac_simps)
  ultimately have "cdt_inv g c' fs' (us @ vs)" using c'(2,4) by (intro cdt_invI)
  moreover have "cdt_remove g p c = Some (Suc (length (idxs ks)), c')"
    using act n(1,3) c'(1) by (simp add: cdt_remove_def)
  ultimately show ?thesis by blast
qed

lemma unlink_childE:
  assumes cfg: "cfg_ok g" and wf: "cdt_wf g c" and q: "node_at g c q = Some m" "first_child m = hd_id (us @ RNode p d ks # vs)"
    and r: "repr (node_at g c) False q (us @ RNode p d ks # vs)" "distinct (q # idxs (us @ RNode p d ks # vs))"
  obtains c' where "unlink_child g q p c = Some c'" "cdt_wf g c'" "cdt_cap g c' = cdt_cap g c"
    "free_head c' = free_head c" "repr (node_at g c') False q (us @ vs)"
    "node_at g c' q = map_option (\<lambda>n. n\<lparr>first_child := hd_id (us @ vs)\<rparr>) (node_at g c q)"
    "\<And>j. j \<noteq> q \<Longrightarrow> j \<notin> set (idxs us) \<Longrightarrow> node_at g c' j = node_at g c j"
proof (cases "us = []")
  case True
  obtain n where n: "node_at g c p = Some n" "next_sibling n = hd_id vs" using r(1) True by (auto simp: node_ok_def)
  have "q < cdt_cap g c" using q(1) cdt.item_iff [OF wf, of q] by simp
  from upd_nodeE [OF wf this, of "\<lambda>n. n\<lparr>first_child := hd_id vs\<rparr>"] obtain c' where
    c': "upd_node g c q (\<lambda>n. n\<lparr>first_child := hd_id vs\<rparr>) = Some c'" "cdt_wf g c'"
    "cdt_cap g c' = cdt_cap g c" "free_head c' = free_head c"
    "node_at g c' = (node_at g c)(q := map_option (\<lambda>n. n\<lparr>first_child := hd_id vs\<rparr>) (node_at g c q))" by metis
  have "repr (node_at g c) False q vs" using r(1) True by simp
  then have "repr (node_at g c') False q vs" by (rule repr_keep) (use r(2) c'(5) True in auto)
  then show thesis
    using c' n q True by (intro that [of c']) (auto simp: unlink_child_def)
next
  case False
  let ?l = "rid (last us)"
  have l: "?l \<in> set (idxs us)" using False by (induction us rule: rev_induct) (auto simp: rid_in_idxs)
  have hd: "hd_id (us @ xs) = hd_id us" for xs using False by (cases us) auto
  have qp: "hd_id us \<noteq> p" using r(2) False rid_in_idxs [of "hd us"] by (cases us rule: idxs.cases) auto
  have "unlink_child g q p c = upd_node g c ?l (\<lambda>n. n\<lparr>next_sibling := hd_id vs\<rparr>)"
    using unlink_loop_spec [OF r(1) False _ cfg wf] r(2) q qp by (simp add: unlink_child_def hd)
  moreover have "?l < cdt_cap g c"
    using repr_nodes [OF r(1), of ?l] l cdt.item_iff [OF wf, of ?l] by auto
  from upd_nodeE [OF wf this, of "\<lambda>n. n\<lparr>next_sibling := hd_id vs\<rparr>"] obtain c' where
    c': "upd_node g c ?l (\<lambda>n. n\<lparr>next_sibling := hd_id vs\<rparr>) = Some c'" "cdt_wf g c'"
    "cdt_cap g c' = cdt_cap g c" "free_head c' = free_head c"
    "node_at g c' = (node_at g c)(?l := map_option (\<lambda>n. n\<lparr>next_sibling := hd_id vs\<rparr>) (node_at g c ?l))" by metis
  moreover have "repr (node_at g c') False q (us @ vs)"
    by (rule repr_unlink [OF r(1) False _ c'(5)]) (use r(2) in simp)
  moreover have "q \<noteq> ?l" using l r(2) by auto
  ultimately show thesis
    using q hd l by (intro that [of c']) auto
qed

lemma remove_child:
  assumes cfg: "cfg_ok g" and inv: "cdt_inv g c fs rs" and q: "q \<in> set (idxs rs)"
    and kids: "kids_of q rs = us @ RNode p d ks # vs"
  shows "\<exists>c' fs'. cdt_remove g p c = Some (Suc (length (idxs ks)), c') \<and> cdt_inv g c' fs' (set_kids q (us @ vs) rs)"
proof -
  note inv' = cdt_invD [OF inv]
  note sub = kids_of_subset [of q rs, unfolded kids] and dist = distinct_kids [OF inv'(6), of q, unfolded kids]
  have act: "is_active g c p" using is_active_iff [OF inv] sub by auto
  obtain m where m: "node_at g c q = Some m" "first_child m = hd_id (us @ RNode p d ks # vs)"
    "repr (node_at g c) False q (us @ RNode p d ks # vs)" using repr_kids [OF inv'(3) q inv'(6)] kids by auto
  obtain n where n: "node_at g c p = Some n" "first_child n = hd_id ks" "parent n = q"
    "repr (node_at g c) False p ks" using repr_append [OF m(3)] by (auto simp: node_ok_def)
  have qN: "q \<noteq> CDT_NONE" using idx_not_NONE(1) [OF cfg inv'(1)] q inv'(8) by auto
  have dq: "distinct (q # idxs (us @ RNode p d ks # vs))" using dist by simp
  obtain c1 where c1: "unlink_child g q p c = Some c1" "cdt_wf g c1" "cdt_cap g c1 = cdt_cap g c"
    "free_head c1 = free_head c" "repr (node_at g c1) False q (us @ vs)"
    "node_at g c1 q = map_option (\<lambda>n. n\<lparr>first_child := hd_id (us @ vs)\<rparr>) (node_at g c q)"
    "\<And>j. j \<noteq> q \<Longrightarrow> j \<notin> set (idxs us) \<Longrightarrow> node_at g c1 j = node_at g c j"
    using unlink_childE [OF cfg inv'(1) m dq] by metis
  have "free_chain (node_at g c1) (free_head c1) fs"
    unfolding c1(4) by (rule free_chain_keep [OF inv'(2)]) (use inv'(7) q sub in \<open>auto intro!: c1(7)\<close>)
  moreover have "repr (node_at g c1) False p ks"
    by (rule repr_keep [OF n(4)]) (use dq in \<open>auto intro!: c1(7)\<close>)
  moreover have "node_at g c1 p = Some n" using n(1) c1(7) [of p] dq by auto
  moreover have "distinct (p # idxs ks)" "set (p # idxs ks) \<inter> set fs = {}" using dist sub inv'(7) by auto
  ultimately obtain c2 fs2 where
    c2: "revoke_subtree g p c1 = Some (Suc (length (idxs ks)), c2)" "cdt_wf g c2"
    "cdt_cap g c2 = cdt_cap g c1" "free_chain (node_at g c2) (free_head c2) fs2"
    "mset fs2 = mset fs + mset (p # idxs ks)" "\<And>j. j \<notin> set (p # idxs ks) \<Longrightarrow> node_at g c2 j = node_at g c1 j"
    using revoke_subtreeE [where p = p and ks = ks and fs = fs, OF cfg c1(2) _ n(2)] inv'(5) by metis
  have new: "repr (node_at g c2) False q (us @ vs)"
    by (rule repr_keep [OF c1(5)]) (use dq in \<open>auto intro!: c2(6)\<close>)
  have "repr (node_at g c2) True CDT_NONE (set_kids q (us @ vs) rs)"
    by (rule repr_set_kids [OF inv'(3) q inv'(6) new]) (use c1(6,7) c2(6) dq kids in auto)
  moreover have "mset fs2 + mset (idxs (set_kids q (us @ vs) rs)) = mset [0..<cdt_cap g c2]"
  proof -
    have "mset (idxs (set_kids q (us @ vs) rs)) + mset (p # idxs ks) = mset (idxs rs)"
      using mset_set_kids [OF q inv'(6), of "us @ vs"] by (simp add: kids ac_simps)
    then have "mset fs2 + mset (idxs (set_kids q (us @ vs) rs)) = mset fs + mset (idxs rs)"
      unfolding c2(5) by (metis add.assoc add.commute)
    then show ?thesis using inv'(4) c1(3) c2(3) by simp
  qed
  ultimately have "cdt_inv g c2 fs2 (set_kids q (us @ vs) rs)" using c2(2,4) by (intro cdt_invI)
  moreover have "cdt_remove g p c = Some (Suc (length (idxs ks)), c2)"
    using act n(1,3) qN c1(1) c2(1) by (simp add: cdt_remove_def)
  ultimately show ?thesis by blast
qed

lemma remove_spec_cdt:
  assumes cfg: "cfg_ok g" and inv: "cdt_inv g c fs rs" and p: "p \<in> set (idxs rs)"
  shows "\<exists>c' fs'. cdt_remove g p c = Some (Suc (length (idxs (kids_of p rs))), c') \<and> cdt_inv g c' fs' (drop_tree p rs)"
proof -
  note d = cdt_invD(6) [OF inv]
  from locate [OF p d] show ?thesis
  proof (elim disjE exE conjE, goal_cases)
    case (1 us d vs)
    then have "drop_tree p rs = us @ vs" using drop_tree_at [of us p d "kids_of p rs" vs] cdt_invD(6) [OF inv] by simp
    then show ?thesis using remove_root [OF cfg, of c fs us p d "kids_of p rs" vs] inv 1 by simp
  next
    case (2 q us d vs)
    then show ?thesis using remove_child [OF cfg inv, of q us p d "kids_of p rs" vs] by simp
  qed
qed

section \<open>What the forest determines\<close>

lemma get_location_forest:
  assumes "cdt_inv g c fs rs"
  shows "get_location g c i = map_option (\<lambda>(_, _, t, s). (t, s)) (info_at i rs)"
proof (cases "i \<in> set (idxs rs)")
  case True
  then show ?thesis
    using repr_info [OF cdt_invD(3) [OF assms] True] is_active_iff [OF assms]
    by (auto simp: get_location_def info_of_def)
next
  case False
  then show ?thesis using is_active_iff [OF assms] by (simp add: get_location_def info_at_notin)
qed

lemma set_kids_Nil_subset: "set (idxs (set_kids p [] ts)) \<subseteq> set (idxs ts)"
  by (induction ts rule: idxs.induct) auto

lemma info_at_set_kids_Nil:
  "i \<in> set (idxs (set_kids p [] ts)) \<Longrightarrow> distinct (idxs ts) \<Longrightarrow> info_at i (set_kids p [] ts) = info_at i ts"
proof (induction ts rule: idxs.induct)
  case (2 j d ks ts)
  show ?case
  proof (cases "i = j \<or> j = p")
    case True
    moreover have "i \<in> set (idxs ts) \<Longrightarrow> info_at i ks = None" using 2(4) by (intro info_at_notin) auto
    ultimately show ?thesis using 2(3,4) by auto
  next
    case False
    show ?thesis
    proof (cases "i \<in> set (idxs (set_kids p [] ks))")
      case True
      then obtain e where "info_at i ks = Some e" using set_kids_Nil_subset [of p ks] info_at_in [of i ks] by blast
      then show ?thesis using True False 2(1,4) by simp
    next
      case no: False
      then have "i \<in> set (idxs (set_kids p [] ts))" using False 2(3) by simp
      moreover from this have "i \<notin> set (idxs ks)" using set_kids_Nil_subset [of p ts] 2(4) by auto
      ultimately show ?thesis using False no 2(2,4) by (simp add: info_at_notin)
    qed
  qed
qed simp

lemma idxs_set_kids_Nil:
  assumes "p \<in> set (idxs ts)" "distinct (idxs ts)"
  shows "set (idxs (set_kids p [] ts)) = set (idxs ts) - set (idxs (kids_of p ts))"
proof -
  have "mset (idxs (set_kids p [] ts) @ idxs (kids_of p ts)) = mset (idxs ts)"
    using mset_set_kids [OF assms, of "[]"] by simp
  from mset_eq_imp_distinct_iff [OF this] mset_eq_setD [OF this] assms(2) show ?thesis by auto
qed

lemma in_set_kids: "q \<in> set (idxs ts) \<Longrightarrow> q \<in> set (idxs (set_kids q new ts))"
  by (induction ts rule: idxs.induct) auto

lemma kids_of_set_kids:
  "q \<in> set (idxs ts) \<Longrightarrow> distinct (idxs ts) \<Longrightarrow> kids_of q (set_kids q new ts) = new"
proof (induction ts rule: idxs.induct)
  case (2 i d ks ts)
  consider "i = q" | "i \<noteq> q" "q \<in> set (idxs ks)" "q \<notin> set (idxs ts)" | "i \<noteq> q" "q \<notin> set (idxs ks)" "q \<in> set (idxs ts)"
    using 2(3,4) by auto
  then show ?case by cases (use 2 in \<open>auto simp: kids_of_notin\<close>)
qed simp

lemma info_at_new_kid:
  "q \<in> set (idxs ts) \<Longrightarrow> i \<notin> set (idxs ts) \<Longrightarrow> distinct (idxs ts) \<Longrightarrow>
   info_at i (set_kids q (RNode i d [] # kids_of q ts) ts) = Some d"
proof (induction ts rule: idxs.induct)
  case (2 j e ks ts)
  consider "j = q" | "j \<noteq> q" "q \<in> set (idxs ks)" "q \<notin> set (idxs ts)" | "j \<noteq> q" "q \<notin> set (idxs ks)" "q \<in> set (idxs ts)"
    using 2(3,5) by auto
  then show ?case by cases (use 2 in \<open>auto simp: kids_of_notin info_at_notin\<close>)
qed simp

section \<open>Properties\<close>

text \<open>
  C31 (revocation is exact). For a tree whose state represents the forest \<open>rs\<close>, \<open>revoke_children\<close>
  terminates without an out-of-range access. On a node of the forest it returns the number of the
  node's strict descendants; afterwards the state represents the forest without them, the active
  nodes are exactly the others, and each of these keeps its recorded location. On any other index
  it returns 0 and changes nothing.
\<close>

theorem revoke_children_exact:
  assumes "cfg_ok g" "forest_rel g c rs"
  shows "\<exists>k c'. revoke_children g p c = Some (k, c') \<and>
    (if p \<in> set (idxs rs)
     then k = length (idxs (kids_of p rs)) \<and> forest_rel g c' (set_kids p [] rs) \<and>
       (\<forall>i. is_active g c' i \<longleftrightarrow> is_active g c i \<and> i \<notin> set (idxs (kids_of p rs))) \<and>
       (\<forall>i. is_active g c' i \<longrightarrow> get_location g c' i = get_location g c i)
     else k = 0 \<and> c' = c)"
proof -
  obtain fs where inv: "cdt_inv g c fs rs" using assms(2) by (auto simp: forest_rel_def)
  show ?thesis
  proof (cases "p \<in> set (idxs rs)")
    case True
    obtain c' fs' where c': "revoke_children g p c = Some (length (idxs (kids_of p rs)), c')"
      "cdt_inv g c' fs' (set_kids p [] rs)" using revoke_children_spec [OF assms(1) inv True] by blast
    note d = cdt_invD(6) [OF inv]
    have "is_active g c' i \<longleftrightarrow> is_active g c i \<and> i \<notin> set (idxs (kids_of p rs))" for i
      by (simp add: is_active_iff [OF inv] is_active_iff [OF c'(2)] idxs_set_kids_Nil [OF True d])
    moreover have "get_location g c' i = get_location g c i" if "is_active g c' i" for i
      using that info_at_set_kids_Nil [OF _ d, of i p]
      by (simp add: is_active_iff [OF c'(2)] get_location_forest [OF inv] get_location_forest [OF c'(2)])
    ultimately show ?thesis using c' True by (auto simp: forest_rel_def)
  next
    case False
    then show ?thesis using is_active_iff [OF inv, of p] by (simp add: revoke_children_def)
  qed
qed

text \<open>
  \<open>remove\<close> unlinks a node from its siblings or its parent and frees its
  whole subtree: it terminates, returns the size of the subtree, and the state represents the forest
  without that tree.
\<close>

theorem cdt_remove_exact:
  assumes "cfg_ok g" "forest_rel g c rs" "p \<in> set (idxs rs)"
  shows "\<exists>c'. cdt_remove g p c = Some (Suc (length (idxs (kids_of p rs))), c') \<and> forest_rel g c' (drop_tree p rs)"
  using remove_spec_cdt [OF assms(1) _ assms(3)] assms(2) unfolding forest_rel_def by blast

text \<open>A history of operations; an insertion comes with the outcomes of its page allocations.\<close>

datatype cdt_op =
    InsertRoot Capability nat nat alloc_outcomes
  | InsertDerived nat Capability nat nat alloc_outcomes
  | RevokeChildren nat
  | RemoveNode nat

fun cdt_step :: "cdt_cfg \<Rightarrow> cdt_op \<Rightarrow> Cdt \<Rightarrow> Cdt option" where
  "cdt_step g (InsertRoot cap tid slot os) c = map_option (\<lambda>(r, c', os'). c') (insert_root g c cap tid slot os)"
| "cdt_step g (InsertDerived p cap tid slot os) c =
     map_option (\<lambda>(r, c', os'). c') (insert_derived g c p cap tid slot os)"
| "cdt_step g (RevokeChildren p) c = map_option snd (revoke_children g p c)"
| "cdt_step g (RemoveNode p) c = map_option snd (cdt_remove g p c)"

fun cdt_run :: "cdt_cfg \<Rightarrow> cdt_op list \<Rightarrow> Cdt \<Rightarrow> Cdt option" where
  "cdt_run g [] c = Some c"
| "cdt_run g (op # ops) c = cdt_step g op c \<bind> cdt_run g ops"

lemma cdt_step_forest:
  assumes "cfg_ok g" "forest_rel g c rs"
  shows "\<exists>c' rs'. cdt_step g op c = Some c' \<and> forest_rel g c' rs'"
proof -
  obtain fs where inv: "cdt_inv g c fs rs" using assms(2) by (auto simp: forest_rel_def)
  show ?thesis
  proof (cases op)
    case (InsertRoot cap tid slot os)
    then show ?thesis
      using insert_root_spec [OF assms(1) inv, of cap tid slot os]
      by (fastforce simp: forest_rel_def split: option.splits)
  next
    case (InsertDerived p cap tid slot os)
    then show ?thesis
      using insert_derived_spec [OF assms(1) inv, of p cap tid slot os]
      by (fastforce simp: forest_rel_def split: option.splits)
  next
    case (RevokeChildren p)
    then show ?thesis using revoke_children_spec [OF assms(1) inv, of p] is_active_iff [OF inv, of p] assms(2)
      by (cases "p \<in> set (idxs rs)") (auto simp: forest_rel_def revoke_children_def)
  next
    case (RemoveNode p)
    then show ?thesis using remove_spec_cdt [OF assms(1) inv, of p] is_active_iff [OF inv, of p] assms(2)
      by (cases "p \<in> set (idxs rs)") (auto simp: forest_rel_def cdt_remove_def)
  qed
qed

lemma cdt_run_forest:
  "cfg_ok g \<Longrightarrow> forest_rel g c rs \<Longrightarrow> \<exists>c' rs'. cdt_run g ops c = Some c' \<and> forest_rel g c' rs'"
proof (induction ops arbitrary: c rs)
  case (Cons op ops)
  obtain c1 rs1 where "cdt_step g op c = Some c1" "forest_rel g c1 rs1"
    using cdt_step_forest [OF Cons.prems] by blast
  with Cons.IH [OF Cons.prems(1)] show ?case by simp
qed auto

text \<open>
  C32 (every history stays a forest). From the initialised tree, any sequence of insertions,
  derivations, revocations and removals on any indices, with any pattern of page-allocation
  failures, runs to completion (every loop and recursion ends, no access leaves the array), and the
  nodes in use always form a forest with the unused ones on the free list.
\<close>

theorem cdt_history_forest:
  assumes "cfg_ok g"
  shows "\<exists>c0 os' c rs. init g new_cdt os = Some (c0, os') \<and> cdt_run g ops c0 = Some c \<and> forest_rel g c rs"
proof -
  obtain c0 os' fs where c0: "init g new_cdt os = Some (c0, os')" "cdt_inv g c0 fs []"
    using init_spec [OF assms] by blast
  then have "forest_rel g c0 []" by (auto simp: forest_rel_def)
  with cdt_run_forest [OF assms] c0(1) show ?thesis by blast
qed

definition sample_cfg :: cdt_cfg where
  "sample_cfg = \<lparr>page_size = 64, size_of_T = 16, zeroed = zero_node\<rparr>"

lemma sample_cfg_ok: "cfg_ok sample_cfg"
  by (simp add: cfg_ok_def sample_cfg_def items_per_page_def dir_slots_def U32_MAX_def)

lemma cdt_history_forest_witness:
  "\<exists>c0 os' c rs. init sample_cfg new_cdt [True, True] = Some (c0, os') \<and>
     cdt_run sample_cfg [InsertRoot null_cap 1 2 [], InsertDerived 0 null_cap 3 4 [], RevokeChildren 0] c0 = Some c \<and>
     forest_rel sample_cfg c rs"
  by (rule cdt_history_forest [OF sample_cfg_ok])

text \<open>A concrete tree: node 1 was derived from node 0, and node 2 from node 1; node 3 is free.\<close>

definition sample_node :: "nat \<Rightarrow> nat \<Rightarrow> nat \<Rightarrow> nat \<Rightarrow> CdtNode" where
  "sample_node par child tid slot = \<lparr>n_cap_type = Port, n_object = 7, parent = par, first_child = child,
     next_sibling = CDT_NONE, task_id = tid, slot_index = slot, active = True\<rparr>"

definition sample_cdt :: Cdt where
  "sample_cdt = \<lparr>nodes = \<lparr>dir = Some (Some [sample_node CDT_NONE 1 1 0, sample_node 0 2 2 5,
       sample_node 1 CDT_NONE 3 9, empty_node] # replicate 7 None), dir_capacity = 8, num_pages = 1\<rparr>,
     free_head = 3\<rparr>"

definition sample_rs :: "rtree list" where
  "sample_rs = [RNode 0 (Port, 7, 1, 0) [RNode 1 (Port, 7, 2, 5) [RNode 2 (Port, 7, 3, 9) []]]]"

lemma sample_forest: "forest_rel sample_cfg sample_cdt sample_rs"
proof -
  have ipp: "items_per_page sample_cfg = 4" "dir_slots sample_cfg = 8"
    by (simp_all add: sample_cfg_def items_per_page_def dir_slots_def)
  have wf: "cdt_wf sample_cfg sample_cdt"
    by (auto simp: wf_pa_def sample_cdt_def ipp nth_Cons')
  have cap: "cdt_cap sample_cfg sample_cdt = 4"
    by (simp add: cdt_cap_def capacity_def sample_cdt_def ipp)
  have "node_at sample_cfg sample_cdt 0 = Some (sample_node CDT_NONE 1 1 0)"
    "node_at sample_cfg sample_cdt (Suc 0) = Some (sample_node 0 2 2 5)"
    "node_at sample_cfg sample_cdt 2 = Some (sample_node 1 CDT_NONE 3 9)"
    "node_at sample_cfg sample_cdt 3 = Some empty_node"
    by (simp_all add: node_at_def get_def Let_def sample_cdt_def ipp)
  then have "cdt_inv sample_cfg sample_cdt [3] sample_rs"
    by (simp add: cdt_inv_def wf cap sample_rs_def node_ok_def info_of_def sample_node_def)
      (auto simp: sample_cdt_def empty_node_def)
  then show ?thesis by (auto simp: forest_rel_def)
qed

lemma sample_idxs: "0 \<in> set (idxs sample_rs)" "1 \<in> set (idxs sample_rs)" by (simp_all add: sample_rs_def)

lemma revoke_children_exact_witness:
  "\<exists>c'. revoke_children sample_cfg 0 sample_cdt = Some (2, c') \<and>
     forest_rel sample_cfg c' [RNode 0 (Port, 7, 1, 0) []]"
  using revoke_children_exact [OF sample_cfg_ok sample_forest, of 0] sample_idxs(1)
  by (auto simp: sample_rs_def)

lemma cdt_remove_exact_witness:
  "\<exists>c'. cdt_remove sample_cfg 1 sample_cdt = Some (2, c') \<and>
     forest_rel sample_cfg c' [RNode 0 (Port, 7, 1, 0) []]"
  using cdt_remove_exact [OF sample_cfg_ok sample_forest sample_idxs(2)]
  by (auto simp: sample_rs_def numeral_2_eq_2)

end
