(* ===== verification/CapSpace.thy ===== *)
theory CapSpace
  imports CNode Cdt
begin

text \<open>
  \<open>kernel/src/cap/space.rs\<close>: the capability space of a task, its slots plus the entries it makes in
  the global derivation tree. \<open>ns\<close> is the number of slots per page and \<open>g\<close> the configuration of the
  derivation tree's array; the outer option is the derivation tree's (None for an access outside its
  array), which \<open>Cdt\<close> excludes.
\<close>

record CapSpace =
  root :: CNode
  space_task_id :: nat

definition new_space :: "nat \<Rightarrow> CapSpace" where
  "new_space tid = \<lparr>root = new_cnode, space_task_id = tid\<rparr>"

definition space_insert ::
  "nat \<Rightarrow> cdt_cfg \<Rightarrow> CapSpace \<Rightarrow> Capability \<Rightarrow> Cdt \<Rightarrow> alloc_outcomes
     \<Rightarrow> (nat option \<times> CapSpace \<times> Cdt \<times> alloc_outcomes) option" where
  "space_insert ns g sp cap cdt os =
     (case find_empty ns (root sp) os of
        (None, cn, os1) \<Rightarrow> Some (None, sp\<lparr>root := cn\<rparr>, cdt, os1)
      | (Some slot, cn, os1) \<Rightarrow> do {
          (r, cdt', os2) \<leftarrow> insert_root g cdt cap (space_task_id sp) (as_u16 slot) os1;
          case r of
            None \<Rightarrow> Some (None, sp\<lparr>root := cn\<rparr>, cdt', os2)
          | Some cdt_idx \<Rightarrow>
              let (_, cn', os3) = cnode_insert ns cn slot (cap\<lparr>cdt_index := cdt_idx\<rparr>) os2
              in Some (Some slot, sp\<lparr>root := cn'\<rparr>, cdt', os3)
        })"

definition insert_at ::
  "nat \<Rightarrow> cdt_cfg \<Rightarrow> CapSpace \<Rightarrow> nat \<Rightarrow> Capability \<Rightarrow> Cdt \<Rightarrow> alloc_outcomes
     \<Rightarrow> (bool \<times> CapSpace \<times> Cdt \<times> alloc_outcomes) option" where
  "insert_at ns g sp slot cap cdt os = do {
     (r, cdt', os1) \<leftarrow> insert_root g cdt cap (space_task_id sp) (as_u16 slot) os;
     case r of
       Some cdt_idx \<Rightarrow>
         let (_, cn, os2) = cnode_insert ns (root sp) slot (cap\<lparr>cdt_index := cdt_idx\<rparr>) os1
         in Some (True, sp\<lparr>root := cn\<rparr>, cdt', os2)
     | None \<Rightarrow> Some (False, sp, cdt', os1)
   }"

definition derive_to ::
  "nat \<Rightarrow> cdt_cfg \<Rightarrow> CapSpace \<Rightarrow> nat \<Rightarrow> Rights \<Rightarrow> CapSpace \<Rightarrow> Cdt \<Rightarrow> alloc_outcomes
     \<Rightarrow> (nat option \<times> CapSpace \<times> Cdt \<times> alloc_outcomes) option" where
  "derive_to ns g src src_slot new_rights dest cdt os =
     (case cnode_get (root src) src_slot of
        None \<Rightarrow> Some (None, dest, cdt, os)
      | Some src_cap \<Rightarrow>
          if is_null src_cap then Some (None, dest, cdt, os)
          else (case derive src_cap new_rights of
                  None \<Rightarrow> Some (None, dest, cdt, os)
                | Some derived \<Rightarrow>
                    (case find_empty ns (root dest) os of
                       (None, cn, os1) \<Rightarrow> Some (None, dest\<lparr>root := cn\<rparr>, cdt, os1)
                     | (Some dest_slot, cn, os1) \<Rightarrow> do {
                         (r, cdt', os2) \<leftarrow> insert_derived g cdt (cdt_index src_cap) derived
                                            (space_task_id dest) (as_u16 dest_slot) os1;
                         case r of
                           None \<Rightarrow> Some (None, dest\<lparr>root := cn\<rparr>, cdt', os2)
                         | Some cdt_idx \<Rightarrow>
                             let (_, cn', os3) = cnode_insert ns cn dest_slot (derived\<lparr>cdt_index := cdt_idx\<rparr>) os2
                             in Some (Some dest_slot, dest\<lparr>root := cn'\<rparr>, cdt', os3)
                       })))"

definition space_revoke :: "cdt_cfg \<Rightarrow> CapSpace \<Rightarrow> nat \<Rightarrow> Cdt \<Rightarrow> (nat \<times> Cdt) option" where
  "space_revoke g sp slot cdt =
     (case cnode_get (root sp) slot of
        Some cap \<Rightarrow>
          if \<not> is_null cap \<and> cdt_index cap \<noteq> U32_MAX then revoke_children g (cdt_index cap) cdt
          else Some (0, cdt)
      | None \<Rightarrow> Some (0, cdt))"

definition is_port_cap :: "nat \<Rightarrow> Capability \<Rightarrow> bool" where
  "is_port_cap port_id cap \<longleftrightarrow> cap_type cap = Port \<and> object cap = port_id"

definition find_port_cap :: "CapSpace \<Rightarrow> nat \<Rightarrow> Rights \<Rightarrow> nat option" where
  "find_port_cap sp port_id needed =
     first_idx (\<lambda>cap. is_port_cap port_id cap \<and> contains (rights cap) needed) (slots_of (root sp))"

text \<open>
  The loop \<open>for i in 0..num_slots\<close> of \<open>remove_port_caps\<close>, from index \<open>i\<close> with \<open>k\<close> slots to go. Its
  inserts hit existing slots, so none of them allocates (\<open>cnode_insert_spec\<close>).
\<close>

fun remove_loop :: "nat \<Rightarrow> nat \<Rightarrow> nat \<Rightarrow> nat \<Rightarrow> CNode \<Rightarrow> alloc_outcomes \<Rightarrow> CNode \<times> alloc_outcomes" where
  "remove_loop ns port_id i 0 cn os = (cn, os)"
| "remove_loop ns port_id i (Suc k) cn os =
     (case cnode_get cn i of
        Some cap \<Rightarrow>
          if is_port_cap port_id cap
          then (let (_, cn', os') = cnode_insert ns cn i null_cap os
                in remove_loop ns port_id (Suc i) k cn' os')
          else remove_loop ns port_id (Suc i) k cn os
      | None \<Rightarrow> remove_loop ns port_id (Suc i) k cn os)"

definition space_remove_port_caps :: "nat \<Rightarrow> CapSpace \<Rightarrow> nat \<Rightarrow> CapSpace" where
  "space_remove_port_caps ns sp port_id =
     sp\<lparr>root := fst (remove_loop ns port_id 0 (num_slots (root sp)) (root sp) [])\<rparr>"

definition lookup :: "CapSpace \<Rightarrow> nat \<Rightarrow> Capability option" where
  "lookup sp slot =
     (case cnode_get (root sp) slot of None \<Rightarrow> None | Some cap \<Rightarrow> if is_null cap then None else Some cap)"

section \<open>Behaviour\<close>

lemma lookup_caps: "lookup sp = caps_of (root sp)"
  by (simp add: fun_eq_iff lookup_def caps_of_def split: option.splits)

abbreviation wf_space :: "CapSpace \<Rightarrow> bool" where
  "wf_space sp \<equiv> wf_cnode (root sp)"

lemma find_port_cap_Some:
  assumes "wf_space sp" "find_port_cap sp port_id needed = Some i"
  shows "\<exists>cap. lookup sp i = Some cap \<and> is_port_cap port_id cap \<and> contains (rights cap) needed"
proof -
  note f = first_idx_SomeD(1,2) [OF assms(2) [unfolded find_port_cap_def]]
  then have "caps_of (root sp) i = Some (slots_of (root sp) ! i)"
    using assms(1) by (auto simp: caps_of_Some wf_cnode_def is_port_cap_def is_null_def)
  with f(2) show ?thesis by (simp add: lookup_caps)
qed

lemma find_port_cap_None:
  assumes "wf_space sp" "find_port_cap sp port_id needed = None" "lookup sp i = Some cap"
  shows "\<not> (is_port_cap port_id cap \<and> contains (rights cap) needed)"
  using assms unfolding find_port_cap_def first_idx_None lookup_caps caps_of_Some wf_cnode_def
  by (auto simp: all_set_conv_all_nth)

text \<open>Inserting a root capability: the slot and the tree node refer to each other.\<close>

lemma space_insert_spec:
  assumes cfg: "cfg_ok g" and wf: "wf_space sp" and inv: "cdt_inv g cdt fs rs" and nn: "\<not> is_null cap"
  shows "\<exists>r sp' cdt' os' fs' rs'. space_insert ns g sp cap cdt os = Some (r, sp', cdt', os') \<and>
    wf_space sp' \<and> space_task_id sp' = space_task_id sp \<and> cdt_inv g cdt' fs' rs' \<and>
    (case r of
       None \<Rightarrow> lookup sp' = lookup sp \<and> rs' = rs
     | Some slot \<Rightarrow> \<exists>i. lookup sp slot = None \<and> lookup sp' = (lookup sp)(slot \<mapsto> cap\<lparr>cdt_index := i\<rparr>) \<and>
         i \<notin> set (idxs rs) \<and>
         rs' = RNode i (cap_type cap, object cap, space_task_id sp, as_u16 slot) [] # rs)"
proof -
  obtain e cn os1 where fe: "find_empty ns (root sp) os = (e, cn, os1)" by (rule prod_cases3)
  note fs = find_empty_spec [OF wf fe]
  show ?thesis
  proof (cases e)
    case None
    then have "space_insert ns g sp cap cdt os = Some (None, sp\<lparr>root := cn\<rparr>, cdt, os1)"
      using fe by (simp add: space_insert_def)
    then show ?thesis using fs(1,2) inv by (auto simp: lookup_caps)
  next
    case (Some slot)
    note slot = fs(3) [OF Some]
    obtain r cdt' os2 where ir: "insert_root g cdt cap (space_task_id sp) (as_u16 slot) os1 = Some (r, cdt', os2)"
      and r: "case r of None \<Rightarrow> cdt_inv g cdt' fs rs
        | Some i \<Rightarrow> i \<notin> set (idxs rs) \<and>
            (\<exists>fs'. cdt_inv g cdt' fs' (RNode i (cap_type cap, object cap, space_task_id sp, as_u16 slot) [] # rs))"
      using insert_root_spec [OF cfg inv, of cap "space_task_id sp" "as_u16 slot" os1] by blast
    show ?thesis
    proof (cases r)
      case None
      then have "space_insert ns g sp cap cdt os = Some (None, sp\<lparr>root := cn\<rparr>, cdt', os2)"
        using fe Some ir by (simp add: space_insert_def)
      then show ?thesis using fs(1,2) None r by (auto simp: lookup_caps)
    next
      case i: (Some i)
      let ?cap = "cap\<lparr>cdt_index := i\<rparr>"
      have "\<not> is_null ?cap" using nn by (simp add: is_null_def)
      with cnode_insert_spec [OF fs(1), of slot ns ?cap os2] slot obtain cn' where
        cn': "cnode_insert ns cn slot ?cap os2 = (cnode_get cn slot, cn', os2)" "wf_cnode cn'"
        "caps_of cn' = (caps_of cn)(slot \<mapsto> ?cap)" by auto
      have "space_insert ns g sp cap cdt os = Some (Some slot, sp\<lparr>root := cn'\<rparr>, cdt', os2)"
        using fe Some ir i cn'(1) by (simp add: space_insert_def)
      moreover obtain fs' where
        "cdt_inv g cdt' fs' (RNode i (cap_type cap, object cap, space_task_id sp, as_u16 slot) [] # rs)"
        using i r by auto
      ultimately show ?thesis using cn'(2,3) fs(2) slot i r by (fastforce simp: lookup_caps)
    qed
  qed
qed

lemma remove_loop_spec:
  assumes "wf_cnode cn" "i + k = num_slots cn"
  shows "\<exists>cn'. remove_loop ns p i k cn os = (cn', os) \<and> wf_cnode cn' \<and> num_slots cn' = num_slots cn \<and>
    (\<forall>j. caps_of cn' j =
       (case caps_of cn j of Some c \<Rightarrow> if i \<le> j \<and> is_port_cap p c then None else Some c | None \<Rightarrow> None))"
  using assms
proof (induction k arbitrary: i cn)
  case 0
  then show ?case by (auto simp: fun_eq_iff caps_of_Some split: option.splits)
next
  case (Suc k)
  have i: "i < num_slots cn" using Suc.prems(2) by simp
  then have ne: "slots cn \<noteq> None" using Suc.prems(1) by (auto simp: wf_cnode_def slots_of_def split: option.splits)
  let ?c = "slots_of cn ! i"
  have ci: "caps_of cn i = Some c \<Longrightarrow> c = ?c" for c by (simp add: caps_of_Some)
  have get: "cnode_get cn i = Some ?c" using i by (simp add: cnode_get_def)
  show ?case
  proof (cases "is_port_cap p ?c")
    case True
    obtain cn1 where cn1: "cnode_insert ns cn i null_cap os = (cnode_get cn i, cn1, os)" "wf_cnode cn1"
      "num_slots cn1 = num_slots cn" "caps_of cn1 = (caps_of cn)(i := None)"
      using cnode_insert_spec [OF Suc.prems(1) ne i, of ns null_cap os] by auto
    obtain cn2 where cn2: "remove_loop ns p (Suc i) k cn1 os = (cn2, os)" "wf_cnode cn2"
      "num_slots cn2 = num_slots cn1"
      "\<And>j. caps_of cn2 j =
       (case caps_of cn1 j of Some c \<Rightarrow> if Suc i \<le> j \<and> is_port_cap p c then None else Some c | None \<Rightarrow> None)"
      using Suc.IH [OF cn1(2), of "Suc i"] Suc.prems(2) cn1(3) by auto
    have "caps_of cn2 j =
       (case caps_of cn j of Some c \<Rightarrow> if i \<le> j \<and> is_port_cap p c then None else Some c | None \<Rightarrow> None)" for j
      using True ci by (cases "j = i"; cases "caps_of cn j") (auto simp: cn2(4) cn1(4) Suc_le_eq)
    then show ?thesis using True get cn1 cn2 by simp
  next
    case False
    obtain cn2 where cn2: "remove_loop ns p (Suc i) k cn os = (cn2, os)" "wf_cnode cn2"
      "num_slots cn2 = num_slots cn"
      "\<And>j. caps_of cn2 j =
       (case caps_of cn j of Some c \<Rightarrow> if Suc i \<le> j \<and> is_port_cap p c then None else Some c | None \<Rightarrow> None)"
      using Suc.IH [OF Suc.prems(1), of "Suc i"] Suc.prems(2) by auto
    have "caps_of cn2 j =
       (case caps_of cn j of Some c \<Rightarrow> if i \<le> j \<and> is_port_cap p c then None else Some c | None \<Rightarrow> None)" for j
      using False ci by (cases "j = i"; cases "caps_of cn j") (auto simp: cn2(4) Suc_le_eq)
    then show ?thesis using False get cn2 by simp
  qed
qed

lemma remove_port_caps_spec:
  assumes "wf_space sp"
  shows "wf_space (space_remove_port_caps ns sp p)"
    "lookup (space_remove_port_caps ns sp p) i =
       (case lookup sp i of Some c \<Rightarrow> if is_port_cap p c then None else Some c | None \<Rightarrow> None)"
    "space_task_id (space_remove_port_caps ns sp p) = space_task_id sp"
proof -
  obtain cn' where cn': "remove_loop ns p 0 (num_slots (root sp)) (root sp) [] = (cn', [])" "wf_cnode cn'"
    "\<And>j. caps_of cn' j =
       (case caps_of (root sp) j of Some c \<Rightarrow> if 0 \<le> j \<and> is_port_cap p c then None else Some c | None \<Rightarrow> None)"
    using remove_loop_spec [OF assms, of 0 "num_slots (root sp)" ns p "[]"] by auto
  then show "wf_space (space_remove_port_caps ns sp p)"
    "space_task_id (space_remove_port_caps ns sp p) = space_task_id sp"
    by (simp_all add: space_remove_port_caps_def)
  show "lookup (space_remove_port_caps ns sp p) i =
       (case lookup sp i of Some c \<Rightarrow> if is_port_cap p c then None else Some c | None \<Rightarrow> None)"
    using cn'(1,3) by (cases "caps_of (root sp) i") (simp_all add: space_remove_port_caps_def lookup_caps)
qed

section \<open>Derivation\<close>

lemma derive_to_cases:
  assumes cfg: "cfg_ok g" and wf: "wf_space dest" and inv: "cdt_inv g cdt fs rs"
  shows "\<exists>r dest' cdt' os' fs' rs'. derive_to ns g src src_slot new_rights dest cdt os = Some (r, dest', cdt', os') \<and>
    wf_space dest' \<and> space_task_id dest' = space_task_id dest \<and> cdt_inv g cdt' fs' rs' \<and>
    (case r of
       None \<Rightarrow> lookup dest' = lookup dest \<and> rs' = rs
     | Some slot \<Rightarrow> \<exists>c i. lookup src src_slot = Some c \<and> new_rights \<le> rights c \<and> cdt_index c \<in> set (idxs rs) \<and>
         lookup dest slot = None \<and> i \<notin> set (idxs rs) \<and>
         lookup dest' = (lookup dest)(slot \<mapsto> c\<lparr>rights := new_rights, cdt_index := i\<rparr>) \<and>
         rs' = set_kids (cdt_index c)
           (RNode i (cap_type c, object c, space_task_id dest, as_u16 slot) [] # kids_of (cdt_index c) rs) rs)"
proof (cases "lookup src src_slot")
  case None
  then have "derive_to ns g src src_slot new_rights dest cdt os = Some (None, dest, cdt, os)"
    by (auto simp: lookup_def derive_to_def split: option.splits if_splits)
  then show ?thesis using wf inv by auto
next
  case (Some c)
  then have c: "cnode_get (root src) src_slot = Some c" "\<not> is_null c"
    by (auto simp: lookup_def split: option.splits if_splits)
  show ?thesis
  proof (cases "derive c new_rights")
    case None
    then have "derive_to ns g src src_slot new_rights dest cdt os = Some (None, dest, cdt, os)"
      using c by (simp add: derive_to_def)
    then show ?thesis using wf inv by auto
  next
    case d: (Some d)
    note dD = derive_SomeD [OF d]
    obtain e cn os1 where fe: "find_empty ns (root dest) os = (e, cn, os1)" by (rule prod_cases3)
    note fe_spec = find_empty_spec [OF wf fe]
    show ?thesis
    proof (cases e)
      case None
      then have "derive_to ns g src src_slot new_rights dest cdt os = Some (None, dest\<lparr>root := cn\<rparr>, cdt, os1)"
        using c d fe by (simp add: derive_to_def)
      then show ?thesis using fe_spec(1,2) inv by (auto simp: lookup_caps)
    next
      case slot: (Some slot)
      note sl = fe_spec(3) [OF slot]
      obtain r cdt' os2 where
        ins: "insert_derived g cdt (cdt_index c) d (space_task_id dest) (as_u16 slot) os1 = Some (r, cdt', os2)"
        and notin: "cdt_index c \<notin> set (idxs rs) \<longrightarrow> r = None"
        and r: "case r of None \<Rightarrow> cdt_inv g cdt' fs rs
          | Some i \<Rightarrow> i \<notin> set (idxs rs) \<and>
           (\<exists>fs'. cdt_inv g cdt' fs' (set_kids (cdt_index c)
             (RNode i (cap_type d, object d, space_task_id dest, as_u16 slot) [] # kids_of (cdt_index c) rs) rs))"
        using insert_derived_spec [OF cfg inv, of "cdt_index c" d "space_task_id dest" "as_u16 slot" os1] by blast
      show ?thesis
      proof (cases r)
        case None
        then have "derive_to ns g src src_slot new_rights dest cdt os = Some (None, dest\<lparr>root := cn\<rparr>, cdt', os2)"
          using c d fe slot ins by (simp add: derive_to_def)
        then show ?thesis using fe_spec(1,2) None r by (auto simp: lookup_caps)
      next
        case i: (Some i)
        let ?cap = "d\<lparr>cdt_index := i\<rparr>"
        have cap: "?cap = c\<lparr>rights := new_rights, cdt_index := i\<rparr>"
          using d by (auto simp: derive_def split: if_splits)
        have "\<not> is_null ?cap" using dD(7) by (simp add: is_null_def)
        with cnode_insert_spec [OF fe_spec(1), of slot ns ?cap os2] sl obtain cn' where
          cn': "cnode_insert ns cn slot ?cap os2 = (cnode_get cn slot, cn', os2)" "wf_cnode cn'"
          "caps_of cn' = (caps_of cn)(slot \<mapsto> ?cap)" by auto
        have "derive_to ns g src src_slot new_rights dest cdt os = Some (Some slot, dest\<lparr>root := cn'\<rparr>, cdt', os2)"
          using c d fe slot ins i cn'(1) by (simp add: derive_to_def)
        moreover obtain fs' where "cdt_inv g cdt' fs' (set_kids (cdt_index c)
             (RNode i (cap_type c, object c, space_task_id dest, as_u16 slot) [] # kids_of (cdt_index c) rs) rs)"
          using i r dD(4,5) by auto
        moreover have "lookup (dest\<lparr>root := cn'\<rparr>) = (lookup dest)(slot \<mapsto> c\<lparr>rights := new_rights, cdt_index := i\<rparr>)"
          using cn'(3) fe_spec(2) cap by (simp add: lookup_caps)
        moreover have "new_rights \<le> rights c" "cdt_index c \<in> set (idxs rs)" "lookup dest slot = None" "i \<notin> set (idxs rs)"
          using dD(3) notin i r sl by (auto simp: lookup_caps)
        ultimately show ?thesis
          using cn'(2) Some
          by (intro exI [of _ "Some slot"] exI [of _ "dest\<lparr>root := cn'\<rparr>"] exI [of _ cdt'] exI [of _ os2] exI [of _ fs']
              exI [of _ "set_kids (cdt_index c)
                (RNode i (cap_type c, object c, space_task_id dest, as_u16 slot) [] # kids_of (cdt_index c) rs) rs"]
              conjI) (simp_all, blast)
      qed
    qed
  qed
qed

section \<open>Properties\<close>

text \<open>
  C33 (derivation between spaces). \<open>derive_to\<close> always completes. When it returns a slot, the source
  slot held a capability with at least the requested rights, that slot of the destination was empty
  and now holds the same object with exactly the requested rights, every other slot is unchanged, and
  the derivation tree gained one node, a child of the source's node that records the destination's
  task and slot. When it returns None the destination's capabilities and the tree are unchanged.
\<close>

theorem derive_to_correct:
  assumes "cfg_ok g" "wf_space dest" "forest_rel g cdt rs"
  shows "\<exists>r dest' cdt' os'. derive_to ns g src src_slot new_rights dest cdt os = Some (r, dest', cdt', os') \<and>
    wf_space dest' \<and>
    (case r of
       None \<Rightarrow> lookup dest' = lookup dest \<and> forest_rel g cdt' rs
     | Some slot \<Rightarrow> \<exists>c i. lookup src src_slot = Some c \<and> contains (rights c) new_rights \<and>
         lookup dest slot = None \<and>
         lookup dest' = (lookup dest)(slot \<mapsto> c\<lparr>rights := new_rights, cdt_index := i\<rparr>) \<and>
         \<not> is_active g cdt i \<and> get_location g cdt' i = Some (space_task_id dest, as_u16 slot) \<and>
         forest_rel g cdt' (set_kids (cdt_index c)
           (RNode i (cap_type c, object c, space_task_id dest, as_u16 slot) [] # kids_of (cdt_index c) rs) rs))"
proof -
  obtain fs where inv: "cdt_inv g cdt fs rs" using assms(3) by (auto simp: forest_rel_def)
  obtain r dest' cdt' os' fs' rs' where *:
    "derive_to ns g src src_slot new_rights dest cdt os = Some (r, dest', cdt', os')" "wf_space dest'"
    "cdt_inv g cdt' fs' rs'"
    "case r of
       None \<Rightarrow> lookup dest' = lookup dest \<and> rs' = rs
     | Some slot \<Rightarrow> \<exists>c i. lookup src src_slot = Some c \<and> new_rights \<le> rights c \<and> cdt_index c \<in> set (idxs rs) \<and>
         lookup dest slot = None \<and> i \<notin> set (idxs rs) \<and>
         lookup dest' = (lookup dest)(slot \<mapsto> c\<lparr>rights := new_rights, cdt_index := i\<rparr>) \<and>
         rs' = set_kids (cdt_index c)
           (RNode i (cap_type c, object c, space_task_id dest, as_u16 slot) [] # kids_of (cdt_index c) rs) rs"
    using derive_to_cases [OF assms(1,2) inv, of ns src src_slot new_rights os] by blast
  show ?thesis
  proof (cases r)
    case None
    then show ?thesis using * by (auto simp: forest_rel_def)
  next
    case (Some slot)
    with *(4) obtain c i where ci: "lookup src src_slot = Some c" "new_rights \<le> rights c"
      "cdt_index c \<in> set (idxs rs)" "lookup dest slot = None" "i \<notin> set (idxs rs)"
      "lookup dest' = (lookup dest)(slot \<mapsto> c\<lparr>rights := new_rights, cdt_index := i\<rparr>)"
      "rs' = set_kids (cdt_index c)
           (RNode i (cap_type c, object c, space_task_id dest, as_u16 slot) [] # kids_of (cdt_index c) rs) rs" by auto
    have "info_at i rs' = Some (cap_type c, object c, space_task_id dest, as_u16 slot)"
      unfolding ci(7) by (rule info_at_new_kid [OF ci(3,5) cdt_invD(6) [OF inv]])
    then have "get_location g cdt' i = Some (space_task_id dest, as_u16 slot)"
      by (simp add: get_location_forest [OF *(3)])
    moreover have "\<not> is_active g cdt i" using ci(5) is_active_iff [OF inv] by simp
    moreover have "forest_rel g cdt' rs'" using *(3) by (auto simp: forest_rel_def)
    ultimately show ?thesis
      using *(1,2) Some ci by (intro exI [of _ r] exI [of _ dest'] exI [of _ cdt'] exI [of _ os'])
        (auto simp: contains_le)
  qed
qed

lemma cdt_index_not_MAX:
  assumes "cfg_ok g" "cdt_inv g cdt fs rs" "i \<in> set (idxs rs)"
  shows "i \<noteq> U32_MAX"
  using idx_not_NONE(1) [OF assms(1) cdt_invD(1) [OF assms(2)], of i] cdt_invD(8) [OF assms(2)] assms(3)
  by (auto simp: CDT_NONE_def)

text \<open>
  C34 (revocation leaves derived capabilities in place). After a successful derivation, revoking the
  source slot counts at least one revoked capability and frees the derived capability's tree node, yet
  the destination slot still holds that capability with its rights, now with an index of a free node,
  which the next insertion may hand to an unrelated capability.
\<close>

theorem revoke_keeps_derived_cap:
  assumes "cfg_ok g" "wf_space dest" "forest_rel g cdt rs"
    and "derive_to ns g src src_slot new_rights dest cdt os = Some (Some slot, dest', cdt', os')"
  shows "\<exists>k cdt'' cap. space_revoke g src src_slot cdt' = Some (k, cdt'') \<and> 1 \<le> k \<and>
    lookup dest' slot = Some cap \<and> rights cap = new_rights \<and>
    is_active g cdt' (cdt_index cap) \<and> \<not> is_active g cdt'' (cdt_index cap)"
proof -
  obtain fs where inv: "cdt_inv g cdt fs rs" using assms(3) by (auto simp: forest_rel_def)
  obtain fs' rs' c i where inv': "cdt_inv g cdt' fs' rs'" and ci: "lookup src src_slot = Some c"
    "cdt_index c \<in> set (idxs rs)" "i \<notin> set (idxs rs)"
    "lookup dest' = (lookup dest)(slot \<mapsto> c\<lparr>rights := new_rights, cdt_index := i\<rparr>)"
    "rs' = set_kids (cdt_index c)
       (RNode i (cap_type c, object c, space_task_id dest, as_u16 slot) [] # kids_of (cdt_index c) rs) rs"
    using derive_to_cases [OF assms(1,2) inv, of ns src src_slot new_rights os] assms(4) by auto
  let ?p = "cdt_index c"
  note d = cdt_invD(6) [OF inv]
  have p: "?p \<in> set (idxs rs')" unfolding ci(5) by (rule in_set_kids [OF ci(2)])
  have kids: "i \<in> set (idxs (kids_of ?p rs'))" unfolding ci(5) by (simp add: kids_of_set_kids [OF ci(2) d])
  then have i: "i \<in> set (idxs rs')" using kids_of_subset [of ?p rs'] by blast
  have ne: "?p \<noteq> U32_MAX" by (rule cdt_index_not_MAX [OF assms(1) inv ci(2)])
  obtain cdt'' fs'' where rev: "revoke_children g ?p cdt' = Some (length (idxs (kids_of ?p rs')), cdt'')"
    "cdt_inv g cdt'' fs'' (set_kids ?p [] rs')"
    using revoke_children_spec [OF assms(1) inv' p] by blast
  have "cnode_get (root src) src_slot = Some c" "\<not> is_null c"
    using ci(1) by (auto simp: lookup_def split: option.splits if_splits)
  then have "space_revoke g src src_slot cdt' = Some (length (idxs (kids_of ?p rs')), cdt'')"
    using ne rev(1) by (simp add: space_revoke_def)
  moreover have "1 \<le> length (idxs (kids_of ?p rs'))" using kids by (cases "idxs (kids_of ?p rs')") auto
  moreover have "is_active g cdt' i" using i is_active_iff [OF inv'] by simp
  moreover have "\<not> is_active g cdt'' i"
    using kids is_active_iff [OF rev(2)] idxs_set_kids_Nil [OF p cdt_invD(6) [OF inv']] by simp
  ultimately show ?thesis using ci(4) by auto
qed

section \<open>A concrete derivation\<close>

definition sample_cap :: Capability where
  "sample_cap = \<lparr>cap_type = Port, rights = Rights 3, object = 7, cdt_index = 0\<rparr>"

definition sample_src :: CapSpace where
  "sample_src = \<lparr>root = \<lparr>slots = Some [sample_cap, null_cap], num_slots = 2\<rparr>, space_task_id = 1\<rparr>"

lemma sample_derives:
  "\<exists>dest' cdt' os'. derive_to 2 sample_cfg sample_src 0 (Rights 1) (new_space 4) sample_cdt [True] =
     Some (Some 0, dest', cdt', os')"
proof -
  have ipp: "items_per_page sample_cfg = 4" by (simp add: sample_cfg_def items_per_page_def)
  have act: "is_active sample_cfg sample_cdt 0"
    using sample_forest sample_idxs(1) is_active_iff by (auto simp: forest_rel_def)
  let ?d = "\<lparr>cap_type = Port, rights = Rights 1, object = 7, cdt_index = U32_MAX\<rparr>"
  have d: "derive sample_cap (Rights 1) = Some ?d"
    by (simp add: derive_def sample_cap_def is_null_def contains_def)
  obtain c1 where c1: "take_free sample_cfg sample_cdt = Some (3, c1)" "cdt_wf sample_cfg c1"
    "cdt_cap sample_cfg c1 = 4"
  proof -
    obtain fs where inv: "cdt_inv sample_cfg sample_cdt fs sample_rs"
      using sample_forest by (auto simp: forest_rel_def)
    have cap: "cdt_cap sample_cfg sample_cdt = 4"
      by (simp add: cdt_cap_def capacity_def sample_cdt_def ipp)
    have "free_head sample_cdt = 3" by (simp add: sample_cdt_def)
    with cdt_invD(2) [OF inv] obtain fs' where fs: "fs = 3 # fs'"
      by (cases fs) (auto simp: CDT_NONE_def U32_MAX_def)
    show thesis
      using take_freeE [OF cdt_invD(1) [OF inv], of 3 fs'] cdt_invD(2,5) [OF inv] cap that by (auto simp: fs)
  qed
  obtain n where n: "node_at sample_cfg c1 0 = Some n" using cdt.itemE [OF c1(2), of 0] c1(3) by auto
  have ins: "\<exists>c'. insert_derived sample_cfg sample_cdt 0 ?d 4 0 [] = Some (Some 3, c', [])"
  proof -
    have "alloc_node sample_cfg sample_cdt [] = Some (Some 3, c1, [])"
      using c1(1) by (simp add: alloc_node_def sample_cdt_def [THEN arg_cong [of _ _ free_head]] CDT_NONE_def U32_MAX_def)
    moreover let ?f = "\<lambda>m. m\<lparr>n_cap_type := Port, n_object := 7, parent := 0, first_child := CDT_NONE,
        next_sibling := first_child n, task_id := 4, slot_index := 0, active := True\<rparr>"
    obtain c2 where c2: "upd_node sample_cfg c1 3 ?f = Some c2" "cdt_wf sample_cfg c2" "cdt_cap sample_cfg c2 = 4"
      using upd_nodeE [OF c1(2), of 3 ?f] c1(3) by auto
    moreover obtain c3 where "upd_node sample_cfg c2 0 (\<lambda>m. m\<lparr>first_child := 3\<rparr>) = Some c3"
      using upd_nodeE [OF c2(2), of 0 "\<lambda>m. m\<lparr>first_child := 3\<rparr>"] c2(3) by auto
    ultimately show ?thesis using act n by (simp add: insert_derived_def)
  qed
  then show ?thesis
    using d
    by (auto simp: derive_to_def sample_src_def cnode_get_def slots_of_def new_space_def find_empty_def new_cnode_def
        ensure_slots_def sample_cap_def is_null_def zero_cap_def cnode_insert_def numeral_2_eq_2)
qed

lemma wf_new_space: "wf_space (new_space t)"
  by (simp add: new_space_def)

lemma derive_to_correct_witness:
  "\<exists>r dest' cdt' os'. derive_to 2 sample_cfg sample_src 0 (Rights 1) (new_space 4) sample_cdt [True] =
     Some (r, dest', cdt', os') \<and> wf_space dest'"
  using derive_to_correct [OF sample_cfg_ok wf_new_space sample_forest, of 2 sample_src 0 "Rights 1" 4 "[True]"] by blast

lemma revoke_keeps_derived_cap_witness:
  "\<exists>dest' cdt' os' k cdt'' cap.
     derive_to 2 sample_cfg sample_src 0 (Rights 1) (new_space 4) sample_cdt [True] = Some (Some 0, dest', cdt', os') \<and>
     space_revoke sample_cfg sample_src 0 cdt' = Some (k, cdt'') \<and> 1 \<le> k \<and>
     lookup dest' 0 = Some cap \<and> rights cap = Rights 1"
proof -
  obtain dest' cdt' os' where
    "derive_to 2 sample_cfg sample_src 0 (Rights 1) (new_space 4) sample_cdt [True] = Some (Some 0, dest', cdt', os')"
    using sample_derives by blast
  with revoke_keeps_derived_cap [OF sample_cfg_ok wf_new_space sample_forest this] show ?thesis by blast
qed

end
