(* ===== verification/Mmio.thy ===== *)
theory Mmio
  imports Capability
begin

text \<open>
  \<open>kernel/src/cap/mmio.rs\<close>: the registry of memory-mapped device regions that Memory capabilities
  refer to by number. Addresses and sizes are 64-bit words, with the wrap-around of the page rounding
  kept; the firmware's device list and framebuffer are arguments of \<open>populate_from_firmware\<close>.
\<close>

definition MMUPAGE_SIZE :: u64 where "MMUPAGE_SIZE = 4096"
definition MAX_MMIO_REGIONS :: nat where "MAX_MMIO_REGIONS = 32"

datatype CacheAttr = Device | WriteCombine

record MmioRegion =
  phys_base :: u64
  region_size :: u64
  sub_page_offset :: u64
  caching :: CacheAttr

definition zero_region :: MmioRegion where
  "zero_region = \<lparr>phys_base = 0, region_size = 0, sub_page_offset = 0, caching = Device\<rparr>"

record MmioTable =
  mslots :: "MmioRegion list"
  mcount :: nat

definition new_table :: MmioTable where
  "new_table = \<lparr>mslots = replicate MAX_MMIO_REGIONS zero_region, mcount = 0\<rparr>"

definition checked_add :: "u64 \<Rightarrow> u64 \<Rightarrow> u64 option" where
  "checked_add a b = (if unat a + unat b < 2 ^ 64 then Some (a + b) else None)"

definition align_down :: "u64 \<Rightarrow> u64" where
  "align_down a = a AND NOT (MMUPAGE_SIZE - 1)"

definition register_region :: "MmioTable \<Rightarrow> u64 \<Rightarrow> u64 \<Rightarrow> CacheAttr \<Rightarrow> nat option \<times> MmioTable" where
  "register_region tb base sz cache =
     (if sz = 0 then (None, tb)
      else
        let page = MMUPAGE_SIZE;
            base_aligned = align_down base;
            sub_page = base - base_aligned
        in case checked_add base sz of
             None \<Rightarrow> (None, tb)
           | Some fin \<Rightarrow>
               let end_aligned = align_down (fin + page - 1);
                   size_aligned = end_aligned - base_aligned;
                   n = mcount tb
               in case first_idx (\<lambda>r. phys_base r = base_aligned \<and> sub_page_offset r = sub_page \<and> region_size r = size_aligned)
                         (take n (mslots tb)) of
                    Some i \<Rightarrow> (Some i, tb)
                  | None \<Rightarrow>
                      if n \<ge> MAX_MMIO_REGIONS then (None, tb)
                      else (Some n, tb\<lparr>mslots := (mslots tb)[n := \<lparr>phys_base = base_aligned, region_size = size_aligned,
                                          sub_page_offset = sub_page, caching = cache\<rparr>],
                                       mcount := n + 1\<rparr>))"

definition region :: "MmioTable \<Rightarrow> nat \<Rightarrow> MmioRegion option" where
  "region tb i = (if i \<ge> mcount tb then None else Some (mslots tb ! i))"

definition region_count :: "MmioTable \<Rightarrow> nat" where
  "region_count tb = mcount tb"

text \<open>\<open>devs\<close>: base and size of each virtio device; \<open>fb\<close>: address, pitch and height of a framebuffer.\<close>

definition populate_from_firmware :: "(u64 \<times> u64) list \<Rightarrow> (u64 \<times> u64 \<times> u64) option \<Rightarrow> MmioTable \<Rightarrow> MmioTable" where
  "populate_from_firmware devs fb tb =
     (let tb1 = fold (\<lambda>(base, sz) tb. snd (register_region tb base sz Device)) devs tb
      in case fb of
           None \<Rightarrow> tb1
         | Some (addr, pitch, height) \<Rightarrow>
             let sz = pitch * height
             in if addr \<noteq> 0 \<and> sz > 0 then snd (register_region tb1 addr sz WriteCombine) else tb1)"

definition make_cap :: "MmioTable \<Rightarrow> nat \<Rightarrow> Rights \<Rightarrow> Capability option" where
  "make_cap tb region_id r =
     (case region tb region_id of None \<Rightarrow> None | Some _ \<Rightarrow> Some (new_cap Memory r region_id))"

section \<open>Page rounding\<close>

lemma align_down_shift: "align_down a = push_bit 12 (drop_bit 12 a)"
proof -
  have "MMUPAGE_SIZE - 1 = mask 12" by (simp add: MMUPAGE_SIZE_def mask_eq_exp_minus_1)
  then show ?thesis
    by (intro bit_word_eqI) (auto simp: align_down_def bit_simps)
qed

lemma unat_align_down: "unat (align_down a) = unat a div 4096 * 4096"
proof -
  have "unat a div 4096 * 4096 < 2 ^ 64"
    using unsigned_less [where 'a = nat, of a] div_times_less_eq_dividend [of "unat a" 4096] by simp
  moreover have "unat (align_down a) = take_bit 64 (push_bit 12 (unat (drop_bit 12 a)))"
    by (simp only: align_down_shift unsigned_push_bit_eq) simp
  moreover have "unat (drop_bit 12 a) = unat a div 4096"
    by (simp only: unat_drop_bit_eq) (simp add: drop_bit_eq_div)
  ultimately show ?thesis by (simp add: push_bit_eq_mult take_bit_nat_eq_self)
qed

lemma unat_align_down_le: "unat (align_down a) \<le> unat a"
  by (simp add: unat_align_down)

section \<open>Invariant and properties\<close>

definition wf_table :: "MmioTable \<Rightarrow> bool" where
  "wf_table tb \<longleftrightarrow> length (mslots tb) = MAX_MMIO_REGIONS \<and> mcount tb \<le> MAX_MMIO_REGIONS"

lemma wf_new_table: "wf_table new_table"
  by (simp add: wf_table_def new_table_def)

text \<open>The region is page aligned and covers exactly the pages that the byte range touches.\<close>

definition covers :: "MmioRegion \<Rightarrow> u64 \<Rightarrow> u64 \<Rightarrow> bool" where
  "covers r base sz \<longleftrightarrow>
     unat (phys_base r) mod 4096 = 0 \<and> unat (region_size r) mod 4096 = 0 \<and>
     phys_base r + sub_page_offset r = base \<and> unat (sub_page_offset r) < 4096 \<and>
     unat (phys_base r) + unat (region_size r) = (unat base + unat sz + 4095) div 4096 * 4096"

lemma covers_rounded:
  assumes "unat base + unat sz + 4095 < 2 ^ 64"
  shows "covers \<lparr>phys_base = align_down base, region_size = align_down (base + sz + MMUPAGE_SIZE - 1) - align_down base,
     sub_page_offset = base - align_down base, caching = ca\<rparr> base sz"
proof -
  have e: "unat (base + sz + MMUPAGE_SIZE - 1) = unat base + unat sz + 4095"
  proof -
    have eq: "base + sz + MMUPAGE_SIZE - 1 = base + sz + 4095" by (simp add: MMUPAGE_SIZE_def)
    have "unat (base + sz) = unat base + unat sz" using assms by (simp add: unat_add_lem [THEN iffD1])
    moreover have "unat (base + sz + 4095) = unat (base + sz) + unat (4095 :: u64)"
      using assms calculation by (intro unat_add_lem [THEN iffD1]) simp
    ultimately show ?thesis unfolding eq by simp
  qed
  let ?b = "unat base" and ?e = "unat base + unat sz + 4095"
  have le: "?b div 4096 * 4096 \<le> ?e div 4096 * 4096" by (intro mult_right_mono div_le_mono) auto
  then have "align_down base \<le> align_down (base + sz + MMUPAGE_SIZE - 1)"
    by (simp add: word_le_nat_alt unat_align_down e)
  then have s: "unat (align_down (base + sz + MMUPAGE_SIZE - 1) - align_down base) = ?e div 4096 * 4096 - ?b div 4096 * 4096"
    by (simp add: unat_sub unat_align_down e)
  have "align_down base \<le> base" by (simp add: word_le_nat_alt unat_align_down_le)
  then have sub: "unat (base - align_down base) = ?b mod 4096"
    by (simp add: unat_sub unat_align_down minus_div_mult_eq_mod)
  have "(?e div 4096 * 4096 - ?b div 4096 * 4096) mod 4096 = 0" by (simp flip: diff_mult_distrib)
  then show ?thesis using le by (simp add: covers_def unat_align_down s sub)
qed

text \<open>
  Registering a non-empty range whose rounded end does not pass the top of
  the address space yields, unless the table is full, an id whose region is page aligned, covers
  exactly the pages the range touches and preserves the base's offset in its page. All earlier ids
  keep their regions, and registering the same range again returns the same id and changes nothing.
\<close>

theorem register_region_correct:
  assumes wf: "wf_table tb" and sz: "sz \<noteq> 0" and no_wrap: "unat base + unat sz + 4095 < 2 ^ 64"
    and reg: "register_region tb base sz ca = (r, tb')"
  shows "wf_table tb' \<and> (\<forall>i<mcount tb. region tb' i = region tb i) \<and>
    (case r of
       None \<Rightarrow> tb' = tb \<and> mcount tb = MAX_MMIO_REGIONS
     | Some i \<Rightarrow> (\<exists>reg. region tb' i = Some reg \<and> covers reg base sz) \<and>
         register_region tb' base sz ca = (Some i, tb'))"
proof -
  let ?ba = "align_down base" and ?ea = "align_down (base + sz + MMUPAGE_SIZE - 1)"
  let ?P = "\<lambda>r. phys_base r = ?ba \<and> sub_page_offset r = base - ?ba \<and> region_size r = ?ea - ?ba"
  let ?new = "\<lparr>phys_base = ?ba, region_size = ?ea - ?ba, sub_page_offset = base - ?ba, caching = ca\<rparr>"
  have add: "checked_add base sz = Some (base + sz)" using no_wrap by (simp add: checked_add_def)
  have eval: "register_region t base sz ca =
      (case first_idx ?P (take (mcount t) (mslots t)) of
         Some i \<Rightarrow> (Some i, t)
       | None \<Rightarrow> if mcount t \<ge> MAX_MMIO_REGIONS then (None, t)
           else (Some (mcount t), t\<lparr>mslots := (mslots t)[mcount t := ?new], mcount := mcount t + 1\<rparr>))" for t
    using sz add by (simp add: register_region_def Let_def)
  have cov: "covers x base sz" if "?P x" for x
    using covers_rounded [OF no_wrap, of "caching x"] that by (simp add: covers_def)
  show ?thesis
  proof (cases "first_idx ?P (take (mcount tb) (mslots tb))")
    case (Some i)
    then have r: "r = Some i" "tb' = tb" using reg eval [of tb] by auto
    have "i < mcount tb" "?P (mslots tb ! i)" using first_idx_SomeD(1,2) [OF Some] by auto
    then show ?thesis using r wf eval [of tb] Some cov by (auto simp: region_def)
  next
    case None
    show ?thesis
    proof (cases "mcount tb \<ge> MAX_MMIO_REGIONS")
      case True
      then show ?thesis using reg eval [of tb] None wf by (auto simp: wf_table_def)
    next
      case False
      let ?n = "mcount tb"
      let ?tb = "tb\<lparr>mslots := (mslots tb)[?n := ?new], mcount := ?n + 1\<rparr>"
      have r: "r = Some ?n" "tb' = ?tb" using reg eval [of tb] None False by auto
      have len: "?n < length (mslots tb)" using False wf by (simp add: wf_table_def)
      have wf': "wf_table ?tb" using wf False by (simp add: wf_table_def)
      have "take (?n + 1) ((mslots tb)[?n := ?new]) = take ?n (mslots tb) @ [?new]"
        using len by (simp add: take_Suc_conv_app_nth)
      then have "first_idx ?P (take (mcount ?tb) (mslots ?tb)) = Some ?n"
        using None len by (simp add: first_idx_snoc)
      then have "register_region ?tb base sz ca = (Some ?n, ?tb)" using eval [of ?tb] by simp
      moreover have "region ?tb ?n = Some ?new" using len by (simp add: region_def)
      moreover have "covers ?new base sz" by (rule cov) simp
      moreover have "\<forall>i<?n. region ?tb i = region tb i" by (simp add: region_def)
      ultimately show ?thesis using r wf' by auto
    qed
  qed
qed

lemma register_region_correct_witness:
  "\<exists>i. fst (register_region new_table 0x10001234 0x200 Device) = Some i"
proof -
  obtain r tb' where e: "register_region new_table 0x10001234 0x200 Device = (r, tb')" by fastforce
  have "case r of
       None \<Rightarrow> tb' = new_table \<and> mcount new_table = MAX_MMIO_REGIONS
     | Some i \<Rightarrow> (\<exists>reg. region tb' i = Some reg \<and> covers reg 0x10001234 0x200) \<and>
         register_region tb' 0x10001234 0x200 Device = (Some i, tb')"
    using register_region_correct [OF wf_new_table _ _ e] by simp
  then show ?thesis using e by (cases r) (auto simp: new_table_def MAX_MMIO_REGIONS_def)
qed

end
