(* ===== verification/CapSystem.thy ===== *)
theory CapSystem
  imports PortId CapSet CapSpace Mmio
begin

text \<open>
  \<open>kernel/src/cap/mod.rs\<close>, \<open>kernel/src/cap/mmio.rs\<close> and the capability checks of
  \<open>kernel/src/syscall/handlers.rs\<close>: the public capability operations over all tasks, which keep a
  task's slots, its fast-path permission set and the global derivation tree in step.

  The task table is a map from task ids to the two capability fields of a task (an access through a
  null task pointer is None); of the ports only what these operations read is kept, the receive
  holder of each live port. Each operation runs under the task's lock, so it is one step.
\<close>

section \<open>State\<close>

record Task =
  capspace :: CapSpace
  capset :: CapSet

record CapSystem =
  tasks :: "nat \<Rightarrow> Task option"
  cdt :: Cdt
  recv_holders :: "u64 \<Rightarrow> nat option"

definition port_is_active_local :: "CapSystem \<Rightarrow> u64 \<Rightarrow> bool" where
  "port_is_active_local s local \<longleftrightarrow> recv_holders s local \<noteq> None"

definition port_is_active :: "CapSystem \<Rightarrow> u64 \<Rightarrow> bool" where
  "port_is_active s port_id \<longleftrightarrow> recv_holders s (port_local port_id) \<noteq> None"

definition get_recv_holder :: "CapSystem \<Rightarrow> u64 \<Rightarrow> nat" where
  "get_recv_holder s port_id =
     (case recv_holders s (port_local port_id) of Some t \<Rightarrow> t | None \<Rightarrow> U32_MAX)"

definition set_recv_holder :: "CapSystem \<Rightarrow> u64 \<Rightarrow> nat \<Rightarrow> CapSystem" where
  "set_recv_holder s port_id t =
     (if recv_holders s (port_local port_id) \<noteq> None
      then s\<lparr>recv_holders := (recv_holders s)(port_local port_id \<mapsto> t)\<rparr> else s)"

section \<open>Operations\<close>

definition rights_to_perms :: "Rights \<Rightarrow> u8" where
  "rights_to_perms r =
     (let p = 0;
          p = (if contains r SEND then p OR PERM_SEND else p);
          p = (if contains r RECV then p OR PERM_RECV else p);
          p = (if contains r MANAGE then p OR PERM_MANAGE else p)
      in p)"

definition has_port_cap_fast :: "CapSystem \<Rightarrow> nat \<Rightarrow> u64 \<Rightarrow> Rights \<Rightarrow> bool" where
  "has_port_cap_fast s t port_id needed =
     (if t = 0 then True
      else (case tasks s t of
              None \<Rightarrow> False
            | Some tk \<Rightarrow> has (capset tk) (port_local port_id) (rights_to_perms needed)))"

definition capset_grant :: "CapSystem \<Rightarrow> nat \<Rightarrow> u64 \<Rightarrow> Rights \<Rightarrow> CapSystem option" where
  "capset_grant s t port_id r = do {
     tk \<leftarrow> tasks s t;
     let (_, cs) = grant (port_is_active_local s) (capset tk) (port_local port_id) (rights_to_perms r);
     let s1 = s\<lparr>tasks := (tasks s)(t \<mapsto> tk\<lparr>capset := cs\<rparr>)\<rparr>;
     Some (if contains r RECV then set_recv_holder s1 port_id t else s1)
   }"

definition capset_remove_port :: "CapSystem \<Rightarrow> nat \<Rightarrow> u64 \<Rightarrow> CapSystem option" where
  "capset_remove_port s t port_id = do {
     tk \<leftarrow> tasks s t;
     let s1 = s\<lparr>tasks := (tasks s)(t \<mapsto> tk\<lparr>capset := remove_entry (capset tk) (port_local port_id)\<rparr>)\<rparr>;
     Some (if get_recv_holder s1 port_id = t then set_recv_holder s1 port_id U32_MAX else s1)
   }"

definition capset_reset :: "CapSystem \<Rightarrow> nat \<Rightarrow> CapSystem" where
  "capset_reset s t =
     (case tasks s t of
        None \<Rightarrow> s
      | Some tk \<Rightarrow> s\<lparr>tasks := (tasks s)(t \<mapsto> tk\<lparr>capset := reset (capset tk)\<rparr>)\<rparr>)"

definition capset_copy :: "CapSystem \<Rightarrow> nat \<Rightarrow> nat \<Rightarrow> CapSystem option" where
  "capset_copy s parent_task child_task = do {
     p \<leftarrow> tasks s parent_task;
     c \<leftarrow> tasks s child_task;
     Some (s\<lparr>tasks := (tasks s)(child_task \<mapsto> c\<lparr>capset := copy_from (capset c) (capset p)\<rparr>)\<rparr>)
   }"

text \<open>The body shared by the grants: insert a root capability into the task's space.\<close>

definition insert_cap ::
  "nat \<Rightarrow> cdt_cfg \<Rightarrow> CapSystem \<Rightarrow> nat \<Rightarrow> Capability \<Rightarrow> alloc_outcomes
     \<Rightarrow> (nat option \<times> CapSystem \<times> alloc_outcomes) option" where
  "insert_cap ns g s t cap os = do {
     tk \<leftarrow> tasks s t;
     (r, sp, c, os') \<leftarrow> space_insert ns g (capspace tk) cap (cdt s) os;
     Some (r, s\<lparr>tasks := (tasks s)(t \<mapsto> tk\<lparr>capspace := sp\<rparr>), cdt := c\<rparr>, os')
   }"

definition grant_send_cap ::
  "nat \<Rightarrow> cdt_cfg \<Rightarrow> CapSystem \<Rightarrow> nat \<Rightarrow> u64 \<Rightarrow> alloc_outcomes
     \<Rightarrow> (nat option \<times> CapSystem \<times> alloc_outcomes) option" where
  "grant_send_cap ns g s t port_id os = do {
     tk \<leftarrow> tasks s t;
     if find_port_cap (capspace tk) (unat port_id) SEND \<noteq> None then Some (Some 0, s, os)
     else do {
       (r, s1, os') \<leftarrow> insert_cap ns g s t (new_cap Port SEND (unat port_id)) os;
       s2 \<leftarrow> (if r \<noteq> None then capset_grant s1 t port_id SEND else Some s1);
       Some (r, s2, os')
     }
   }"

definition grant_full_port_cap ::
  "nat \<Rightarrow> cdt_cfg \<Rightarrow> CapSystem \<Rightarrow> nat \<Rightarrow> u64 \<Rightarrow> alloc_outcomes
     \<Rightarrow> (nat option \<times> CapSystem \<times> alloc_outcomes) option" where
  "grant_full_port_cap ns g s t port_id os = do {
     let r = union_rights (union_rights SEND RECV) MANAGE;
     (res, s1, os') \<leftarrow> insert_cap ns g s t (new_cap Port r (unat port_id)) os;
     s2 \<leftarrow> (if res \<noteq> None then capset_grant s1 t port_id r else Some s1);
     Some (res, s2, os')
   }"

definition grant_port_cap ::
  "nat \<Rightarrow> cdt_cfg \<Rightarrow> CapSystem \<Rightarrow> nat \<Rightarrow> u64 \<Rightarrow> Rights \<Rightarrow> alloc_outcomes
     \<Rightarrow> (nat option \<times> CapSystem \<times> alloc_outcomes) option" where
  "grant_port_cap ns g s t port_id r os = do {
     tk \<leftarrow> tasks s t;
     if find_port_cap (capspace tk) (unat port_id) r \<noteq> None then Some (Some 0, s, os)
     else do {
       (res, s1, os') \<leftarrow> insert_cap ns g s t (new_cap Port r (unat port_id)) os;
       s2 \<leftarrow> (if res \<noteq> None then capset_grant s1 t port_id r else Some s1);
       Some (res, s2, os')
     }
   }"

definition grant_mmio_cap ::
  "nat \<Rightarrow> cdt_cfg \<Rightarrow> MmioTable \<Rightarrow> CapSystem \<Rightarrow> nat \<Rightarrow> nat \<Rightarrow> Rights \<Rightarrow> alloc_outcomes
     \<Rightarrow> (nat option \<times> CapSystem \<times> alloc_outcomes) option" where
  "grant_mmio_cap ns g tb s t region_id r os =
     (case make_cap tb region_id r of
        None \<Rightarrow> Some (None, s, os)
      | Some cap \<Rightarrow> insert_cap ns g s t cap os)"

definition remove_port_caps :: "nat \<Rightarrow> CapSystem \<Rightarrow> nat \<Rightarrow> u64 \<Rightarrow> CapSystem option" where
  "remove_port_caps ns s t port_id = do {
     tk \<leftarrow> tasks s t;
     let s1 = s\<lparr>tasks := (tasks s)(t \<mapsto> tk\<lparr>capspace := space_remove_port_caps ns (capspace tk) (unat port_id)\<rparr>)\<rparr>;
     capset_remove_port s1 t port_id
   }"

definition revoke_slot :: "cdt_cfg \<Rightarrow> CapSystem \<Rightarrow> nat \<Rightarrow> nat \<Rightarrow> (nat \<times> CapSystem) option" where
  "revoke_slot g s t slot = do {
     tk \<leftarrow> tasks s t;
     (k, c) \<leftarrow> space_revoke g (capspace tk) slot (cdt s);
     Some (k, s\<lparr>cdt := c\<rparr>)
   }"

definition find_recv_task :: "CapSystem \<Rightarrow> u64 \<Rightarrow> nat \<Rightarrow> nat option" where
  "find_recv_task s port_id exclude_task =
     (let holder = get_recv_holder s port_id
      in if holder \<noteq> U32_MAX \<and> holder \<noteq> exclude_task then Some holder else None)"

subsection \<open>The checks of the system-call layer\<close>

definition check_port_cap :: "CapSystem \<Rightarrow> nat \<Rightarrow> u64 \<Rightarrow> Rights \<Rightarrow> bool" where
  "check_port_cap s t port_id needed =
     (if t = 0 then True
      else if \<not> has_port_cap_fast s t port_id needed then False
      else if contains needed MANAGE
      then (case tasks s t of
              None \<Rightarrow> False
            | Some tk \<Rightarrow> find_port_cap (capspace tk) (unat port_id) needed \<noteq> None)
      else True)"

definition sys_cap_revoke :: "cdt_cfg \<Rightarrow> CapSystem \<Rightarrow> nat \<Rightarrow> u64 \<Rightarrow> (u64 \<times> CapSystem) option" where
  "sys_cap_revoke g s t port_id =
     (if t = 0 then Some (- 1, s)
      else (case tasks s t of
              None \<Rightarrow> Some (- 1, s)
            | Some tk \<Rightarrow>
                (case find_port_cap (capspace tk) (unat port_id) MANAGE of
                   None \<Rightarrow> Some (- 1, s)
                 | Some slot \<Rightarrow> do {
                     (k, s') \<leftarrow> revoke_slot g s t slot;
                     Some (of_nat k, s')
                   })))"

definition auto_grant_sender_identity ::
  "nat \<Rightarrow> cdt_cfg \<Rightarrow> CapSystem \<Rightarrow> nat \<Rightarrow> u64 \<Rightarrow> alloc_outcomes \<Rightarrow> (CapSystem \<times> alloc_outcomes) option" where
  "auto_grant_sender_identity ns g s receiver_task sender_port os =
     (if receiver_task = 0 \<or> sender_port = 0 then Some (s, os)
      else if has_port_cap_fast s receiver_task sender_port SEND then Some (s, os)
      else do {
        (r, s', os') \<leftarrow> grant_send_cap ns g s receiver_task sender_port os;
        Some (s', os')
      })"

text \<open>The candidate ports of a received message: each of its first four words, whole and shifted.\<close>

definition add_candidate :: "CapSystem \<Rightarrow> nat \<Rightarrow> u64 \<Rightarrow> u64 list \<Rightarrow> u64 list" where
  "add_candidate s t val candidates =
     (if val = 0 \<or> val = - 1 then candidates
      else if \<not> port_is_active s val then candidates
      else if has_port_cap_fast s t val SEND then candidates
      else if val \<notin> set candidates \<and> length candidates < 8 then candidates @ [val]
      else candidates)"

definition reply_candidates :: "CapSystem \<Rightarrow> nat \<Rightarrow> u64 list \<Rightarrow> u64 list" where
  "reply_candidates s t words =
     fold (\<lambda>word acc. fold (add_candidate s t) [word, drop_bit 16 word, drop_bit 32 word] acc) (take 4 words) []"

fun grant_all_send ::
  "nat \<Rightarrow> cdt_cfg \<Rightarrow> CapSystem \<Rightarrow> nat \<Rightarrow> u64 list \<Rightarrow> alloc_outcomes \<Rightarrow> (CapSystem \<times> alloc_outcomes) option" where
  "grant_all_send ns g s t [] os = Some (s, os)"
| "grant_all_send ns g s t (p # ps) os = do {
     (r, s', os') \<leftarrow> grant_send_cap ns g s t p os;
     grant_all_send ns g s' t ps os'
   }"

definition auto_grant_reply_caps ::
  "nat \<Rightarrow> cdt_cfg \<Rightarrow> CapSystem \<Rightarrow> nat \<Rightarrow> u64 list \<Rightarrow> alloc_outcomes \<Rightarrow> (CapSystem \<times> alloc_outcomes) option" where
  "auto_grant_reply_caps ns g s t words os =
     (if t = 0 then Some (s, os) else grant_all_send ns g s t (reply_candidates s t words) os)"

section \<open>Permission bits\<close>

lemma bit_rights_to_perms:
  "bit (rights_to_perms r) b \<longleftrightarrow>
     b = 0 \<and> contains r SEND \<or> b = 1 \<and> contains r RECV \<or> b = 2 \<and> contains r MANAGE"
proof -
  have two: "bit (2 :: int) b \<longleftrightarrow> b = 1" and four: "bit (4 :: int) b \<longleftrightarrow> b = 2"
    using bit_exp_iff [where 'a = int, of 1 b] bit_exp_iff [where 'a = int, of 2 b] by auto
  show ?thesis
    by (auto simp: rights_to_perms_def Let_def PERM_SEND_def PERM_RECV_def PERM_MANAGE_def bit_or_iff bit_1_iff two four)
qed

lemma port_local_bound: "port_local i < 2 ^ 56"
proof -
  have "port_local i \<le> 0xFFFFFFFFFFF" unfolding port_local_def by (rule word_and_le1)
  then show ?thesis by (rule le_less_trans) simp
qed

lemma grant_bits:
  assumes wf: "wf_capset cs" and p: "p < 2 ^ 56" and g: "grant act cs p q = (ok, cs')"
  shows "wf_capset cs'"
    and "capset_map cs' p' = Some r \<Longrightarrow> bit r b \<Longrightarrow>
      (\<exists>r0. capset_map cs p' = Some r0 \<and> bit r0 b) \<or> p' = p \<and> bit q b"
proof -
  have "wf_capset cs' \<and> (\<forall>p' r b. capset_map cs' p' = Some r \<longrightarrow> bit r b \<longrightarrow>
      (\<exists>r0. capset_map cs p' = Some r0 \<and> bit r0 b) \<or> p' = p \<and> bit q b)"
  proof (cases "p = 0 \<and> q = 0")
    case False
    then have "p \<noteq> 0 \<or> q \<noteq> 0" by simp
    note gs = grant_spec [OF wf p this g]
    have "(\<exists>r0. capset_map cs p' = Some r0 \<and> bit r0 b) \<or> p' = p \<and> bit q b"
      if "capset_map cs' p' = Some r" "bit r b" for p' r b
      using that unfolding gs(3) by (auto simp: bit_or_iff restrict_map_def split: if_splits)
    then show ?thesis using gs(1) by blast
  next
    case True
    then have e0: "make_entry p q = 0" by (simp add: make_entry_def)
    have same: "store_entry cs i 0 = cs" if "first_idx (\<lambda>e. e = 0) (entries cs) = Some i" for cs i
      using first_idx_SomeD(1,2) [OF that] by (cases cs) (simp add: store_entry_def list_update_same_conv)
    obtain ev cs1 where ev: "evict_stale act cs = (ev, cs1)" by fastforce
    note evs = evict_stale_spec(1,2) [OF wf ev]
    show ?thesis
    proof (cases "first_idx (is_entry_of p) (entries cs)")
      case (Some i)
      then have cs': "cs' = store_entry cs i (make_entry p (entry_perms (entries cs ! i) OR q))"
        using g by (simp add: grant_def Let_def)
      have "capset_map cs p \<noteq> None" using Some by (simp add: capset_map_def)
      then show ?thesis
        using store_at_match [OF wf p Some, of q] True unfolding cs' by (auto split: if_splits)
    next
      case None
      then have "cs' = cs \<or> cs' = cs1"
        using g ev e0 same [of cs] same [of cs1] by (auto simp: grant_def split: option.splits if_splits)
      then show ?thesis using wf evs by (auto simp: restrict_map_def split: if_splits)
    qed
  qed
  then show "wf_capset cs'" "capset_map cs' p' = Some r \<Longrightarrow> bit r b \<Longrightarrow>
      (\<exists>r0. capset_map cs p' = Some r0 \<and> bit r0 b) \<or> p' = p \<and> bit q b" by blast+
qed

section \<open>Soundness of the fast path\<close>

definition backs :: "Task \<Rightarrow> u64 \<Rightarrow> nat \<Rightarrow> bool" where
  "backs tk p b \<longleftrightarrow> (\<exists>i c. lookup (capspace tk) i = Some c \<and> cap_type c = Port \<and>
     port_local (of_nat (object c)) = p \<and> bit (rights_to_perms (rights c)) b)"

definition sound_task :: "Task \<Rightarrow> bool" where
  "sound_task tk \<longleftrightarrow> wf_space (capspace tk) \<and> wf_capset (capset tk) \<and>
     (\<forall>p q b. capset_map (capset tk) p = Some q \<longrightarrow> bit q b \<longrightarrow> backs tk p b)"

definition all_roots :: "cdt_cfg \<Rightarrow> Cdt \<Rightarrow> bool" where
  "all_roots g c \<longleftrightarrow> (\<exists>fs rs. cdt_inv g c fs rs \<and> list_all (\<lambda>t. rkids t = []) rs)"

definition sys_ok :: "cdt_cfg \<Rightarrow> CapSystem \<Rightarrow> bool" where
  "sys_ok g s \<longleftrightarrow> all_roots g (cdt s) \<and> (\<forall>t tk. tasks s t = Some tk \<longrightarrow> sound_task tk)"

lemma sys_ok_upd:
  "sys_ok g s \<Longrightarrow> sound_task tk \<Longrightarrow> sys_ok g (s\<lparr>tasks := (tasks s)(t \<mapsto> tk)\<rparr>)"
  by (simp add: sys_ok_def)

lemma sys_ok_holders [simp]:
  "sys_ok g (s\<lparr>recv_holders := h\<rparr>) \<longleftrightarrow> sys_ok g s" "sys_ok g (set_recv_holder s p t) \<longleftrightarrow> sys_ok g s"
  by (simp_all add: sys_ok_def set_recv_holder_def)

lemma tasks_set_recv_holder [simp]: "tasks (set_recv_holder s p t) = tasks s"
  by (simp add: set_recv_holder_def)

lemma sound_new_task: "sound_task \<lparr>capspace = new_space t, capset = new_capset\<rparr>"
  by (simp add: sound_task_def new_space_def)

lemma sound_more_caps:
  assumes "sound_task tk" "wf_space sp"
    and "\<And>i c. lookup (capspace tk) i = Some c \<Longrightarrow>
      \<exists>j c'. lookup sp j = Some c' \<and> cap_type c' = cap_type c \<and> object c' = object c \<and> rights c' = rights c"
  shows "sound_task (tk\<lparr>capspace := sp\<rparr>)"
proof -
  have "backs (tk\<lparr>capspace := sp\<rparr>) p b" if "backs tk p b" for p b
    using that assms(3) unfolding backs_def by simp metis
  then show ?thesis using assms(1,2) by (simp add: sound_task_def)
qed

lemma insert_cap_spec:
  assumes cfg: "cfg_ok g" and ok: "sys_ok g s" and t: "tasks s t = Some tk" and nn: "\<not> is_null cap"
  shows "\<exists>r s' os' sp. insert_cap ns g s t cap os = Some (r, s', os') \<and> sys_ok g s' \<and>
    tasks s' = (tasks s)(t \<mapsto> tk\<lparr>capspace := sp\<rparr>) \<and> recv_holders s' = recv_holders s \<and>
    (case r of None \<Rightarrow> lookup sp = lookup (capspace tk)
     | Some slot \<Rightarrow> \<exists>i. lookup (capspace tk) slot = None \<and> lookup sp = (lookup (capspace tk))(slot \<mapsto> cap\<lparr>cdt_index := i\<rparr>))"
proof -
  obtain fs rs where inv: "cdt_inv g (cdt s) fs rs" and roots: "list_all (\<lambda>t. rkids t = []) rs"
    using ok by (auto simp: sys_ok_def all_roots_def)
  have snd: "sound_task tk" using ok t by (simp add: sys_ok_def)
  then have wf: "wf_space (capspace tk)" by (simp add: sound_task_def)
  obtain r sp c os' fs' rs' where ins: "space_insert ns g (capspace tk) cap (cdt s) os = Some (r, sp, c, os')"
    "wf_space sp" "cdt_inv g c fs' rs'"
    and r: "case r of
       None \<Rightarrow> lookup sp = lookup (capspace tk) \<and> rs' = rs
     | Some slot \<Rightarrow> \<exists>i. lookup (capspace tk) slot = None \<and> lookup sp = (lookup (capspace tk))(slot \<mapsto> cap\<lparr>cdt_index := i\<rparr>) \<and>
         i \<notin> set (idxs rs) \<and>
         rs' = RNode i (cap_type cap, object cap, space_task_id (capspace tk), as_u16 slot) [] # rs"
    using space_insert_spec [OF cfg wf inv nn, of ns os] by blast
  have "list_all (\<lambda>t. rkids t = []) rs'" using r roots by (auto split: option.splits)
  then have c: "all_roots g c" using ins(3) by (auto simp: all_roots_def)
  have "sound_task (tk\<lparr>capspace := sp\<rparr>)"
  proof (rule sound_more_caps [OF snd ins(2)])
    fix i d assume d: "lookup (capspace tk) i = Some d"
    then have "lookup sp i = Some d" using r by (auto split: option.splits)
    then show "\<exists>j c'. lookup sp j = Some c' \<and> cap_type c' = cap_type d \<and> object c' = object d \<and> rights c' = rights d"
      by blast
  qed
  then have "sys_ok g (s\<lparr>tasks := (tasks s)(t \<mapsto> tk\<lparr>capspace := sp\<rparr>), cdt := c\<rparr>)"
    using ok c by (simp add: sys_ok_def)
  moreover have "insert_cap ns g s t cap os =
      Some (r, s\<lparr>tasks := (tasks s)(t \<mapsto> tk\<lparr>capspace := sp\<rparr>), cdt := c\<rparr>, os')"
    using t ins(1) by (simp add: insert_cap_def)
  ultimately show ?thesis using r by (auto split: option.splits)
qed

lemma capset_grant_spec:
  assumes ok: "sys_ok g s" and t: "tasks s t = Some tk"
    and c: "lookup (capspace tk) i = Some c" "cap_type c = Port" "object c = unat p" "rights c = r"
  shows "\<exists>s' cs. capset_grant s t p r = Some s' \<and> sys_ok g s' \<and>
    tasks s' = (tasks s)(t \<mapsto> tk\<lparr>capset := cs\<rparr>) \<and> cdt s' = cdt s"
proof -
  let ?act = "port_is_active_local s" and ?p = "port_local p" and ?q = "rights_to_perms r"
  obtain ok' cs where g: "grant ?act (capset tk) ?p ?q = (ok', cs)" by fastforce
  have snd: "sound_task tk" using ok t by (simp add: sys_ok_def)
  then have wf: "wf_capset (capset tk)" by (simp add: sound_task_def)
  note gb = grant_bits [OF wf port_local_bound g]
  have "backs tk ?p b" if "bit ?q b" for b
    using c that unfolding backs_def by (intro exI [of _ i] exI [of _ c]) simp
  then have "backs tk p' b" if "capset_map cs p' = Some q" "bit q b" for p' q b
    using gb(2) [OF that] snd by (auto simp: sound_task_def)
  then have "sound_task (tk\<lparr>capset := cs\<rparr>)"
    using snd gb(1) by (simp add: sound_task_def backs_def)
  then have s1: "sys_ok g (s\<lparr>tasks := (tasks s)(t \<mapsto> tk\<lparr>capset := cs\<rparr>)\<rparr>)" by (rule sys_ok_upd [OF ok])
  let ?s1 = "s\<lparr>tasks := (tasks s)(t \<mapsto> tk\<lparr>capset := cs\<rparr>)\<rparr>"
  let ?s2 = "if contains r RECV then set_recv_holder ?s1 p t else ?s1"
  have "capset_grant s t p r = Some ?s2" using t g by (simp add: capset_grant_def Let_def)
  moreover have "cdt ?s2 = cdt s" "tasks ?s2 = (tasks s)(t \<mapsto> tk\<lparr>capset := cs\<rparr>)"
    by (simp_all add: set_recv_holder_def)
  moreover have "sys_ok g ?s2" using s1 by simp
  ultimately show ?thesis by blast
qed

text \<open>The common tail of the three port grants.\<close>

lemma insert_and_grant:
  assumes cfg: "cfg_ok g" and ok: "sys_ok g s" and t: "tasks s t = Some tk"
  shows "\<exists>r s' os'. (do {
       (r, s1, os') \<leftarrow> insert_cap ns g s t (new_cap Port rs (unat p)) os;
       s2 \<leftarrow> (if r \<noteq> None then capset_grant s1 t p rs else Some s1);
       Some (r, s2, os') }) = Some (r, s', os') \<and> sys_ok g s' \<and>
    (\<forall>slot. r = Some slot \<longrightarrow> (\<exists>tk' c. tasks s' t = Some tk' \<and> lookup (capspace tk') slot = Some c \<and>
       is_port_cap (unat p) c \<and> rights c = rs))"
proof -
  have nn: "\<not> is_null (new_cap Port rs (unat p))" by simp
  obtain r s1 os' sp where ins: "insert_cap ns g s t (new_cap Port rs (unat p)) os = Some (r, s1, os')"
    "sys_ok g s1" "tasks s1 = (tasks s)(t \<mapsto> tk\<lparr>capspace := sp\<rparr>)"
    and r: "case r of None \<Rightarrow> lookup sp = lookup (capspace tk)
     | Some slot \<Rightarrow> \<exists>i. lookup (capspace tk) slot = None \<and>
         lookup sp = (lookup (capspace tk))(slot \<mapsto> (new_cap Port rs (unat p))\<lparr>cdt_index := i\<rparr>)"
    using insert_cap_spec [OF cfg ok t nn, of ns os] by blast
  show ?thesis
  proof (cases r)
    case None
    then show ?thesis using ins by simp
  next
    case (Some slot)
    then obtain i where i: "lookup sp slot = Some ((new_cap Port rs (unat p))\<lparr>cdt_index := i\<rparr>)" using r by auto
    let ?c = "(new_cap Port rs (unat p))\<lparr>cdt_index := i\<rparr>"
    have c: "cap_type ?c = Port" "object ?c = unat p" "rights ?c = rs" by (simp_all add: new_cap_def)
    have t1: "tasks s1 t = Some (tk\<lparr>capspace := sp\<rparr>)" using ins(3) by simp
    obtain s2 cs where s2: "capset_grant s1 t p rs = Some s2" "sys_ok g s2"
      "tasks s2 = (tasks s1)(t \<mapsto> tk\<lparr>capspace := sp, capset := cs\<rparr>)"
      using capset_grant_spec [OF ins(2) t1, of slot ?c p rs] i c by auto
    then show ?thesis using Some ins(1) i c by (auto simp: is_port_cap_def)
  qed
qed

lemma grant_port_cap_spec:
  assumes "cfg_ok g" "sys_ok g s" "tasks s t = Some tk"
  shows "\<exists>r s' os'. grant_port_cap ns g s t p rs os = Some (r, s', os') \<and> sys_ok g s'"
  using insert_and_grant [OF assms, of ns rs p os] assms(2,3) by (auto simp: grant_port_cap_def)

lemma grant_send_cap_spec:
  assumes "cfg_ok g" "sys_ok g s" "tasks s t = Some tk"
  shows "\<exists>r s' os'. grant_send_cap ns g s t p os = Some (r, s', os') \<and> sys_ok g s'"
  using insert_and_grant [OF assms, of ns SEND p os] assms(2,3) by (auto simp: grant_send_cap_def)

lemma grant_full_port_cap_spec:
  assumes "cfg_ok g" "sys_ok g s" "tasks s t = Some tk"
  shows "\<exists>r s' os'. grant_full_port_cap ns g s t p os = Some (r, s', os') \<and> sys_ok g s'"
  using insert_and_grant [OF assms, of ns "union_rights (union_rights SEND RECV) MANAGE" p os]
  by (auto simp: grant_full_port_cap_def)

lemma remove_port_caps_sys_spec:
  assumes ok: "sys_ok g s" and t: "tasks s t = Some tk"
  shows "\<exists>s'. remove_port_caps ns s t p = Some s' \<and> sys_ok g s' \<and> (t \<noteq> 0 \<longrightarrow> \<not> has_port_cap_fast s' t p r)"
proof -
  let ?sp = "space_remove_port_caps ns (capspace tk) (unat p)" and ?cs = "remove_entry (capset tk) (port_local p)"
  have snd: "sound_task tk" using ok t by (simp add: sys_ok_def)
  then have wf: "wf_space (capspace tk)" "wf_capset (capset tk)" by (simp_all add: sound_task_def)
  note sp = remove_port_caps_spec [OF wf(1), of ns "unat p"] and cs = remove_spec [OF wf(2), of "port_local p"]
  let ?tk = "tk\<lparr>capspace := ?sp, capset := ?cs\<rparr>"
  have "backs ?tk p' b" if "p' \<noteq> port_local p" "backs tk p' b" for p' b
  proof -
    from that(2) obtain i c where c: "lookup (capspace tk) i = Some c" "cap_type c = Port"
      "port_local (of_nat (object c)) = p'" "bit (rights_to_perms (rights c)) b" by (auto simp: backs_def)
    then have "\<not> is_port_cap (unat p) c" using that(1) by (auto simp: is_port_cap_def)
    then have "lookup ?sp i = Some c" using sp(2) [of i] c(1) by simp
    then show ?thesis using c unfolding backs_def by auto
  qed
  then have "sound_task ?tk" using snd sp(1) cs by (auto simp: sound_task_def)
  then have s1: "sys_ok g (s\<lparr>tasks := (tasks s)(t \<mapsto> ?tk)\<rparr>)" by (rule sys_ok_upd [OF ok])
  let ?s1 = "s\<lparr>tasks := (tasks s)(t \<mapsto> ?tk)\<rparr>"
  let ?s2 = "if get_recv_holder ?s1 p = t then set_recv_holder ?s1 p U32_MAX else ?s1"
  have "remove_port_caps ns s t p = Some ?s2"
    using t by (simp add: remove_port_caps_def capset_remove_port_def Let_def)
  moreover have "sys_ok g ?s2" using s1 by simp
  moreover have "\<not> has ?cs (port_local p) n" for n by (rule cs.no_check_after_remove [OF wf(2)])
  then have "t \<noteq> 0 \<longrightarrow> \<not> has_port_cap_fast ?s2 t p r" by (simp add: has_port_cap_fast_def)
  ultimately show ?thesis by blast
qed

lemma kids_of_roots: "list_all (\<lambda>t. rkids t = []) rs \<Longrightarrow> kids_of q rs = []"
  by (induction rs rule: idxs.induct) auto

lemma set_kids_roots: "list_all (\<lambda>t. rkids t = []) rs \<Longrightarrow> set_kids q [] rs = rs"
  by (induction rs rule: idxs.induct) auto

lemma revoke_slot_spec:
  assumes cfg: "cfg_ok g" and ok: "sys_ok g s" and t: "tasks s t = Some tk"
  shows "\<exists>s'. revoke_slot g s t slot = Some (0, s') \<and> sys_ok g s' \<and> tasks s' = tasks s \<and> recv_holders s' = recv_holders s"
proof -
  obtain fs rs where inv: "cdt_inv g (cdt s) fs rs" and roots: "list_all (\<lambda>t. rkids t = []) rs"
    using ok by (auto simp: sys_ok_def all_roots_def)
  have "\<exists>c. revoke_children g i (cdt s) = Some (0, c) \<and> all_roots g c" for i
  proof (cases "i \<in> set (idxs rs)")
    case True
    from revoke_children_spec [OF cfg inv this] roots show ?thesis
      by (auto simp: kids_of_roots set_kids_roots all_roots_def)
  next
    case False
    then show ?thesis using is_active_iff [OF inv, of i] ok by (simp add: revoke_children_def sys_ok_def)
  qed
  then have "\<exists>c. space_revoke g (capspace tk) slot (cdt s) = Some (0, c) \<and> all_roots g c"
    using ok by (auto simp: space_revoke_def sys_ok_def split: option.splits)
  then show ?thesis using t ok by (auto simp: revoke_slot_def sys_ok_def)
qed

lemma grant_mmio_cap_spec:
  assumes "cfg_ok g" "sys_ok g s" "tasks s t = Some tk"
  shows "\<exists>r s' os'. grant_mmio_cap ns g tb s t i rs os = Some (r, s', os') \<and> sys_ok g s'"
proof (cases "make_cap tb i rs")
  case None
  then show ?thesis using assms(2) by (simp add: grant_mmio_cap_def)
next
  case (Some cap)
  then have "\<not> is_null cap" by (auto simp: make_cap_def split: option.splits)
  from insert_cap_spec [OF assms this, of ns os] Some show ?thesis by (auto simp: grant_mmio_cap_def)
qed

lemma capset_reset_spec:
  assumes "sys_ok g s"
  shows "sys_ok g (capset_reset s t)"
proof (cases "tasks s t")
  case None
  then show ?thesis using assms by (simp add: capset_reset_def)
next
  case (Some tk)
  then have "sound_task tk" using assms by (simp add: sys_ok_def)
  then have "sound_task (tk\<lparr>capset := reset (capset tk)\<rparr>)"
    by (simp add: sound_task_def reset_spec)
  then show ?thesis using sys_ok_upd [OF assms] Some by (simp add: capset_reset_def)
qed

section \<open>Reachable systems\<close>

text \<open>
  The states the capability operations can produce from boot, in any order and with any pattern of
  allocation failures, interleaved with the creation of tasks and with whatever the port layer does to
  the receive holders. Fork's \<open>capset_copy\<close> is treated separately below.
\<close>

inductive cap_reach :: "nat \<Rightarrow> cdt_cfg \<Rightarrow> CapSystem \<Rightarrow> bool" for ns g where
  boot: "init g new_cdt os = Some (c, os') \<Longrightarrow>
    cap_reach ns g \<lparr>tasks = Map.empty, cdt = c, recv_holders = h\<rparr>"
| new_task: "cap_reach ns g s \<Longrightarrow>
    cap_reach ns g (s\<lparr>tasks := (tasks s)(t \<mapsto> \<lparr>capspace = new_space t, capset = new_capset\<rparr>)\<rparr>)"
| ports: "cap_reach ns g s \<Longrightarrow> cap_reach ns g (s\<lparr>recv_holders := h\<rparr>)"
| send: "cap_reach ns g s \<Longrightarrow> grant_send_cap ns g s t p os = Some (r, s', os') \<Longrightarrow> cap_reach ns g s'"
| full: "cap_reach ns g s \<Longrightarrow> grant_full_port_cap ns g s t p os = Some (r, s', os') \<Longrightarrow> cap_reach ns g s'"
| port: "cap_reach ns g s \<Longrightarrow> grant_port_cap ns g s t p rs os = Some (r, s', os') \<Longrightarrow> cap_reach ns g s'"
| mmio: "cap_reach ns g s \<Longrightarrow> grant_mmio_cap ns g tb s t i rs os = Some (r, s', os') \<Longrightarrow> cap_reach ns g s'"
| remove: "cap_reach ns g s \<Longrightarrow> remove_port_caps ns s t p = Some s' \<Longrightarrow> cap_reach ns g s'"
| revoke: "cap_reach ns g s \<Longrightarrow> revoke_slot g s t slot = Some (k, s') \<Longrightarrow> cap_reach ns g s'"
| cs_reset: "cap_reach ns g s \<Longrightarrow> cap_reach ns g (capset_reset s t)"

lemma needs_task:
  "grant_send_cap ns g s t p os = Some x \<Longrightarrow> \<exists>tk. tasks s t = Some tk"
  "grant_port_cap ns g s t p rs os = Some x \<Longrightarrow> \<exists>tk. tasks s t = Some tk"
  "grant_full_port_cap ns g s t p os = Some x \<Longrightarrow> \<exists>tk. tasks s t = Some tk"
  "insert_cap ns g s t cap os = Some x \<Longrightarrow> \<exists>tk. tasks s t = Some tk"
  "remove_port_caps ns s t p = Some s' \<Longrightarrow> \<exists>tk. tasks s t = Some tk"
  "revoke_slot g s t slot = Some y \<Longrightarrow> \<exists>tk. tasks s t = Some tk"
  by (auto simp: grant_send_cap_def grant_port_cap_def grant_full_port_cap_def insert_cap_def
      remove_port_caps_def revoke_slot_def Let_def split: bind_splits)

lemma cap_reach_sys_ok: "cap_reach ns g s \<Longrightarrow> cfg_ok g \<Longrightarrow> sys_ok g s"
proof (induction rule: cap_reach.induct)
  case (boot os c os' h)
  then obtain fs where "cdt_inv g c fs []" using init_spec [of g os] by auto
  then have "all_roots g c" unfolding all_roots_def by (intro exI [of _ fs] exI [of _ "[]"]) simp
  then show ?case by (simp add: sys_ok_def)
next
  case (new_task s t)
  then show ?case by (intro sys_ok_upd sound_new_task) simp
next
  case (send s t p os r s' os')
  then obtain tk where "tasks s t = Some tk" using needs_task(1) by blast
  with send show ?case using grant_send_cap_spec [of g s t tk ns p os] by auto
next
  case (full s t p os r s' os')
  then obtain tk where "tasks s t = Some tk" using needs_task(3) by blast
  with full show ?case using grant_full_port_cap_spec [of g s t tk ns p os] by auto
next
  case (port s t p rs os r s' os')
  then obtain tk where "tasks s t = Some tk" using needs_task(2) by blast
  with port show ?case using grant_port_cap_spec [of g s t tk ns p rs os] by auto
next
  case (mmio s tb t i rs os r s' os')
  show ?case
  proof (cases "make_cap tb i rs")
    case None
    then show ?thesis using mmio by (simp add: grant_mmio_cap_def)
  next
    case (Some cap)
    then have "insert_cap ns g s t cap os = Some (r, s', os')" using mmio(2) by (simp add: grant_mmio_cap_def)
    then obtain tk where "tasks s t = Some tk" using needs_task(4) by blast
    with mmio show ?thesis using grant_mmio_cap_spec [of g s t tk ns tb i rs os] by auto
  qed
next
  case (remove s t p s')
  then obtain tk where "tasks s t = Some tk" using needs_task(5) by blast
  with remove show ?case using remove_port_caps_sys_spec [of g s t tk ns p] by auto
next
  case (revoke s t slot k s')
  then obtain tk where "tasks s t = Some tk" using needs_task(6) by blast
  with revoke show ?case using revoke_slot_spec [of g s t tk slot] by auto
qed (simp_all add: capset_reset_spec)

section \<open>Properties\<close>



text \<open>
  C35 (revocation by system call is a no-op). In every reachable system the revoke system call
  reports an error or a count of 0, and no task's slots or permission set change: the operations only
  ever insert root capabilities, so no capability has a descendant in the derivation tree.
\<close>

theorem sys_cap_revoke_noop:
  assumes "cfg_ok g" "cap_reach ns g s"
  shows "\<exists>v s'. sys_cap_revoke g s t p = Some (v, s') \<and> (v = 0 \<or> v = - 1) \<and> tasks s' = tasks s \<and>
    (\<forall>t' p' r. has_port_cap_fast s' t' p' r = has_port_cap_fast s t' p' r)"
proof -
  have ok: "sys_ok g s" by (rule cap_reach_sys_ok [OF assms(2,1)])
  have "\<exists>v s'. sys_cap_revoke g s t p = Some (v, s') \<and> (v = 0 \<or> v = - 1) \<and> tasks s' = tasks s"
  proof (cases "tasks s t")
    case None
    then show ?thesis by (auto simp: sys_cap_revoke_def)
  next
    case (Some tk)
    show ?thesis
    proof (cases "find_port_cap (capspace tk) (unat p) MANAGE")
      case None
      then show ?thesis using Some by (auto simp: sys_cap_revoke_def)
    next
      case slot: (Some slot)
      obtain s' where "revoke_slot g s t slot = Some (0, s')" "tasks s' = tasks s"
        using revoke_slot_spec [OF assms(1) ok Some] by blast
      then show ?thesis using Some slot by (auto simp: sys_cap_revoke_def)
    qed
  qed
  then show ?thesis by (auto simp: has_port_cap_fast_def)
qed

text \<open>
  The lockless check of any set of rights is the check of
  its SEND, RECV and MANAGE part: a request that also names GRANT, READ, WRITE or EXEC is admitted
  exactly when the request without them is.
\<close>

theorem fast_check_ignores_other_rights:
  "has_port_cap_fast s t p r = has_port_cap_fast s t p (intersect r (union_rights (union_rights SEND RECV) MANAGE)) \<and>
   has_port_cap_fast s t p (union_rights r (union_rights GRANT (union_rights READ (union_rights WRITE EXEC))))
     = has_port_cap_fast s t p r"
proof -
  have flag: "contains x SEND \<longleftrightarrow> bit (bits x) 0" "contains x RECV \<longleftrightarrow> bit (bits x) 1" "contains x MANAGE \<longleftrightarrow> bit (bits x) 6" for x
    unfolding SEND_def RECV_def MANAGE_def by (simp_all only: contains_flag)
  have "bits (union_rights (union_rights SEND RECV) MANAGE) = 67"
    by (simp add: union_rights_def rights_consts)
  then have 1: "rights_to_perms (intersect r (union_rights (union_rights SEND RECV) MANAGE)) = rights_to_perms r"
    unfolding rights_to_perms_def flag by (simp add: intersect_def bit_and_iff)
  have "bits (union_rights GRANT (union_rights READ (union_rights WRITE EXEC))) = 60"
    by (simp add: union_rights_def rights_consts)
  then have 2: "rights_to_perms (union_rights r (union_rights GRANT (union_rights READ (union_rights WRITE EXEC)))) = rights_to_perms r"
    unfolding rights_to_perms_def flag by (simp add: union_rights_def [of r] bit_or_iff)
  show ?thesis by (simp only: has_port_cap_fast_def 1 2)
qed

text \<open>
  Copying the permission set from a parent to a child task makes the
  fast path answer for the child as it does for the parent, and changes no other task's answers.
\<close>

theorem capset_copy_same_access:
  assumes "tasks s pa = Some pt" "tasks s ch = Some ct" "pa \<noteq> 0" "ch \<noteq> 0"
  shows "\<exists>s'. capset_copy s pa ch = Some s' \<and>
    (\<forall>p r. has_port_cap_fast s' ch p r = has_port_cap_fast s pa p r) \<and>
    (\<forall>t p r. t \<noteq> ch \<longrightarrow> has_port_cap_fast s' t p r = has_port_cap_fast s t p r)"
  using assms by (simp add: capset_copy_def has_port_cap_fast_def copy_from_spec)

section \<open>A concrete system\<close>

text \<open>
  A system after boot in which task 1 has received SEND on port 5; it exercises the hypotheses of the
  properties above.
\<close>

lemma boot_room: "\<exists>c os' i fs. init sample_cfg new_cdt (True # replicate 8 True) = Some (c, os') \<and> cdt_inv sample_cfg c (i # fs) []"
proof -
  obtain c os' fs where c: "init sample_cfg new_cdt (True # replicate 8 True) = Some (c, os')" "cdt_inv sample_cfg c fs []"
    using init_spec [OF sample_cfg_ok] by blast
  have ipp: "items_per_page sample_cfg = 4" "dir_slots sample_cfg = 8"
    by (simp_all add: sample_cfg_def items_per_page_def dir_slots_def)
  obtain b a os1 where e: "ensure_capacity sample_cfg new_pa 1 (True # replicate 8 True) = (b, a, os1)" by (rule prod_cases3)
  let ?b = "new_pa\<lparr>dir := Some (replicate 8 None), dir_capacity := 8\<rparr> :: CdtNode PagedArray"
  have "fst (grow sample_cfg ?b 1 (replicate 8 True @ []))"
    by (rule grow_succeeds [of _ _ _ 8]) (simp_all add: wf_pa_def new_pa_def ipp)
  then have b: b using e by (simp add: ensure_capacity_def new_pa_def ipp)
  have cap: "1 \<le> capacity sample_cfg a" using ensure_capacity_spec(3) [OF wf_new_pa e b] .
  have "cdt_cap sample_cfg c = capacity sample_cfg a"
  proof -
    obtain c1 where "chain_free sample_cfg 0 (capacity sample_cfg a) (new_cdt\<lparr>nodes := a\<rparr>) = Some c1" "c = c1\<lparr>free_head := 0\<rparr>"
      using c(1) e b by (auto simp: init_def new_cdt_def split: bind_splits)
    moreover have "cdt_wf sample_cfg (new_cdt\<lparr>nodes := a\<rparr>)"
      using ensure_capacity_spec(1) [OF wf_new_pa e] by simp
    ultimately show ?thesis
      using chain_freeE [of sample_cfg "new_cdt\<lparr>nodes := a\<rparr>" "capacity sample_cfg a" 0] by (auto simp: cdt_cap_def)
  qed
  with cap have "0 < cdt_cap sample_cfg c" by simp
  then have "0 \<in> set fs" using cdt_invD(8) [OF c(2)] by simp
  then obtain i fs' where "fs = i # fs'" by (cases fs) auto
  with c show ?thesis by blast
qed

lemma sample_system:
  "\<exists>s tk. cap_reach 2 sample_cfg s \<and> tasks s 1 = Some tk \<and> has_port_cap_fast s 1 5 SEND"
proof -
  obtain c os' i fs where c: "init sample_cfg new_cdt (True # replicate 8 True) = Some (c, os')" "cdt_inv sample_cfg c (i # fs) []"
    using boot_room by blast
  let ?t0 = "\<lparr>capspace = new_space 1, capset = new_capset\<rparr>"
  let ?s0 = "\<lparr>tasks = [1 \<mapsto> ?t0], cdt = c, recv_holders = Map.empty\<rparr>"
  have r0: "cap_reach 2 sample_cfg ?s0"
    using cap_reach.new_task [OF cap_reach.boot [OF c(1), of 2 Map.empty], of 1] by simp
  let ?cap = "new_cap Port SEND 5"
  obtain c' where ins: "insert_root sample_cfg c ?cap 1 0 [] = Some (Some i, c', [])"
    using insert_root_room [OF sample_cfg_ok c(2), of ?cap 1 0 "[]"] by blast
  let ?sp = "\<lparr>root = \<lparr>slots = Some [?cap\<lparr>cdt_index := i\<rparr>, zero_cap], num_slots = 2\<rparr>, space_task_id = 1\<rparr>"
  have "find_empty 2 new_cnode [True] = (Some 0, \<lparr>slots = Some [zero_cap, zero_cap], num_slots = 2\<rparr>, [])"
    by (simp add: find_empty_def ensure_slots_def new_cnode_def slots_of_def numeral_2_eq_2)
  then have "space_insert 2 sample_cfg (new_space 1) ?cap c [True] = Some (Some 0, ?sp, c', [])"
    using ins by (simp add: space_insert_def new_space_def cnode_insert_def slots_of_def)
  then have ins_cap: "insert_cap 2 sample_cfg ?s0 1 ?cap [True] =
      Some (Some 0, ?s0\<lparr>tasks := [1 \<mapsto> ?t0\<lparr>capspace := ?sp\<rparr>], cdt := c'\<rparr>, [])"
    by (simp add: insert_cap_def)
  obtain ok cs where g: "grant (\<lambda>_. False) new_capset (port_local 5) (rights_to_perms SEND) = (ok, cs)" by fastforce
  have perms: "rights_to_perms SEND = 1" and loc: "port_local 5 = 5"
    by (simp_all add: rights_to_perms_def rights_consts contains_def PERM_SEND_def port_local_def)
  have "has cs 5 1"
  proof (rule cs.check_after_grant [of new_capset])
    show "grant (\<lambda>_. False) new_capset 5 1 = (True, cs)"
      using g grant_spec(2) [OF wf_new_capset _ _ g] room_iff [OF wf_new_capset]
      by (auto simp: perms loc INLINE_CAP_def)
  qed (simp_all add: valid_entry_def)
  moreover have "find_port_cap (new_space 1) 5 SEND = None"
    by (simp add: find_port_cap_def new_space_def new_cnode_def slots_of_def)
  moreover have "port_is_active_local (?s0\<lparr>tasks := [1 \<mapsto> ?t0\<lparr>capspace := ?sp\<rparr>], cdt := c'\<rparr>) = (\<lambda>_. False)"
    by (simp add: port_is_active_local_def fun_eq_iff)
  moreover have "\<not> contains SEND RECV" by (simp add: contains_def rights_consts)
  ultimately obtain s' os' where "grant_send_cap 2 sample_cfg ?s0 1 5 [True] = Some (Some 0, s', os')"
    "tasks s' = [1 \<mapsto> ?t0\<lparr>capspace := ?sp, capset := cs\<rparr>]" "has cs 5 1"
    using ins_cap g by (simp add: grant_send_cap_def capset_grant_def)
  moreover from this have "cap_reach 2 sample_cfg s'" using cap_reach.send [OF r0] by blast
  ultimately show ?thesis by (auto simp: has_port_cap_fast_def perms loc)
qed



lemma sys_cap_revoke_noop_witness:
  "\<exists>s v s'. cap_reach 2 sample_cfg s \<and> sys_cap_revoke sample_cfg s 1 5 = Some (v, s') \<and> tasks s' = tasks s"
proof -
  obtain s where "cap_reach 2 sample_cfg s" using sample_system by blast
  with sys_cap_revoke_noop [OF sample_cfg_ok this, of 1 5] show ?thesis by blast
qed

lemma capset_copy_same_access_witness:
  "\<exists>s'. capset_copy \<lparr>tasks = [1 \<mapsto> \<lparr>capspace = new_space 1, capset = new_capset\<rparr>, 2 \<mapsto> \<lparr>capspace = new_space 2, capset = new_capset\<rparr>],
     cdt = new_cdt, recv_holders = Map.empty\<rparr> 1 2 = Some s' \<and> \<not> has_port_cap_fast s' 2 5 SEND"
proof -
  let ?s = "\<lparr>tasks = [1 \<mapsto> \<lparr>capspace = new_space 1, capset = new_capset\<rparr>, 2 \<mapsto> \<lparr>capspace = new_space 2, capset = new_capset\<rparr>],
     cdt = new_cdt, recv_holders = Map.empty\<rparr>"
  have "\<not> has_port_cap_fast ?s 1 5 SEND" by (simp add: has_port_cap_fast_def has_map)
  moreover have "tasks ?s 1 = Some \<lparr>capspace = new_space 1, capset = new_capset\<rparr>"
    "tasks ?s 2 = Some \<lparr>capspace = new_space 2, capset = new_capset\<rparr>" by simp_all
  ultimately show ?thesis using capset_copy_same_access [of ?s 1 _ 2] by (metis one_neq_zero zero_neq_numeral)
qed

end
