(* ===== verification/CpuMask.thy ===== *)
theory CpuMask
  imports Telix_Prelude
begin

text \<open>
  \<open>kernel/src/sched/cpumask.rs\<close>: CPU sets as arrays of 64-bit words, in the value form and in the
  atomic form. The build-time constant MAX_CPUS is the parameter \<open>mc\<close> of every operation. Both forms
  are shown to implement finite sets of CPU numbers below MAX_CPUS (\<open>cpu_set\<close>), including the
  count, first-set and iteration loops with their bit tricks. Each atomic operation touches one word
  by one fetch-and-modify and is one step here.
\<close>

section \<open>Word operations\<close>

definition word_bits :: "u64 \<Rightarrow> nat list" where
  "word_bits w = filter (bit w) [0..<64]"

definition trailing_zeros :: "u64 \<Rightarrow> nat" where
  "trailing_zeros w = (case first_idx (bit w) [0..<64] of Some n \<Rightarrow> n | None \<Rightarrow> 64)"

definition count_ones :: "u64 \<Rightarrow> nat" where
  "count_ones w = length (word_bits w)"

section \<open>The value type\<close>

definition CPUMASK_WORDS :: "nat \<Rightarrow> nat" where
  "CPUMASK_WORDS mc = (mc + 63) div 64"

definition LAST_WORD_MASK :: "nat \<Rightarrow> u64" where
  "LAST_WORD_MASK mc = (if mc mod 64 = 0 then - 1 else push_bit (mc mod 64) 1 - 1)"

record CpuMask =
  cbits :: "u64 list"

definition new_mask :: "nat \<Rightarrow> CpuMask" where
  "new_mask mc = \<lparr>cbits = replicate (CPUMASK_WORDS mc) 0\<rparr>"

definition all_mask :: "nat \<Rightarrow> CpuMask" where
  "all_mask mc = \<lparr>cbits = (replicate (CPUMASK_WORDS mc) (- 1))[CPUMASK_WORDS mc - 1 := LAST_WORD_MASK mc]\<rparr>"

definition from_cpu :: "nat \<Rightarrow> nat \<Rightarrow> CpuMask" where
  "from_cpu mc cpu =
     (let m = new_mask mc
      in if cpu < mc then m\<lparr>cbits := (cbits m)[cpu div 64 := push_bit (cpu mod 64) 1]\<rparr> else m)"

definition from_u64 :: "nat \<Rightarrow> u64 \<Rightarrow> CpuMask" where
  "from_u64 mc v =
     (let m = new_mask mc
      in if CPUMASK_WORDS mc = 1 then m\<lparr>cbits := (cbits m)[0 := v AND LAST_WORD_MASK mc]\<rparr>
         else m\<lparr>cbits := (cbits m)[0 := v]\<rparr>)"

definition test :: "nat \<Rightarrow> CpuMask \<Rightarrow> nat \<Rightarrow> bool" where
  "test mc m cpu =
     (if cpu \<ge> mc then False else (cbits m ! (cpu div 64) AND push_bit (cpu mod 64) 1) \<noteq> 0)"

definition set_cpu :: "nat \<Rightarrow> CpuMask \<Rightarrow> nat \<Rightarrow> CpuMask" where
  "set_cpu mc m cpu =
     (if cpu < mc
      then m\<lparr>cbits := (cbits m)[cpu div 64 := cbits m ! (cpu div 64) OR push_bit (cpu mod 64) 1]\<rparr> else m)"

definition clear_cpu :: "nat \<Rightarrow> CpuMask \<Rightarrow> nat \<Rightarrow> CpuMask" where
  "clear_cpu mc m cpu =
     (if cpu < mc
      then m\<lparr>cbits := (cbits m)[cpu div 64 := cbits m ! (cpu div 64) AND NOT (push_bit (cpu mod 64) 1)]\<rparr> else m)"

definition zip_words :: "(u64 \<Rightarrow> u64 \<Rightarrow> u64) \<Rightarrow> CpuMask \<Rightarrow> CpuMask \<Rightarrow> CpuMask" where
  "zip_words f a b = \<lparr>cbits = map2 f (cbits a) (cbits b)\<rparr>"

definition and_mask :: "CpuMask \<Rightarrow> CpuMask \<Rightarrow> CpuMask" where
  "and_mask a b = zip_words (AND) a b"

definition or_mask :: "CpuMask \<Rightarrow> CpuMask \<Rightarrow> CpuMask" where
  "or_mask a b = zip_words (OR) a b"

definition andnot_mask :: "CpuMask \<Rightarrow> CpuMask \<Rightarrow> CpuMask" where
  "andnot_mask a b = zip_words (\<lambda>x y. x AND NOT y) a b"

definition is_empty_mask :: "CpuMask \<Rightarrow> bool" where
  "is_empty_mask m = (first_idx (\<lambda>w. w \<noteq> 0) (cbits m) = None)"

definition count_mask :: "CpuMask \<Rightarrow> nat" where
  "count_mask m = fold (\<lambda>w n. n + count_ones w) (cbits m) 0"

definition first_set :: "CpuMask \<Rightarrow> nat option" where
  "first_set m =
     (case first_idx (\<lambda>w. w \<noteq> 0) (cbits m) of
        Some i \<Rightarrow> Some (i * 64 + trailing_zeros (cbits m ! i))
      | None \<Rightarrow> None)"

text \<open>The inner loop of \<open>for_each\<close>: the CPUs passed to the callback, in order.\<close>

function word_loop :: "nat \<Rightarrow> u64 \<Rightarrow> nat list" where
  "word_loop base w = (if w \<noteq> 0 then (base + trailing_zeros w) # word_loop base (w AND (w - 1)) else [])"
  by pat_completeness auto
termination
proof (relation "measure (\<lambda>(base, w). unat w)")
  fix base :: nat and w :: u64
  assume "w \<noteq> 0"
  have "(w AND (w - 1)) \<le> w - 1" by (rule word_and_le1)
  then have "unat (w AND (w - 1)) \<le> unat w - 1"
    using unat_minus_one [OF \<open>w \<noteq> 0\<close>] by (simp add: word_le_nat_alt)
  moreover have "0 < unat w" using \<open>w \<noteq> 0\<close> by (simp add: unat_gt_0)
  ultimately show "((base, w AND (w - 1)), (base, w)) \<in> measure (\<lambda>(base, w). unat w)" by simp
qed simp

declare word_loop.simps [simp del]

definition for_each :: "CpuMask \<Rightarrow> nat list" where
  "for_each m = concat (map (\<lambda>i. word_loop (i * 64) (cbits m ! i)) [0..<length (cbits m)])"

definition mask_as_u64 :: "CpuMask \<Rightarrow> u64" where
  "mask_as_u64 m = cbits m ! 0"

section \<open>The atomic type\<close>

record AtomicCpuMask =
  abits :: "u64 list"

definition new_atomic :: "nat \<Rightarrow> AtomicCpuMask" where
  "new_atomic mc = \<lparr>abits = replicate (CPUMASK_WORDS mc) 0\<rparr>"

definition new_all_atomic :: "nat \<Rightarrow> AtomicCpuMask" where
  "new_all_atomic mc = \<lparr>abits = map (\<lambda>i. cbits (all_mask mc) ! i) [0..<CPUMASK_WORDS mc]\<rparr>"

definition atomic_test :: "nat \<Rightarrow> AtomicCpuMask \<Rightarrow> nat \<Rightarrow> bool" where
  "atomic_test mc m cpu =
     (if cpu \<ge> mc then False else (abits m ! (cpu div 64) AND push_bit (cpu mod 64) 1) \<noteq> 0)"

definition fetch_or :: "AtomicCpuMask \<Rightarrow> nat \<Rightarrow> u64 \<Rightarrow> AtomicCpuMask" where
  "fetch_or m i v = m\<lparr>abits := (abits m)[i := abits m ! i OR v]\<rparr>"

definition fetch_and :: "AtomicCpuMask \<Rightarrow> nat \<Rightarrow> u64 \<Rightarrow> AtomicCpuMask" where
  "fetch_and m i v = m\<lparr>abits := (abits m)[i := abits m ! i AND v]\<rparr>"

definition set_with :: "nat \<Rightarrow> AtomicCpuMask \<Rightarrow> nat \<Rightarrow> AtomicCpuMask" where
  "set_with mc m cpu = (if cpu < mc then fetch_or m (cpu div 64) (push_bit (cpu mod 64) 1) else m)"

definition clear_with :: "nat \<Rightarrow> AtomicCpuMask \<Rightarrow> nat \<Rightarrow> AtomicCpuMask" where
  "clear_with mc m cpu = (if cpu < mc then fetch_and m (cpu div 64) (NOT (push_bit (cpu mod 64) 1)) else m)"

definition store_mask :: "AtomicCpuMask \<Rightarrow> CpuMask \<Rightarrow> AtomicCpuMask" where
  "store_mask m k = m\<lparr>abits := map (\<lambda>i. cbits k ! i) [0..<length (abits m)]\<rparr>"

definition load_mask :: "nat \<Rightarrow> AtomicCpuMask \<Rightarrow> CpuMask" where
  "load_mask mc m = \<lparr>cbits = map (\<lambda>i. abits m ! i) [0..<CPUMASK_WORDS mc]\<rparr>"

definition fetch_or_mask :: "AtomicCpuMask \<Rightarrow> CpuMask \<Rightarrow> AtomicCpuMask" where
  "fetch_or_mask m k =
     fold (\<lambda>i a. if cbits k ! i \<noteq> 0 then fetch_or a i (cbits k ! i) else a) [0..<length (abits m)] m"

definition fetch_and_mask :: "AtomicCpuMask \<Rightarrow> CpuMask \<Rightarrow> AtomicCpuMask" where
  "fetch_and_mask m k = fold (\<lambda>i a. fetch_and a i (cbits k ! i)) [0..<length (abits m)] m"

section \<open>Bits of words\<close>

lemma set_word_bits: "set (word_bits w) = {n. bit w n}"
  by (auto simp: word_bits_def dest: bit_imp_le_length)

lemma word_nonzero: "w \<noteq> 0 \<longleftrightarrow> (\<exists>n. bit w n)" for w :: u64
  by (metis bit_0_eq bot_apply bot_bool_def bit_eqI)

lemma trailing_zeros_bit:
  assumes "w \<noteq> 0"
  shows "bit w (trailing_zeros w)" "n < trailing_zeros w \<Longrightarrow> \<not> bit w n" "trailing_zeros w < 64"
proof -
  obtain k where "bit w k" using assms word_nonzero by blast
  then have "k \<in> set [0..<64]" by (auto dest: bit_imp_le_length)
  then obtain i where i: "first_idx (bit w) [0..<64] = Some i" using first_idx_ex \<open>bit w k\<close> by metis
  note f = first_idx_SomeD [OF i]
  have tz: "trailing_zeros w = i" using i by (simp add: trailing_zeros_def)
  show "bit w (trailing_zeros w)" "trailing_zeros w < 64" using f(1,2) tz by auto
  show "n < trailing_zeros w \<Longrightarrow> \<not> bit w n" using f(3) [of n] f(1) tz by simp
qed

text \<open>The trick that clears the lowest set bit.\<close>

lemma bit_clear_lowest:
  assumes "w \<noteq> 0"
  shows "bit (w AND (w - 1)) n \<longleftrightarrow> bit w n \<and> n \<noteq> trailing_zeros w"
proof -
  let ?t = "trailing_zeros w"
  note tz = trailing_zeros_bit [OF assms]
  define hi :: u64 where "hi = w AND NOT (mask (Suc ?t))"
  have hi: "bit hi m \<longleftrightarrow> bit w m \<and> ?t < m" for m
    by (auto simp: hi_def bit_simps dest: bit_imp_le_length)
  have "w = hi OR push_bit ?t 1"
  proof (rule bit_word_eqI)
    fix m assume "m < LENGTH(64)"
    show "bit w m \<longleftrightarrow> bit (hi OR push_bit ?t 1) m"
      using tz(1) tz(2) [of m] tz(3) by (cases m ?t rule: linorder_cases) (auto simp: bit_or_iff hi bit_exp_iff)
  qed
  also have "\<dots> = hi + push_bit ?t 1"
    by (rule disjunctive_add [symmetric]) (auto simp: hi bit_exp_iff)
  finally have "w - 1 = hi + mask ?t" by (simp add: mask_eq_exp_minus_1 push_bit_eq_mult)
  also have "\<dots> = hi OR mask ?t" by (rule disjunctive_add) (auto simp: hi bit_mask_iff)
  finally show ?thesis
    using tz(2) [of n] tz(3) by (cases n ?t rule: linorder_cases) (auto simp: bit_and_iff bit_or_iff hi bit_mask_iff)
qed

lemma word_bits_Cons:
  assumes "w \<noteq> 0"
  shows "word_bits w = trailing_zeros w # word_bits (w AND (w - 1))"
proof -
  let ?t = "trailing_zeros w"
  note tz = trailing_zeros_bit [OF assms]
  have split: "[0..<64] = [0..<?t] @ ?t # [Suc ?t..<64]"
    using tz(3) upt_add_eq_append [of 0 ?t "64 - ?t"] by (simp add: upt_conv_Cons)
  have "filter (bit w) [0..<?t] = []" "filter (bit (w AND (w - 1))) [0..<?t] = []"
    using tz(2) bit_clear_lowest [OF assms] by (auto simp: filter_empty_conv)
  moreover have "filter (bit (w AND (w - 1))) [Suc ?t..<64] = filter (bit w) [Suc ?t..<64]"
    using bit_clear_lowest [OF assms] by (intro filter_cong) auto
  ultimately show ?thesis
    unfolding word_bits_def split using tz(1) bit_clear_lowest [OF assms, of ?t] by simp
qed

lemma word_loop_bits: "word_loop base w = map ((+) base) (word_bits w)"
proof (induction base w rule: word_loop.induct)
  case (1 base w)
  then show ?case
    by (subst word_loop.simps) (simp add: word_bits_Cons [of w], simp add: word_bits_def)
qed

section \<open>Masks as sets\<close>

definition words_set :: "nat \<Rightarrow> u64 list \<Rightarrow> nat set" where
  "words_set mc ws = {cpu. cpu < mc \<and> bit (ws ! (cpu div 64)) (cpu mod 64)}"

definition wf_words :: "nat \<Rightarrow> u64 list \<Rightarrow> bool" where
  "wf_words mc ws \<longleftrightarrow> 0 < mc \<and> length ws = CPUMASK_WORDS mc \<and>
     (\<forall>i<length ws. \<forall>n. bit (ws ! i) n \<longrightarrow> i * 64 + n < mc)"

lemma word_index: "cpu < mc \<Longrightarrow> cpu div 64 < CPUMASK_WORDS mc"
  by (simp add: CPUMASK_WORDS_def div_less_iff_less_mult)

lemma and_bit: "(w AND push_bit n 1) \<noteq> 0 \<longleftrightarrow> bit w n" if "n < 64" for w :: u64
  using that by (auto simp: word_nonzero bit_and_iff bit_exp_iff)

lemma bit_word_cpu:
  assumes "wf_words mc ws" "i < length ws" "n < 64"
  shows "bit (ws ! i) n \<longleftrightarrow> i * 64 + n \<in> words_set mc ws"
  using assms by (auto simp: words_set_def wf_words_def)

lemma words_update:
  assumes wf: "wf_words mc ws" and cpu: "cpu < mc"
    and bits: "\<And>n. n < 64 \<Longrightarrow> bit w n \<longleftrightarrow> (if n = cpu mod 64 then b else bit (ws ! (cpu div 64)) n)"
  shows "wf_words mc (ws[cpu div 64 := w])"
    and "words_set mc (ws[cpu div 64 := w]) = (if b then insert cpu (words_set mc ws) else words_set mc ws - {cpu})"
proof -
  have i: "cpu div 64 < length ws" using wf word_index [OF cpu] by (simp add: wf_words_def)
  have bw: "bit w n \<Longrightarrow> n < 64" for n by (auto dest: bit_imp_le_length)
  have "cpu div 64 * 64 + n < mc" if "bit w n" for n
  proof (cases "n = cpu mod 64")
    case True
    then show ?thesis using cpu by simp
  next
    case False
    then show ?thesis using bits [OF bw [OF that]] that wf i by (auto simp: wf_words_def)
  qed
  then have "j * 64 + n < mc" if "j < length ws" "bit (ws[cpu div 64 := w] ! j) n" for j n
    using that wf by (cases "j = cpu div 64") (auto simp: wf_words_def)
  then show "wf_words mc (ws[cpu div 64 := w])" using wf by (simp add: wf_words_def)
  have "c \<in> words_set mc (ws[cpu div 64 := w]) \<longleftrightarrow> c \<in> (if b then insert cpu (words_set mc ws) else words_set mc ws - {cpu})" for c
  proof (cases "c div 64 = cpu div 64")
    case True
    then have "c mod 64 = cpu mod 64 \<longleftrightarrow> c = cpu" by (metis div_mult_mod_eq)
    then show ?thesis using True i cpu bits [of "c mod 64"] by (auto simp: words_set_def)
  next
    case False
    then have "c \<noteq> cpu" by auto
    then show ?thesis using False by (auto simp: words_set_def)
  qed
  then show "words_set mc (ws[cpu div 64 := w]) = (if b then insert cpu (words_set mc ws) else words_set mc ws - {cpu})" by blast
qed

lemma bit_or_one: "n < 64 \<Longrightarrow> bit (w OR push_bit k 1) n \<longleftrightarrow> (if n = k then True else bit w n)" for w :: u64
  by (auto simp: bit_or_iff bit_exp_iff)

lemma bit_andnot_one: "n < 64 \<Longrightarrow> bit (w AND NOT (push_bit k 1)) n \<longleftrightarrow> (if n = k then False else bit w n)" for w :: u64
  by (auto simp: bit_and_iff bit_not_iff bit_exp_iff)

lemma wf_zero: "0 < mc \<Longrightarrow> wf_words mc (replicate (CPUMASK_WORDS mc) 0)"
  by (simp add: wf_words_def)

lemma set_zero: "words_set mc (replicate (CPUMASK_WORDS mc) 0) = {}"
  by (auto simp: words_set_def word_index)

text \<open>The list of all members in increasing order, word by word.\<close>

lemma upt_words: "[0..<k * 64] = concat (map (\<lambda>i. map ((+) (i * 64)) [0..<64]) [0..<k])"
proof (induction k)
  case (Suc k)
  have "[0..<Suc k * 64] = [0..<k * 64] @ [k * 64..<k * 64 + 64]"
    using upt_add_eq_append [of 0 "k * 64" 64] by (simp add: add.commute)
  also have "[k * 64..<k * 64 + 64] = map ((+) (k * 64)) [0..<64]"
    by (simp add: map_add_upt [of "k * 64" 64, symmetric] add.commute cong: map_cong)
  finally show ?case using Suc by simp
qed simp

lemma for_each_filter:
  assumes "wf_words mc (cbits m)"
  shows "for_each m = filter (\<lambda>c. c \<in> words_set mc (cbits m)) [0..<CPUMASK_WORDS mc * 64]"
proof -
  have len: "length (cbits m) = CPUMASK_WORDS mc" using assms by (simp add: wf_words_def)
  have word: "word_loop (i * 64) (cbits m ! i) = filter (\<lambda>c. c \<in> words_set mc (cbits m)) (map ((+) (i * 64)) [0..<64])"
    if "i < length (cbits m)" for i
  proof -
    have "filter (bit (cbits m ! i)) [0..<64] = filter (\<lambda>n. i * 64 + n \<in> words_set mc (cbits m)) [0..<64]"
      using bit_word_cpu [OF assms that] by (intro filter_cong) auto
    then show ?thesis by (simp add: word_loop_bits word_bits_def filter_map comp_def)
  qed
  have "for_each m = concat (map (\<lambda>i. filter (\<lambda>c. c \<in> words_set mc (cbits m)) (map ((+) (i * 64)) [0..<64])) [0..<length (cbits m)])"
    unfolding for_each_def using word by (intro arg_cong [where f = concat] map_cong) auto
  then show ?thesis by (simp add: len upt_words filter_concat comp_def)
qed

definition mask_set :: "nat \<Rightarrow> CpuMask \<Rightarrow> nat set" where
  "mask_set mc m = words_set mc (cbits m)"

definition wf_mask :: "nat \<Rightarrow> CpuMask \<Rightarrow> bool" where
  "wf_mask mc m \<longleftrightarrow> wf_words mc (cbits m)"

definition atomic_set :: "nat \<Rightarrow> AtomicCpuMask \<Rightarrow> nat set" where
  "atomic_set mc m = words_set mc (abits m)"

definition wf_atomic :: "nat \<Rightarrow> AtomicCpuMask \<Rightarrow> bool" where
  "wf_atomic mc m \<longleftrightarrow> wf_words mc (abits m)"

lemmas mask_defs [model_defs] = mask_set_def wf_mask_def atomic_set_def wf_atomic_def

lemma words_set_bound: "words_set mc ws \<subseteq> {..<mc}"
  by (auto simp: words_set_def)

lemma words_set_sup: "words_set mc ws \<subseteq> {..<CPUMASK_WORDS mc * 64}"
  using words_set_bound [of mc ws] by (auto simp: CPUMASK_WORDS_def)

subsection \<open>The contract\<close>

datatype cpu_op = SetCpu nat | ClearCpu nat

fun cpu_of :: "cpu_op \<Rightarrow> nat" where
  "cpu_of (SetCpu c) = c"
| "cpu_of (ClearCpu c) = c"

locale cpu_set =
  fixes mc :: nat
    and inv :: "'m \<Rightarrow> bool"
    and abs_set :: "'m \<Rightarrow> nat set"
    and member :: "'m \<Rightarrow> nat \<Rightarrow> bool"
    and ins :: "'m \<Rightarrow> nat \<Rightarrow> 'm"
    and del :: "'m \<Rightarrow> nat \<Rightarrow> 'm"
  assumes abs_bound: "abs_set m \<subseteq> {..<mc}"
    and member_iff: "inv m \<Longrightarrow> member m c \<longleftrightarrow> c \<in> abs_set m"
    and ins_inv: "inv m \<Longrightarrow> inv (ins m c)"
    and ins_set: "inv m \<Longrightarrow> abs_set (ins m c) = abs_set m \<union> ({c} \<inter> {..<mc})"
    and del_inv: "inv m \<Longrightarrow> inv (del m c)"
    and del_set: "inv m \<Longrightarrow> abs_set (del m c) = abs_set m - {c}"
begin

definition cpu_step :: "cpu_op \<Rightarrow> 'm \<Rightarrow> 'm" where
  "cpu_step op m = (case op of SetCpu c \<Rightarrow> ins m c | ClearCpu c \<Rightarrow> del m c)"

lemma cpu_step_inv: "inv m \<Longrightarrow> inv (cpu_step op m)"
  by (cases op) (simp_all add: cpu_step_def ins_inv del_inv)

lemma run_inv: "inv m \<Longrightarrow> inv (fold cpu_step ops m)"
  by (induction ops arbitrary: m) (simp_all add: cpu_step_inv)

lemma step_other: "inv m \<Longrightarrow> cpu_of op \<noteq> c \<Longrightarrow> c \<in> abs_set (cpu_step op m) \<longleftrightarrow> c \<in> abs_set m"
  by (cases op) (auto simp: cpu_step_def ins_set del_set)

lemma step_same:
  "inv m \<Longrightarrow> inv m' \<Longrightarrow> (c \<in> abs_set m \<longleftrightarrow> c \<in> abs_set m') \<Longrightarrow> c \<in> abs_set (cpu_step op m) \<longleftrightarrow> c \<in> abs_set (cpu_step op m')"
  by (cases op) (auto simp: cpu_step_def ins_set del_set)

text \<open>Whether a CPU is a member depends only on the operations on that CPU, in their order.\<close>

lemma run_filter:
  assumes "inv m" "inv m'" "c \<in> abs_set m \<longleftrightarrow> c \<in> abs_set m'"
  shows "c \<in> abs_set (fold cpu_step ops m) \<longleftrightarrow> c \<in> abs_set (fold cpu_step (filter (\<lambda>op. cpu_of op = c) ops) m')"
  using assms
proof (induction ops arbitrary: m m')
  case (Cons op ops)
  show ?case
  proof (cases "cpu_of op = c")
    case True
    then show ?thesis
      using Cons.IH [of "cpu_step op m" "cpu_step op m'"] Cons.prems cpu_step_inv step_same [of m m' c op] by simp
  next
    case False
    then show ?thesis
      using Cons.IH [of "cpu_step op m" m'] Cons.prems cpu_step_inv step_other [of m op c] by simp
  qed
qed simp

lemma run_interleaving:
  assumes "inv m" "\<And>c. filter (\<lambda>op. cpu_of op = c) xs = filter (\<lambda>op. cpu_of op = c) ys"
  shows "abs_set (fold cpu_step xs m) = abs_set (fold cpu_step ys m)"
  using run_filter [OF assms(1,1) refl, of _ xs] run_filter [OF assms(1,1) refl, of _ ys] assms(2) by auto

end

lemma set_words:
  assumes "wf_words mc ws"
  shows "cpu < mc \<Longrightarrow> wf_words mc (ws[cpu div 64 := ws ! (cpu div 64) OR push_bit (cpu mod 64) 1])"
    "cpu < mc \<Longrightarrow> words_set mc (ws[cpu div 64 := ws ! (cpu div 64) OR push_bit (cpu mod 64) 1]) = insert cpu (words_set mc ws)"
    "cpu < mc \<Longrightarrow> wf_words mc (ws[cpu div 64 := ws ! (cpu div 64) AND NOT (push_bit (cpu mod 64) 1)])"
    "cpu < mc \<Longrightarrow> words_set mc (ws[cpu div 64 := ws ! (cpu div 64) AND NOT (push_bit (cpu mod 64) 1)]) = words_set mc ws - {cpu}"
  using words_update [OF assms, of cpu "ws ! (cpu div 64) OR push_bit (cpu mod 64) 1" True, OF _ bit_or_one]
    words_update [OF assms, of cpu "ws ! (cpu div 64) AND NOT (push_bit (cpu mod 64) 1)" False, OF _ bit_andnot_one]
  by simp_all

interpretation vm: cpu_set mc "wf_mask mc" "mask_set mc" "test mc" "set_cpu mc" "clear_cpu mc" for mc
proof
  fix m :: CpuMask and c :: nat
  show "mask_set mc m \<subseteq> {..<mc}" by (simp add: mask_set_def words_set_bound)
  assume wf: "wf_mask mc m"
  then have wf': "wf_words mc (cbits m)" by (simp add: wf_mask_def)
  show "test mc m c \<longleftrightarrow> c \<in> mask_set mc m"
    using and_bit [of "c mod 64" "cbits m ! (c div 64)"] by (auto simp: test_def mask_set_def words_set_def)
  show "wf_mask mc (set_cpu mc m c)" "mask_set mc (set_cpu mc m c) = mask_set mc m \<union> {c} \<inter> {..<mc}"
    using set_words(1,2) [OF wf', of c] wf by (auto simp: set_cpu_def wf_mask_def mask_set_def)
  show "wf_mask mc (clear_cpu mc m c)" "mask_set mc (clear_cpu mc m c) = mask_set mc m - {c}"
    using set_words(3,4) [OF wf', of c] wf words_set_bound [of mc "cbits m"]
    by (auto simp: clear_cpu_def wf_mask_def mask_set_def)
qed

interpretation am: cpu_set mc "wf_atomic mc" "atomic_set mc" "atomic_test mc" "set_with mc" "clear_with mc" for mc
proof
  fix m :: AtomicCpuMask and c :: nat
  show "atomic_set mc m \<subseteq> {..<mc}" by (simp add: atomic_set_def words_set_bound)
  assume wf: "wf_atomic mc m"
  then have wf': "wf_words mc (abits m)" by (simp add: wf_atomic_def)
  show "atomic_test mc m c \<longleftrightarrow> c \<in> atomic_set mc m"
    using and_bit [of "c mod 64" "abits m ! (c div 64)"] by (auto simp: atomic_test_def atomic_set_def words_set_def)
  show "wf_atomic mc (set_with mc m c)" "atomic_set mc (set_with mc m c) = atomic_set mc m \<union> {c} \<inter> {..<mc}"
    using set_words(1,2) [OF wf', of c] wf by (auto simp: set_with_def fetch_or_def wf_atomic_def atomic_set_def)
  show "wf_atomic mc (clear_with mc m c)" "atomic_set mc (clear_with mc m c) = atomic_set mc m - {c}"
    using set_words(3,4) [OF wf', of c] wf words_set_bound [of mc "abits m"]
    by (auto simp: clear_with_def fetch_and_def wf_atomic_def atomic_set_def)
qed

section \<open>Bulk operations\<close>

lemma wf_words_ext:
  assumes "0 < mc" "length ws = CPUMASK_WORDS mc" "\<And>i n. i < length ws \<Longrightarrow> bit (ws ! i) n \<Longrightarrow> i * 64 + n < mc"
  shows "wf_words mc ws"
  using assms by (simp add: wf_words_def)

lemma zip_words_set:
  assumes wf: "wf_words mc xs" "wf_words mc ys"
    and bits: "\<And>x y n. n < 64 \<Longrightarrow> bit (f x y) n \<longleftrightarrow> P (bit x n) (bit y n)" and P: "\<not> P False False"
  shows "wf_words mc (map2 f xs ys)"
    and "words_set mc (map2 f xs ys) = {c. P (c \<in> words_set mc xs) (c \<in> words_set mc ys)}"
proof -
  have len: "length xs = CPUMASK_WORDS mc" "length ys = CPUMASK_WORDS mc" using wf by (simp_all add: wf_words_def)
  show "wf_words mc (map2 f xs ys)"
  proof (rule wf_words_ext)
    show "0 < mc" using wf(1) by (simp add: wf_words_def)
    fix i n assume i: "i < length (map2 f xs ys)" and n: "bit (map2 f xs ys ! i) n"
    then have "n < 64" by (auto dest: bit_imp_le_length)
    with i n bits have "P (bit (xs ! i) n) (bit (ys ! i) n)" by simp
    with P have "bit (xs ! i) n \<or> bit (ys ! i) n" by (metis (full_types))
    then show "i * 64 + n < mc" using wf i len by (auto simp: wf_words_def)
  qed (simp add: len)
  have "c \<in> words_set mc (map2 f xs ys) \<longleftrightarrow> P (c \<in> words_set mc xs) (c \<in> words_set mc ys)" for c
  proof (cases "c < mc")
    case True
    then have "c div 64 < length xs" "c div 64 < length ys" using word_index len by auto
    then show ?thesis using True bits [of "c mod 64"] by (simp add: words_set_def)
  next
    case False
    then show ?thesis using P by (simp add: words_set_def)
  qed
  then show "words_set mc (map2 f xs ys) = {c. P (c \<in> words_set mc xs) (c \<in> words_set mc ys)}" by blast
qed

lemma bit_last_word: "bit (LAST_WORD_MASK mc) n \<longleftrightarrow> n < 64 \<and> (mc mod 64 = 0 \<or> n < mc mod 64)"
proof (cases "mc mod 64 = 0")
  case True
  then show ?thesis by (auto simp: LAST_WORD_MASK_def dest: bit_imp_le_length)
next
  case False
  then have "LAST_WORD_MASK mc = mask (mc mod 64)" by (simp add: LAST_WORD_MASK_def mask_eq_exp_minus_1)
  moreover have "mc mod 64 < 64" by simp
  ultimately show ?thesis using False by (simp add: bit_mask_iff)
qed

lemma last_word_cpu:
  assumes "0 < mc"
  shows "(CPUMASK_WORDS mc - 1) * 64 + n < mc \<longleftrightarrow> n < (if mc mod 64 = 0 then 64 else mc mod 64)"
proof -
  define q r where "q = mc div 64" and "r = mc mod 64"
  have mc: "mc = q * 64 + r" and r: "r < 64" by (simp_all add: q_def r_def)
  have "(mc + 63) div 64 = q + (r + 63) div 64" by (simp add: mc)
  moreover have "(r + 63) div 64 = (if r = 0 then 0 else 1)" using r by auto
  ultimately have k: "CPUMASK_WORDS mc = q + (if r = 0 then 0 else 1)" by (simp add: CPUMASK_WORDS_def)
  show ?thesis
  proof (cases "r = 0")
    case True
    then obtain p where "q = Suc p" using assms mc by (cases q) auto
    then show ?thesis using True k mc by (simp add: r_def [symmetric])
  next
    case False
    then show ?thesis using k mc r by (simp add: r_def [symmetric])
  qed
qed

lemma all_mask_set:
  assumes "0 < mc"
  shows "wf_mask mc (all_mask mc)" "mask_set mc (all_mask mc) = {..<mc}"
proof -
  let ?k = "CPUMASK_WORDS mc"
  have k: "0 < ?k" using assms by (simp add: CPUMASK_WORDS_def)
  have len: "length (cbits (all_mask mc)) = ?k" by (simp add: all_mask_def)
  have nth: "cbits (all_mask mc) ! i = (if i = ?k - 1 then LAST_WORD_MASK mc else - 1)" if "i < ?k" for i
    using that by (simp add: all_mask_def nth_list_update)
  have low: "i * 64 + n < mc" if "i < ?k - 1" "n < 64" for i n
  proof -
    have "i + 1 \<le> ?k - 1" using that by simp
    then have "(i + 1) * 64 \<le> (?k - 1) * 64" by simp
    moreover have "(?k - 1) * 64 + 0 < mc" using last_word_cpu [OF assms, of 0] by (auto split: if_splits)
    ultimately show ?thesis using that(2) by simp
  qed
  have bit: "bit (cbits (all_mask mc) ! i) n \<longleftrightarrow> n < 64 \<and> i * 64 + n < mc" if "i < ?k" for i n
  proof (cases "i = ?k - 1")
    case True
    then show ?thesis using nth [OF that] last_word_cpu [OF assms, of n] by (auto simp: bit_last_word split: if_splits)
  next
    case False
    then have "i < ?k - 1" using that by simp
    then show ?thesis using False nth [OF that] low [of i n] by (auto dest: bit_imp_le_length)
  qed
  show "wf_mask mc (all_mask mc)" using assms len bit unfolding wf_mask_def by (intro wf_words_ext) auto
  show "mask_set mc (all_mask mc) = {..<mc}"
    using bit word_index by (auto simp: mask_set_def words_set_def)
qed

lemma for_each_sorted:
  assumes "wf_mask mc m"
  shows "for_each m = sorted_list_of_set (mask_set mc m)"
proof -
  have wf: "wf_words mc (cbits m)" using assms by (simp add: wf_mask_def)
  have "set (for_each m) = mask_set mc m"
    using words_set_sup [of mc "cbits m"] by (auto simp: for_each_filter [OF wf] mask_set_def)
  moreover have "sorted (for_each m)" "distinct (for_each m)"
    by (simp_all add: for_each_filter [OF wf] sorted_wrt_filter)
  moreover have "finite (mask_set mc m)" using calculation(1) by (metis finite_set)
  ultimately show ?thesis by (intro sorted_distinct_set_unique) simp_all
qed

lemma length_for_each: "length (for_each m) = count_mask m"
proof -
  have "fold (\<lambda>w n. n + count_ones w) ws k = k + (\<Sum>w\<leftarrow>ws. count_ones w)" for ws k
    by (induction ws arbitrary: k) (simp_all add: add.assoc)
  then have "count_mask m = (\<Sum>w\<leftarrow>cbits m. count_ones w)" by (simp add: count_mask_def)
  also have "map count_ones (cbits m) = map (\<lambda>i. count_ones (cbits m ! i)) [0..<length (cbits m)]"
    by (rule nth_equalityI) simp_all
  finally show ?thesis by (simp add: for_each_def length_concat comp_def word_loop_bits count_ones_def)
qed

lemma concat_first:
  assumes "first_idx (\<lambda>x. f x \<noteq> []) xs = Some i"
  shows "hd (concat (map f xs)) = hd (f (xs ! i))" "concat (map f xs) \<noteq> []"
  using assms
proof (induction xs arbitrary: i)
  case (Cons x xs)
  { case 1 then show ?case using Cons by (auto split: if_splits) }
  { case 2 then show ?case using Cons by (auto split: if_splits) }
qed simp_all

lemma word_bits_Nil: "word_bits w = [] \<longleftrightarrow> w = 0"
  using set_word_bits [of w] word_nonzero [of w] by (cases "word_bits w") auto

lemma first_idx_cong_nth:
  "length xs = length ys \<Longrightarrow> (\<And>i. i < length xs \<Longrightarrow> P (xs ! i) \<longleftrightarrow> Q (ys ! i)) \<Longrightarrow> first_idx P xs = first_idx Q ys"
proof (induction xs arbitrary: ys)
  case (Cons x xs)
  then obtain y ys' where ys: "ys = y # ys'" by (cases ys) auto
  have "first_idx P xs = first_idx Q ys'"
  proof (rule Cons.IH)
    show "length xs = length ys'" using Cons.prems(1) ys by simp
    show "P (xs ! i) \<longleftrightarrow> Q (ys' ! i)" if "i < length xs" for i
      using Cons.prems(2) [of "Suc i"] that ys by simp
  qed
  moreover have "P x \<longleftrightarrow> Q y" using Cons.prems(2) [of 0] ys by simp
  ultimately show ?case using ys by simp
qed simp

lemma first_set_for_each: "first_set m = (if for_each m = [] then None else Some (hd (for_each m)))"
proof -
  let ?f = "\<lambda>i. word_loop (i * 64) (cbits m ! i)"
  have ne: "?f i \<noteq> [] \<longleftrightarrow> cbits m ! i \<noteq> 0" for i by (simp add: word_loop_bits word_bits_Nil)
  have eq: "first_idx (\<lambda>i. ?f i \<noteq> []) [0..<length (cbits m)] = first_idx (\<lambda>w. w \<noteq> 0) (cbits m)"
    by (rule first_idx_cong_nth) (simp_all add: ne)
  show ?thesis
  proof (cases "first_idx (\<lambda>w. w \<noteq> 0) (cbits m)")
    case None
    then have "first_idx (\<lambda>i. ?f i \<noteq> []) [0..<length (cbits m)] = None" using eq by simp
    then have "for_each m = []" unfolding first_idx_None by (simp add: for_each_def)
    then show ?thesis using None by (simp add: first_set_def)
  next
    case (Some i)
    then have "first_idx (\<lambda>i. ?f i \<noteq> []) [0..<length (cbits m)] = Some i" using eq by simp
    note c = concat_first [OF this]
    have i: "i < length (cbits m)" "cbits m ! i \<noteq> 0" using first_idx_SomeD(1,2) [OF Some] by auto
    have "hd (?f i) = i * 64 + trailing_zeros (cbits m ! i)"
      using i(2) by (simp add: word_loop_bits word_bits_Cons)
    then show ?thesis using c i Some by (simp add: first_set_def for_each_def)
  qed
qed

lemma is_empty_for_each: "is_empty_mask m \<longleftrightarrow> for_each m = []"
  using first_set_for_each [of m] by (auto simp: is_empty_mask_def first_set_def split: option.splits if_splits)

lemma mask_zip:
  assumes "wf_mask mc a" "wf_mask mc b"
    and "\<And>x y n. n < 64 \<Longrightarrow> bit (f x y) n \<longleftrightarrow> P (bit x n) (bit y n)" "\<not> P False False"
  shows "wf_mask mc (zip_words f a b)"
    and "mask_set mc (zip_words f a b) = {c. P (c \<in> mask_set mc a) (c \<in> mask_set mc b)}"
  using zip_words_set [of mc "cbits a" "cbits b" f P] assms by (simp_all add: zip_words_def wf_mask_def mask_set_def)

lemmas mask_and = mask_zip [where f = "(AND)" and P = "(\<and>)", folded and_mask_def]
lemmas mask_or = mask_zip [where f = "(OR)" and P = "(\<or>)", folded or_mask_def]
lemmas mask_andnot = mask_zip [where f = "\<lambda>x y. x AND NOT y" and P = "\<lambda>x y. x \<and> \<not> y", folded andnot_mask_def]

subsection \<open>The word-by-word loops of the atomic mask\<close>

lemma fold_words:
  "n \<le> length ws \<Longrightarrow>
   fold (\<lambda>i ws. ws[i := g i (ws ! i)]) [0..<n] ws = map (\<lambda>i. if i < n then g i (ws ! i) else ws ! i) [0..<length ws]"
proof (induction n)
  case 0
  then show ?case by (simp add: map_nth)
next
  case (Suc n)
  then show ?case by (intro nth_equalityI) (auto simp: nth_list_update)
qed

lemma fold_abits:
  assumes "\<And>i a. abits (h i a) = (abits a)[i := g i (abits a ! i)]"
  shows "abits (fold h is m) = fold (\<lambda>i ws. ws[i := g i (ws ! i)]) is (abits m)"
  by (induction "is" arbitrary: m) (simp_all add: assms)

lemma fetch_mask_zip:
  assumes "length (abits m) = length (cbits k)"
  shows "abits (fetch_or_mask m k) = map2 (OR) (abits m) (cbits k)"
    and "abits (fetch_and_mask m k) = map2 (AND) (abits m) (cbits k)"
proof -
  have "abits (fetch_or_mask m k) = fold (\<lambda>i ws. ws[i := ws ! i OR cbits k ! i]) [0..<length (abits m)] (abits m)"
    unfolding fetch_or_mask_def by (rule fold_abits) (simp add: fetch_or_def)
  then show "abits (fetch_or_mask m k) = map2 (OR) (abits m) (cbits k)"
    using assms by (subst (asm) fold_words) (auto intro!: nth_equalityI)
  have "abits (fetch_and_mask m k) = fold (\<lambda>i ws. ws[i := ws ! i AND cbits k ! i]) [0..<length (abits m)] (abits m)"
    unfolding fetch_and_mask_def by (rule fold_abits) (simp add: fetch_and_def)
  then show "abits (fetch_and_mask m k) = map2 (AND) (abits m) (cbits k)"
    using assms by (subst (asm) fold_words) (auto intro!: nth_equalityI)
qed

section \<open>Properties\<close>

lemma mask_ops_are_set_ops_parts:
  assumes "wf_mask mc a" "wf_mask mc b"
  shows "wf_mask mc (and_mask a b) \<and> mask_set mc (and_mask a b) = mask_set mc a \<inter> mask_set mc b"
    and "wf_mask mc (or_mask a b) \<and> mask_set mc (or_mask a b) = mask_set mc a \<union> mask_set mc b"
    and "wf_mask mc (andnot_mask a b) \<and> mask_set mc (andnot_mask a b) = mask_set mc a - mask_set mc b"
    and "wf_mask mc (set_cpu mc a c) \<and> mask_set mc (set_cpu mc a c) = mask_set mc a \<union> ({c} \<inter> {..<mc})"
    and "wf_mask mc (clear_cpu mc a c) \<and> mask_set mc (clear_cpu mc a c) = mask_set mc a - {c}"
    and "test mc a c \<longleftrightarrow> c \<in> mask_set mc a"
    and "mask_set mc (all_mask mc) = {..<mc} \<and> mask_set mc (new_mask mc) = {}"
proof -
  have mc: "0 < mc" using assms(1) by (simp add: wf_mask_def wf_words_def)
  show "wf_mask mc (and_mask a b) \<and> mask_set mc (and_mask a b) = mask_set mc a \<inter> mask_set mc b"
    using mask_and [OF assms] by (auto simp: bit_and_iff)
  show "wf_mask mc (or_mask a b) \<and> mask_set mc (or_mask a b) = mask_set mc a \<union> mask_set mc b"
    using mask_or [OF assms] by (auto simp: bit_or_iff)
  show "wf_mask mc (andnot_mask a b) \<and> mask_set mc (andnot_mask a b) = mask_set mc a - mask_set mc b"
    using mask_andnot [OF assms] by (auto simp: bit_and_iff bit_not_iff)
  show "mask_set mc (all_mask mc) = {..<mc} \<and> mask_set mc (new_mask mc) = {}"
    using all_mask_set(2) [OF mc] by (simp add: mask_set_def new_mask_def set_zero)
qed (use assms in \<open>simp_all add: vm.ins_inv vm.ins_set vm.del_inv vm.del_set vm.member_iff\<close>)

text \<open>C26 The value operations are the set operations. For well-formed masks, intersection, union,
  difference, insertion and removal of a CPU keep the mask well formed and have the expected members;
  numbers of MAX_CPUS or more are never members and are ignored by the updates.\<close>

theorem mask_ops_are_set_ops:
  assumes "wf_mask mc a" "wf_mask mc b"
  shows "(wf_mask mc (and_mask a b) \<and> mask_set mc (and_mask a b) = mask_set mc a \<inter> mask_set mc b) \<and>
    (wf_mask mc (or_mask a b) \<and> mask_set mc (or_mask a b) = mask_set mc a \<union> mask_set mc b) \<and>
    (wf_mask mc (andnot_mask a b) \<and> mask_set mc (andnot_mask a b) = mask_set mc a - mask_set mc b) \<and>
    (wf_mask mc (set_cpu mc a c) \<and> mask_set mc (set_cpu mc a c) = mask_set mc a \<union> ({c} \<inter> {..<mc})) \<and>
    (wf_mask mc (clear_cpu mc a c) \<and> mask_set mc (clear_cpu mc a c) = mask_set mc a - {c}) \<and>
    (test mc a c \<longleftrightarrow> c \<in> mask_set mc a) \<and>
    (mask_set mc (all_mask mc) = {..<mc} \<and> mask_set mc (new_mask mc) = {})"
  using mask_ops_are_set_ops_parts [OF assms] by blast

theorem mask_ops_are_set_ops_witness:
  "wf_mask 70 (all_mask 70) \<and> mask_set 70 (andnot_mask (all_mask 70) (set_cpu 70 (new_mask 70) 69)) = {..<69}"
proof -
  have wf: "wf_mask 70 (new_mask 70)" by (simp add: wf_mask_def new_mask_def wf_zero)
  note n = mask_ops_are_set_ops [OF wf wf]
  have "wf_mask 70 (set_cpu 70 (new_mask 70) 69)" "mask_set 70 (set_cpu 70 (new_mask 70) 69) = {69}"
    using n [of 69] by auto
  then show ?thesis
    using mask_ops_are_set_ops [of 70 "all_mask 70" "set_cpu 70 (new_mask 70) 69"] all_mask_set [of 70] by auto
qed

lemma mask_queries_agree_parts:
  assumes "wf_mask mc m"
  shows "for_each m = sorted_list_of_set (mask_set mc m)"
    and "count_mask m = card (mask_set mc m)"
    and "first_set m = (if mask_set mc m = {} then None else Some (Min (mask_set mc m)))"
    and "is_empty_mask m \<longleftrightarrow> mask_set mc m = {}"
proof -
  have fin: "finite (mask_set mc m)" using words_set_bound [of mc "cbits m"] by (auto simp: mask_set_def intro: finite_subset)
  show f: "for_each m = sorted_list_of_set (mask_set mc m)" using for_each_sorted [OF assms] .
  show "count_mask m = card (mask_set mc m)" using length_for_each [of m] f by simp
  have ne: "for_each m = [] \<longleftrightarrow> mask_set mc m = {}" using f fin by simp
  then show "is_empty_mask m \<longleftrightarrow> mask_set mc m = {}" by (simp add: is_empty_for_each)
  have "hd (for_each m) = Min (mask_set mc m)" if "mask_set mc m \<noteq> {}"
    using f fin that by (simp add: sorted_list_of_set_nonempty)
  then show "first_set m = (if mask_set mc m = {} then None else Some (Min (mask_set mc m)))"
    using first_set_for_each [of m] ne by simp
qed

text \<open>C27 The scanning loops agree with the set. Iteration visits exactly the members, each once, in
  increasing order (so the bit-clearing inner loop ends); the population count is their number; the
  first set CPU is the least member; and the mask reports empty exactly when it has none.\<close>

theorem mask_queries_agree:
  assumes "wf_mask mc m"
  shows "(for_each m = sorted_list_of_set (mask_set mc m)) \<and>
    (count_mask m = card (mask_set mc m)) \<and>
    (first_set m = (if mask_set mc m = {} then None else Some (Min (mask_set mc m)))) \<and>
    (is_empty_mask m \<longleftrightarrow> mask_set mc m = {})"
  using mask_queries_agree_parts [OF assms] by blast

theorem mask_queries_agree_witness:
  "for_each (from_u64 64 44) = [2, 3, 5] \<and> wf_mask 64 (all_mask 64) \<and> count_mask (all_mask 64) = 64"
proof -
  have "for_each (from_u64 64 44) = [2, 3, 5]" by code_simp
  then show ?thesis using mask_queries_agree [of 64 "all_mask 64"] all_mask_set [of 64] by simp
qed

definition atomic_step :: "nat \<Rightarrow> cpu_op \<Rightarrow> AtomicCpuMask \<Rightarrow> AtomicCpuMask" where
  "atomic_step mc op m = (case op of SetCpu c \<Rightarrow> set_with mc m c | ClearCpu c \<Rightarrow> clear_with mc m c)"

lemma atomic_step_am: "atomic_step mc = am.cpu_step mc"
  by (intro ext) (simp add: atomic_step_def am.cpu_step_def split: cpu_op.splits)

lemma atomic_interleaving_parts:
  assumes "wf_atomic mc m" "\<And>c. filter (\<lambda>op. cpu_of op = c) xs = filter (\<lambda>op. cpu_of op = c) ys"
  shows "wf_atomic mc (fold (atomic_step mc) xs m)"
    and "atomic_set mc (fold (atomic_step mc) xs m) = atomic_set mc (fold (atomic_step mc) ys m)"
  using am.run_inv [OF assms(1)] am.run_interleaving [OF assms] by (simp_all add: atomic_step_am)



lemma atomic_mask_transfer_parts:
  assumes "wf_atomic mc m" "wf_mask mc k"
  shows "wf_mask mc (load_mask mc m) \<and> mask_set mc (load_mask mc m) = atomic_set mc m"
    and "load_mask mc (store_mask m k) = k"
    and "atomic_set mc (fetch_or_mask m k) = atomic_set mc m \<union> mask_set mc k"
    and "atomic_set mc (fetch_and_mask m k) = atomic_set mc m \<inter> mask_set mc k"
proof -
  have len: "length (abits m) = CPUMASK_WORDS mc" "length (cbits k) = CPUMASK_WORDS mc"
    using assms by (simp_all add: mask_defs wf_words_def)
  have "map (\<lambda>i. abits m ! i) [0..<CPUMASK_WORDS mc] = abits m" using len(1) by (metis map_nth)
  then have "cbits (load_mask mc m) = abits m" by (simp add: load_mask_def)
  then show "wf_mask mc (load_mask mc m) \<and> mask_set mc (load_mask mc m) = atomic_set mc m"
    using assms by (simp add: mask_defs)
  have "map (\<lambda>i. cbits k ! i) [0..<CPUMASK_WORDS mc] = cbits k" using len(2) by (metis map_nth)
  then show "load_mask mc (store_mask m k) = k"
    by (cases k) (simp add: load_mask_def store_mask_def len)
  show "atomic_set mc (fetch_or_mask m k) = atomic_set mc m \<union> mask_set mc k"
    using zip_words_set(2) [of mc "abits m" "cbits k" "(OR)" "(\<or>)"] assms len
    by (auto simp: mask_defs fetch_mask_zip bit_or_iff)
  show "atomic_set mc (fetch_and_mask m k) = atomic_set mc m \<inter> mask_set mc k"
    using zip_words_set(2) [of mc "abits m" "cbits k" "(AND)" "(\<and>)"] assms len
    by (auto simp: mask_defs fetch_mask_zip bit_and_iff)
qed

text \<open>Whole-mask transfers between the two forms. A load returns the members of the atomic mask, a
  store followed by a load returns the stored mask, and the word-by-word OR and AND are union and
  intersection.\<close>

theorem atomic_mask_transfer:
  assumes "wf_atomic mc m" "wf_mask mc k"
  shows "(wf_mask mc (load_mask mc m) \<and> mask_set mc (load_mask mc m) = atomic_set mc m) \<and>
    (load_mask mc (store_mask m k) = k) \<and>
    (atomic_set mc (fetch_or_mask m k) = atomic_set mc m \<union> mask_set mc k) \<and>
    (atomic_set mc (fetch_and_mask m k) = atomic_set mc m \<inter> mask_set mc k)"
  using atomic_mask_transfer_parts [OF assms] by blast

theorem atomic_mask_transfer_witness:
  "atomic_set 70 (fetch_or_mask (new_all_atomic 70) (all_mask 70)) = {..<70}"
proof -
  have wf: "wf_atomic 70 (new_all_atomic 70)" "atomic_set 70 (new_all_atomic 70) = {..<70}"
    using all_mask_set [of 70] map_nth [of "cbits (all_mask 70)"]
    by (simp_all add: mask_defs new_all_atomic_def wf_words_def)
  show ?thesis using atomic_mask_transfer [OF wf(1), of "all_mask 70"] wf(2) all_mask_set [of 70] by simp
qed

end
