(* ===== verification/Heap4.thy ===== *)
theory Heap4
  imports Telix_Prelude "HOL-Library.Multiset"
begin

text \<open>
  \<open>kernel/src/sched/heap.rs\<close>: the four-ary array heap of runnable threads, keyed by virtual deadline,
  with the position of every thread written back into its thread record. The heap and the fields of the
  threads it reads and writes form one state. A failing (debug) assertion is None. Shown: the heap order, the
  position index and the multiset of entries are maintained by every operation, the minimum is
  delivered, and the eligible scan picks the earliest eligible deadline in rotation order.
\<close>

section \<open>State\<close>

definition D :: nat where "D = 4"

definition HEAP_CAP :: nat where "HEAP_CAP = 512"

definition HEAP_POS_NONE :: u16 where "HEAP_POS_NONE = 65535"

record HeapEntry =
  ekey :: u64
  etid :: u32

definition zero_entry :: HeapEntry where
  "zero_entry = \<lparr>ekey = 0, etid = 0\<rparr>"

record Heap4 =
  entries :: "HeapEntry list"
  heap_len :: nat
  scan_start :: u32

text \<open>The fields of \<open>Thread\<close> that the heap reads and writes.\<close>

record SchedThread =
  eevdf_heap_pos :: u16
  eevdf_vruntime :: u64
  cosched_group :: u32
  picked_count :: u64

record HeapState = Heap4 +
  threads :: "u32 \<Rightarrow> SchedThread"

section \<open>Operations\<close>

definition new_heap :: Heap4 where
  "new_heap = \<lparr>entries = replicate HEAP_CAP zero_entry, heap_len = 0, scan_start = 0\<rparr>"

definition heap_is_empty :: "'a Heap4_scheme \<Rightarrow> bool" where
  "heap_is_empty s = (heap_len s = 0)"

definition for_each_entry :: "'a Heap4_scheme \<Rightarrow> (u32 \<times> u64) list" where
  "for_each_entry s = map (\<lambda>i. (etid (entries s ! i), ekey (entries s ! i))) [0..<heap_len s]"

definition peek_min :: "'a Heap4_scheme \<Rightarrow> (u32 \<times> u64) option" where
  "peek_min s = (if heap_len s = 0 then None else Some (etid (entries s ! 0), ekey (entries s ! 0)))"

definition heap_parent :: "nat \<Rightarrow> nat" where
  "heap_parent i = (i - 1) div D"

definition set_heap_pos :: "u32 \<Rightarrow> u16 \<Rightarrow> HeapState \<Rightarrow> HeapState" where
  "set_heap_pos tid pos s = s\<lparr>threads := (threads s)(tid := (threads s tid)\<lparr>eevdf_heap_pos := pos\<rparr>)\<rparr>"

definition heap_swap :: "nat \<Rightarrow> nat \<Rightarrow> HeapState \<Rightarrow> HeapState" where
  "heap_swap a b s =
     (let s1 = s\<lparr>entries := (entries s)[a := entries s ! b, b := entries s ! a]\<rparr>;
          s2 = set_heap_pos (etid (entries s1 ! a)) (of_nat a) s1
      in set_heap_pos (etid (entries s2 ! b)) (of_nat b) s2)"

lemma heap_parent_less: "0 < i \<Longrightarrow> heap_parent i < i"
  by (simp add: heap_parent_def D_def)

function sift_up :: "nat \<Rightarrow> HeapState \<Rightarrow> HeapState" where
  "sift_up pos s =
     (if pos > 0 then
        let par = heap_parent pos
        in if ekey (entries s ! pos) < ekey (entries s ! par) then sift_up par (heap_swap pos par s) else s
      else s)"
  by pat_completeness auto
termination
  by (relation "measure fst") (auto simp: heap_parent_less)

declare sift_up.simps [simp del]

text \<open>The scan over the children of one node: the index of the smallest key and the key.\<close>

definition min_child_scan :: "HeapEntry list \<Rightarrow> nat \<Rightarrow> nat \<Rightarrow> nat \<times> u64" where
  "min_child_scan es first_child last_child =
     fold (\<lambda>c (min_child, min_key). if ekey (es ! c) < min_key then (c, ekey (es ! c)) else (min_child, min_key))
       [first_child + 1..<last_child] (first_child, ekey (es ! first_child))"

lemma scan_min_fold:
  fixes es :: "HeapEntry list"
  assumes "l < m"
  defines "r \<equiv> fold (\<lambda>c (mc, mk). if ekey (es ! c) < mk then (c, ekey (es ! c)) else (mc, mk)) [l + 1..<m] (l, ekey (es ! l))"
  shows "l \<le> fst r \<and> fst r < m \<and> snd r = ekey (es ! fst r) \<and> (\<forall>c. l \<le> c \<longrightarrow> c < m \<longrightarrow> snd r \<le> ekey (es ! c))"
  using assms(1) unfolding r_def
proof (induction m)
  case (Suc m)
  show ?case
  proof (cases "l = m")
    case True
    then show ?thesis by (auto simp: le_less_Suc_eq)
  next
    case False
    let ?r = "fold (\<lambda>c (mc, mk). if ekey (es ! c) < mk then (c, ekey (es ! c)) else (mc, mk)) [l + 1..<m] (l, ekey (es ! l))"
    obtain c k where r: "?r = (c, k)" by fastforce
    have "l < m" using False Suc.prems by simp
    then have IH: "l \<le> c" "c < m" "k = ekey (es ! c)" "\<And>i. l \<le> i \<Longrightarrow> i < m \<Longrightarrow> k \<le> ekey (es ! i)"
      using Suc.IH r by auto
    have "[l + 1..<Suc m] = [l + 1..<m] @ [m]" using \<open>l < m\<close> by simp
    then show ?thesis using r IH by (auto simp: less_Suc_eq) (meson leI order.trans less_imp_le)+
  qed
qed simp

lemma min_child_scan_spec:
  assumes "min_child_scan es l m = (c, k)" "l < m"
  shows "l \<le> c" "c < m" "k = ekey (es ! c)" "\<And>i. l \<le> i \<Longrightarrow> i < m \<Longrightarrow> k \<le> ekey (es ! i)"
  using scan_min_fold [OF assms(2), of es] assms(1) unfolding min_child_scan_def by auto

function sift_down :: "nat \<Rightarrow> HeapState \<Rightarrow> HeapState" where
  "sift_down pos s =
     (let n = heap_len s; first_child = D * pos + 1
      in if first_child \<ge> n then s
         else let last_child = min (first_child + D) n;
                  (min_child, min_key) = min_child_scan (entries s) first_child last_child
              in if min_key < ekey (entries s ! pos) then sift_down min_child (heap_swap pos min_child s) else s)"
  by pat_completeness auto
termination
proof (relation "measure (\<lambda>(pos, s). heap_len s - pos)", simp, clarify)
  fix pos mc :: nat and s :: HeapState and mk :: u64
  assume a: "\<not> heap_len s \<le> D * pos + 1"
    "(mc, mk) = min_child_scan (entries s) (D * pos + 1) (min (D * pos + 1 + D) (heap_len s))"
  have "D * pos + 1 < min (D * pos + 1 + D) (heap_len s)" using a(1) by (simp add: D_def)
  then have "D * pos + 1 \<le> mc" "mc < heap_len s" using min_child_scan_spec(1,2) [OF a(2) [symmetric]] by auto
  moreover have "heap_len (heap_swap pos mc s) = heap_len s" by (simp add: heap_swap_def set_heap_pos_def Let_def)
  ultimately show "((mc, heap_swap pos mc s), (pos, s)) \<in> measure (\<lambda>(pos, s). heap_len s - pos)"
    by (simp add: D_def)
qed

declare sift_down.simps [simp del]

definition insert_thread :: "u32 \<Rightarrow> u64 \<Rightarrow> HeapState \<Rightarrow> bool \<times> HeapState" where
  "insert_thread tid key s =
     (if heap_len s \<ge> HEAP_CAP then (False, s)
      else let pos = heap_len s;
               s1 = s\<lparr>entries := (entries s)[pos := \<lparr>ekey = key, etid = tid\<rparr>], heap_len := heap_len s + 1\<rparr>;
               s2 = set_heap_pos tid (of_nat pos) s1
           in (True, sift_up pos s2))"

definition pop_min :: "HeapState \<Rightarrow> (u32 \<times> u64) option \<times> HeapState" where
  "pop_min s =
     (if heap_len s = 0 then (None, s)
      else let root = entries s ! 0;
               s1 = set_heap_pos (etid root) HEAP_POS_NONE s;
               s2 = s1\<lparr>heap_len := heap_len s1 - 1\<rparr>;
               s3 = (if heap_len s2 > 0 then
                       let s4 = s2\<lparr>entries := (entries s2)[0 := entries s2 ! heap_len s2]\<rparr>
                       in sift_down 0 (set_heap_pos (etid (entries s4 ! 0)) 0 s4)
                     else s2)
           in (Some (etid root, ekey root), s3))"

definition decrease_key :: "nat \<Rightarrow> u64 \<Rightarrow> HeapState \<Rightarrow> HeapState option" where
  "decrease_key pos new_key s =
     (if pos < heap_len s
      then Some (sift_up pos (s\<lparr>entries := (entries s)[pos := (entries s ! pos)\<lparr>ekey := new_key\<rparr>]\<rparr>))
      else None)"

definition remove_at :: "nat \<Rightarrow> HeapState \<Rightarrow> ((u32 \<times> u64) \<times> HeapState) option" where
  "remove_at pos s =
     (if pos < heap_len s
      then let removed = entries s ! pos;
               s1 = set_heap_pos (etid removed) HEAP_POS_NONE s;
               s2 = s1\<lparr>heap_len := heap_len s1 - 1\<rparr>;
               s3 = (if pos < heap_len s2 then
                       let s4 = s2\<lparr>entries := (entries s2)[pos := entries s2 ! heap_len s2]\<rparr>;
                           s5 = set_heap_pos (etid (entries s4 ! pos)) (of_nat pos) s4
                       in if pos > 0 \<and> ekey (entries s5 ! pos) < ekey (entries s5 ! heap_parent pos)
                          then sift_up pos s5 else sift_down pos s5
                     else s2)
           in Some ((etid removed, ekey removed), s3)
      else None)"

text \<open>The rotating scan shared by the two pickers; \<open>ok\<close> is the loop's test on the thread of an entry.\<close>

definition scan_best :: "(u32 \<Rightarrow> bool) \<Rightarrow> HeapEntry list \<Rightarrow> nat \<Rightarrow> nat \<Rightarrow> nat option" where
  "scan_best ok es n start =
     fst (fold (\<lambda>k (best_pos, best_key).
                  let i = (start + k) mod n; e = es ! i
                  in if ok (etid e) \<and> ekey e < best_key then (Some i, ekey e) else (best_pos, best_key))
            [0..<n] (None, - 1))"

definition count_pick :: "u32 \<Rightarrow> HeapState \<Rightarrow> HeapState" where
  "count_pick tid s =
     s\<lparr>threads := (threads s)(tid := (threads s tid)\<lparr>picked_count := picked_count (threads s tid) + 1\<rparr>)\<rparr>"

definition pick_eligible :: "u64 \<Rightarrow> HeapState \<Rightarrow> ((u32 \<times> u64) option \<times> HeapState) option" where
  "pick_eligible max_vruntime s =
     (if heap_len s = 0 then Some (None, s)
      else let n = heap_len s;
               best_pos = scan_best (\<lambda>tid. eevdf_vruntime (threads s tid) \<le> max_vruntime) (entries s) n
                            (unat (scan_start s) mod n);
               s1 = s\<lparr>scan_start := scan_start s + 1\<rparr>
           in (case best_pos of
                 Some pos \<Rightarrow>
                   (case remove_at pos s1 of
                      None \<Rightarrow> None
                    | Some ((tid, key), s2) \<Rightarrow> Some (Some (tid, key), count_pick tid s2))
               | None \<Rightarrow>
                   (case pop_min s1 of
                      (Some (tid, key), s2) \<Rightarrow> Some (Some (tid, key), count_pick tid s2)
                    | (None, s2) \<Rightarrow> Some (None, s2))))"

definition pop_for_group :: "u32 \<Rightarrow> u64 \<Rightarrow> HeapState \<Rightarrow> ((u32 \<times> u64) option \<times> HeapState) option" where
  "pop_for_group grp max_vruntime s =
     (let n = heap_len s
      in if n = 0 then Some (None, s)
         else let best_pos = scan_best (\<lambda>tid. cosched_group (threads s tid) = grp \<and>
                                              eevdf_vruntime (threads s tid) \<le> max_vruntime)
                               (entries s) n (unat (scan_start s) mod n);
                  s1 = s\<lparr>scan_start := scan_start s + 1\<rparr>
              in (case best_pos of
                    Some pos \<Rightarrow>
                      (case remove_at pos s1 of
                         None \<Rightarrow> None
                       | Some ((tid, key), s2) \<Rightarrow> Some (Some (tid, key), count_pick tid s2))
                  | None \<Rightarrow> Some (None, s1)))"

definition update_key :: "nat \<Rightarrow> u64 \<Rightarrow> HeapState \<Rightarrow> (u64 \<times> HeapState) option" where
  "update_key pos new_key s =
     (if pos < heap_len s
      then let old_key = ekey (entries s ! pos);
               s1 = s\<lparr>entries := (entries s)[pos := (entries s ! pos)\<lparr>ekey := new_key\<rparr>]\<rparr>;
               s2 = (if new_key < old_key then sift_up pos s1
                     else if new_key > old_key then sift_down pos s1 else s1)
           in Some (old_key, s2)
      else None)"

section \<open>Order on positions\<close>

text \<open>Keys by position. The order is stated for every position but one, in the two forms that the two
  sift loops repair.\<close>

definition ordered :: "nat \<Rightarrow> (nat \<Rightarrow> u64) \<Rightarrow> bool" where
  "ordered n k \<longleftrightarrow> (\<forall>i. 0 < i \<longrightarrow> i < n \<longrightarrow> k (heap_parent i) \<le> k i)"

definition ordered_up :: "nat \<Rightarrow> (nat \<Rightarrow> u64) \<Rightarrow> nat \<Rightarrow> bool" where
  "ordered_up n k p \<longleftrightarrow>
     (\<forall>i. 0 < i \<longrightarrow> i < n \<longrightarrow> i \<noteq> p \<longrightarrow> k (heap_parent i) \<le> k i) \<and>
     (\<forall>i. 0 < i \<longrightarrow> i < n \<longrightarrow> heap_parent i = p \<longrightarrow> 0 < p \<longrightarrow> k (heap_parent p) \<le> k i)"

definition ordered_down :: "nat \<Rightarrow> (nat \<Rightarrow> u64) \<Rightarrow> nat \<Rightarrow> bool" where
  "ordered_down n k p \<longleftrightarrow>
     (\<forall>i. 0 < i \<longrightarrow> i < n \<longrightarrow> heap_parent i \<noteq> p \<longrightarrow> k (heap_parent i) \<le> k i) \<and>
     (\<forall>i. 0 < i \<longrightarrow> i < n \<longrightarrow> heap_parent i = p \<longrightarrow> 0 < p \<longrightarrow> k (heap_parent p) \<le> k i)"

definition exch :: "nat \<Rightarrow> nat \<Rightarrow> (nat \<Rightarrow> 'a) \<Rightarrow> nat \<Rightarrow> 'a" where
  "exch a b f = f(a := f b, b := f a)"

lemma child_iff: "0 < i \<Longrightarrow> heap_parent i = p \<longleftrightarrow> D * p + 1 \<le> i \<and> i < D * p + 1 + D"
  by (auto simp: heap_parent_def D_def)

lemma ordered_root: "ordered n k \<Longrightarrow> i < n \<Longrightarrow> k 0 \<le> k i"
proof (induction i rule: less_induct)
  case (less i)
  show ?case
  proof (cases "i = 0")
    case False
    then have "heap_parent i < i" "heap_parent i < n" using heap_parent_less [of i] less.prems by auto
    then have "k 0 \<le> k (heap_parent i)" using less by blast
    also have "\<dots> \<le> k i" using less.prems False by (auto simp: ordered_def)
    finally show ?thesis .
  qed simp
qed

lemma ordered_up_step:
  assumes "ordered_up n k p" "0 < p" "p < n" "k p < k (heap_parent p)"
  shows "ordered_up n (exch p (heap_parent p) k) (heap_parent p)"
proof -
  let ?q = "heap_parent p" and ?k = "exch p (heap_parent p) k"
  have pq: "?q < p" using assms(2) by (rule heap_parent_less)
  have o1: "k (heap_parent i) \<le> k i" if "0 < i" "i < n" "i \<noteq> p" for i
    using assms(1) that by (auto simp: ordered_up_def)
  have o2: "k ?q \<le> k i" if "0 < i" "i < n" "heap_parent i = p" for i
    using assms(1,2) that by (auto simp: ordered_up_def)
  have val: "?k p = k ?q" "?k ?q = k p" "\<And>i. i \<noteq> p \<Longrightarrow> i \<noteq> ?q \<Longrightarrow> ?k i = k i"
    using pq by (auto simp: exch_def)
  have "?k (heap_parent i) \<le> ?k i" if i: "0 < i" "i < n" "i \<noteq> ?q" for i
  proof -
    consider "i = p" | "i \<noteq> p" "heap_parent i = p" | "i \<noteq> p" "heap_parent i = ?q" | "i \<noteq> p" "heap_parent i \<noteq> p" "heap_parent i \<noteq> ?q"
      by blast
    then show ?thesis
    proof cases
      case 1 then show ?thesis using val assms(4) by simp
    next
      case 2 then show ?thesis using val i o2 by simp
    next
      case 3 then show ?thesis using val i o1 [of i] assms(4) by simp
    next
      case 4 then show ?thesis using val i o1 [of i] by simp
    qed
  qed
  moreover have "?k (heap_parent ?q) \<le> ?k i" if i: "0 < i" "i < n" "heap_parent i = ?q" "0 < ?q" for i
  proof -
    have g: "heap_parent ?q < ?q" using i(4) by (rule heap_parent_less)
    have a: "?k (heap_parent ?q) = k (heap_parent ?q)" using g pq val by simp
    have b: "k (heap_parent ?q) \<le> k ?q" using o1 [of ?q] i(4) pq assms(3) by simp
    have "?k i = (if i = p then k ?q else k i)" using val i heap_parent_less [of i] by auto
    moreover have "k ?q \<le> k i" if "i \<noteq> p" using o1 [of i] i that by simp
    ultimately show ?thesis using a b by auto
  qed
  ultimately show ?thesis by (simp add: ordered_up_def)
qed

lemma ordered_up_stop: "ordered_up n k p \<Longrightarrow> (0 < p \<Longrightarrow> k (heap_parent p) \<le> k p) \<Longrightarrow> ordered n k"
  unfolding ordered_up_def ordered_def by blast

lemma ordered_down_step:
  assumes "ordered_down n k p" "0 < c" "c < n" "heap_parent c = p" "k c < k p"
    and least: "\<And>i. 0 < i \<Longrightarrow> i < n \<Longrightarrow> heap_parent i = p \<Longrightarrow> k c \<le> k i"
  shows "ordered_down n (exch p c k) c"
proof -
  let ?k = "exch p c k"
  have pc: "p < c" using assms(2,4) heap_parent_less [of c] by simp
  have o1: "k (heap_parent i) \<le> k i" if "0 < i" "i < n" "heap_parent i \<noteq> p" for i
    using assms(1) that by (auto simp: ordered_down_def)
  have o2: "k (heap_parent p) \<le> k c" if "0 < p"
    using assms(1-4) that by (auto simp: ordered_down_def)
  have val: "?k p = k c" "?k c = k p" "\<And>i. i \<noteq> p \<Longrightarrow> i \<noteq> c \<Longrightarrow> ?k i = k i"
    using pc by (auto simp: exch_def)
  have "?k (heap_parent i) \<le> ?k i" if i: "0 < i" "i < n" "heap_parent i \<noteq> c" for i
  proof -
    consider "i = c" | "i \<noteq> c" "heap_parent i = p" | "i = p" | "i \<noteq> c" "i \<noteq> p" "heap_parent i \<noteq> p" by blast
    then show ?thesis
    proof cases
      case 1 then show ?thesis using val assms(4,5) by simp
    next
      case 2
      then have "i \<noteq> p" using i 2 heap_parent_less [of i] by auto
      then show ?thesis using 2 val i least by simp
    next
      case 3
      then have "heap_parent p < p" using i heap_parent_less [of p] by simp
      then show ?thesis using 3 val i o2 pc by simp
    next
      case 4 then show ?thesis using val i o1 by simp
    qed
  qed
  moreover have "?k (heap_parent c) \<le> ?k i" if i: "0 < i" "i < n" "heap_parent i = c" for i
  proof -
    have "c < i" using i heap_parent_less [of i] by simp
    then show ?thesis using val i pc assms(4) o1 [of i] by simp
  qed
  ultimately show ?thesis by (simp add: ordered_down_def)
qed

lemma ordered_down_stop:
  "ordered_down n k p \<Longrightarrow> (\<And>i. 0 < i \<Longrightarrow> i < n \<Longrightarrow> heap_parent i = p \<Longrightarrow> k p \<le> k i) \<Longrightarrow> ordered n k"
  unfolding ordered_down_def ordered_def by blast

section \<open>The invariant\<close>

abbreviation keys :: "'a Heap4_scheme \<Rightarrow> nat \<Rightarrow> u64" where
  "keys s \<equiv> \<lambda>i. ekey (entries s ! i)"

abbreviation tid_at :: "'a Heap4_scheme \<Rightarrow> nat \<Rightarrow> u32" where
  "tid_at s \<equiv> \<lambda>i. etid (entries s ! i)"

definition elems :: "'a Heap4_scheme \<Rightarrow> (u32 \<times> u64) multiset" where
  "elems s = mset (for_each_entry s)"

definition wf_heap :: "'a Heap4_scheme \<Rightarrow> bool" where
  "wf_heap s \<longleftrightarrow> length (entries s) = HEAP_CAP \<and> heap_len s \<le> HEAP_CAP"

text \<open>Every thread in the heap occurs once and its record holds its position.\<close>

definition indexed :: "HeapState \<Rightarrow> bool" where
  "indexed s \<longleftrightarrow> inj_on (tid_at s) {..<heap_len s} \<and>
     (\<forall>i<heap_len s. eevdf_heap_pos (threads s (tid_at s i)) = of_nat i)"

definition heap_inv :: "HeapState \<Rightarrow> bool" where
  "heap_inv s \<longleftrightarrow> wf_heap s \<and> indexed s \<and> ordered (heap_len s) (keys s)"

definition tids :: "'a Heap4_scheme \<Rightarrow> u32 set" where
  "tids s = tid_at s ` {..<heap_len s}"

text \<open>Only heap positions change, and only those of the given threads.\<close>

definition frame :: "u32 set \<Rightarrow> HeapState \<Rightarrow> HeapState \<Rightarrow> bool" where
  "frame X s s' \<longleftrightarrow> (\<forall>t. t \<notin> X \<longrightarrow> threads s' t = threads s t) \<and>
     (\<forall>t. (threads s' t)\<lparr>eevdf_heap_pos := 0\<rparr> = (threads s t)\<lparr>eevdf_heap_pos := 0\<rparr>)"

definition rearranged :: "HeapState \<Rightarrow> HeapState \<Rightarrow> bool" where
  "rearranged s s' \<longleftrightarrow> heap_len s' = heap_len s \<and> scan_start s' = scan_start s \<and>
     length (entries s') = length (entries s) \<and> elems s' = elems s \<and> frame (tids s) s s'"

lemma elems_take: "heap_len s \<le> length (entries s) \<Longrightarrow> elems s = image_mset (\<lambda>e. (etid e, ekey e)) (mset (take (heap_len s) (entries s)))"
proof -
  assume "heap_len s \<le> length (entries s)"
  then have "for_each_entry s = map (\<lambda>e. (etid e, ekey e)) (take (heap_len s) (entries s))"
    by (intro nth_equalityI) (simp_all add: for_each_entry_def)
  then show ?thesis by (simp add: elems_def)
qed

lemma tids_elems: "tids s = fst ` set_mset (elems s)"
  by (simp add: tids_def elems_def for_each_entry_def image_image lessThan_atLeast0)

lemma size_elems: "size (elems s) = heap_len s"
  by (simp add: elems_def for_each_entry_def)

lemma elems_mem: "i < heap_len s \<Longrightarrow> (tid_at s i, keys s i) \<in># elems s"
  by (simp add: elems_def for_each_entry_def)

lemma frame_refl: "frame X s s"
  by (simp add: frame_def)

lemma frame_trans: "frame X s s' \<Longrightarrow> frame X s' s'' \<Longrightarrow> frame X s s''"
  by (simp add: frame_def)

lemma frame_mono: "frame X s s' \<Longrightarrow> X \<subseteq> Y \<Longrightarrow> frame Y s s'"
  by (auto simp: frame_def)

lemma frame_set_pos: "t \<in> X \<Longrightarrow> frame X s (set_heap_pos t p s)"
  by (auto simp: frame_def set_heap_pos_def)

lemma rearranged_refl: "rearranged s s"
  by (simp add: rearranged_def frame_refl)

lemma rearranged_trans: "rearranged s s' \<Longrightarrow> rearranged s' s'' \<Longrightarrow> rearranged s s''"
  unfolding rearranged_def by (metis frame_trans tids_elems)

lemma set_pos_simps [simp]:
  "entries (set_heap_pos t p s) = entries s" "heap_len (set_heap_pos t p s) = heap_len s"
  "scan_start (set_heap_pos t p s) = scan_start s"
  "threads (set_heap_pos t p s) = (threads s)(t := (threads s t)\<lparr>eevdf_heap_pos := p\<rparr>)"
  by (simp_all add: set_heap_pos_def)

lemma swap_simps [simp]:
  "entries (heap_swap a b s) = (entries s)[a := entries s ! b, b := entries s ! a]"
  "heap_len (heap_swap a b s) = heap_len s" "scan_start (heap_swap a b s) = scan_start s"
  by (simp_all add: heap_swap_def Let_def)

lemma swap_nth: "a < length xs \<Longrightarrow> b < length xs \<Longrightarrow> (\<lambda>i. f (xs[a := xs ! b, b := xs ! a] ! i)) = exch a b (\<lambda>i. f (xs ! i))"
  by (auto simp: exch_def nth_list_update fun_eq_iff)

lemma swap_rearranged:
  assumes "wf_heap s" "a < heap_len s" "b < heap_len s"
  shows "rearranged s (heap_swap a b s)"
proof -
  let ?s1 = "s\<lparr>entries := (entries s)[a := entries s ! b, b := entries s ! a]\<rparr>"
  have len: "heap_len s \<le> length (entries s)" "a < length (entries s)" "b < length (entries s)"
    using assms by (auto simp: wf_heap_def)
  have "mset (take (heap_len s) (entries (heap_swap a b s))) = mset (take (heap_len s) (entries s))"
    using assms(2,3) len mset_swap [of b "take (heap_len s) (entries s)" a] by (simp add: take_update_swap)
  then have el: "elems (heap_swap a b s) = elems s" using len by (simp add: elems_take)
  have "tid_at s a \<in> tids s" "tid_at s b \<in> tids s" using assms(2,3) by (auto simp: tids_def)
  moreover have "etid (entries ?s1 ! a) = tid_at s b" "etid (entries ?s1 ! b) = tid_at s a"
    using len by (auto simp: nth_list_update)
  ultimately have "frame (tids s) ?s1 (heap_swap a b s)"
    unfolding heap_swap_def Let_def by (auto intro!: frame_trans [OF frame_set_pos frame_set_pos])
  then have "frame (tids s) s (heap_swap a b s)" by (simp add: frame_def)
  then show ?thesis using el by (simp add: rearranged_def)
qed

lemma rearranged_wf: "rearranged s s' \<Longrightarrow> wf_heap s \<Longrightarrow> wf_heap s'"
  by (simp add: rearranged_def wf_heap_def)

lemma swap_indexed:
  assumes "wf_heap s" "indexed s" "a < heap_len s" "b < heap_len s"
  shows "indexed (heap_swap a b s)"
proof -
  let ?s = "heap_swap a b s"
  have len: "a < length (entries s)" "b < length (entries s)" using assms by (auto simp: wf_heap_def)
  have inj: "tid_at s i = tid_at s j \<longleftrightarrow> i = j" if "i < heap_len s" "j < heap_len s" for i j
    using assms(2) that by (auto simp: indexed_def inj_on_def)
  have tid: "tid_at ?s = exch a b (tid_at s)" using swap_nth [OF len] by simp
  have th: "threads ?s t = (if t = tid_at s a then (threads s t)\<lparr>eevdf_heap_pos := of_nat b\<rparr>
              else if t = tid_at s b then (threads s t)\<lparr>eevdf_heap_pos := of_nat a\<rparr> else threads s t)" for t
    using len by (auto simp: heap_swap_def Let_def nth_list_update)
  have "inj_on (tid_at ?s) {..<heap_len s}"
    unfolding tid using inj assms(3,4) by (auto simp: inj_on_def exch_def split: if_splits)
  moreover have "eevdf_heap_pos (threads ?s (tid_at ?s i)) = of_nat i" if "i < heap_len s" for i
    using fun_cong [OF tid, of i] inj that assms(2-4) by (auto simp: th exch_def indexed_def)
  ultimately show ?thesis by (simp add: indexed_def del: swap_simps(1))
qed

section \<open>The sift loops\<close>

lemma sift_up_correct:
  assumes "wf_heap s" "indexed s" "pos < heap_len s" "ordered_up (heap_len s) (keys s) pos"
  shows "rearranged s (sift_up pos s) \<and> indexed (sift_up pos s) \<and> ordered (heap_len s) (keys (sift_up pos s))"
  using assms
proof (induction pos s rule: sift_up.induct)
  case (1 pos s)
  let ?par = "heap_parent pos"
  show ?case
  proof (cases "0 < pos \<and> keys s pos < keys s ?par")
    case True
    let ?t = "heap_swap pos ?par s"
    have par: "?par < heap_len s" using True heap_parent_less [of pos] 1(4) by simp
    then have len: "pos < length (entries s)" "?par < length (entries s)" using 1(2,4) by (auto simp: wf_heap_def)
    have r: "rearranged s ?t" using swap_rearranged [OF 1(2) 1(4) par] .
    have k: "keys ?t = exch pos ?par (keys s)" using swap_nth [OF len, of ekey] by simp
    have "rearranged ?t (sift_up ?par ?t) \<and> indexed (sift_up ?par ?t) \<and> ordered (heap_len ?t) (keys (sift_up ?par ?t))"
    proof (rule 1(1))
      show "wf_heap ?t" using rearranged_wf r 1(2) by blast
      show "indexed ?t" using swap_indexed 1 par by blast
      show "ordered_up (heap_len ?t) (keys ?t) ?par"
        unfolding k swap_simps(2) using ordered_up_step 1(4,5) True by blast
    qed (use True par in simp_all)
    moreover have "sift_up pos s = sift_up ?par ?t" using True by (subst sift_up.simps) (simp add: Let_def)
    ultimately show ?thesis using rearranged_trans [OF r] by simp
  next
    case False
    then have "sift_up pos s = s" by (subst sift_up.simps) (auto simp: Let_def)
    moreover have "ordered (heap_len s) (keys s)" using ordered_up_stop [OF 1(5)] False by auto
    ultimately show ?thesis using 1(3) by (simp add: rearranged_refl)
  qed
qed

lemma sift_down_correct:
  assumes "wf_heap s" "indexed s" "pos < heap_len s" "ordered_down (heap_len s) (keys s) pos"
  shows "rearranged s (sift_down pos s) \<and> indexed (sift_down pos s) \<and> ordered (heap_len s) (keys (sift_down pos s))"
  using assms
proof (induction pos s rule: sift_down.induct)
  case (1 pos s)
  let ?n = "heap_len s" and ?f = "D * pos + 1"
  let ?l = "min (?f + D) ?n"
  obtain c k where ck: "min_child_scan (entries s) ?f ?l = (c, k)" by fastforce
  have stop: ?case if "sift_down pos s = s" "\<And>i. 0 < i \<Longrightarrow> i < ?n \<Longrightarrow> heap_parent i = pos \<Longrightarrow> keys s pos \<le> keys s i"
    unfolding that(1) using ordered_down_stop [OF 1(5) that(2)] 1(3) rearranged_refl by blast
  show ?case
  proof (cases "?n \<le> ?f")
    case True
    then have "sift_down pos s = s" by (subst sift_down.simps) (simp add: Let_def)
    moreover have "\<not> (0 < i \<and> i < ?n \<and> heap_parent i = pos)" for i using True child_iff [of i pos] by auto
    ultimately show ?thesis using stop by blast
  next
    case leaf: False
    then have "?f < ?l" by (simp add: D_def)
    note scan = min_child_scan_spec [OF ck this]
    have c: "0 < c" "c < ?n" "heap_parent c = pos" using scan(1,2) child_iff [of c pos] by auto
    have least: "k \<le> keys s i" if "0 < i" "i < ?n" "heap_parent i = pos" for i
      using scan(4) [of i] that child_iff [of i pos] by auto
    show ?thesis
    proof (cases "k < keys s pos")
      case True
      let ?t = "heap_swap pos c s"
      have len: "pos < length (entries s)" "c < length (entries s)" using c 1(2,4) by (auto simp: wf_heap_def)
      have r: "rearranged s ?t" using swap_rearranged [OF 1(2) 1(4) c(2)] .
      have kt: "keys ?t = exch pos c (keys s)" using swap_nth [OF len, of ekey] by simp
      have "rearranged ?t (sift_down c ?t) \<and> indexed (sift_down c ?t) \<and> ordered (heap_len ?t) (keys (sift_down c ?t))"
      proof (rule 1(1) [OF refl refl _ refl ck [symmetric] refl])
        show "wf_heap ?t" using rearranged_wf r 1(2) by blast
        show "indexed ?t" using swap_indexed 1 c by blast
        show "ordered_down (heap_len ?t) (keys ?t) c"
          unfolding kt swap_simps(2) using 1(5) c True least scan(3) by (intro ordered_down_step) auto
      qed (use True leaf c in simp_all)
      moreover have "sift_down pos s = sift_down c ?t" using True leaf ck by (subst sift_down.simps) (simp add: Let_def)
      ultimately show ?thesis using rearranged_trans [OF r] by simp
    next
      case False
      then have "sift_down pos s = s" using leaf ck by (subst sift_down.simps) (simp add: Let_def)
      then show ?thesis using False least order.trans [of "keys s pos" k] by (intro stop) auto
    qed
  qed
qed

section \<open>Replacing one key\<close>

lemma ordered_replace_down:
  assumes "ordered n k" "m \<le> n" "p < m" "0 < p \<Longrightarrow> k (heap_parent p) \<le> x"
  shows "ordered_down m (k(p := x)) p"
proof -
  have o: "k (heap_parent i) \<le> k i" if "0 < i" "i < m" for i using assms(1,2) that by (auto simp: ordered_def)
  have "(k(p := x)) (heap_parent i) \<le> (k(p := x)) i" if "0 < i" "i < m" "heap_parent i \<noteq> p" for i
    using o [of i] that assms(4) by auto
  moreover have "(k(p := x)) (heap_parent p) \<le> (k(p := x)) i" if "0 < i" "i < m" "heap_parent i = p" "0 < p" for i
    using o [of i] o [of p] that assms(3) heap_parent_less [of i] heap_parent_less [of p] by auto
  ultimately show ?thesis by (simp add: ordered_down_def)
qed

lemma ordered_replace_up:
  assumes "ordered n k" "m \<le> n" "p < m" "x \<le> k p"
  shows "ordered_up m (k(p := x)) p"
proof -
  have o: "k (heap_parent i) \<le> k i" if "0 < i" "i < m" for i using assms(1,2) that by (auto simp: ordered_def)
  have "(k(p := x)) (heap_parent i) \<le> (k(p := x)) i" if "0 < i" "i < m" "i \<noteq> p" for i
    using o [of i] that assms(4) by auto
  moreover have "(k(p := x)) (heap_parent p) \<le> (k(p := x)) i" if "0 < i" "i < m" "heap_parent i = p" "0 < p" for i
    using o [of i] o [of p] that assms(3) heap_parent_less [of i] heap_parent_less [of p] by auto
  ultimately show ?thesis by (simp add: ordered_up_def)
qed

definition put_key :: "nat \<Rightarrow> u64 \<Rightarrow> HeapState \<Rightarrow> HeapState" where
  "put_key p x s = s\<lparr>entries := (entries s)[p := (entries s ! p)\<lparr>ekey := x\<rparr>]\<rparr>"

lemma put_key:
  assumes "heap_inv s" "p < heap_len s"
  shows "wf_heap (put_key p x s)" "indexed (put_key p x s)" "heap_len (put_key p x s) = heap_len s"
    "scan_start (put_key p x s) = scan_start s" "threads (put_key p x s) = threads s"
    "keys (put_key p x s) = (keys s)(p := x)" "tids (put_key p x s) = tids s"
    "elems (put_key p x s) = add_mset (tid_at s p, x) (elems s - {#(tid_at s p, keys s p)#})"
proof -
  have len: "p < length (entries s)" "heap_len s \<le> length (entries s)" using assms by (auto simp: heap_inv_def wf_heap_def)
  have tid: "tid_at (put_key p x s) = tid_at s" using len by (auto simp: put_key_def fun_eq_iff nth_list_update)
  show simps: "heap_len (put_key p x s) = heap_len s" "scan_start (put_key p x s) = scan_start s" "threads (put_key p x s) = threads s"
    by (simp_all add: put_key_def)
  show "wf_heap (put_key p x s)" using assms by (simp add: heap_inv_def wf_heap_def put_key_def)
  show "tids (put_key p x s) = tids s" "indexed (put_key p x s)"
    using assms(1) fun_cong [OF tid] unfolding heap_inv_def indexed_def tids_def tid simps by auto
  show "keys (put_key p x s) = (keys s)(p := x)" using len by (auto simp: put_key_def fun_eq_iff nth_list_update)
  have "mset (take (heap_len s) (entries (put_key p x s))) =
      add_mset ((entries s ! p)\<lparr>ekey := x\<rparr>) (mset (take (heap_len s) (entries s)) - {#entries s ! p#})"
    using assms(2) len by (simp add: put_key_def take_update_swap mset_update)
  moreover have "entries s ! p \<in># mset (take (heap_len s) (entries s))"
    using assms(2) len by (auto simp: in_set_conv_nth intro!: exI [of _ p])
  moreover have "heap_len (put_key p x s) \<le> length (entries (put_key p x s))" using len by (simp add: put_key_def)
  ultimately show "elems (put_key p x s) = add_mset (tid_at s p, x) (elems s - {#(tid_at s p, keys s p)#})"
    using len by (simp add: elems_take simps image_mset_Diff)
qed

section \<open>Taking one entry out\<close>

definition gap :: "nat \<Rightarrow> HeapState \<Rightarrow> HeapState" where
  "gap p s =
     (let n = heap_len s - 1; s2 = (set_heap_pos (tid_at s p) HEAP_POS_NONE s)\<lparr>heap_len := n\<rparr>
      in if p < n then set_heap_pos (tid_at s n) (of_nat p) (s2\<lparr>entries := (entries s)[p := entries s ! n]\<rparr>) else s2)"

lemma mset_gap:
  assumes "p < n" "n \<le> length xs"
  shows "mset (take n xs) = add_mset (xs ! p) (mset (take (n - 1) (xs[p := xs ! (n - 1)])))"
proof -
  obtain m where m: "n = Suc m" using assms by (cases n) auto
  then have t: "take n xs = take m xs @ [xs ! m]" using assms by (simp add: take_Suc_conv_app_nth)
  show ?thesis
  proof (cases "p = m")
    case True
    then show ?thesis using t m by simp
  next
    case False
    then have "p < m" using assms m by simp
    moreover have "xs ! p \<in># mset (take m xs)" using \<open>p < m\<close> assms m by (auto simp: in_set_conv_nth intro!: exI [of _ p])
    ultimately show ?thesis using t m assms by (simp add: take_update_swap mset_update insert_DiffM add_mset_commute)
  qed
qed

lemma gap_simps:
  "heap_len (gap p s) = heap_len s - 1" "scan_start (gap p s) = scan_start s"
  "entries (gap p s) = (if p < heap_len s - 1 then (entries s)[p := entries s ! (heap_len s - 1)] else entries s)"
  by (simp_all add: gap_def Let_def)

lemma gap:
  assumes "heap_inv s" "p < heap_len s"
  shows "wf_heap (gap p s)" "indexed (gap p s)" "frame (tids s) s (gap p s)"
    "elems s = add_mset (tid_at s p, keys s p) (elems (gap p s))"
    "eevdf_heap_pos (threads (gap p s) (tid_at s p)) = HEAP_POS_NONE"
    "tid_at s p \<notin> tids (gap p s)"
    "\<And>i. i < heap_len s - 1 \<Longrightarrow> entries (gap p s) ! i = entries s ! (if i = p then heap_len s - 1 else i)"
proof -
  let ?n = "heap_len s - 1"
  have len: "p < length (entries s)" "heap_len s \<le> length (entries s)" "?n < heap_len s" "p \<le> ?n"
    using assms by (auto simp: heap_inv_def wf_heap_def)
  have inj: "tid_at s i = tid_at s j \<longleftrightarrow> i = j" if "i < heap_len s" "j < heap_len s" for i j
    using assms(1) that by (auto simp: heap_inv_def indexed_def inj_on_def)
  show ent: "entries (gap p s) ! i = entries s ! (if i = p then ?n else i)" if "i < ?n" for i
    using that len by (auto simp: gap_simps)
  have th: "threads (gap p s) t = (if t = tid_at s p then (threads s t)\<lparr>eevdf_heap_pos := HEAP_POS_NONE\<rparr>
      else if t = tid_at s ?n then (threads s t)\<lparr>eevdf_heap_pos := of_nat p\<rparr> else threads s t)" for t
    using inj [of p ?n] assms(2) len by (auto simp: gap_def Let_def)
  show "eevdf_heap_pos (threads (gap p s) (tid_at s p)) = HEAP_POS_NONE" by (simp add: th)
  show "wf_heap (gap p s)" using assms by (auto simp: heap_inv_def wf_heap_def gap_simps)
  show "frame (tids s) s (gap p s)" using assms(2) len unfolding frame_def by (auto simp: th tids_def)
  show "tid_at s p \<notin> tids (gap p s)"
    using inj assms(2) len by (auto simp: tids_def gap_simps(1) ent split: if_splits)
  have "inj_on (tid_at (gap p s)) {..<?n}"
    using inj assms(2) len by (auto simp: inj_on_def ent split: if_splits)
  moreover have "eevdf_heap_pos (threads (gap p s) (tid_at (gap p s) i)) = of_nat i" if "i < ?n" for i
    using inj [of p] inj [of i ?n] inj [of ?n] inj [of i p] that assms len
    by (auto simp: th ent heap_inv_def indexed_def)
  ultimately show "indexed (gap p s)" by (simp add: indexed_def gap_simps(1))
  have "entries s ! p = (entries s ! p)" and "take ?n (entries (gap p s)) = take ?n ((entries s)[p := entries s ! ?n])"
    using len by (simp_all add: gap_simps)
  then show "elems s = add_mset (tid_at s p, keys s p) (elems (gap p s))"
    using mset_gap [OF assms(2) len(2)] len by (simp add: elems_take gap_simps)
qed

lemma gap_order:
  assumes "heap_inv s" "p < heap_len s - 1"
  shows "(0 < p \<Longrightarrow> keys (gap p s) (heap_parent p) \<le> keys (gap p s) p) \<Longrightarrow> ordered_down (heap_len s - 1) (keys (gap p s)) p"
    and "0 < p \<Longrightarrow> keys (gap p s) p < keys (gap p s) (heap_parent p) \<Longrightarrow> ordered_up (heap_len s - 1) (keys (gap p s)) p"
proof -
  let ?n = "heap_len s - 1" and ?x = "keys s (heap_len s - 1)"
  have len: "p < length (entries s)" using assms by (auto simp: heap_inv_def wf_heap_def)
  have k: "keys (gap p s) = (keys s)(p := ?x)" using assms(2) len by (auto simp: gap_simps fun_eq_iff nth_list_update)
  have kv: "keys (gap p s) i = (if i = p then ?x else keys s i)" for i using fun_cong [OF k, of i] by simp
  have o: "ordered (heap_len s) (keys s)" using assms by (simp add: heap_inv_def)
  have par: "heap_parent p \<noteq> p" if "0 < p" using heap_parent_less [OF that] by simp
  show "ordered_down ?n (keys (gap p s)) p" if "0 < p \<Longrightarrow> keys (gap p s) (heap_parent p) \<le> keys (gap p s) p"
    unfolding k using o assms(2) that par kv by (intro ordered_replace_down) auto
  show "ordered_up ?n (keys (gap p s)) p" if "0 < p" "keys (gap p s) p < keys (gap p s) (heap_parent p)"
  proof -
    have "?x < keys s (heap_parent p)" using that par by (simp add: kv)
    also have "\<dots> \<le> keys s p" using o assms(2) that(1) by (auto simp: ordered_def)
    finally show ?thesis unfolding k using o assms(2) by (intro ordered_replace_up) auto
  qed
qed

text \<open>The outcome common to all removals of the entry at a position.\<close>

definition taken :: "nat \<Rightarrow> HeapState \<Rightarrow> HeapState \<Rightarrow> bool" where
  "taken p s s' \<longleftrightarrow> heap_inv s' \<and> elems s = add_mset (tid_at s p, keys s p) (elems s') \<and> frame (tids s) s s' \<and>
     eevdf_heap_pos (threads s' (tid_at s p)) = HEAP_POS_NONE \<and> scan_start s' = scan_start s"

lemma taken_gap:
  assumes "heap_inv s" "p < heap_len s" "rearranged (gap p s) s'" "indexed s'" "ordered (heap_len s - 1) (keys s')"
  shows "taken p s s'"
proof -
  note g = gap [OF assms(1,2)]
  have fr: "frame (tids (gap p s)) (gap p s) s'" and el: "elems s' = elems (gap p s)"
    and simps: "heap_len s' = heap_len s - 1" "scan_start s' = scan_start s"
    using assms(3) by (simp_all add: rearranged_def gap_simps)
  have "tids (gap p s) \<subseteq> tids s" unfolding tids_elems g(4) by auto
  then have "frame (tids s) s s'" using frame_trans [OF g(3)] frame_mono [OF fr] by blast
  moreover have "threads s' (tid_at s p) = threads (gap p s) (tid_at s p)" using fr g(6) by (simp add: frame_def)
  moreover have "heap_inv s'" using rearranged_wf [OF assms(3) g(1)] assms(4,5) simps by (simp add: heap_inv_def)
  ultimately show ?thesis using g(4,5) el simps by (simp add: taken_def)
qed

lemma remove_at_taken:
  assumes "heap_inv s" "p < heap_len s"
  shows "\<exists>s'. remove_at p s = Some ((tid_at s p, keys s p), s') \<and> taken p s s'"
proof -
  let ?n = "heap_len s - 1"
  note g = gap [OF assms]
  define s' where "s' = (if p < ?n then if p > 0 \<and> keys (gap p s) p < keys (gap p s) (heap_parent p)
      then sift_up p (gap p s) else sift_down p (gap p s) else gap p s)"
  have len: "p < length (entries s)" using assms by (auto simp: heap_inv_def wf_heap_def)
  then have "remove_at p s = Some ((tid_at s p, keys s p), s')"
    using assms(2) by (cases "p = 0") (simp_all add: remove_at_def s'_def gap_def Let_def)
  moreover have "rearranged (gap p s) s' \<and> indexed s' \<and> ordered ?n (keys s')"
  proof (cases "p < ?n")
    case True
    then show ?thesis
      using sift_up_correct [OF g(1,2), of p] sift_down_correct [OF g(1,2), of p] gap_order [OF assms(1) True]
      unfolding s'_def gap_simps(1) by (auto simp: not_less)
  next
    case False
    then have "s' = gap p s" "keys s' = keys s" by (simp_all add: s'_def gap_simps)
    moreover have "ordered ?n (keys s)" using assms(1) by (auto simp: heap_inv_def ordered_def)
    ultimately show ?thesis using g(2) by (simp add: rearranged_refl)
  qed
  ultimately show ?thesis using taken_gap [OF assms] by blast
qed

lemma pop_min_remove: "0 < heap_len s \<Longrightarrow> length (entries s) = HEAP_CAP \<Longrightarrow>
  remove_at 0 s = (case pop_min s of (Some x, s') \<Rightarrow> Some (x, s') | (None, s') \<Rightarrow> None)"
  by (simp add: remove_at_def pop_min_def Let_def)

lemma pop_min_taken:
  assumes "heap_inv s" "0 < heap_len s"
  shows "\<exists>s'. pop_min s = (Some (tid_at s 0, keys s 0), s') \<and> taken 0 s s'"
proof -
  have "length (entries s) = HEAP_CAP" using assms(1) by (simp add: heap_inv_def wf_heap_def)
  then show ?thesis
    using remove_at_taken [OF assms] pop_min_remove [OF assms(2)] by (cases "pop_min s") (auto split: option.splits)
qed

section \<open>Insertion and key changes\<close>

lemma insert_thread_correct:
  assumes "heap_inv s" "tid \<notin> tids s" "heap_len s < HEAP_CAP"
  shows "\<exists>s'. insert_thread tid key s = (True, s') \<and> heap_inv s' \<and> elems s' = add_mset (tid, key) (elems s) \<and>
    frame (insert tid (tids s)) s s' \<and> scan_start s' = scan_start s"
proof -
  let ?n = "heap_len s"
  define s2 where "s2 = set_heap_pos tid (of_nat ?n)
    (s\<lparr>entries := (entries s)[?n := \<lparr>ekey = key, etid = tid\<rparr>], heap_len := ?n + 1\<rparr>)"
  have wf: "wf_heap s" "indexed s" "ordered ?n (keys s)" using assms(1) by (auto simp: heap_inv_def)
  have len: "?n < length (entries s)" using wf(1) assms(3) by (simp add: wf_heap_def)
  have simps: "heap_len s2 = ?n + 1" "scan_start s2 = scan_start s" by (simp_all add: s2_def)
  have ent: "entries s2 ! i = (if i = ?n then \<lparr>ekey = key, etid = tid\<rparr> else entries s ! i)" for i
    using len by (simp add: s2_def)
  have th: "threads s2 t = (if t = tid then (threads s t)\<lparr>eevdf_heap_pos := of_nat ?n\<rparr> else threads s t)" for t
    by (simp add: s2_def)
  have new: "tid_at s i \<noteq> tid" if "i < ?n" for i using assms(2) that by (auto simp: tids_def)
  have wf2: "wf_heap s2" using wf(1) assms(3) by (simp add: wf_heap_def s2_def)
  have ind2: "indexed s2"
    unfolding indexed_def simps
  proof
    show "inj_on (tid_at s2) {..<?n + 1}"
      using wf(2) new new [symmetric] by (auto simp: inj_on_def indexed_def ent)
    show "\<forall>i<?n + 1. eevdf_heap_pos (threads s2 (tid_at s2 i)) = of_nat i"
      using wf(2) new by (auto simp: indexed_def ent th less_Suc_eq)
  qed
  have par: "heap_parent i \<noteq> ?n" if "0 < i" "i < ?n + 1" for i using heap_parent_less [OF that(1)] that by simp
  have up2: "ordered_up (heap_len s2) (keys s2) ?n"
    using wf(3) par unfolding ordered_up_def ordered_def simps by (simp add: ent)
  note sift = sift_up_correct [OF wf2 ind2 _ up2]
  have "take (?n + 1) (entries s2) = take ?n (entries s) @ [\<lparr>ekey = key, etid = tid\<rparr>]"
    using len by (simp add: s2_def take_Suc_conv_app_nth)
  then have el: "elems s2 = add_mset (tid, key) (elems s)"
    using len wf2 by (simp add: elems_take simps wf_heap_def)
  then have tids2: "tids s2 = insert tid (tids s)" by (simp add: tids_elems)
  have "frame (tids s2) s s2" using tids2 by (auto simp: frame_def th)
  then have "frame (tids s2) s (sift_up ?n s2)"
    using sift simps frame_trans by (auto simp: rearranged_def)
  moreover have "insert_thread tid key s = (True, sift_up ?n s2)"
    using assms(3) by (simp add: insert_thread_def s2_def Let_def)
  moreover have "heap_inv (sift_up ?n s2)"
    using sift simps rearranged_wf [OF _ wf2] by (auto simp: heap_inv_def rearranged_def)
  ultimately show ?thesis using sift simps el tids2 by (auto simp: rearranged_def)
qed

text \<open>The outcome of giving the entry at a position a new key.\<close>

definition rekeyed :: "nat \<Rightarrow> u64 \<Rightarrow> HeapState \<Rightarrow> HeapState \<Rightarrow> bool" where
  "rekeyed p x s s' \<longleftrightarrow> heap_inv s' \<and> elems s' = add_mset (tid_at s p, x) (elems s - {#(tid_at s p, keys s p)#}) \<and>
     frame (tids s) s s' \<and> scan_start s' = scan_start s"

lemma rekeyedI:
  assumes "heap_inv s" "p < heap_len s" "rearranged (put_key p x s) s'" "indexed s'" "ordered (heap_len s) (keys s')"
  shows "rekeyed p x s s'"
proof -
  note k = put_key [OF assms(1,2), of x]
  have r: "frame (tids s) (put_key p x s) s'" "heap_len s' = heap_len s" "scan_start s' = scan_start s"
    "elems s' = elems (put_key p x s)"
    using assms(3) k by (simp_all add: rearranged_def)
  have "frame (tids s) s (put_key p x s)" using k(5) by (simp add: frame_def)
  then have "frame (tids s) s s'" using r(1) by (rule frame_trans)
  moreover have "heap_inv s'" using rearranged_wf [OF assms(3) k(1)] assms(4,5) r(2) by (simp add: heap_inv_def)
  ultimately show ?thesis using r k(8) by (simp add: rekeyed_def)
qed

lemma lower_key:
  assumes "heap_inv s" "p < heap_len s" "x \<le> keys s p"
  shows "rekeyed p x s (sift_up p (put_key p x s))"
proof -
  note k = put_key [OF assms(1,2), of x]
  have "ordered_up (heap_len s) ((keys s)(p := x)) p"
    using assms by (intro ordered_replace_up [where n = "heap_len s"]) (auto simp: heap_inv_def)
  then show ?thesis
    using sift_up_correct [of "put_key p x s" p] k(1-3,6) assms(2) by (intro rekeyedI [OF assms(1,2)]) simp_all
qed

lemma raise_key:
  assumes "heap_inv s" "p < heap_len s" "keys s p \<le> x"
  shows "rekeyed p x s (sift_down p (put_key p x s))"
proof -
  note k = put_key [OF assms(1,2), of x]
  have "keys s (heap_parent p) \<le> x" if "0 < p"
  proof -
    have "keys s (heap_parent p) \<le> keys s p" using assms(1,2) that by (auto simp: heap_inv_def ordered_def)
    then show ?thesis using assms(3) by (rule order.trans)
  qed
  then have "ordered_down (heap_len s) ((keys s)(p := x)) p"
    using assms by (intro ordered_replace_down [where n = "heap_len s"]) (auto simp: heap_inv_def)
  then show ?thesis
    using sift_down_correct [of "put_key p x s" p] k(1-3,6) assms(2) by (intro rekeyedI [OF assms(1,2)]) simp_all
qed

lemma decrease_key_correct:
  assumes "heap_inv s" "p < heap_len s" "x \<le> keys s p"
  shows "\<exists>s'. decrease_key p x s = Some s' \<and> rekeyed p x s s'"
  using lower_key [OF assms] assms(2) by (simp add: decrease_key_def put_key_def)

lemma update_key_correct:
  assumes "heap_inv s" "p < heap_len s"
  shows "\<exists>s'. update_key p x s = Some (keys s p, s') \<and> rekeyed p x s s'"
proof (cases x "keys s p" rule: linorder_cases)
  case less
  then show ?thesis using lower_key [OF assms, of x] assms(2) by (simp add: update_key_def put_key_def Let_def)
next
  case equal
  have "put_key p (keys s p) s = s" by (simp add: put_key_def)
  then have "rekeyed p x s s" using rekeyedI [OF assms, of x s] assms(1) equal by (simp add: heap_inv_def rearranged_refl)
  moreover have "update_key p x s = Some (keys s p, s)"
    using equal assms(2) by (simp add: update_key_def Let_def)
  ultimately show ?thesis by blast
next
  case greater
  then have "\<not> x < keys s p" by simp
  then show ?thesis
    using greater raise_key [OF assms, of x] assms(2) by (simp add: update_key_def put_key_def Let_def)
qed

section \<open>The rotating scan\<close>

lemma scan_best_spec:
  fixes es :: "HeapEntry list" and n start :: nat
  assumes "0 < n"
  defines "at \<equiv> \<lambda>k. (start + k) mod n"
  shows "case scan_best ok es n start of
      None \<Rightarrow> \<forall>k<n. ok (etid (es ! at k)) \<longrightarrow> ekey (es ! at k) = - 1
    | Some p \<Rightarrow> \<exists>k<n. p = at k \<and> ok (etid (es ! p)) \<and> ekey (es ! p) < - 1 \<and>
        (\<forall>j<n. ok (etid (es ! at j)) \<longrightarrow> ekey (es ! p) \<le> ekey (es ! at j)) \<and>
        (\<forall>j<k. ok (etid (es ! at j)) \<longrightarrow> ekey (es ! p) < ekey (es ! at j))"
proof -
  let ?f = "\<lambda>k (bp, bk). let i = at k; e = es ! i in if ok (etid e) \<and> ekey e < bk then (Some i, ekey e) else (bp, bk)"
  have sb: "scan_best ok es n start = fst (fold ?f [0..<n] (None, - 1))" by (simp add: scan_best_def at_def)
  have "case fold ?f [0..<m] (None, - 1) of
      (None, b) \<Rightarrow> b = - 1 \<and> (\<forall>k<m. ok (etid (es ! at k)) \<longrightarrow> ekey (es ! at k) = - 1)
    | (Some p, b) \<Rightarrow> \<exists>k<m. p = at k \<and> ok (etid (es ! p)) \<and> b = ekey (es ! p) \<and> b < - 1 \<and>
        (\<forall>j<m. ok (etid (es ! at j)) \<longrightarrow> b \<le> ekey (es ! at j)) \<and>
        (\<forall>j<k. ok (etid (es ! at j)) \<longrightarrow> b < ekey (es ! at j))" for m
  proof (induction m)
    case (Suc m)
    obtain bp bk where r: "fold ?f [0..<m] (None, - 1) = (bp, bk)" by fastforce
    have max: "x \<le> (- 1 :: u64)" for x by simp
    show ?case
    proof (cases bp)
      case None
      then have b: "bk = - 1" and all: "\<And>k. k < m \<Longrightarrow> ok (etid (es ! at k)) \<Longrightarrow> ekey (es ! at k) = - 1"
        using Suc r by auto
      show ?thesis
      proof (cases "ok (etid (es ! at m)) \<and> ekey (es ! at m) < - 1")
        case True
        then show ?thesis using r b all max by (auto simp: Let_def less_Suc_eq None intro!: exI [of _ m])
      next
        case False
        then have "ok (etid (es ! at m)) \<Longrightarrow> ekey (es ! at m) = - 1" using max by (metis order.not_eq_order_implies_strict)
        then show ?thesis using False r b all by (auto simp: Let_def less_Suc_eq None)
      qed
    next
      case (Some p)
      then obtain k where k: "k < m" "p = at k" "ok (etid (es ! p))" "bk = ekey (es ! p)" "bk < - 1"
        "\<And>j. j < m \<Longrightarrow> ok (etid (es ! at j)) \<Longrightarrow> bk \<le> ekey (es ! at j)"
        "\<And>j. j < k \<Longrightarrow> ok (etid (es ! at j)) \<Longrightarrow> bk < ekey (es ! at j)"
        using Suc r by auto
      show ?thesis
      proof (cases "ok (etid (es ! at m)) \<and> ekey (es ! at m) < bk")
        case True
        then have "ekey (es ! at m) < - 1" using k(5) by (meson order.strict_trans)
        moreover have "ekey (es ! at m) < ekey (es ! at j)" if "j < m" "ok (etid (es ! at j))" for j
          using k(6) [OF that] True by (meson order.strict_trans2)
        ultimately show ?thesis using True r Some by (auto simp: Let_def less_Suc_eq intro!: exI [of _ m] less_imp_le)
      next
        case False
        then have "bk \<le> ekey (es ! at j)" if "j < Suc m" "ok (etid (es ! at j))" for j
          using k(6) [of j] that by (auto simp: less_Suc_eq not_less)
        then show ?thesis using False r Some k by (auto simp: Let_def intro!: exI [of _ k])
      qed
    qed
  qed simp
  from this [of n] show ?thesis
    unfolding sb by (cases "fold ?f [0..<n] (None, - 1)") (auto split: option.splits)
qed

lemma scan_best_bound: "scan_best ok es n start = Some p \<Longrightarrow> 0 < n \<Longrightarrow> p < n"
  using scan_best_spec [of n ok es start] by auto

section \<open>The priority queue contract\<close>

locale priority_queue =
  fixes inv :: "'s \<Rightarrow> bool"
    and content :: "'s \<Rightarrow> ('t \<times> 'k::linorder) multiset"
    and cap :: nat
    and ins :: "'t \<Rightarrow> 'k \<Rightarrow> 's \<Rightarrow> bool \<times> 's"
    and pop :: "'s \<Rightarrow> ('t \<times> 'k) option \<times> 's"
  assumes ins_full: "inv s \<Longrightarrow> cap \<le> size (content s) \<Longrightarrow> ins t k s = (False, s)"
    and ins_room: "inv s \<Longrightarrow> t \<notin> fst ` set_mset (content s) \<Longrightarrow> size (content s) < cap \<Longrightarrow>
        \<exists>s'. ins t k s = (True, s') \<and> inv s' \<and> content s' = add_mset (t, k) (content s)"
    and pop_empty: "inv s \<Longrightarrow> content s = {#} \<Longrightarrow> pop s = (None, s)"
    and pop_least: "inv s \<Longrightarrow> content s \<noteq> {#} \<Longrightarrow>
        \<exists>t k s'. pop s = (Some (t, k), s') \<and> inv s' \<and> content s = add_mset (t, k) (content s') \<and>
          (\<forall>x\<in>#content s. k \<le> snd x)"
begin

fun pops :: "nat \<Rightarrow> 's \<Rightarrow> ('t \<times> 'k) list \<times> 's" where
  "pops 0 s = ([], s)"
| "pops (Suc n) s =
     (case pop s of
        (None, s') \<Rightarrow> ([], s')
      | (Some x, s') \<Rightarrow> (case pops n s' of (xs, s'') \<Rightarrow> (x # xs, s'')))"

fun ins_all :: "('t \<times> 'k) list \<Rightarrow> 's \<Rightarrow> 's" where
  "ins_all [] s = s"
| "ins_all ((t, k) # xs) s = ins_all xs (snd (ins t k s))"

lemma pops_sorted:
  assumes "inv s" "n = size (content s)"
  shows "\<exists>xs s'. pops n s = (xs, s') \<and> inv s' \<and> content s' = {#} \<and> mset xs = content s \<and> sorted (map snd xs)"
  using assms
proof (induction n arbitrary: s)
  case (Suc n)
  then have "content s \<noteq> {#}" by auto
  then obtain t k s' where p: "pop s = (Some (t, k), s')" "inv s'" "content s = add_mset (t, k) (content s')"
      "\<forall>x\<in>#content s. k \<le> snd x"
    using pop_least [OF Suc.prems(1)] by blast
  then have "n = size (content s')" using Suc.prems(2) by simp
  then obtain xs s'' where r: "pops n s' = (xs, s'')" "inv s''" "content s'' = {#}" "mset xs = content s'" "sorted (map snd xs)"
    using Suc.IH p(2) by blast
  have "\<forall>x\<in>set xs. k \<le> snd x" using p(3,4) r(4) by (metis set_mset_mset union_iff add_mset_add_single)
  then show ?case using p r by simp
qed simp

lemma ins_all_content:
  assumes "inv s" "distinct (map fst xs)" "\<forall>x\<in>set xs. fst x \<notin> fst ` set_mset (content s)" "size (content s) + length xs \<le> cap"
  shows "inv (ins_all xs s) \<and> content (ins_all xs s) = content s + mset xs"
  using assms
proof (induction xs arbitrary: s)
  case (Cons x xs)
  obtain t k where x: "x = (t, k)" by (cases x)
  then obtain s' where i: "ins t k s = (True, s')" "inv s'" "content s' = add_mset (t, k) (content s)"
    using ins_room [of s t k] Cons.prems by auto
  then have "inv (ins_all xs s') \<and> content (ins_all xs s') = content s' + mset xs"
    using Cons.prems x by (intro Cons.IH) auto
  then show ?case using i x by simp
qed simp

end

interpretation hq: priority_queue heap_inv elems HEAP_CAP insert_thread pop_min
proof
  fix s t k
  assume inv: "heap_inv s"
  show "HEAP_CAP \<le> size (elems s) \<Longrightarrow> insert_thread t k s = (False, s)" by (simp add: size_elems insert_thread_def)
  show "t \<notin> fst ` set_mset (elems s) \<Longrightarrow> size (elems s) < HEAP_CAP \<Longrightarrow>
      \<exists>s'. insert_thread t k s = (True, s') \<and> heap_inv s' \<and> elems s' = add_mset (t, k) (elems s)"
    using insert_thread_correct [OF inv, of t k] by (auto simp: size_elems tids_elems)
  show "elems s = {#} \<Longrightarrow> pop_min s = (None, s)" using size_elems [of s] by (simp add: pop_min_def)
  assume "elems s \<noteq> {#}"
  then have n: "0 < heap_len s" using size_elems [of s] by (cases "heap_len s") auto
  then obtain s' where s': "pop_min s = (Some (tid_at s 0, keys s 0), s')" "taken 0 s s'"
    using pop_min_taken [OF inv] by blast
  have "keys s 0 \<le> snd x" if "x \<in># elems s" for x
    using that ordered_root [of "heap_len s" "keys s"] inv
    by (auto simp: elems_def for_each_entry_def heap_inv_def)
  then show "\<exists>t k s'. pop_min s = (Some (t, k), s') \<and> heap_inv s' \<and> elems s = add_mset (t, k) (elems s') \<and>
      (\<forall>x\<in>#elems s. k \<le> snd x)"
    using s' unfolding taken_def by blast
qed

section \<open>Positions and picks\<close>

lemma pos_of_nat: "i < HEAP_CAP \<Longrightarrow> unat (of_nat i :: u16) = i"
  by (simp add: HEAP_CAP_def unat_of_nat)

lemma pos_not_none: "i < HEAP_CAP \<Longrightarrow> (of_nat i :: u16) \<noteq> HEAP_POS_NONE"
  using pos_of_nat [of i] by (auto simp: HEAP_CAP_def HEAP_POS_NONE_def)

lemma recorded_pos:
  assumes "heap_inv s" "t \<in> tids s"
  obtains i where "i < heap_len s" "tid_at s i = t" "unat (eevdf_heap_pos (threads s t)) = i"
    "eevdf_heap_pos (threads s t) \<noteq> HEAP_POS_NONE"
proof -
  obtain i where i: "i < heap_len s" "tid_at s i = t" using assms(2) by (auto simp: tids_def)
  then have "i < HEAP_CAP" "eevdf_heap_pos (threads s t) = of_nat i"
    using assms(1) by (auto simp: heap_inv_def wf_heap_def indexed_def)
  then show ?thesis using that i pos_of_nat pos_not_none by simp
qed

lemma taken_gone: "heap_inv s \<Longrightarrow> p < heap_len s \<Longrightarrow> taken p s s' \<Longrightarrow> tid_at s p \<notin> tids s'"
  using recorded_pos [of s' "tid_at s p"] by (auto simp: taken_def)

lemma heap_inv_scan [simp]: "heap_inv (s\<lparr>scan_start := x\<rparr>) = heap_inv s"
  by (simp add: heap_inv_def wf_heap_def indexed_def)

lemma elems_scan [simp]: "elems (s\<lparr>scan_start := x\<rparr>) = elems s" "tids (s\<lparr>scan_start := x\<rparr>) = tids s"
  by (simp_all add: elems_def for_each_entry_def tids_def)

lemma count_pick_simps [simp]:
  "entries (count_pick t s) = entries s" "heap_len (count_pick t s) = heap_len s" "scan_start (count_pick t s) = scan_start s"
  "elems (count_pick t s) = elems s" "tids (count_pick t s) = tids s"
  by (simp_all add: count_pick_def elems_def for_each_entry_def tids_def)

lemma count_pick_threads:
  "threads (count_pick t s) u =
     (if u = t then (threads s u)\<lparr>picked_count := picked_count (threads s u) + 1\<rparr> else threads s u)"
  by (simp add: count_pick_def)

lemma heap_inv_count_pick [simp]: "heap_inv (count_pick t s) = heap_inv s"
proof -
  have "indexed (count_pick t s) = indexed s" unfolding indexed_def count_pick_simps by (auto simp: count_pick_threads)
  then show ?thesis by (simp add: heap_inv_def wf_heap_def)
qed

lemma rotate_onto: "i < n \<Longrightarrow> start < n \<Longrightarrow> \<exists>k<n. (start + k) mod n = (i :: nat)"
  by (rule exI [of _ "(i + (n - start)) mod n"]) (simp add: mod_add_right_eq add.assoc [symmetric])

text \<open>A successful pick: the entry at one position leaves the heap and its thread's pick count grows.\<close>

definition picked :: "nat \<Rightarrow> HeapState \<Rightarrow> HeapState \<Rightarrow> bool" where
  "picked p s s' \<longleftrightarrow> heap_inv s' \<and> elems s = add_mset (tid_at s p, keys s p) (elems s') \<and>
     eevdf_heap_pos (threads s' (tid_at s p)) = HEAP_POS_NONE \<and>
     picked_count (threads s' (tid_at s p)) = picked_count (threads s (tid_at s p)) + 1 \<and>
     (\<forall>t. t \<noteq> tid_at s p \<longrightarrow> picked_count (threads s' t) = picked_count (threads s t)) \<and>
     (\<forall>t. eevdf_vruntime (threads s' t) = eevdf_vruntime (threads s t)) \<and>
     scan_start s' = scan_start s + 1"

lemma frame_fields:
  assumes "frame X s s'"
  shows "picked_count (threads s' t) = picked_count (threads s t)" "eevdf_vruntime (threads s' t) = eevdf_vruntime (threads s t)"
    "cosched_group (threads s' t) = cosched_group (threads s t)"
proof -
  have "(threads s' t)\<lparr>eevdf_heap_pos := 0\<rparr> = (threads s t)\<lparr>eevdf_heap_pos := 0\<rparr>" using assms by (simp add: frame_def)
  then show "picked_count (threads s' t) = picked_count (threads s t)" "eevdf_vruntime (threads s' t) = eevdf_vruntime (threads s t)"
    "cosched_group (threads s' t) = cosched_group (threads s t)"
    by (metis SchedThread.ext_inject SchedThread.surjective SchedThread.update_convs(1))+
qed

lemma picked_taken:
  assumes "taken p (s\<lparr>scan_start := scan_start s + 1\<rparr>) s'"
  shows "picked p s (count_pick (tid_at s p) s')"
proof -
  have "frame (tids s) (s\<lparr>scan_start := scan_start s + 1\<rparr>) s'" using assms by (simp add: taken_def)
  note f = frame_fields [OF this]
  show ?thesis using assms f unfolding taken_def picked_def by (simp add: count_pick_threads)
qed

lemma pick_eligible_picks:
  fixes s :: HeapState and maxv :: u64
  assumes "heap_inv s" "0 < heap_len s"
  defines "best \<equiv> scan_best (\<lambda>t. eevdf_vruntime (threads s t) \<le> maxv) (entries s) (heap_len s) (unat (scan_start s) mod heap_len s)"
  defines "p \<equiv> (case best of Some q \<Rightarrow> q | None \<Rightarrow> 0)"
  shows "p < heap_len s" "\<exists>s'. pick_eligible maxv s = Some (Some (tid_at s p, keys s p), s') \<and> picked p s s'"
proof -
  let ?s = "s\<lparr>scan_start := scan_start s + 1\<rparr>"
  show p: "p < heap_len s"
    using assms(2) scan_best_bound by (auto simp: p_def best_def split: option.splits)
  have inv: "heap_inv ?s" "p < heap_len ?s" "0 < heap_len ?s" using assms(1,2) p by simp_all
  show "\<exists>s'. pick_eligible maxv s = Some (Some (tid_at s p, keys s p), s') \<and> picked p s s'"
  proof (cases best)
    case None
    then have "p = 0" by (simp add: p_def)
    obtain s' where "pop_min ?s = (Some (tid_at s 0, keys s 0), s')" "taken 0 ?s s'"
      using pop_min_taken [OF inv(1,3)] by auto
    then show ?thesis
      using picked_taken [of 0 s s'] assms(2) None \<open>p = 0\<close> by (simp add: pick_eligible_def Let_def best_def [symmetric])
  next
    case (Some q)
    then have "p = q" by (simp add: p_def)
    obtain s' where "remove_at p ?s = Some ((tid_at s p, keys s p), s')" "taken p ?s s'"
      using remove_at_taken [OF inv(1,2)] by auto
    then show ?thesis
      using picked_taken [of p s s'] assms(2) Some \<open>p = q\<close> by (simp add: pick_eligible_def Let_def best_def [symmetric])
  qed
qed

lemma pop_for_group_picks:
  fixes s :: HeapState and grp :: u32 and maxv :: u64
  assumes "heap_inv s" "0 < heap_len s"
  defines "best \<equiv> scan_best (\<lambda>t. cosched_group (threads s t) = grp \<and> eevdf_vruntime (threads s t) \<le> maxv)
      (entries s) (heap_len s) (unat (scan_start s) mod heap_len s)"
  shows "best = None \<Longrightarrow> pop_for_group grp maxv s = Some (None, s\<lparr>scan_start := scan_start s + 1\<rparr>)"
    and "best = Some p \<Longrightarrow> \<exists>s'. pop_for_group grp maxv s = Some (Some (tid_at s p, keys s p), s') \<and> picked p s s'"
    and "best = Some p \<Longrightarrow> p < heap_len s"
proof -
  let ?s = "s\<lparr>scan_start := scan_start s + 1\<rparr>"
  show "best = None \<Longrightarrow> pop_for_group grp maxv s = Some (None, ?s)"
    using assms(2) by (simp add: pop_for_group_def Let_def best_def [symmetric])
  assume b: "best = Some p"
  then show p: "p < heap_len s"
    using assms(2) scan_best_bound by (auto simp: best_def)
  then obtain s' where "remove_at p ?s = Some ((tid_at s p, keys s p), s')" "taken p ?s s'"
    using remove_at_taken [of ?s p] assms(1) by auto
  then show "\<exists>s'. pop_for_group grp maxv s = Some (Some (tid_at s p, keys s p), s') \<and> picked p s s'"
    using picked_taken [of p s s'] assms(2) b by (simp add: pop_for_group_def Let_def best_def [symmetric])
qed

section \<open>Properties\<close>

abbreviation pos_of :: "HeapState \<Rightarrow> u32 \<Rightarrow> nat" where
  "pos_of s t \<equiv> unat (eevdf_heap_pos (threads s t))"

definition eligible :: "HeapState \<Rightarrow> u64 \<Rightarrow> u32 \<Rightarrow> bool" where
  "eligible s maxv t \<longleftrightarrow> eevdf_vruntime (threads s t) \<le> maxv"

text \<open>C8 The rotating scan delivers the earliest eligible deadline. On a non-empty heap
  \<open>pick_eligible\<close> always returns an entry and removes it. When some thread within the virtual-runtime
  bound has a deadline below the largest 64-bit value, the entry is such an eligible one with the least deadline of all eligible
  entries; otherwise it has the least deadline of the whole heap. The heap invariant holds afterwards,
  the thread's recorded position is reset and exactly its pick count grows by one.\<close>

theorem pick_eligible_earliest:
  assumes "heap_inv s" "0 < heap_len s"
  shows "\<exists>t k s'. pick_eligible maxv s = Some (Some (t, k), s') \<and> heap_inv s' \<and> elems s = add_mset (t, k) (elems s') \<and>
    (if \<exists>x\<in>#elems s. eligible s maxv (fst x) \<and> snd x \<noteq> - 1
     then eligible s maxv t \<and> (\<forall>x\<in>#elems s. eligible s maxv (fst x) \<longrightarrow> k \<le> snd x)
     else \<forall>x\<in>#elems s. k \<le> snd x) \<and>
    eevdf_heap_pos (threads s' t) = HEAP_POS_NONE \<and>
    (\<forall>u. picked_count (threads s' u) = picked_count (threads s u) + (if u = t then 1 else 0)) \<and>
    scan_start s' = scan_start s + 1"
proof -
  let ?n = "heap_len s"
  let ?st = "unat (scan_start s) mod ?n"
  define best where "best = scan_best (eligible s maxv) (entries s) ?n ?st"
  define p where "p = (case best of Some q \<Rightarrow> q | None \<Rightarrow> 0)"
  have elig: "eligible s maxv = (\<lambda>t. eevdf_vruntime (threads s t) \<le> maxv)" by (simp add: eligible_def fun_eq_iff)
  have st: "?st < ?n" using assms(2) by simp
  note spec = scan_best_spec [OF assms(2), of "eligible s maxv" "entries s" ?st, folded best_def]
  have mem: "(\<forall>x\<in>#elems s. P (fst x) (snd x)) \<longleftrightarrow> (\<forall>k<?n. P (tid_at s ((?st + k) mod ?n)) (keys s ((?st + k) mod ?n)))" for P
  proof -
    have "(\<forall>x\<in>#elems s. P (fst x) (snd x)) \<longleftrightarrow> (\<forall>i<?n. P (tid_at s i) (keys s i))"
      by (auto simp: elems_def for_each_entry_def)
    also have "\<dots> \<longleftrightarrow> (\<forall>k<?n. P (tid_at s ((?st + k) mod ?n)) (keys s ((?st + k) mod ?n)))"
      using rotate_onto [OF _ st] by (metis assms(2) mod_less_divisor)
    finally show ?thesis .
  qed
  obtain s' where s': "pick_eligible maxv s = Some (Some (tid_at s p, keys s p), s')" "picked p s s'"
    using pick_eligible_picks(2) [OF assms(1,2), of maxv] unfolding p_def best_def elig by blast
  have "if \<exists>x\<in>#elems s. eligible s maxv (fst x) \<and> snd x \<noteq> - 1
     then eligible s maxv (tid_at s p) \<and> (\<forall>x\<in>#elems s. eligible s maxv (fst x) \<longrightarrow> keys s p \<le> snd x)
     else \<forall>x\<in>#elems s. keys s p \<le> snd x"
  proof (cases best)
    case None
    then have "\<forall>x\<in>#elems s. eligible s maxv (fst x) \<longrightarrow> snd x = - 1"
      using spec mem [of "\<lambda>t k. eligible s maxv t \<longrightarrow> k = - 1"] by simp
    moreover have "\<forall>x\<in>#elems s. keys s 0 \<le> snd x"
      using ordered_root [of ?n "keys s"] assms(1) by (auto simp: elems_def for_each_entry_def heap_inv_def)
    ultimately show ?thesis using None by (auto simp: p_def)
  next
    case (Some q)
    then have q: "p = q" "q < ?n" "eligible s maxv (tid_at s q)" "keys s q < - 1"
      "\<forall>x\<in>#elems s. eligible s maxv (fst x) \<longrightarrow> keys s q \<le> snd x"
      using spec scan_best_bound [of "eligible s maxv" "entries s" ?n ?st q] assms(2)
        mem [of "\<lambda>t k. eligible s maxv t \<longrightarrow> keys s q \<le> k"]
      by (auto simp: p_def best_def)
    then have "\<exists>x\<in>#elems s. eligible s maxv (fst x) \<and> snd x \<noteq> - 1"
      using elems_mem [OF q(2)] by (intro bexI [of _ "(tid_at s q, keys s q)"]) auto
    then show ?thesis using q by simp
  qed
  moreover have "\<forall>u. picked_count (threads s' u) = picked_count (threads s u) + (if u = tid_at s p then 1 else 0)"
    using s'(2) by (simp add: picked_def)
  ultimately show ?thesis using s' unfolding picked_def by blast
qed

text \<open>A heap of two threads with the given deadlines, used as a concrete instance.\<close>

definition two_heap :: "u64 \<Rightarrow> u64 \<Rightarrow> HeapState" where
  "two_heap k1 k2 = \<lparr>entries = (replicate HEAP_CAP zero_entry)[0 := \<lparr>ekey = k1, etid = 1\<rparr>, 1 := \<lparr>ekey = k2, etid = 2\<rparr>],
     heap_len = 2, scan_start = 0,
     threads = (\<lambda>t. \<lparr>eevdf_heap_pos = (if t = 1 then 0 else if t = 2 then 1 else HEAP_POS_NONE),
                     eevdf_vruntime = (if t = 1 then 9 else 3), cosched_group = 0, picked_count = 0\<rparr>)\<rparr>"

abbreviation small_heap :: HeapState where
  "small_heap \<equiv> two_heap 5 7"

lemma two_entries: "entries (two_heap k1 k2) ! 0 = \<lparr>ekey = k1, etid = 1\<rparr>" "entries (two_heap k1 k2) ! Suc 0 = \<lparr>ekey = k2, etid = 2\<rparr>"
  by (simp_all add: two_heap_def HEAP_CAP_def)

lemma two_heap_inv:
  assumes "k1 \<le> k2"
  shows "heap_inv (two_heap k1 k2)" "heap_len (two_heap k1 k2) = 2" "elems (two_heap k1 k2) = {#(1, k1), (2, k2)#}"
    "tids (two_heap k1 k2) = {1, 2}"
proof -
  let ?s = "two_heap k1 k2"
  show n: "heap_len ?s = 2" unfolding two_heap_def by simp
  have two: "i < heap_len ?s \<longleftrightarrow> i = 0 \<or> i = Suc 0" for i unfolding n by linarith
  have dom: "{..<heap_len ?s} = {0, Suc 0}" unfolding n by auto
  have "[0..<2] = [0, Suc 0]" by (simp add: numeral_2_eq_2)
  then have "for_each_entry ?s = [(1, k1), (2, k2)]"
    unfolding for_each_entry_def n by (simp add: two_entries)
  then show "elems ?s = {#(1, k1), (2, k2)#}" by (simp add: elems_def)
  show "tids ?s = {1, 2}" unfolding tids_def dom by (simp add: two_entries)
  have "indexed ?s"
    unfolding indexed_def two dom by (auto simp: two_entries) (simp_all add: two_heap_def)
  moreover have "ordered (heap_len ?s) (keys ?s)"
    unfolding ordered_def two using assms by (auto simp: two_entries heap_parent_def D_def)
  moreover have "wf_heap ?s" by (simp add: wf_heap_def two_heap_def HEAP_CAP_def)
  ultimately show "heap_inv ?s" by (simp add: heap_inv_def)
qed

lemmas small_heap_inv = two_heap_inv [of 5 7, simplified]

theorem pick_eligible_earliest_witness:
  "\<exists>s'. pick_eligible 4 small_heap = Some (Some (2, 7), s') \<and> heap_inv s'"
proof -
  have v: "eevdf_vruntime (threads small_heap 1) = 9" "eevdf_vruntime (threads small_heap 2) = 3" by (simp_all add: two_heap_def)
  obtain t k s' where "pick_eligible 4 small_heap = Some (Some (t, k), s')" "heap_inv s'"
      "elems small_heap = add_mset (t, k) (elems s')" "eevdf_vruntime (threads small_heap t) \<le> 4"
    using pick_eligible_earliest [of small_heap 4] small_heap_inv v by (auto simp: eligible_def split: if_splits)
  moreover from this have "(t, k) = (1, 5) \<or> (t, k) = (2, 7)"
  proof -
    have "(t, k) \<in># elems small_heap" using \<open>elems small_heap = add_mset (t, k) (elems s')\<close> by simp
    then show ?thesis unfolding small_heap_inv(3) by auto
  qed
  ultimately show ?thesis using v by auto
qed

datatype heap_op =
  HInsert u32 u64 | HPop | HRemove u32 | HDecrease u32 u64 | HUpdate u32 u64 | HPick u64 | HGroup u32 u64

fun heap_step :: "heap_op \<Rightarrow> HeapState \<Rightarrow> HeapState option" where
  "heap_step (HInsert t k) s = Some (snd (insert_thread t k s))"
| "heap_step HPop s = Some (snd (pop_min s))"
| "heap_step (HRemove t) s = map_option snd (remove_at (pos_of s t) s)"
| "heap_step (HDecrease t k) s = decrease_key (pos_of s t) k s"
| "heap_step (HUpdate t k) s = map_option snd (update_key (pos_of s t) k s)"
| "heap_step (HPick v) s = map_option snd (pick_eligible v s)"
| "heap_step (HGroup g v) s = map_option snd (pop_for_group g v s)"

text \<open>What the comments ask of the callers.\<close>

fun heap_req :: "heap_op \<Rightarrow> HeapState \<Rightarrow> bool" where
  "heap_req (HInsert t k) s = (eevdf_heap_pos (threads s t) = HEAP_POS_NONE)"
| "heap_req (HRemove t) s = (t \<in> tids s)"
| "heap_req (HDecrease t k) s = (t \<in> tids s \<and> k \<le> ekey (entries s ! pos_of s t))"
| "heap_req (HUpdate t k) s = (t \<in> tids s)"
| "heap_req _ s = True"

fun heap_run :: "heap_op list \<Rightarrow> HeapState \<Rightarrow> HeapState option" where
  "heap_run [] s = Some s"
| "heap_run (op # ops) s =
     (if heap_req op s then case heap_step op s of None \<Rightarrow> None | Some s' \<Rightarrow> heap_run ops s' else Some s)"

lemma heap_step_inv:
  assumes "heap_inv s" "heap_req op s"
  shows "\<exists>s'. heap_step op s = Some s' \<and> heap_inv s'"
proof (cases op)
  case (HInsert t k)
  then have "t \<notin> tids s" using recorded_pos [OF assms(1), of t] assms(2) by auto
  then show ?thesis
    using insert_thread_correct [OF assms(1), of t k] HInsert assms(1)
    by (cases "heap_len s < HEAP_CAP") (auto simp: insert_thread_def)
next
  case HPop
  then show ?thesis
    using pop_min_taken [OF assms(1)] assms(1) by (cases "heap_len s = 0") (auto simp: pop_min_def taken_def)
next
  case (HRemove t)
  then obtain i where "i < heap_len s" "pos_of s t = i" using recorded_pos [OF assms(1), of t] assms(2) by auto
  then show ?thesis using remove_at_taken [OF assms(1), of i] HRemove by (auto simp: taken_def)
next
  case (HDecrease t k)
  then obtain i where "i < heap_len s" "pos_of s t = i" using recorded_pos [OF assms(1), of t] assms(2) by auto
  then show ?thesis using decrease_key_correct [OF assms(1), of i k] HDecrease assms(2) by (auto simp: rekeyed_def)
next
  case (HUpdate t k)
  then obtain i where "i < heap_len s" "pos_of s t = i" using recorded_pos [OF assms(1), of t] assms(2) by auto
  then show ?thesis using update_key_correct [OF assms(1), of i k] HUpdate by (auto simp: rekeyed_def)
next
  case (HPick v)
  then show ?thesis
    using pick_eligible_picks(2) [OF assms(1), of v] assms(1)
    by (cases "heap_len s = 0") (auto simp: pick_eligible_def picked_def)
next
  case (HGroup g v)
  show ?thesis
  proof (cases "heap_len s = 0")
    case True
    then show ?thesis using HGroup assms(1) by (simp add: pop_for_group_def)
  next
    case False
    then show ?thesis
      using pop_for_group_picks(1) [OF assms(1), of g v] pop_for_group_picks(2) [OF assms(1), of g v] assms(1) HGroup
      by (cases "scan_best (\<lambda>t. cosched_group (threads s t) = g \<and> eevdf_vruntime (threads s t) \<le> v)
            (entries s) (heap_len s) (unat (scan_start s) mod heap_len s)") (auto simp: picked_def)
  qed
qed

text \<open>C9 Every history keeps the heap correct. From any state satisfying the invariant, a sequence of
  operations that meet the callers' obligations never fails an assertion, and afterwards the array is
  a heap, every thread occurs once and its record holds its true position.\<close>

theorem heap_history_invariant:
  "heap_inv s \<Longrightarrow> \<exists>s'. heap_run ops s = Some s' \<and> heap_inv s'"
proof (induction ops arbitrary: s)
  case (Cons op ops)
  then show ?case using heap_step_inv [OF Cons.prems, of op] by (cases "heap_req op s") auto
qed simp

theorem heap_history_invariant_witness:
  "\<exists>s'. heap_run [HPick 4, HInsert 2 3, HRemove 1, HGroup 0 1] small_heap = Some s' \<and> heap_inv s'"
  using heap_history_invariant [OF small_heap_inv(1)] .

text \<open>C10 A thread can be removed through its recorded position. For a thread in the heap, removing at
  the position stored in its record returns that thread with its deadline, takes out exactly that
  entry, and resets the stored position; afterwards the thread is not in the heap.\<close>

theorem remove_by_position:
  assumes "heap_inv s" "t \<in> tids s"
  shows "\<exists>k s'. remove_at (pos_of s t) s = Some ((t, k), s') \<and> heap_inv s' \<and>
    elems s = add_mset (t, k) (elems s') \<and> t \<notin> tids s' \<and> eevdf_heap_pos (threads s' t) = HEAP_POS_NONE \<and>
    (\<forall>u. u \<notin> tids s \<longrightarrow> threads s' u = threads s u)"
proof -
  obtain i where i: "i < heap_len s" "tid_at s i = t" "pos_of s t = i" using recorded_pos [OF assms] by metis
  then obtain s' where s': "remove_at i s = Some ((t, keys s i), s')" "taken i s s'"
    using remove_at_taken [OF assms(1), of i] by auto
  then have "t \<notin> tids s'" using taken_gone [OF assms(1) i(1)] i(2) by simp
  then show ?thesis using s' i unfolding taken_def frame_def by auto
qed

theorem remove_by_position_witness:
  "\<exists>k s'. remove_at (pos_of small_heap 2) small_heap = Some ((2, k), s') \<and> heap_inv s' \<and> 2 \<notin> tids s'"
  using remove_by_position [of small_heap 2] small_heap_inv by auto

fun pop_times :: "nat \<Rightarrow> HeapState \<Rightarrow> (u32 \<times> u64) list \<times> HeapState" where
  "pop_times 0 s = ([], s)"
| "pop_times (Suc n) s =
     (case pop_min s of
        (None, s') \<Rightarrow> ([], s')
      | (Some x, s') \<Rightarrow> (case pop_times n s' of (xs, s'') \<Rightarrow> (x # xs, s'')))"

fun insert_times :: "(u32 \<times> u64) list \<Rightarrow> HeapState \<Rightarrow> HeapState" where
  "insert_times [] s = s"
| "insert_times ((t, k) # xs) s = insert_times xs (snd (insert_thread t k s))"

lemma pop_times_hq: "pop_times n s = hq.pops n s"
  by (induction n arbitrary: s) (simp_all split: prod.splits option.splits)

lemma insert_times_hq: "insert_times xs s = hq.ins_all xs s"
  by (induction xs s rule: insert_times.induct) simp_all

text \<open>C11 Every queued thread is delivered, in deadline order. Inserting distinct new threads up to the
  capacity of 512 and then removing minima as often as there are entries returns exactly all entries,
  sorted by deadline, and empties the heap.\<close>

theorem heap_delivers_sorted:
  assumes "heap_inv s" "distinct (map fst xs)" "\<And>t. t \<in> fst ` set xs \<Longrightarrow> t \<notin> tids s" "heap_len s + length xs \<le> HEAP_CAP"
  shows "\<exists>ys s'. pop_times (heap_len s + length xs) (insert_times xs s) = (ys, s') \<and>
    mset ys = elems s + mset xs \<and> sorted (map snd ys) \<and> heap_inv s' \<and> heap_len s' = 0"
proof -
  have c: "heap_inv (insert_times xs s) \<and> elems (insert_times xs s) = elems s + mset xs"
    unfolding insert_times_hq using assms by (intro hq.ins_all_content) (auto simp: tids_elems size_elems)
  then have "heap_len s + length xs = size (elems (insert_times xs s))" by (simp add: size_elems)
  then obtain ys s' where "hq.pops (heap_len s + length xs) (insert_times xs s) = (ys, s')" "heap_inv s'"
      "elems s' = {#}" "mset ys = elems s + mset xs" "sorted (map snd ys)"
    using hq.pops_sorted [of "insert_times xs s"] c by auto
  then show ?thesis using size_elems [of s'] by (auto simp: pop_times_hq)
qed

theorem heap_delivers_sorted_witness:
  "\<exists>ys s'. pop_times 4 (insert_times [(7, 6), (8, 1)] small_heap) = (ys, s') \<and>
     mset ys = {#(1, 5), (2, 7)#} + {#(7, 6), (8, 1)#} \<and> sorted (map snd ys) \<and> heap_len s' = 0"
proof -
  let ?xs = "[(7, 6), (8, 1)] :: (u32 \<times> u64) list"
  have n: "heap_len small_heap + length ?xs = 4" using small_heap_inv(2) by simp
  have "t \<notin> tids small_heap" if "t \<in> fst ` set ?xs" for t using that small_heap_inv(4) by auto
  then obtain ys s' where "pop_times 4 (insert_times ?xs small_heap) = (ys, s')" "mset ys = elems small_heap + mset ?xs"
      "sorted (map snd ys)" "heap_len s' = 0"
    using heap_delivers_sorted [of small_heap ?xs, OF small_heap_inv(1)] unfolding n by (auto simp: HEAP_CAP_def)
  then show ?thesis unfolding small_heap_inv(3) by (intro exI [of _ ys] exI [of _ s']) simp
qed

text \<open>Equal deadlines resolve by rotation. When all entries are eligible with one common deadline,
  the pick is the entry at the scan origin, the scan counter modulo the number of entries.\<close>

theorem equal_deadlines_rotate:
  assumes "heap_inv s" "0 < heap_len s" "d \<noteq> - 1"
    and "\<And>i. i < heap_len s \<Longrightarrow> ekey (entries s ! i) = d \<and> eevdf_vruntime (threads s (etid (entries s ! i))) \<le> maxv"
  shows "\<exists>s'. pick_eligible maxv s = Some (Some (etid (entries s ! (unat (scan_start s) mod heap_len s)), d), s')"
proof -
  let ?n = "heap_len s"
  let ?st = "unat (scan_start s) mod ?n"
  let ?ok = "\<lambda>t. eevdf_vruntime (threads s t) \<le> maxv"
  have all: "ekey (entries s ! ((?st + k) mod ?n)) = d" "?ok (tid_at s ((?st + k) mod ?n))" for k
    using assms(2) assms(4) [of "(?st + k) mod ?n"] by simp_all
  have "scan_best ?ok (entries s) ?n ?st = Some ?st"
  proof (cases "scan_best ?ok (entries s) ?n ?st")
    case None
    then show ?thesis using scan_best_spec [OF assms(2), of ?ok "entries s" ?st] all [of 0] assms(2,3) by auto
  next
    case (Some p)
    then obtain k where k: "p = (?st + k) mod ?n" "\<forall>j<k. ?ok (tid_at s ((?st + j) mod ?n)) \<longrightarrow> keys s p < keys s ((?st + j) mod ?n)"
      using scan_best_spec [OF assms(2), of ?ok "entries s" ?st] by auto
    have "\<not> 0 < k" using k(2) all [of 0] all(1) [of k] k(1) by auto
    then have "k = 0" by simp
    then show ?thesis using Some k by simp
  qed
  then show ?thesis
    using pick_eligible_picks(2) [OF assms(1,2), of maxv] assms(2) assms(4) [of ?st] by auto
qed

theorem equal_deadlines_rotate_witness:
  "\<exists>s'. pick_eligible 9 (two_heap 5 5) = Some (Some (1, 5), s')"
proof -
  let ?s = "two_heap 5 5"
  have all: "ekey (entries ?s ! i) = 5 \<and> eevdf_vruntime (threads ?s (etid (entries ?s ! i))) \<le> 9" if "i < heap_len ?s" for i
  proof -
    have "i = 0 \<or> i = Suc 0" using that two_heap_inv(2) [of 5 5] by auto
    moreover have "eevdf_vruntime (threads ?s t) \<le> 9" for t by (simp add: two_heap_def)
    ultimately show ?thesis by (auto simp: two_entries)
  qed
  have "unat (scan_start ?s) mod heap_len ?s = 0" by (simp add: two_heap_def)
  then show ?thesis
    using equal_deadlines_rotate [of ?s 5 9, OF two_heap_inv(1) _ _ all] two_heap_inv(2) [of 5 5] by (simp add: two_entries)
qed

lemma single_entry: "elems s = {#(t, k)#} \<Longrightarrow> heap_len s = 1 \<and> entries s ! 0 = \<lparr>ekey = k, etid = t\<rparr>"
  using size_elems [of s] elems_mem [of 0 s] by (cases "entries s ! 0") simp

text \<open>The rotation does not visit every entry in turn. With two eligible threads of equal deadline,
  picking a thread and enqueuing it again with the same deadline makes the next pick return the same
  thread while the other one, equally urgent, keeps waiting: the scan origin moves on to the very
  position where the thread was put back.\<close>

theorem rotation_repeats:
  "\<exists>s1 s2 s3. pick_eligible 9 (two_heap 5 5) = Some (Some (1, 5), s1) \<and> insert_thread 1 5 s1 = (True, s2) \<and>
     2 \<in> tids s2 \<and> eligible s2 9 2 \<and> pick_eligible 9 s2 = Some (Some (1, 5), s3)"
proof -
  let ?s = "two_heap 5 5"
  have up: "[0..<2] = [0, Suc 0]" by (simp add: numeral_2_eq_2)
  have inv: "heap_inv ?s" "heap_len ?s = 2" "elems ?s = {#(1, 5), (2, 5)#}" using two_heap_inv [of 5 5] by simp_all
  have scan0: "scan_start ?s = 0" by (simp add: two_heap_def)
  have vrt: "eevdf_vruntime (threads ?s t) \<le> 9" for t by (simp add: two_heap_def)
  have "scan_best (\<lambda>t. eevdf_vruntime (threads ?s t) \<le> 9) (entries ?s) 2 0 = Some 0"
    by (simp add: scan_best_def up two_entries vrt)
  then obtain s1 where p1: "pick_eligible 9 ?s = Some (Some (1, 5), s1)" "picked 0 ?s s1"
    using pick_eligible_picks(2) [OF inv(1), of 9] inv(2) scan0 by (auto simp: two_entries)
  then have el1: "heap_inv s1" "elems s1 = {#(2, 5)#}" "scan_start s1 = 1" "\<And>t. eevdf_vruntime (threads s1 t) \<le> 9"
    using inv(3) vrt by (auto simp: picked_def two_entries scan0 add_mset_commute)
  note one = single_entry [OF el1(2)]
  then obtain s2 where i: "insert_thread 1 5 s1 = (True, s2)" "heap_inv s2" "elems s2 = {#(1, 5), (2, 5)#}"
      "frame (insert 1 (tids s1)) s1 s2" "scan_start s2 = 1"
    using insert_thread_correct [OF el1(1), of 1 5] el1(2,3) by (auto simp: tids_elems HEAP_CAP_def)
  have wf: "length (entries s1) = HEAP_CAP" using el1(1) by (simp add: heap_inv_def wf_heap_def)
  have "s2 = snd (insert_thread 1 5 s1)" using i(1) by simp
  then have e2: "entries s2 ! 0 = \<lparr>ekey = 5, etid = 2\<rparr>" "entries s2 ! Suc 0 = \<lparr>ekey = 5, etid = 1\<rparr>" "heap_len s2 = 2"
    using one wf by (simp_all add: insert_thread_def HEAP_CAP_def sift_up.simps [of 1] sift_up.simps [of "Suc 0"] heap_parent_def D_def Let_def)
  have vrt2: "eevdf_vruntime (threads s2 t) \<le> 9" for t using frame_fields(2) [OF i(4)] el1(4) by simp
  have "scan_best (\<lambda>t. eevdf_vruntime (threads s2 t) \<le> 9) (entries s2) 2 1 = Some 1"
    by (simp add: scan_best_def up e2 vrt2)
  then obtain s3 where "pick_eligible 9 s2 = Some (Some (1, 5), s3)"
    using pick_eligible_picks(2) [OF i(2), of 9] e2 i(5) by auto
  then show ?thesis using p1(1) i(1,3) vrt2 by (auto simp: tids_elems eligible_def)
qed

end
