(* ===== verification/Radix.thy ===== *)
theory Radix
  imports Telix_Prelude
begin

text \<open>
  \<open>kernel/src/sched/radix.rs\<close>: the two-level table from entity ids to entity pointers, the ring that logs
  every store, and the serial-port formatters of its dump (the x86-64 variant). Pages are held by
  value with their address; a store through a missing page is None. The page allocator's answer is an
  argument, as are the size of a page and the caller's code location. Text sent to the serial port is
  a string.
\<close>

section \<open>Serial-port formatters\<close>

definition uart_write_str :: "string \<Rightarrow> string" where
  "uart_write_str s = concat (map (\<lambda>b. (if b = CHR 0x0A then [CHR 0x0D] else []) @ [b]) s)"

definition hex_digit :: "u8 \<Rightarrow> char" where
  "hex_digit nib = char_of (if nib < 10 then 48 + unat nib else 97 + (unat nib - 10))"

definition uart_write_hex64 :: "u64 \<Rightarrow> string" where
  "uart_write_hex64 val = ''0x'' @ map (\<lambda>i. hex_digit (ucast (drop_bit (60 - i * 4) val AND 0xf))) [0..<16]"

text \<open>The digit loop with its buffer of \<open>cap\<close> bytes; an index out of the buffer is None.\<close>

function digit_loop :: "nat \<Rightarrow> nat \<Rightarrow> string \<Rightarrow> string option" where
  "digit_loop cap n digits =
     (if n > 0 then
        if length digits < cap then digit_loop cap (n div 10) (digits @ [char_of (48 + n mod 10)]) else None
      else Some digits)"
  by pat_completeness auto
termination
  by (relation "measure (\<lambda>(cap, n, digits). n)") auto

declare digit_loop.simps [simp del]

definition uart_write_dec :: "nat \<Rightarrow> nat \<Rightarrow> string option" where
  "uart_write_dec cap val = (if val = 0 then Some ''0'' else map_option rev (digit_loop cap val []))"

definition uart_write_u32 :: "u32 \<Rightarrow> string option" where
  "uart_write_u32 val = uart_write_dec 10 (unat val)"

definition uart_write_u64 :: "u64 \<Rightarrow> string option" where
  "uart_write_u64 val = uart_write_dec 20 (unat val)"

text \<open>Writing several pieces in sequence.\<close>

fun uart_seq :: "string option list \<Rightarrow> string option" where
  "uart_seq [] = Some []"
| "uart_seq (p # ps) = (case p of None \<Rightarrow> None | Some s \<Rightarrow> map_option ((@) s) (uart_seq ps))"

abbreviation lit :: "string \<Rightarrow> string option" where
  "lit s \<equiv> Some (uart_write_str s)"

section \<open>The store log\<close>

record SetLogEntry =
  le_seq :: u64
  le_tid :: u32
  le_l1_idx :: u32
  le_val :: u64
  le_prev_val :: u64
  le_caller_loc :: u64
  le_l1_va :: u64

definition SET_LOG_SIZE :: nat where "SET_LOG_SIZE = 256"

definition zero_log_entry :: SetLogEntry where
  "zero_log_entry = \<lparr>le_seq = 0, le_tid = 0, le_l1_idx = 0, le_val = 0, le_prev_val = 0, le_caller_loc = 0, le_l1_va = 0\<rparr>"

record SetLog =
  log_cells :: "SetLogEntry list"
  log_head :: u64

definition new_log :: SetLog where
  "new_log = \<lparr>log_cells = replicate SET_LOG_SIZE zero_log_entry, log_head = 0\<rparr>"

definition record_set :: "u32 \<Rightarrow> u64 \<Rightarrow> u64 \<Rightarrow> u64 \<Rightarrow> u64 \<Rightarrow> u32 \<Rightarrow> SetLog \<Rightarrow> SetLog" where
  "record_set tid val prev_val caller_loc l1_va l1_idx lg =
     (let seq = log_head lg; idx = unat seq mod SET_LOG_SIZE
      in lg\<lparr>log_head := seq + 1,
            log_cells := (log_cells lg)[idx := \<lparr>le_seq = seq + 1, le_tid = tid, le_l1_idx = l1_idx, le_val = val,
              le_prev_val = prev_val, le_caller_loc = caller_loc, le_l1_va = l1_va\<rparr>]\<rparr>)"

definition dump_header :: "u32 \<Rightarrow> u64 \<Rightarrow> u64 \<Rightarrow> string option" where
  "dump_header tid head start = uart_seq
     [lit ''RADIX-SET-LOG-DUMP-BEGIN: tid='', uart_write_u32 tid, lit '' head='', uart_write_u64 head,
      lit '' window=['', uart_write_u64 start, lit ''..'', uart_write_u64 head, lit (CHR '')'' # [CHR 0x0A])]"

definition dump_entry :: "SetLogEntry \<Rightarrow> string option" where
  "dump_entry e = uart_seq
     [lit ''RADIX-SET-LOG: seq='', uart_write_u64 (le_seq e), lit '' tid='', uart_write_u32 (le_tid e),
      lit '' l1_idx='', uart_write_u32 (le_l1_idx e), lit '' val='', Some (uart_write_hex64 (le_val e)),
      lit '' prev_val='', Some (uart_write_hex64 (le_prev_val e)),
      lit '' caller_loc='', Some (uart_write_hex64 (le_caller_loc e)),
      lit '' l1_va='', Some (uart_write_hex64 (le_l1_va e)), lit [CHR 0x0A]]"

definition dump_footer :: "u32 \<Rightarrow> u32 \<Rightarrow> string option" where
  "dump_footer tid hits = uart_seq
     [lit ''RADIX-SET-LOG-DUMP-END: tid='', uart_write_u32 tid, lit '' hits='', uart_write_u32 hits, lit [CHR 0x0A]]"

text \<open>The entries that the dump prints, in the order of the loop.\<close>

definition window_start :: "u64 \<Rightarrow> u64" where
  "window_start head = (if head \<ge> of_nat SET_LOG_SIZE then head - of_nat SET_LOG_SIZE else 0)"

definition window_hits :: "u32 \<Rightarrow> SetLog \<Rightarrow> SetLogEntry list" where
  "window_hits target_tid lg =
     filter (\<lambda>e. le_tid e = target_tid)
       (map (\<lambda>seq. log_cells lg ! (seq mod SET_LOG_SIZE)) [unat (window_start (log_head lg))..<unat (log_head lg)])"

definition dump_set_log_for_tid :: "u32 \<Rightarrow> SetLog \<Rightarrow> string option" where
  "dump_set_log_for_tid target_tid lg =
     (let head = log_head lg; hits = window_hits target_tid lg
      in uart_seq ([dump_header target_tid head (window_start head)] @ map dump_entry hits @
           [dump_footer target_tid (of_nat (length hits))]))"

definition trace_set_live :: "u32 \<Rightarrow> u64 \<Rightarrow> u64 \<Rightarrow> u64 \<Rightarrow> u64 \<Rightarrow> string option" where
  "trace_set_live i val prev caller_loc l1_page = uart_seq
     [lit ''SET-LIVE: id='', uart_write_u32 i, lit '' val='', Some (uart_write_hex64 val),
      lit '' prev='', Some (uart_write_hex64 prev), lit '' loc='', Some (uart_write_hex64 caller_loc),
      lit '' l1='', Some (uart_write_hex64 l1_page), lit [CHR 0x0A]]"

section \<open>The table\<close>

record L1Page =
  l1_va :: u64
  l1_slots :: "u64 list"

record L0Page =
  l0_va :: u64
  l0_slots :: "L1Page option list"

record RadixTable =
  l0 :: "L0Page option"

text \<open>The state a store works on: the table, the log, the serial output and the watched address.\<close>

record RadixState =
  table :: RadixTable
  set_log :: SetLog
  uart :: string
  watch_addr :: u64

definition radix_fanout :: "nat \<Rightarrow> nat" where
  "radix_fanout page_size = page_size div 8"

definition new_radix :: RadixTable where
  "new_radix = \<lparr>l0 = None\<rparr>"

definition l0_page_addr :: "RadixTable \<Rightarrow> u64" where
  "l0_page_addr t = (case l0 t of None \<Rightarrow> 0 | Some p \<Rightarrow> l0_va p)"

definition raw_l0_slots :: "RadixTable \<Rightarrow> u64 \<times> u64 \<times> u64" where
  "raw_l0_slots t =
     (case l0 t of
        None \<Rightarrow> (0, 0, 0)
      | Some p \<Rightarrow>
          (case l0_slots p ! 0 of
             None \<Rightarrow> (l0_va p, 0, 0)
           | Some q \<Rightarrow> (l0_va p, l1_va q, l1_slots q ! 4)))"

text \<open>\<open>pa\<close> is the address of the page the allocator returns, None when it has none.\<close>

definition radix_init :: "nat \<Rightarrow> u64 option \<Rightarrow> RadixTable \<Rightarrow> RadixTable option" where
  "radix_init ps pa t =
     (case pa of
        None \<Rightarrow> None
      | Some p \<Rightarrow> Some (t\<lparr>l0 := Some \<lparr>l0_va = p, l0_slots = replicate (radix_fanout ps) None\<rparr>\<rparr>))"

definition radix_get :: "nat \<Rightarrow> RadixTable \<Rightarrow> u32 \<Rightarrow> u64" where
  "radix_get ps t i =
     (case l0 t of
        None \<Rightarrow> 0
      | Some p \<Rightarrow>
          let fanout = radix_fanout ps; l0_idx = unat i div fanout; l1_idx = unat i mod fanout
          in if l0_idx \<ge> fanout then 0
             else (case l0_slots p ! l0_idx of None \<Rightarrow> 0 | Some q \<Rightarrow> l1_slots q ! l1_idx))"

definition arm_thread_table_4_watchpoint :: "u64 \<Rightarrow> u64 \<Rightarrow> RadixState \<Rightarrow> RadixState option" where
  "arm_thread_table_4_watchpoint slot_addr val s =
     (case uart_seq [lit ''TT4-WATCH-ARM: slot='', Some (uart_write_hex64 slot_addr), lit '' val='',
                     Some (uart_write_hex64 val), lit [CHR 0x0A]] of
        None \<Rightarrow> None
      | Some out \<Rightarrow> Some (s\<lparr>uart := uart s @ out, watch_addr := slot_addr\<rparr>))"

text \<open>The diagnostics after the store: the log entry, the live trace of low ids and the watchpoint.
  \<open>tt_l0\<close> is the address of the thread table's first-level page, read by the code from that table.\<close>

definition set_trace :: "u32 \<Rightarrow> u64 \<Rightarrow> u64 \<Rightarrow> u64 \<Rightarrow> u64 \<Rightarrow> RadixState \<Rightarrow> RadixState option" where
  "set_trace i val prev caller_loc l1_page s =
     (if i < 32
      then case trace_set_live i val prev caller_loc l1_page of
             None \<Rightarrow> None
           | Some out \<Rightarrow> Some (s\<lparr>uart := uart s @ out\<rparr>)
      else Some s)"

definition set_watch :: "u32 \<Rightarrow> u64 \<Rightarrow> u64 \<Rightarrow> u64 \<Rightarrow> RadixState \<Rightarrow> RadixState option" where
  "set_watch i val caller_loc tt_l0 s =
     (if i = 4 \<and> caller_loc \<noteq> 0 \<and> val \<ge> 0xFFFFFE8000000000 \<and> val < 0xFFFFFF0000000000
      then arm_thread_table_4_watchpoint tt_l0 val s else Some s)"

definition radix_set :: "nat \<Rightarrow> u64 \<Rightarrow> u64 \<Rightarrow> u32 \<Rightarrow> u64 \<Rightarrow> RadixState \<Rightarrow> RadixState option" where
  "radix_set ps caller_loc tt_l0 i val s =
     (case l0 (table s) of
        None \<Rightarrow> None
      | Some p \<Rightarrow>
          let fanout = radix_fanout ps; l0_idx = unat i div fanout; l1_idx = unat i mod fanout
          in if l0_idx \<ge> length (l0_slots p) then None
             else (case l0_slots p ! l0_idx of
                     None \<Rightarrow> None
                   | Some q \<Rightarrow>
                       let prev = l1_slots q ! l1_idx;
                           q' = q\<lparr>l1_slots := (l1_slots q)[l1_idx := val]\<rparr>;
                           s1 = s\<lparr>table := \<lparr>l0 = Some (p\<lparr>l0_slots := (l0_slots p)[l0_idx := Some q']\<rparr>)\<rparr>,
                                  set_log := record_set i val prev caller_loc (l1_va q) (of_nat l1_idx) (set_log s)\<rparr>
                       in (case set_trace i val prev caller_loc (l1_va q) s1 of
                             None \<Rightarrow> None
                           | Some s2 \<Rightarrow> set_watch i val caller_loc tt_l0 s2)))"

definition ensure_l1 :: "nat \<Rightarrow> u64 option \<Rightarrow> u32 \<Rightarrow> RadixTable \<Rightarrow> bool \<times> RadixTable" where
  "ensure_l1 ps pa i t =
     (case l0 t of
        None \<Rightarrow> (False, t)
      | Some p \<Rightarrow>
          let fanout = radix_fanout ps; l0_idx = unat i div fanout
          in if l0_idx \<ge> fanout then (False, t)
             else if l0_slots p ! l0_idx \<noteq> None then (True, t)
             else (case pa of
                     None \<Rightarrow> (False, t)
                   | Some a \<Rightarrow>
                       (True, t\<lparr>l0 := Some (p\<lparr>l0_slots := (l0_slots p)[l0_idx :=
                                Some \<lparr>l1_va = a, l1_slots = replicate fanout 0\<rparr>]\<rparr>)\<rparr>)))"

definition radix_capacity :: "nat \<Rightarrow> nat" where
  "radix_capacity ps = (let f = radix_fanout ps in f * f)"

section \<open>Numbers on the serial port\<close>

fun low_first :: "string \<Rightarrow> nat" where
  "low_first [] = 0"
| "low_first (c # cs) = (of_char c - 48) + 10 * low_first cs"

definition dec_value :: "string \<Rightarrow> nat" where
  "dec_value s = foldl (\<lambda>v c. v * 10 + (of_char c - 48)) 0 s"

definition is_digit :: "char \<Rightarrow> bool" where
  "is_digit c \<longleftrightarrow> 48 \<le> (of_char c :: nat) \<and> (of_char c :: nat) \<le> 57"

definition hex_char_value :: "char \<Rightarrow> nat" where
  "hex_char_value c = (let n = of_char c in if n < 58 then n - 48 else n - 87)"

definition hex_value :: "string \<Rightarrow> nat" where
  "hex_value s = foldl (\<lambda>v c. v * 16 + hex_char_value c) 0 s"

lemma dec_value_rev: "dec_value (rev ds) = low_first ds"
  by (induction ds) (simp_all add: dec_value_def)

lemma of_char_digit: "d < 10 \<Longrightarrow> of_char (char_of (48 + d :: nat)) = 48 + (d :: nat)"
  by simp

lemma digit_loop_spec:
  assumes "n < 10 ^ (cap - length ds)"
  shows "\<exists>es. digit_loop cap n ds = Some (ds @ es) \<and> low_first es = n \<and> (\<forall>c\<in>set es. is_digit c) \<and> (0 < n \<longrightarrow> es \<noteq> [])"
  using assms
proof (induction cap n ds rule: digit_loop.induct)
  case (1 cap n ds)
  show ?case
  proof (cases "0 < n")
    case True
    then have room: "length ds < cap" using 1(2) by (cases "length ds < cap") auto
    then have "cap - length ds = Suc (cap - Suc (length ds))" by simp
    then have "n div 10 < 10 ^ (cap - Suc (length ds))" using 1(2) by (simp add: less_mult_imp_div_less)
    then obtain es where es: "digit_loop cap (n div 10) (ds @ [char_of (48 + n mod 10)]) = Some (ds @ [char_of (48 + n mod 10)] @ es)"
        "low_first es = n div 10" "\<forall>c\<in>set es. is_digit c"
      using 1(1) [OF True room] by auto
    let ?c = "char_of (48 + n mod 10)"
    have c: "of_char ?c = 48 + n mod 10" using of_char_digit [of "n mod 10"] by simp
    have "digit_loop cap n ds = Some (ds @ ?c # es)"
      using es(1) True room by (subst digit_loop.simps) simp
    moreover have "low_first (?c # es) = n" using es(2) c by simp
    moreover have "is_digit ?c" using c by (simp add: is_digit_def)
    ultimately show ?thesis using es(3) by (intro exI [of _ "?c # es"]) auto
  next
    case False
    then show ?thesis by (subst digit_loop.simps) simp
  qed
qed

lemma uart_write_dec_spec:
  assumes "n < 10 ^ cap"
  shows "\<exists>s. uart_write_dec cap n = Some s \<and> dec_value s = n \<and> (\<forall>c\<in>set s. is_digit c) \<and> s \<noteq> []"
proof (cases "n = 0")
  case True
  then show ?thesis by (simp add: uart_write_dec_def dec_value_def is_digit_def)
next
  case False
  obtain es where "digit_loop cap n [] = Some es" "low_first es = n" "\<forall>c\<in>set es. is_digit c" "es \<noteq> []"
    using digit_loop_spec [of n cap "[]"] assms False by auto
  then show ?thesis using False by (simp add: uart_write_dec_def dec_value_rev)
qed

lemma unat_lt_dec: "unat (x :: u32) < 10 ^ 10" "unat (y :: u64) < 10 ^ 20"
  using unsigned_less [where 'a = nat, of x] unsigned_less [where 'a = nat, of y] by simp_all

lemma hex_digit_value:
  assumes "x < 16"
  shows "hex_char_value (hex_digit x) = unat x"
proof -
  have u: "unat x < 16" using assms by (simp add: word_less_nat_alt)
  have "x < 10 \<longleftrightarrow> unat x < 10" by (simp add: word_less_nat_alt)
  then show ?thesis using u by (auto simp: hex_digit_def hex_char_value_def Let_def)
qed

lemma nibble_unat:
  fixes w :: u64
  shows "unat (ucast (drop_bit n w AND 0xf) :: u8) = unat w div 2 ^ n mod 16" "(ucast (drop_bit n w AND 0xf) :: u8) < 16"
proof -
  have "(0xf :: u64) = mask 4" by (simp add: mask_eq_exp_minus_1)
  then have "drop_bit n w AND 0xf = take_bit 4 (drop_bit n w)" by (simp only: take_bit_eq_mask)
  then have "unat (drop_bit n w AND 0xf) = unat (drop_bit n w) mod 2 ^ 4"
    by (simp add: take_bit_eq_mod unat_mod)
  then have a: "unat (drop_bit n w AND 0xf) = unat w div 2 ^ n mod 16"
    by (simp add: unat_drop_bit_eq drop_bit_eq_div [of n "unat w"] del: drop_bit_eq_div)
  then have "unat (drop_bit n w AND 0xf) < 256" by (simp add: order.strict_trans [of _ 16])
  then show b: "unat (ucast (drop_bit n w AND 0xf) :: u8) = unat w div 2 ^ n mod 16"
    using a by (simp add: unsigned_ucast_eq take_bit_eq_mod)
  show "(ucast (drop_bit n w AND 0xf) :: u8) < 16" unfolding word_less_nat_alt b by simp
qed

lemma hex_prefix:
  "k \<le> 16 \<Longrightarrow> hex_value (map (\<lambda>i. hex_digit (ucast (drop_bit (60 - i * 4) (w :: u64) AND 0xf))) [0..<k]) = unat w div 2 ^ (64 - k * 4)"
proof (induction k)
  case 0
  then show ?case using unsigned_less [where 'a = nat, of w] by (simp add: hex_value_def)
next
  case (Suc k)
  have e: "(2 :: nat) ^ (64 - k * 4) = 2 ^ (60 - k * 4) * 16"
    using Suc.prems power_add [of "2 :: nat" "60 - k * 4" 4] by simp
  have "unat w div 2 ^ (60 - k * 4) = unat w div 2 ^ (64 - k * 4) * 16 + unat w div 2 ^ (60 - k * 4) mod 16"
    unfolding e div_mult2_eq by simp
  then show ?case
    using Suc by (simp add: hex_value_def hex_digit_value nibble_unat)
qed

lemma hex64_value: "hex_value (drop 2 (uart_write_hex64 w)) = unat w"
  using hex_prefix [of 16 w] by (simp add: uart_write_hex64_def)

lemma uart_num_some: "\<exists>s. uart_write_u32 x = Some s" "\<exists>s. uart_write_u64 y = Some s"
  using uart_write_dec_spec [OF unat_lt_dec(1)] uart_write_dec_spec [OF unat_lt_dec(2)]
  unfolding uart_write_u32_def uart_write_u64_def by blast+

lemma uart_num_ne [simp]: "uart_write_u32 x \<noteq> None" "uart_write_u64 y \<noteq> None"
  using uart_num_some by auto

lemma uart_seq_some: "list_all (\<lambda>p. p \<noteq> None) ps \<Longrightarrow> uart_seq ps \<noteq> None"
  by (induction ps) (auto split: option.splits)

lemma dump_lines_some [simp]: "dump_header t h st \<noteq> None" "dump_entry e \<noteq> None" "dump_footer t n \<noteq> None"
    "trace_set_live i v p c l \<noteq> None"
  unfolding dump_header_def dump_entry_def dump_footer_def trace_set_live_def by (rule uart_seq_some; simp add: uart_num_some)+

section \<open>The log keeps the last stores\<close>

type_synonym set_args = "u32 \<times> u64 \<times> u64 \<times> u64 \<times> u64 \<times> u32"

fun log_one :: "set_args \<Rightarrow> SetLog \<Rightarrow> SetLog" where
  "log_one (tid, val, prev, loc, va, ix) lg = record_set tid val prev loc va ix lg"

fun log_entry :: "nat \<Rightarrow> set_args \<Rightarrow> SetLogEntry" where
  "log_entry k (tid, val, prev, loc, va, ix) =
     \<lparr>le_seq = of_nat k + 1, le_tid = tid, le_l1_idx = ix, le_val = val, le_prev_val = prev, le_caller_loc = loc, le_l1_va = va\<rparr>"

definition log_holds :: "set_args list \<Rightarrow> SetLog \<Rightarrow> bool" where
  "log_holds as lg \<longleftrightarrow> length (log_cells lg) = SET_LOG_SIZE \<and> log_head lg = of_nat (length as) \<and>
     (\<forall>k<length as. length as \<le> k + SET_LOG_SIZE \<longrightarrow> log_cells lg ! (k mod SET_LOG_SIZE) = log_entry k (as ! k))"

lemma mod_window: "k < n \<Longrightarrow> n < k + m \<Longrightarrow> k mod m \<noteq> n mod (m :: nat)"
  using mod_eq_dvd_iff_nat [of k n m] dvd_imp_le [of m "n - k"] by auto

lemma log_one_holds:
  assumes "log_holds as lg" "length as < 2 ^ 64"
  shows "log_holds (as @ [a]) (log_one a lg)"
proof -
  obtain tid val prev loc va ix where a: "a = (tid, val, prev, loc, va, ix)" by (metis surj_pair)
  let ?n = "length as"
  have u: "unat (of_nat ?n :: u64) = ?n" using assms(2) by (simp add: unat_of_nat)
  have h: "log_head lg = of_nat ?n" "length (log_cells lg) = SET_LOG_SIZE" using assms(1) by (simp_all add: log_holds_def)
  have cells: "log_cells (log_one a lg) = (log_cells lg)[?n mod SET_LOG_SIZE := log_entry ?n a]"
    using h u by (simp add: a record_set_def Let_def)
  have "log_cells (log_one a lg) ! (k mod SET_LOG_SIZE) = log_entry k ((as @ [a]) ! k)"
    if k: "k < Suc ?n" "Suc ?n \<le> k + SET_LOG_SIZE" for k
  proof (cases "k = ?n")
    case True
    then show ?thesis using h(2) by (simp add: cells SET_LOG_SIZE_def)
  next
    case False
    then have "k < ?n" "?n < k + SET_LOG_SIZE" using k by auto
    then have "k mod SET_LOG_SIZE \<noteq> ?n mod SET_LOG_SIZE" by (rule mod_window)
    then show ?thesis using assms(1) \<open>k < ?n\<close> \<open>?n < k + SET_LOG_SIZE\<close> by (simp add: cells log_holds_def nth_append)
  qed
  then show ?thesis using h by (simp add: log_holds_def cells) (simp add: a record_set_def Let_def)
qed

lemma log_all_holds: "length as \<le> 2 ^ 64 \<Longrightarrow> log_holds as (fold log_one as new_log)"
proof (induction as rule: rev_induct)
  case Nil
  then show ?case by (simp add: log_holds_def new_log_def)
next
  case (snoc a as)
  then show ?case using log_one_holds [of as "fold log_one as new_log" a] by simp
qed

lemma log_window:
  assumes "log_holds as lg" "length as < 2 ^ 64"
  shows "map (\<lambda>seq. log_cells lg ! (seq mod SET_LOG_SIZE)) [unat (window_start (log_head lg))..<unat (log_head lg)] =
    drop (length as - SET_LOG_SIZE) (map (\<lambda>k. log_entry k (as ! k)) [0..<length as])"
proof -
  let ?n = "length as"
  have u: "unat (of_nat ?n :: u64) = ?n" using assms(2) by (simp add: unat_of_nat)
  have h: "log_head lg = of_nat ?n" using assms(1) by (simp add: log_holds_def)
  have s: "unat (of_nat SET_LOG_SIZE :: u64) = SET_LOG_SIZE" by (simp add: SET_LOG_SIZE_def)
  have st: "unat (window_start (log_head lg)) = ?n - SET_LOG_SIZE"
    using u s by (auto simp: h window_start_def word_le_nat_alt unat_sub)
  show ?thesis
    unfolding st drop_map drop_upt using assms(1) by (auto simp: h u log_holds_def)
qed

section \<open>The table as a map\<close>

definition wf_radix :: "nat \<Rightarrow> RadixTable \<Rightarrow> bool" where
  "wf_radix ps t \<longleftrightarrow> 0 < radix_fanout ps \<and>
     (\<forall>p. l0 t = Some p \<longrightarrow> length (l0_slots p) = radix_fanout ps \<and>
        (\<forall>j q. j < length (l0_slots p) \<longrightarrow> l0_slots p ! j = Some q \<longrightarrow> length (l1_slots q) = radix_fanout ps))"

definition has_slot :: "nat \<Rightarrow> RadixTable \<Rightarrow> u32 \<Rightarrow> bool" where
  "has_slot ps t i \<longleftrightarrow> (\<exists>p. l0 t = Some p \<and> unat i div radix_fanout ps < radix_fanout ps \<and>
     l0_slots p ! (unat i div radix_fanout ps) \<noteq> None)"

locale pointer_table =
  fixes wf :: "'s \<Rightarrow> bool"
    and has :: "'s \<Rightarrow> 'i \<Rightarrow> bool"
    and get :: "'s \<Rightarrow> 'i \<Rightarrow> 'v::zero"
    and ensure :: "'a \<Rightarrow> 'i \<Rightarrow> 's \<Rightarrow> bool \<times> 's"
    and put :: "'c \<Rightarrow> 'i \<Rightarrow> 'v \<Rightarrow> 's \<Rightarrow> 's option"
  assumes get_absent: "wf s \<Longrightarrow> \<not> has s i \<Longrightarrow> get s i = 0"
    and ensure_ok: "wf s \<Longrightarrow> ensure a i s = (b, s') \<Longrightarrow>
        wf s' \<and> (b \<longleftrightarrow> has s' i) \<and> (\<forall>j. get s' j = get s j)"
    and put_ok: "wf s \<Longrightarrow> has s i \<Longrightarrow>
        \<exists>s'. put c i v s = Some s' \<and> wf s' \<and> (\<forall>j. get s' j = (if j = i then v else get s j))"
begin

text \<open>Publication of an entity: ensure the slot, then store when there is one. The result lists the
  publications that succeeded.\<close>

definition publish :: "'a \<times> 'c \<times> 'i \<times> 'v \<Rightarrow> 's \<Rightarrow> (bool \<times> 's) option" where
  "publish x s =
     (case x of (a, c, i, v) \<Rightarrow>
        case ensure a i s of
          (False, s1) \<Rightarrow> Some (False, s1)
        | (True, s1) \<Rightarrow> map_option (Pair True) (put c i v s1))"

fun publish_all :: "('a \<times> 'c \<times> 'i \<times> 'v) list \<Rightarrow> 's \<Rightarrow> (('i \<times> 'v) list \<times> 's) option" where
  "publish_all [] s = Some ([], s)"
| "publish_all (x # xs) s =
     (case publish x s of
        None \<Rightarrow> None
      | Some (b, s1) \<Rightarrow>
          (case publish_all xs s1 of
             None \<Rightarrow> None
           | Some (done, s2) \<Rightarrow> Some ((if b then [(fst (snd (snd x)), snd (snd (snd x)))] else []) @ done, s2)))"

lemma publish_ok:
  assumes "wf s"
  shows "\<exists>b s'. publish (a, c, i, v) s = Some (b, s') \<and> wf s' \<and> (\<forall>j. get s' j = (if b \<and> j = i then v else get s j))"
proof -
  obtain b s1 where e: "ensure a i s = (b, s1)" by fastforce
  note e1 = ensure_ok [OF assms e]
  show ?thesis
  proof (cases b)
    case True
    then obtain s2 where "put c i v s1 = Some s2" "wf s2" "\<forall>j. get s2 j = (if j = i then v else get s1 j)"
      using put_ok [of s1 i c v] e1 by blast
    then show ?thesis using True e e1 by (auto simp: publish_def)
  next
    case False
    then show ?thesis using e e1 by (auto simp: publish_def)
  qed
qed

lemma publish_all_ok:
  assumes "wf s"
  shows "\<exists>pub s'. publish_all xs s = Some (pub, s') \<and> wf s' \<and>
    (\<forall>j. get s' j = (case map_of (rev pub) j of Some v \<Rightarrow> v | None \<Rightarrow> get s j))"
  using assms
proof (induction xs arbitrary: s)
  case (Cons x xs)
  obtain a c i v where x: "x = (a, c, i, v)" by (metis surj_pair)
  obtain b s1 where p: "publish x s = Some (b, s1)" "wf s1" "\<And>j. get s1 j = (if b \<and> j = i then v else get s j)"
    using publish_ok [OF Cons.prems] x by metis
  obtain pub s2 where r: "publish_all xs s1 = Some (pub, s2)" "wf s2"
      "\<And>j. get s2 j = (case map_of (rev pub) j of Some w \<Rightarrow> w | None \<Rightarrow> get s1 j)"
    using Cons.IH [OF p(2)] by blast
  have "publish_all (x # xs) s = Some ((if b then [(i, v)] else []) @ pub, s2)" using p(1) r(1) x by simp
  moreover have "get s2 j = (case map_of (rev ((if b then [(i, v)] else []) @ pub)) j of Some w \<Rightarrow> w | None \<Rightarrow> get s j)" for j
    using r(3) [of j] p(3) [of j] by (cases "map_of (rev pub) j") (auto simp: map_add_def)
  ultimately show ?case using r(2) by blast
qed simp

end

definition state_ensure :: "nat \<Rightarrow> u64 option \<Rightarrow> u32 \<Rightarrow> RadixState \<Rightarrow> bool \<times> RadixState" where
  "state_ensure ps pa i s = (case ensure_l1 ps pa i (table s) of (b, t) \<Rightarrow> (b, s\<lparr>table := t\<rparr>))"

definition state_put :: "nat \<Rightarrow> u64 \<times> u64 \<Rightarrow> u32 \<Rightarrow> u64 \<Rightarrow> RadixState \<Rightarrow> RadixState option" where
  "state_put ps c i v s = radix_set ps (fst c) (snd c) i v s"

lemma set_trace_table: "\<exists>s'. set_trace i v p c l s = Some s' \<and> table s' = table s"
  using dump_lines_some(4) [of i v p c l] by (auto simp: set_trace_def split: option.splits)

lemma set_watch_table: "\<exists>s'. set_watch i v c tt s = Some s' \<and> table s' = table s"
proof -
  have "uart_seq [lit ''TT4-WATCH-ARM: slot='', Some (uart_write_hex64 tt), lit '' val='', Some (uart_write_hex64 v), lit [CHR 0x0A]] \<noteq> None"
    by (rule uart_seq_some) simp
  then show ?thesis
    unfolding set_watch_def arm_thread_table_4_watchpoint_def by (cases "uart_seq [lit ''TT4-WATCH-ARM: slot='', Some (uart_write_hex64 tt), lit '' val='', Some (uart_write_hex64 v), lit [CHR 0x0A]]") simp_all
qed

lemma id_split: "unat i div f = unat j div f \<Longrightarrow> unat i mod f = unat j mod f \<Longrightarrow> i = (j :: u32)"
  by (metis div_mult_mod_eq word_unat_eq_iff)

lemma ensure_l1_ok:
  assumes "wf_radix ps t" "ensure_l1 ps pa i t = (b, t')"
  shows "wf_radix ps t'" "b \<longleftrightarrow> has_slot ps t' i" "radix_get ps t' j = radix_get ps t j"
proof -
  let ?f = "radix_fanout ps"
  have f: "0 < ?f" using assms(1) by (simp add: wf_radix_def)
  have "wf_radix ps t' \<and> (b \<longleftrightarrow> has_slot ps t' i) \<and> radix_get ps t' j = radix_get ps t j"
  proof (cases "l0 t")
    case None
    then show ?thesis using assms by (auto simp: ensure_l1_def has_slot_def)
  next
    case (Some p)
    have len: "length (l0_slots p) = ?f" using assms(1) Some by (simp add: wf_radix_def)
    show ?thesis
    proof (cases "unat i div ?f < ?f \<and> l0_slots p ! (unat i div ?f) = None")
      case new: True
      show ?thesis
      proof (cases pa)
        case None
        then show ?thesis using assms new Some by (auto simp: ensure_l1_def has_slot_def Let_def)
      next
        case (Some a)
        then have t': "b" "t' = t\<lparr>l0 := Some (p\<lparr>l0_slots := (l0_slots p)[unat i div ?f := Some \<lparr>l1_va = a, l1_slots = replicate ?f 0\<rparr>]\<rparr>)\<rparr>"
          using assms(2) new \<open>l0 t = Some p\<close> by (auto simp: ensure_l1_def Let_def)
        have "wf_radix ps t'" using assms(1) \<open>l0 t = Some p\<close> t' new by (auto simp: wf_radix_def nth_list_update split: if_splits)
        moreover have "has_slot ps t' i" using t' new len by (simp add: has_slot_def)
        moreover have "radix_get ps t' j = radix_get ps t j"
          using t' new len f \<open>l0 t = Some p\<close> by (auto simp: radix_get_def Let_def nth_list_update)
        ultimately show ?thesis using t'(1) by simp
      qed
    next
      case False
      then show ?thesis using assms Some by (auto simp: ensure_l1_def has_slot_def Let_def split: if_splits)
    qed
  qed
  then show "wf_radix ps t'" "b \<longleftrightarrow> has_slot ps t' i" "radix_get ps t' j = radix_get ps t j" by auto
qed

lemma radix_set_ok:
  assumes "wf_radix ps (table s)" "has_slot ps (table s) i"
  shows "\<exists>s'. radix_set ps loc tt i v s = Some s' \<and> wf_radix ps (table s') \<and>
    (\<forall>j. radix_get ps (table s') j = (if j = i then v else radix_get ps (table s) j))"
proof -
  let ?f = "radix_fanout ps" and ?a = "unat i div radix_fanout ps" and ?b = "unat i mod radix_fanout ps"
  obtain p q where p: "l0 (table s) = Some p" "?a < ?f" "l0_slots p ! ?a = Some q"
    using assms(2) by (auto simp: has_slot_def)
  have f: "0 < ?f" and len: "length (l0_slots p) = ?f" "length (l1_slots q) = ?f"
    using assms(1) p by (auto simp: wf_radix_def)
  define q' where "q' = q\<lparr>l1_slots := (l1_slots q)[?b := v]\<rparr>"
  define t' where "t' = \<lparr>l0 = Some (p\<lparr>l0_slots := (l0_slots p)[?a := Some q']\<rparr>)\<rparr>"
  have "\<exists>s'. radix_set ps loc tt i v s = Some s' \<and> table s' = t'"
  proof -
    define s1 where "s1 = s\<lparr>table := t', set_log := record_set i v (l1_slots q ! ?b) loc (l1_va q) (of_nat ?b) (set_log s)\<rparr>"
    obtain s2 where s2: "set_trace i v (l1_slots q ! ?b) loc (l1_va q) s1 = Some s2" "table s2 = t'"
      using set_trace_table [of i v "l1_slots q ! ?b" loc "l1_va q" s1] by (auto simp: s1_def)
    then have "radix_set ps loc tt i v s = set_watch i v loc tt s2"
      using p len by (simp add: radix_set_def Let_def s1_def t'_def q'_def)
    then show ?thesis using set_watch_table [of i v loc tt s2] s2(2) by auto
  qed
  moreover have "wf_radix ps t'" using assms(1) p len by (auto simp: wf_radix_def t'_def q'_def nth_list_update split: if_splits)
  moreover have "radix_get ps t' j = (if j = i then v else radix_get ps (table s) j)" for j
  proof -
    have m: "unat j mod ?f < ?f" "?b < ?f" using f by simp_all
    show ?thesis
    proof (cases "unat j div ?f = ?a")
      case True
      have "radix_get ps t' j = l1_slots q' ! (unat j mod ?f)"
        using True p len by (simp add: radix_get_def Let_def t'_def)
      moreover have "radix_get ps (table s) j = l1_slots q ! (unat j mod ?f)"
        using True p len by (simp add: radix_get_def Let_def)
      ultimately show ?thesis using True id_split [of j ?f i] m len by (auto simp: q'_def nth_list_update)
    next
      case False
      then show ?thesis using p len by (auto simp: radix_get_def Let_def t'_def)
    qed
  qed
  ultimately show ?thesis by metis
qed

interpretation rt: pointer_table "\<lambda>s. wf_radix ps (table s)" "\<lambda>s. has_slot ps (table s)" "\<lambda>s. radix_get ps (table s)"
  "state_ensure ps" "state_put ps" for ps
proof
  fix s :: RadixState and i and c :: "u64 \<times> u64" and v :: u64
  assume wf: "wf_radix ps (table s)"
  show "\<not> has_slot ps (table s) i \<Longrightarrow> radix_get ps (table s) i = 0"
    by (auto simp: has_slot_def radix_get_def Let_def split: option.splits)
  show "has_slot ps (table s) i \<Longrightarrow> \<exists>s'. state_put ps c i v s = Some s' \<and> wf_radix ps (table s') \<and>
      (\<forall>j. radix_get ps (table s') j = (if j = i then v else radix_get ps (table s) j))"
    using radix_set_ok [OF wf] by (simp add: state_put_def)
next
  fix s s' :: RadixState and i pa b
  assume "wf_radix ps (table s)" "state_ensure ps pa i s = (b, s')"
  then show "wf_radix ps (table s') \<and> (b \<longleftrightarrow> has_slot ps (table s') i) \<and> (\<forall>j. radix_get ps (table s') j = radix_get ps (table s) j)"
    using ensure_l1_ok [of ps "table s" pa i] by (auto simp: state_ensure_def split: prod.splits)
qed

section \<open>Properties\<close>

text \<open>One publication as the callers do it: ensure the second-level page, then store the pointer if
  that succeeded. The arguments are the allocator's answer, the caller's location and the thread
  table's first-level address, the id and the pointer.\<close>

type_synonym publication = "u64 option \<times> (u64 \<times> u64) \<times> u32 \<times> u64"

fun publish_entities :: "nat \<Rightarrow> publication list \<Rightarrow> RadixState \<Rightarrow> ((u32 \<times> u64) list \<times> RadixState) option" where
  "publish_entities ps [] s = Some ([], s)"
| "publish_entities ps ((pa, (loc, tt), i, v) # xs) s =
     (case ensure_l1 ps pa i (table s) of
        (False, t) \<Rightarrow> publish_entities ps xs (s\<lparr>table := t\<rparr>)
      | (True, t) \<Rightarrow>
          (case radix_set ps loc tt i v (s\<lparr>table := t\<rparr>) of
             None \<Rightarrow> None
           | Some s1 \<Rightarrow> map_option (apfst ((#) (i, v))) (publish_entities ps xs s1)))"

lemma publish_entities_rt: "publish_entities ps xs s = rt.publish_all ps xs s"
proof (induction xs arbitrary: s)
  case (Cons x xs)
  obtain pa loc tt i v where x: "x = (pa, (loc, tt), i, v)" by (metis surj_pair)
  obtain b t where e: "ensure_l1 ps pa i (table s) = (b, t)" by fastforce
  have e': "state_ensure ps pa i s = (b, s\<lparr>table := t\<rparr>)" using e by (simp add: state_ensure_def)
  have p: "state_put ps (loc, tt) i v s1 = radix_set ps loc tt i v s1" for s1 by (simp add: state_put_def)
  show ?case
  proof (cases b)
    case True
    then show ?thesis
      using Cons.IH x e e' p
      by (cases "radix_set ps loc tt i v (s\<lparr>table := t\<rparr>)") (auto simp: rt.publish_def split: option.splits)
  next
    case False
    then show ?thesis using Cons.IH x e e' by (auto simp: rt.publish_def split: option.splits)
  qed
qed simp

text \<open>C29 The table is a map from ids to the pointers last published. From a well-formed table, any
  sequence of publications, with any pattern of allocation failures, never stores through a missing
  page; afterwards looking up an id returns the pointer of its last successful publication, and the
  earlier content for every other id.\<close>

theorem radix_publish_lookup:
  assumes "wf_radix ps (table s)"
  shows "\<exists>pub s'. publish_entities ps xs s = Some (pub, s') \<and> wf_radix ps (table s') \<and>
    (\<forall>j. radix_get ps (table s') j = (case map_of (rev pub) j of Some v \<Rightarrow> v | None \<Rightarrow> radix_get ps (table s) j))"
  unfolding publish_entities_rt using rt.publish_all_ok [of ps s xs] assms by simp

definition fresh_state :: "nat \<Rightarrow> RadixState" where
  "fresh_state ps = \<lparr>table = \<lparr>l0 = Some \<lparr>l0_va = 4096, l0_slots = replicate (radix_fanout ps) None\<rparr>\<rparr>,
     set_log = new_log, uart = [], watch_addr = 0\<rparr>"

lemma fresh_wf: "8 \<le> ps \<Longrightarrow> wf_radix ps (table (fresh_state ps))"
  by (simp add: fresh_state_def wf_radix_def radix_fanout_def)

theorem radix_publish_lookup_witness:
  "\<exists>pub s'. publish_entities 64 [(Some 8192, (1, 4096), 5, 77), (None, (1, 4096), 60, 88)] (fresh_state 64) = Some (pub, s') \<and>
     wf_radix 64 (table s')"
  using radix_publish_lookup [of 64 "fresh_state 64" "[(Some 8192, (1, 4096), 5, 77), (None, (1, 4096), 60, 88)]"]
    fresh_wf [of 64] by auto

text \<open>C30 Numbers on the serial port read back. The decimal writers never overrun their digit buffers of
  ten and twenty bytes, write digits only, and the digits denote the number; the sixteen digits after
  the prefix of the hexadecimal writer denote the number.\<close>

theorem uart_numbers_roundtrip:
  "(\<exists>s. uart_write_u32 x = Some s \<and> dec_value s = unat x \<and> (\<forall>c\<in>set s. is_digit c)) \<and>
   (\<exists>s. uart_write_u64 y = Some s \<and> dec_value s = unat y \<and> (\<forall>c\<in>set s. is_digit c)) \<and>
   take 2 (uart_write_hex64 z) = ''0x'' \<and> length (uart_write_hex64 z) = 18 \<and> hex_value (drop 2 (uart_write_hex64 z)) = unat z"
proof -
  have "take 2 (uart_write_hex64 z) = ''0x'' \<and> length (uart_write_hex64 z) = 18" by (simp add: uart_write_hex64_def)
  then show ?thesis
    using uart_write_dec_spec [OF unat_lt_dec(1), of x] uart_write_dec_spec [OF unat_lt_dec(2), of y] hex64_value [of z]
    unfolding uart_write_u32_def uart_write_u64_def by blast
qed

theorem uart_numbers_roundtrip_witness:
  "uart_write_u32 4096 = Some ''4096'' \<and> hex_value (drop 2 (uart_write_hex64 255)) = 255"
proof -
  have "uart_write_u32 4096 = Some ''4096''" by code_simp
  then show ?thesis using uart_numbers_roundtrip [of 4096 0 255] by simp
qed

lemma set_log_window_parts:
  assumes "length as < 2 ^ 64"
  shows "window_hits tid (fold log_one as new_log) =
      filter (\<lambda>e. le_tid e = tid) (drop (length as - 256) (map (\<lambda>k. log_entry k (as ! k)) [0..<length as]))"
    and "\<exists>s. dump_set_log_for_tid tid (fold log_one as new_log) = Some s"
proof -
  have "log_holds as (fold log_one as new_log)" using log_all_holds [of as] assms by simp
  note w = log_window [OF this assms]
  show "window_hits tid (fold log_one as new_log) =
      filter (\<lambda>e. le_tid e = tid) (drop (length as - 256) (map (\<lambda>k. log_entry k (as ! k)) [0..<length as]))"
    unfolding window_hits_def w by (simp add: SET_LOG_SIZE_def)
  have "list_all (\<lambda>p. p \<noteq> None) (map dump_entry hs)" for hs by (induction hs) (simp_all del: not_None_eq)
  then have "dump_set_log_for_tid tid (fold log_one as new_log) \<noteq> None"
    unfolding dump_set_log_for_tid_def Let_def by (intro uart_seq_some) (simp del: not_None_eq)
  then show "\<exists>s. dump_set_log_for_tid tid (fold log_one as new_log) = Some s" by blast
qed

text \<open>The dump shows the last stores. After any number of stores below two to the 64, the entries the
  dump selects for an id are exactly those of the last 256 stores that were for that id, in order and
  with their sequence numbers, and the dump completes.\<close>

theorem set_log_window:
  assumes "length as < 2 ^ 64"
  shows "(window_hits tid (fold log_one as new_log) =
      filter (\<lambda>e. le_tid e = tid) (drop (length as - 256) (map (\<lambda>k. log_entry k (as ! k)) [0..<length as]))) \<and>
    (\<exists>s. dump_set_log_for_tid tid (fold log_one as new_log) = Some s)"
  using set_log_window_parts [OF assms] by blast

theorem set_log_window_witness:
  "map le_val (window_hits 4 (fold log_one [(4, 10, 0, 0, 0, 4), (5, 11, 0, 0, 0, 5), (4, 12, 10, 0, 0, 4)] new_log)) = [10, 12]"
  using set_log_window [of "[(4, 10, 0, 0, 0, 4), (5, 11, 0, 0, 0, 5), (4, 12, 10, 0, 0, 4)]" 4]
  by (simp add: upt_rec)

end
