(* ===== verification/IdMap.thy ===== *)
theory IdMap
  imports Main
begin

text \<open>
  The contract of an index from keys to values with insertions that may be refused: what a lookup answers after
  an insertion and after a removal, and that every history of the two then answers as a partial function does.
  The radix tree of the ports and the hash trie of the waiters both provide it.
\<close>

section \<open>The contract of the map\<close>

datatype ('k, 'v) map_op = InsOp 'k 'v | DelOp 'k

datatype 'v map_ans = InsAns bool | DelAns "'v option"

text \<open>The answers of a map are those of a partial function, except that an insertion may be refused.\<close>

fun spec_run :: "('k, 'v) map_op list \<Rightarrow> 'v map_ans list \<Rightarrow> ('k \<Rightarrow> 'v option) \<Rightarrow> ('k \<Rightarrow> 'v option) option" where
  "spec_run [] [] M = Some M"
| "spec_run (InsOp k v # ops) (InsAns ok # as) M = spec_run ops as (if ok then M(k \<mapsto> v) else M)"
| "spec_run (DelOp k # ops) (DelAns r # as) M = (if r = M k then spec_run ops as (M(k := None)) else None)"
| "spec_run _ _ M = None"

locale id_map =
  fixes inv :: "'s \<Rightarrow> bool"
    and look :: "'s \<Rightarrow> 'k \<Rightarrow> 'v option"
    and ins :: "'k \<Rightarrow> 'v \<Rightarrow> 's \<Rightarrow> bool \<times> 's"
    and del :: "'k \<Rightarrow> 's \<Rightarrow> 'v option \<times> 's"
    and room :: "'k \<Rightarrow> 'v \<Rightarrow> 's \<Rightarrow> bool"
  assumes ins_map: "inv s \<Longrightarrow> room k v s \<Longrightarrow> ins k v s = (ok, s') \<Longrightarrow> inv s' \<and> look s' = (if ok then (look s)(k \<mapsto> v) else look s)"
    and del_map: "inv s \<Longrightarrow> del k s = (r, s') \<Longrightarrow> inv s' \<and> r = look s k \<and> look s' = (look s)(k := None)"
begin

fun run :: "('k, 'v) map_op list \<Rightarrow> 's \<Rightarrow> 'v map_ans list \<times> 's" where
  "run [] s = ([], s)"
| "run (InsOp k v # ops) s = (case ins k v s of (ok, s1) \<Rightarrow> apfst ((#) (InsAns ok)) (run ops s1))"
| "run (DelOp k # ops) s = (case del k s of (r, s1) \<Rightarrow> apfst ((#) (DelAns r)) (run ops s1))"

fun roomy :: "('k, 'v) map_op list \<Rightarrow> 's \<Rightarrow> bool" where
  "roomy [] s = True"
| "roomy (InsOp k v # ops) s = (room k v s \<and> roomy ops (snd (ins k v s)))"
| "roomy (DelOp k # ops) s = roomy ops (snd (del k s))"

lemma run_refines: "inv s \<Longrightarrow> roomy ops s \<Longrightarrow> run ops s = (as, s') \<Longrightarrow> inv s' \<and> spec_run ops as (look s) = Some (look s')"
proof (induction ops arbitrary: s as)
  case (Cons op ops)
  show ?case
  proof (cases op)
    case (InsOp k v)
    obtain ok s1 where i: "ins k v s = (ok, s1)" by fastforce
    obtain as1 s2 where r: "run ops s1 = (as1, s2)" by fastforce
    show ?thesis using Cons.IH [of s1 as1] Cons.prems InsOp i r ins_map [of s k v ok s1] by auto
  next
    case (DelOp k)
    obtain res s1 where d: "del k s = (res, s1)" by fastforce
    obtain as1 s2 where r: "run ops s1 = (as1, s2)" by fastforce
    show ?thesis using Cons.IH [of s1 as1] Cons.prems DelOp d r del_map [of s k res s1] by (auto simp: fun_upd_def)
  qed
qed simp

end

end
