(* ===== verification/Art.thy ===== *)
theory Art
  imports Telix_Prelude IdMap
begin

text \<open>
  \<open>kernel/src/ipc/art.rs\<close>: the adaptive radix tree from 48-bit port ids to values. A tagged pointer is
  a value of the datatype below: null, leaf or inner node; the arrays of a small node are its occupied
  entries, in order. An operation on a slot returns the slot's new content. Memory is a sequence of
  allocation outcomes together with the number of live blocks of each kind, so that releases,
  immediate or deferred to a grace period, are accounted for. The printing of diagnostics is not
  modelled.
\<close>

section \<open>Keys, nodes and memory\<close>

definition KEY_LEN :: nat where "KEY_LEN = 6"

definition MAX_PARTIAL :: nat where "MAX_PARTIAL = 6"

definition key_at :: "u64 \<Rightarrow> nat \<Rightarrow> u8" where
  "key_at key depth = ucast (drop_bit (8 * (KEY_LEN - 1 - depth)) key AND 0xFF)"

datatype art =
    Null
  | Leaf u64 u64
  | Node4 "u8 list" "(u8 \<times> art) list"
  | Node16 "u8 list" "(u8 \<times> art) list"
  | Node256 "u8 list" nat "art list"

datatype block = BLeaf | BNode4 | BNode16 | BNode256

record ArtMem =
  outcomes :: "bool list"
  live :: "block \<Rightarrow> int"

definition alloc_block :: "block \<Rightarrow> ArtMem \<Rightarrow> bool \<times> ArtMem" where
  "alloc_block b m =
     (case outcomes m of
        [] \<Rightarrow> (False, m)
      | ok # os \<Rightarrow> (ok, m\<lparr>outcomes := os, live := (live m)(b := live m b + (if ok then 1 else 0))\<rparr>))"

definition release :: "block \<Rightarrow> ArtMem \<Rightarrow> ArtMem" where
  "release b m = m\<lparr>live := (live m)(b := live m b - 1)\<rparr>"

fun partial :: "art \<Rightarrow> u8 list" where
  "partial (Node4 p es) = p"
| "partial (Node16 p es) = p"
| "partial (Node256 p n cs) = p"
| "partial _ = []"

fun block_of :: "art \<Rightarrow> block" where
  "block_of (Node4 p es) = BNode4"
| "block_of (Node16 p es) = BNode16"
| "block_of (Node256 p n cs) = BNode256"
| "block_of _ = BLeaf"

definition rcu_defer_free_node :: "art \<Rightarrow> ArtMem \<Rightarrow> ArtMem" where
  "rcu_defer_free_node t m = release (block_of t) m"

text \<open>Allocation of an inner node: the header keeps at most MAX_PARTIAL prefix bytes.\<close>

definition alloc_node4 :: "u8 list \<Rightarrow> ArtMem \<Rightarrow> u8 list option \<times> ArtMem" where
  "alloc_node4 p m = (case alloc_block BNode4 m of (ok, m') \<Rightarrow> (if ok then Some (take MAX_PARTIAL p) else None, m'))"

definition alloc_node16 :: "u8 list \<Rightarrow> ArtMem \<Rightarrow> u8 list option \<times> ArtMem" where
  "alloc_node16 p m = (case alloc_block BNode16 m of (ok, m') \<Rightarrow> (if ok then Some (take MAX_PARTIAL p) else None, m'))"

definition alloc_node256 :: "u8 list \<Rightarrow> ArtMem \<Rightarrow> u8 list option \<times> ArtMem" where
  "alloc_node256 p m = (case alloc_block BNode256 m of (ok, m') \<Rightarrow> (if ok then Some (take MAX_PARTIAL p) else None, m'))"

section \<open>Children of a node\<close>

fun find_child :: "art \<Rightarrow> u8 \<Rightarrow> art" where
  "find_child (Node4 p es) byte = (case map_of es byte of Some c \<Rightarrow> c | None \<Rightarrow> Null)"
| "find_child (Node16 p es) byte = (case map_of es byte of Some c \<Rightarrow> c | None \<Rightarrow> Null)"
| "find_child (Node256 p n cs) byte = cs ! unat byte"
| "find_child _ byte = Null"

text \<open>The writer's slot is an index into the node's child array.\<close>

fun find_child_slot :: "art \<Rightarrow> u8 \<Rightarrow> nat option" where
  "find_child_slot (Node4 p es) byte = first_idx (\<lambda>e. fst e = byte) es"
| "find_child_slot (Node16 p es) byte = first_idx (\<lambda>e. fst e = byte) es"
| "find_child_slot (Node256 p n cs) byte = (if cs ! unat byte \<noteq> Null then Some (unat byte) else None)"
| "find_child_slot _ byte = None"

fun child_at :: "art \<Rightarrow> nat \<Rightarrow> art" where
  "child_at (Node4 p es) i = snd (es ! i)"
| "child_at (Node16 p es) i = snd (es ! i)"
| "child_at (Node256 p n cs) i = cs ! i"
| "child_at _ i = Null"

fun set_child :: "art \<Rightarrow> nat \<Rightarrow> art \<Rightarrow> art" where
  "set_child (Node4 p es) i c = Node4 p (es[i := (fst (es ! i), c)])"
| "set_child (Node16 p es) i c = Node16 p (es[i := (fst (es ! i), c)])"
| "set_child (Node256 p n cs) i c = Node256 p n (cs[i := c])"
| "set_child t i c = t"

definition sorted_pos :: "u8 \<Rightarrow> (u8 \<times> art) list \<Rightarrow> nat" where
  "sorted_pos byte es = (case first_idx (\<lambda>e. byte < fst e) es of Some i \<Rightarrow> i | None \<Rightarrow> length es)"

definition insert_entry :: "u8 \<Rightarrow> art \<Rightarrow> (u8 \<times> art) list \<Rightarrow> (u8 \<times> art) list" where
  "insert_entry byte c es = (let pos = sorted_pos byte es in take pos es @ [(byte, c)] @ drop pos es)"

definition grow_to_16 :: "art \<Rightarrow> u8 list \<Rightarrow> (u8 \<times> art) list \<Rightarrow> u8 \<Rightarrow> art \<Rightarrow> ArtMem \<Rightarrow> bool \<times> art \<times> ArtMem" where
  "grow_to_16 t p es byte c m =
     (case alloc_node16 p m of
        (None, m1) \<Rightarrow> (False, t, m1)
      | (Some p', m1) \<Rightarrow> (True, Node16 p' (insert_entry byte c es), rcu_defer_free_node t m1))"

definition grow_to_256 :: "art \<Rightarrow> u8 list \<Rightarrow> (u8 \<times> art) list \<Rightarrow> u8 \<Rightarrow> art \<Rightarrow> ArtMem \<Rightarrow> bool \<times> art \<times> ArtMem" where
  "grow_to_256 t p es byte c m =
     (case alloc_node256 p m of
        (None, m1) \<Rightarrow> (False, t, m1)
      | (Some p', m1) \<Rightarrow>
          let cs = fold (\<lambda>(k, ch) cs. cs[unat k := ch]) es (replicate 256 Null)
          in (True, Node256 p' (unat (of_nat (length es + 1) :: u8)) (cs[unat byte := c]), rcu_defer_free_node t m1))"

fun add_child :: "art \<Rightarrow> u8 \<Rightarrow> art \<Rightarrow> ArtMem \<Rightarrow> bool \<times> art \<times> ArtMem" where
  "add_child (Node4 p es) byte c m =
     (if length es < 4 then
        (case alloc_node4 p m of
           (None, m1) \<Rightarrow> (False, Node4 p es, m1)
         | (Some p', m1) \<Rightarrow> (True, Node4 p' (insert_entry byte c es), rcu_defer_free_node (Node4 p es) m1))
      else grow_to_16 (Node4 p es) p es byte c m)"
| "add_child (Node16 p es) byte c m =
     (if length es < 16 then
        (case alloc_node16 p m of
           (None, m1) \<Rightarrow> (False, Node16 p es, m1)
         | (Some p', m1) \<Rightarrow> (True, Node16 p' (insert_entry byte c es), rcu_defer_free_node (Node16 p es) m1))
      else grow_to_256 (Node16 p es) p es byte c m)"
| "add_child (Node256 p n cs) byte c m = (True, Node256 p (min 255 (n + 1)) (cs[unat byte := c]), m)"
| "add_child t byte c m = (False, t, m)"

fun cow_node_remove_child :: "art \<Rightarrow> u8 \<Rightarrow> ArtMem \<Rightarrow> art option \<times> ArtMem" where
  "cow_node_remove_child (Node4 p es) byte m =
     (case alloc_node4 p m of
        (None, m1) \<Rightarrow> (None, m1)
      | (Some p', m1) \<Rightarrow> (Some (Node4 p' (filter (\<lambda>e. fst e \<noteq> byte) es)), m1))"
| "cow_node_remove_child (Node16 p es) byte m =
     (case alloc_node16 p m of
        (None, m1) \<Rightarrow> (None, m1)
      | (Some p', m1) \<Rightarrow> (Some (Node16 p' (filter (\<lambda>e. fst e \<noteq> byte) es)), m1))"
| "cow_node_remove_child t byte m = (None, m)"

fun clone_node_with_partial :: "art \<Rightarrow> u8 list \<Rightarrow> ArtMem \<Rightarrow> art option \<times> ArtMem" where
  "clone_node_with_partial (Node4 p es) np m =
     (case alloc_node4 np m of (None, m1) \<Rightarrow> (None, m1) | (Some p', m1) \<Rightarrow> (Some (Node4 p' es), m1))"
| "clone_node_with_partial (Node16 p es) np m =
     (case alloc_node16 np m of (None, m1) \<Rightarrow> (None, m1) | (Some p', m1) \<Rightarrow> (Some (Node16 p' es), m1))"
| "clone_node_with_partial (Node256 p n cs) np m =
     (case alloc_node256 np m of (None, m1) \<Rightarrow> (None, m1) | (Some p', m1) \<Rightarrow> (Some (Node256 p' n cs), m1))"
| "clone_node_with_partial t np m = (None, m)"

fun num_children :: "art \<Rightarrow> nat" where
  "num_children (Node4 p es) = length es"
| "num_children (Node16 p es) = length es"
| "num_children (Node256 p n cs) = n"
| "num_children _ = 0"

section \<open>Lookup\<close>

text \<open>The number of prefix bytes that agree with the key from a depth on.\<close>

definition match_len :: "u8 list \<Rightarrow> u64 \<Rightarrow> nat \<Rightarrow> nat" where
  "match_len p key depth =
     (case first_idx (\<lambda>i. depth + i \<ge> KEY_LEN \<or> p ! i \<noteq> key_at key (depth + i)) [0..<length p] of
        Some i \<Rightarrow> i | None \<Rightarrow> length p)"

function lookup_from :: "art \<Rightarrow> u64 \<Rightarrow> nat \<Rightarrow> u64 option" where
  "lookup_from t key depth =
     (case t of
        Null \<Rightarrow> None
      | Leaf k v \<Rightarrow> if k = key then Some v else None
      | _ \<Rightarrow>
          let plen = length (partial t)
          in if match_len (partial t) key depth < plen then None
             else let d = depth + plen
                  in if d \<ge> KEY_LEN then None
                     else lookup_from (find_child t (key_at key d)) key (d + 1))"
  by pat_completeness auto
termination
  by (relation "measure (\<lambda>(t, key, depth). KEY_LEN - depth)") auto

declare lookup_from.simps [simp del]

datatype LookupOutcome =
    Found u64
  | EmptySlot nat nat
  | LeafKeyMismatch u64 u64 nat
  | PartialMismatch nat u8 u8 art
  | DepthExceededInPartial nat nat
  | DepthExceededAfterPartial nat
  | MissingChild nat u8 art nat
  | WalkRunaway nat

function lookup_diag_from :: "art \<Rightarrow> u64 \<Rightarrow> nat \<Rightarrow> nat \<Rightarrow> LookupOutcome" where
  "lookup_diag_from t key depth step =
     (case t of
        Null \<Rightarrow> EmptySlot step depth
      | Leaf k v \<Rightarrow> if k = key then Found v else LeafKeyMismatch k key depth
      | _ \<Rightarrow>
          let plen = length (partial t); i = match_len (partial t) key depth
          in if i < plen then
               (if depth + i \<ge> KEY_LEN then DepthExceededInPartial (depth + i) plen
                else PartialMismatch (depth + i) (partial t ! i) (key_at key (depth + i)) t)
             else let d = depth + plen
                  in if d \<ge> KEY_LEN then DepthExceededAfterPartial d
                     else let byte = key_at key d; next = find_child t byte
                          in if next = Null then MissingChild d byte t (num_children t)
                             else if step + 1 > 32 then WalkRunaway (d + 1)
                             else lookup_diag_from next key (d + 1) (step + 1))"
  by pat_completeness auto
termination
  by (relation "measure (\<lambda>(t, key, depth, step). KEY_LEN - depth)") auto

declare lookup_diag_from.simps [simp del]

section \<open>Insertion\<close>

function prefix_loop :: "u64 \<Rightarrow> u64 \<Rightarrow> nat \<Rightarrow> nat \<Rightarrow> nat" where
  "prefix_loop old_key new_key depth n =
     (if depth + n < KEY_LEN \<and> key_at old_key (depth + n) = key_at new_key (depth + n)
      then prefix_loop old_key new_key depth (n + 1) else n)"
  by pat_completeness auto
termination
  by (relation "measure (\<lambda>(old_key, new_key, depth, n). KEY_LEN - (depth + n))") auto

declare prefix_loop.simps [simp del]

definition two_entries :: "u8 \<Rightarrow> art \<Rightarrow> u8 \<Rightarrow> art \<Rightarrow> (u8 \<times> art) list" where
  "two_entries old_byte old new_byte new =
     (if old_byte < new_byte then [(old_byte, old), (new_byte, new)] else [(new_byte, new), (old_byte, old)])"

definition split_leaves :: "u64 \<Rightarrow> u64 \<Rightarrow> nat \<Rightarrow> u64 \<Rightarrow> u64 \<Rightarrow> nat \<Rightarrow> ArtMem \<Rightarrow> bool \<times> art \<times> nat \<times> ArtMem" where
  "split_leaves old_key old_value len new_key value depth m =
     (let prefix_len = prefix_loop old_key new_key depth 0;
          plen = min prefix_len MAX_PARTIAL;
          p = map (\<lambda>i. key_at old_key (depth + i)) [0..<plen]
      in (case alloc_node4 p m of
            (None, m1) \<Rightarrow> (False, Leaf old_key old_value, len, m1)
          | (Some p', m1) \<Rightarrow>
              let diverge = depth + prefix_len
              in if diverge \<ge> KEY_LEN then (False, Leaf old_key old_value, len, release BNode4 m1)
                 else (True, Node4 p' (two_entries (key_at old_key diverge) (Leaf old_key old_value)
                                        (key_at new_key diverge) (Leaf new_key value)), len + 1, m1)))"

definition shortened :: "u8 list \<Rightarrow> nat \<Rightarrow> u8 list" where
  "shortened p mlen =
     (let remaining = length p - mlen - 1; avail = MAX_PARTIAL - (mlen + 1)
      in map (\<lambda>i. if i < min (min remaining MAX_PARTIAL) avail then p ! (mlen + 1 + i) else 0) [0..<min remaining MAX_PARTIAL])"

definition split_node :: "art \<Rightarrow> nat \<Rightarrow> u64 \<Rightarrow> u64 \<Rightarrow> nat \<Rightarrow> nat \<Rightarrow> ArtMem \<Rightarrow> bool \<times> art \<times> nat \<times> ArtMem" where
  "split_node t len new_key value depth mlen m =
     (let p = partial t
      in (case alloc_node4 (take (min mlen MAX_PARTIAL) p) m of
            (None, m1) \<Rightarrow> (False, t, len, m1)
          | (Some np, m1) \<Rightarrow>
              (case clone_node_with_partial t (shortened p mlen) m1 of
                 (None, m2) \<Rightarrow> (False, t, len, release BNode4 m2)
               | (Some cloned, m2) \<Rightarrow>
                   (True, Node4 np (two_entries (p ! mlen) cloned (key_at new_key (depth + mlen)) (Leaf new_key value)),
                    len + 1, rcu_defer_free_node t m2))))"

function insert_inner :: "art \<Rightarrow> nat \<Rightarrow> u64 \<Rightarrow> u64 \<Rightarrow> nat \<Rightarrow> ArtMem \<Rightarrow> bool \<times> art \<times> nat \<times> ArtMem" where
  "insert_inner t len key value depth m =
     (case t of
        Null \<Rightarrow> (True, Leaf key value, len + 1, m)
      | Leaf k v \<Rightarrow>
          if k = key then (True, Leaf k value, len, release BLeaf m)
          else split_leaves k v len key value depth m
      | _ \<Rightarrow>
          let plen = length (partial t); mlen = match_len (partial t) key depth
          in if mlen < plen then split_node t len key value depth mlen m
             else let d = depth + plen
                  in if d \<ge> KEY_LEN then (False, t, len, release BLeaf m)
                     else let byte = key_at key d
                          in (case find_child_slot t byte of
                                Some i \<Rightarrow>
                                  (case insert_inner (child_at t i) len key value (d + 1) m of
                                     (ok, c, len', m') \<Rightarrow> (ok, set_child t i c, len', m'))
                              | None \<Rightarrow>
                                  (case add_child t byte (Leaf key value) m of
                                     (ok, t', m') \<Rightarrow> (ok, t', if ok then len + 1 else len, m'))))"
  by pat_completeness auto
termination
  by (relation "measure (\<lambda>(t, len, key, value, depth, m). KEY_LEN - depth)") auto

declare insert_inner.simps [simp del]

section \<open>Removal and iteration\<close>

text \<open>What the parent does when the removal has emptied the slot of a child.\<close>

definition drop_child :: "art \<Rightarrow> u8 \<Rightarrow> ArtMem \<Rightarrow> art \<times> ArtMem" where
  "drop_child t byte m =
     (case t of
        Node256 p n cs \<Rightarrow>
          if n - 1 = 0 then (Null, rcu_defer_free_node t m) else (Node256 p (n - 1) cs, m)
      | _ \<Rightarrow>
          if num_children t \<le> 1 then (Null, rcu_defer_free_node t m)
          else (case cow_node_remove_child t byte m of
                  (Some t', m1) \<Rightarrow> (t', rcu_defer_free_node t m1)
                | (None, m1) \<Rightarrow> (t, m1)))"

function remove_inner :: "art \<Rightarrow> nat \<Rightarrow> u64 \<Rightarrow> nat \<Rightarrow> ArtMem \<Rightarrow> u64 option \<times> art \<times> nat \<times> ArtMem" where
  "remove_inner t len key depth m =
     (case t of
        Null \<Rightarrow> (None, t, len, m)
      | Leaf k v \<Rightarrow> if k = key then (Some v, Null, len - 1, release BLeaf m) else (None, t, len, m)
      | _ \<Rightarrow>
          let plen = length (partial t)
          in if match_len (partial t) key depth < plen then (None, t, len, m)
             else let d = depth + plen
                  in if d \<ge> KEY_LEN then (None, t, len, m)
                     else let byte = key_at key d
                          in (case find_child_slot t byte of
                                None \<Rightarrow> (None, t, len, m)
                              | Some i \<Rightarrow>
                                  (case remove_inner (child_at t i) len key (d + 1) m of
                                     (res, c, len', m') \<Rightarrow>
                                       let t1 = set_child t i c
                                       in if res \<noteq> None \<and> c = Null
                                          then (case drop_child t1 byte m' of (t2, m2) \<Rightarrow> (res, t2, len', m2))
                                          else (res, t1, len', m'))))"
  by pat_completeness auto
termination
  by (relation "measure (\<lambda>(t, len, key, depth, m). KEY_LEN - depth)") auto

declare remove_inner.simps [simp del]

fun for_each_inner :: "art \<Rightarrow> (u64 \<times> u64) list" where
  "for_each_inner Null = []"
| "for_each_inner (Leaf k v) = [(k, v)]"
| "for_each_inner (Node4 p es) = concat (map (\<lambda>e. for_each_inner (snd e)) es)"
| "for_each_inner (Node16 p es) = concat (map (\<lambda>e. for_each_inner (snd e)) es)"
| "for_each_inner (Node256 p n cs) = concat (map (\<lambda>c. if c \<noteq> Null then for_each_inner c else []) cs)"

section \<open>The tree\<close>

record Art =
  art_root :: art
  art_len :: nat

definition new_art :: Art where
  "new_art = \<lparr>art_root = Null, art_len = 0\<rparr>"

definition art_lookup :: "Art \<Rightarrow> u64 \<Rightarrow> u64 option" where
  "art_lookup a key = lookup_from (art_root a) key 0"

definition lookup_diag :: "Art \<Rightarrow> u64 \<Rightarrow> LookupOutcome" where
  "lookup_diag a key = lookup_diag_from (art_root a) key 0 0"

definition art_insert :: "u64 \<Rightarrow> u64 \<Rightarrow> Art \<times> ArtMem \<Rightarrow> bool \<times> Art \<times> ArtMem" where
  "art_insert key value s =
     (case s of (a, m) \<Rightarrow>
        case alloc_block BLeaf m of
          (False, m1) \<Rightarrow> (False, a, m1)
        | (True, m1) \<Rightarrow>
            if art_root a = Null then (True, a\<lparr>art_root := Leaf key value, art_len := art_len a + 1\<rparr>, m1)
            else (case insert_inner (art_root a) (art_len a) key value 0 m1 of
                    (ok, t, len, m2) \<Rightarrow>
                      (ok, \<lparr>art_root = t, art_len = len\<rparr>, if ok then m2 else release BLeaf m2)))"

definition art_remove :: "u64 \<Rightarrow> Art \<times> ArtMem \<Rightarrow> u64 option \<times> Art \<times> ArtMem" where
  "art_remove key s =
     (case s of (a, m) \<Rightarrow>
        if art_root a = Null then (None, a, m)
        else (case remove_inner (art_root a) (art_len a) key 0 m of
                (res, t, len, m1) \<Rightarrow> (res, \<lparr>art_root = t, art_len = len\<rparr>, m1)))"

definition art_for_each :: "Art \<Rightarrow> (u64 \<times> u64) list" where
  "art_for_each a = (if art_root a \<noteq> Null then for_each_inner (art_root a) else [])"

section \<open>Prefixes\<close>

definition agree :: "u8 list \<Rightarrow> u64 \<Rightarrow> nat \<Rightarrow> bool" where
  "agree p key d \<longleftrightarrow> (\<forall>i<length p. d + i < KEY_LEN \<and> p ! i = key_at key (d + i))"

lemma agree_Nil [simp]: "agree [] key d"
  by (simp add: agree_def)

lemma agree_Cons: "agree (b # p) key d \<longleftrightarrow> d < KEY_LEN \<and> b = key_at key d \<and> agree p key (Suc d)"
  unfolding agree_def by (auto simp: less_Suc_eq_0_disj)

lemma agree_append: "agree (p @ q) key d \<longleftrightarrow> agree p key d \<and> agree q key (d + length p)"
  by (induction p arbitrary: d) (auto simp: agree_Cons)

lemma agree_split:
  assumes "n < length p"
  shows "agree p key d \<longleftrightarrow> agree (take n p) key d \<and> d + n < KEY_LEN \<and> p ! n = key_at key (d + n) \<and> agree (drop (Suc n) p) key (d + n + 1)"
proof -
  have "agree p key d \<longleftrightarrow> agree (take n p @ p ! n # drop (Suc n) p) key d" using assms by (simp add: id_take_nth_drop [symmetric])
  then show ?thesis using assms by (simp add: agree_append agree_Cons min_def)
qed

lemma match_len_cases:
  "(match_len p key d = length p \<and> agree p key d) \<or>
   (match_len p key d < length p \<and> \<not> agree p key d \<and> agree (take (match_len p key d) p) key d \<and>
    (d + match_len p key d < KEY_LEN \<longrightarrow> p ! match_len p key d \<noteq> key_at key (d + match_len p key d)))"
proof (cases "first_idx (\<lambda>i. d + i \<ge> KEY_LEN \<or> p ! i \<noteq> key_at key (d + i)) [0..<length p]")
  case None
  then have "match_len p key d = length p" by (simp add: match_len_def)
  moreover have "agree p key d" using None unfolding first_idx_None by (auto simp: agree_def not_le)
  ultimately show ?thesis by simp
next
  case (Some i)
  note f = first_idx_SomeD [OF Some]
  have i: "i < length p" using f(1) by simp
  have "\<not> agree p key d" using f(2) i by (auto simp: agree_def)
  moreover have "agree (take i p) key d" using f(3) i by (auto simp: agree_def not_le)
  ultimately show ?thesis using Some f(2) i by (auto simp: match_len_def)
qed

lemma match_len_full: "match_len p key d < length p \<longleftrightarrow> \<not> agree p key d"
  using match_len_cases [of p key d] by auto

fun is_node :: "art \<Rightarrow> bool" where
  "is_node Null = False"
| "is_node (Leaf k v) = False"
| "is_node _ = True"

lemma lookup_Null [simp]: "lookup_from Null key d = None"
  and lookup_Leaf [simp]: "lookup_from (Leaf k v) key d = (if k = key then Some v else None)"
  by (subst lookup_from.simps, simp)+

lemma lookup_node:
  assumes "is_node t"
  shows "lookup_from t key d =
    (if agree (partial t) key d \<and> d + length (partial t) < KEY_LEN
     then lookup_from (find_child t (key_at key (d + length (partial t)))) key (d + length (partial t) + 1) else None)"
  using assms by (cases t) (subst lookup_from.simps, auto simp: Let_def match_len_full)+

section \<open>Well-formed trees\<close>

definition strictly_sorted :: "(u8 \<times> art) list \<Rightarrow> bool" where
  "strictly_sorted es \<longleftrightarrow> sorted_wrt (<) (map fst es)"

text \<open>\<open>wf_art p t\<close>: the keys below \<open>t\<close> have 48 bits and begin with the bytes \<open>p\<close>; prefixes leave room for
  the branching byte; the entries of small nodes are sorted and fit.\<close>

lemma size_nth_less [termination_simp]: "i < length cs \<Longrightarrow> size (cs ! i :: art) < Suc (size_list size cs)"
  using size_list_estimation' [OF nth_mem, of i cs "size (cs ! i)" size] by simp

fun wf_art :: "u8 list \<Rightarrow> art \<Rightarrow> bool" where
  "wf_art p Null \<longleftrightarrow> True"
| "wf_art p (Leaf k v) \<longleftrightarrow> k < 2 ^ 48 \<and> agree p k 0"
| "wf_art p (Node4 q es) \<longleftrightarrow> length p + length q < KEY_LEN \<and> length es \<le> 4 \<and> strictly_sorted es \<and>
     (\<forall>e\<in>set es. wf_art (p @ q @ [fst e]) (snd e))"
| "wf_art p (Node16 q es) \<longleftrightarrow> length p + length q < KEY_LEN \<and> length es \<le> 16 \<and> strictly_sorted es \<and>
     (\<forall>e\<in>set es. wf_art (p @ q @ [fst e]) (snd e))"
| "wf_art p (Node256 q n cs) \<longleftrightarrow> length p + length q < KEY_LEN \<and> length cs = 256 \<and>
     (\<forall>i<length cs. wf_art (p @ q @ [of_nat i]) (cs ! i))"

lemma sorted_distinct_keys: "strictly_sorted es \<Longrightarrow> distinct (map fst es)"
  unfolding strictly_sorted_def by (induction es) auto

lemma byte_index [simp]: "unat (b :: u8) < 256"
  using unsigned_less [where 'a = nat, of b] by simp

lemma byte_roundtrip: "i < 256 \<Longrightarrow> unat (of_nat i :: u8) = i" "of_nat (unat b) = (b :: u8)"
  by (simp_all add: unat_of_nat)

lemma wf_partial: "wf_art p t \<Longrightarrow> is_node t \<Longrightarrow> length p + length (partial t) < KEY_LEN"
  by (cases t) simp_all

lemma wf_find_child:
  assumes "wf_art p t" "is_node t"
  shows "wf_art (p @ partial t @ [b]) (find_child t b)"
proof -
  have small: "wf_art (p @ q @ [b]) (case map_of es b of Some c \<Rightarrow> c | None \<Rightarrow> Null)"
    if "\<forall>e\<in>set es. wf_art (p @ q @ [fst e]) (snd e)" for q es
    using that by (auto split: option.splits dest!: map_of_SomeD)
  show ?thesis
  proof (cases t)
    case (Node256 q n cs)
    have "length cs = 256" "\<forall>i<length cs. wf_art (p @ q @ [of_nat i]) (cs ! i)" using assms(1) Node256 by simp_all
    then have "wf_art (p @ q @ [of_nat (unat b)]) (cs ! unat b)" using byte_index [of b] by metis
    then show ?thesis using Node256 by (simp add: byte_roundtrip)
  qed (use assms small in simp_all)
qed

text \<open>Induction along paths: for a node, the claim may be used for the children one branching byte
  further down.\<close>

lemma path_induct [case_names step]:
  assumes "\<And>p t. (\<And>b c. is_node t \<Longrightarrow> length p + length (partial t) < KEY_LEN \<Longrightarrow> P (p @ partial t @ [b]) c) \<Longrightarrow> P p t"
  shows "P p t"
proof (induction "KEY_LEN - length p" arbitrary: p t rule: less_induct)
  case less
  show ?case by (rule assms) (rule less, simp)
qed

lemma lookup_prefix:
  "wf_art p t \<Longrightarrow> lookup_from t key (length p) = Some v \<Longrightarrow> key < 2 ^ 48 \<and> agree p key 0"
proof (induction p t rule: path_induct)
  case (step p t)
  show ?case
  proof (cases "is_node t")
    case True
    let ?q = "partial t" and ?d = "length p + length (partial t)"
    have a: "agree ?q key (length p)" "?d < KEY_LEN" "lookup_from (find_child t (key_at key ?d)) key (?d + 1) = Some v"
      using step.prems(2) lookup_node [OF True] by (auto split: if_splits)
    have "key < 2 ^ 48 \<and> agree (p @ ?q @ [key_at key ?d]) key 0"
      using step.IH [OF True a(2), of "key_at key ?d" "find_child t (key_at key ?d)"] wf_find_child [OF step.prems(1) True] a(3)
      by simp
    then show ?thesis by (simp add: agree_append)
  next
    case False
    then show ?thesis using step.prems by (cases t) (auto split: if_splits)
  qed
qed

section \<open>Census and child counts\<close>

fun census :: "block \<Rightarrow> art \<Rightarrow> int" where
  "census b Null = 0"
| "census b (Leaf k v) = (if b = BLeaf then 1 else 0)"
| "census b (Node4 p es) = (if b = BNode4 then 1 else 0) + (\<Sum>e\<leftarrow>es. census b (snd e))"
| "census b (Node16 p es) = (if b = BNode16 then 1 else 0) + (\<Sum>e\<leftarrow>es. census b (snd e))"
| "census b (Node256 p n cs) = (if b = BNode256 then 1 else 0) + (\<Sum>c\<leftarrow>cs. census b c)"

definition occupied :: "art list \<Rightarrow> nat" where
  "occupied cs = length (filter (\<lambda>c. c \<noteq> Null) cs)"

text \<open>The stored child count of every large node is at least the number of its children; eight bits allow
  that up to 255 children.\<close>

fun counted :: "art \<Rightarrow> bool" where
  "counted (Node4 p es) \<longleftrightarrow> (\<forall>e\<in>set es. counted (snd e))"
| "counted (Node16 p es) \<longleftrightarrow> (\<forall>e\<in>set es. counted (snd e))"
| "counted (Node256 p n cs) \<longleftrightarrow> occupied cs \<le> n \<and> (\<forall>c\<in>set cs. counted c)"
| "counted _ \<longleftrightarrow> True"

text \<open>No large node on any path has 255 children or more.\<close>

fun spare :: "art \<Rightarrow> bool" where
  "spare (Node4 p es) \<longleftrightarrow> (\<forall>e\<in>set es. spare (snd e))"
| "spare (Node16 p es) \<longleftrightarrow> (\<forall>e\<in>set es. spare (snd e))"
| "spare (Node256 p n cs) \<longleftrightarrow> occupied cs < 255 \<and> (\<forall>c\<in>set cs. spare c)"
| "spare _ \<longleftrightarrow> True"

lemma sum_list_upd: "i < length xs \<Longrightarrow> (\<Sum>x\<leftarrow>xs[i := y]. f x) = (\<Sum>x\<leftarrow>xs. f x) + (f y - f (xs ! i))"
  for f :: "'a \<Rightarrow> int"
  by (induction xs arbitrary: i) (auto split: nat.splits)

lemma occupied_upd: "i < length cs \<Longrightarrow> int (occupied (cs[i := c])) = int (occupied cs) + ((if c = Null then 0 else 1) - (if cs ! i = Null then 0 else 1))"
proof -
  have o: "int (occupied cs) = (\<Sum>c\<leftarrow>cs. if c = Null then 0 else 1)" for cs :: "art list"
    unfolding occupied_def by (induction cs) auto
  assume "i < length cs"
  then show ?thesis unfolding o by (simp add: sum_list_upd)
qed

lemma map_of_update:
  "i < length es \<Longrightarrow> distinct (map fst es) \<Longrightarrow> map_of (es[i := (fst (es ! i), c)]) b = (if b = fst (es ! i) then Some c else map_of es b)"
proof (induction es arbitrary: i)
  case (Cons e es)
  show ?case
  proof (cases i)
    case (Suc j)
    then have "j < length es" using Cons.prems by simp
    then have "fst (es ! j) \<in> fst ` set es" by simp
    then have "fst (es ! j) \<noteq> fst e" using Cons.prems(2) by (metis distinct.simps(2) list.simps(9) set_map)
    then show ?thesis using Cons Suc by auto
  qed (use Cons.prems in auto)
qed simp

lemma map_fst_upd: "i < length es \<Longrightarrow> map fst (es[i := (fst (es ! i), c)]) = map fst es"
  by (simp add: map_update list_update_same_conv)

lemma first_idx_key:
  assumes "first_idx (\<lambda>e. fst e = b) es = Some i"
  shows "i < length es" "fst (es ! i) = b" "map_of es b = Some (snd (es ! i))"
proof -
  show "i < length es" "fst (es ! i) = b" using first_idx_SomeD(1,2) [OF assms] by auto
  show "map_of es b = Some (snd (es ! i))" using assms
  proof (induction es arbitrary: i)
    case (Cons e es)
    then show ?case by (cases e) (auto split: if_splits)
  qed simp
qed

section \<open>Replacing a child\<close>

lemma set_child_small:
  assumes "distinct (map fst es)" "first_idx (\<lambda>e. fst e = b) es = Some i"
  shows "set (es[i := (fst (es ! i), c)]) \<subseteq> insert (b, c) (set es)"
    "map_of (es[i := (fst (es ! i), c)]) b' = (if b' = b then Some c else map_of es b')"
    "(\<Sum>e\<leftarrow>es[i := (fst (es ! i), c)]. census k (snd e)) = (\<Sum>e\<leftarrow>es. census k (snd e)) + (census k c - census k (snd (es ! i)))"
proof -
  note i = first_idx_key [OF assms(2)]
  show "set (es[i := (fst (es ! i), c)]) \<subseteq> insert (b, c) (set es)" using set_update_subset_insert [of es i "(b, c)"] i(2) by simp
  show "map_of (es[i := (fst (es ! i), c)]) b' = (if b' = b then Some c else map_of es b')"
    using map_of_update [OF i(1) assms(1), of c b'] i(2) by simp
  show "(\<Sum>e\<leftarrow>es[i := (fst (es ! i), c)]. census k (snd e)) = (\<Sum>e\<leftarrow>es. census k (snd e)) + (census k c - census k (snd (es ! i)))"
    using i(1) by (simp add: sum_list_upd)
qed

lemma set_child_node:
  assumes "wf_art p t" "find_child_slot t b = Some i"
  shows "is_node t" "child_at t i = find_child t b" "is_node (set_child t i c)" "partial (set_child t i c) = partial t"
    "find_child (set_child t i c) b' = (if b' = b then c else find_child t b')"
    "wf_art (p @ partial t @ [b]) c \<Longrightarrow> wf_art p (set_child t i c)"
    "census k (set_child t i c) = census k t + (census k c - census k (find_child t b))"
    "num_children (set_child t i c) = num_children t" "block_of (set_child t i c) = block_of t"
proof -
  have "is_node t \<and> child_at t i = find_child t b \<and> is_node (set_child t i c) \<and> partial (set_child t i c) = partial t \<and>
    find_child (set_child t i c) b' = (if b' = b then c else find_child t b') \<and>
    (wf_art (p @ partial t @ [b]) c \<longrightarrow> wf_art p (set_child t i c)) \<and>
    census k (set_child t i c) = census k t + (census k c - census k (find_child t b)) \<and>
    num_children (set_child t i c) = num_children t \<and> block_of (set_child t i c) = block_of t"
  proof (cases t)
    case (Node4 q es)
    then have f: "first_idx (\<lambda>e. fst e = b) es = Some i" and d: "distinct (map fst es)"
      using assms sorted_distinct_keys by auto
    note s = set_child_small [OF d f] and i = first_idx_key [OF f]
    have "strictly_sorted (es[i := (fst (es ! i), c)])"
      using assms(1) Node4 i(1) by (simp add: strictly_sorted_def map_fst_upd)
    moreover have "wf_art (p @ q @ [fst e]) (snd e)" if "wf_art (p @ q @ [b]) c" "e \<in> set (es[i := (fst (es ! i), c)])" for e
      using s(1) [of c] that assms(1) Node4 by auto
    ultimately show ?thesis using Node4 s(2,3) i assms(1) by simp
  next
    case (Node16 q es)
    then have f: "first_idx (\<lambda>e. fst e = b) es = Some i" and d: "distinct (map fst es)"
      using assms sorted_distinct_keys by auto
    note s = set_child_small [OF d f] and i = first_idx_key [OF f]
    have "strictly_sorted (es[i := (fst (es ! i), c)])"
      using assms(1) Node16 i(1) by (simp add: strictly_sorted_def map_fst_upd)
    moreover have "wf_art (p @ q @ [fst e]) (snd e)" if "wf_art (p @ q @ [b]) c" "e \<in> set (es[i := (fst (es ! i), c)])" for e
      using s(1) [of c] that assms(1) Node16 by auto
    ultimately show ?thesis using Node16 s(2,3) i assms(1) by simp
  next
    case (Node256 q n cs)
    then have i: "i = unat b" "length cs = 256" "i < length cs" using assms by (auto split: if_splits)
    have nth: "cs[i := c] ! unat b' = (if b' = b then c else cs ! unat b')"
      using i by (simp add: nth_list_update word_unat_eq_iff)
    have "wf_art (p @ q @ [of_nat j]) (cs[i := c] ! j)" if "wf_art (p @ q @ [b]) c" "j < length cs" for j
      using that assms(1) Node256 i by (cases "j = i") (simp_all add: byte_roundtrip)
    then show ?thesis using Node256 i nth assms(1) by (simp add: sum_list_upd)
  qed (use assms in simp_all)
  then show "is_node t" "child_at t i = find_child t b" "is_node (set_child t i c)" "partial (set_child t i c) = partial t"
    "find_child (set_child t i c) b' = (if b' = b then c else find_child t b')"
    "wf_art (p @ partial t @ [b]) c \<Longrightarrow> wf_art p (set_child t i c)"
    "census k (set_child t i c) = census k t + (census k c - census k (find_child t b))"
    "num_children (set_child t i c) = num_children t" "block_of (set_child t i c) = block_of t" by auto
qed

section \<open>Adding a child\<close>

lemma insert_entry_simps:
  "insert_entry b c [] = [(b, c)]"
  "insert_entry b c (e # es) = (if b < fst e then (b, c) # e # es else e # insert_entry b c es)"
  by (auto simp: insert_entry_def sorted_pos_def Let_def split: option.splits)

lemma insert_entry_facts:
  "length (insert_entry b c es) = Suc (length es)" "set (insert_entry b c es) = insert (b, c) (set es)"
  "(\<Sum>e\<leftarrow>insert_entry b c es. census k (snd e)) = (\<Sum>e\<leftarrow>es. census k (snd e)) + census k c"
  by (induction es) (auto simp: insert_entry_simps)

lemma insert_entry_map: "b \<notin> fst ` set es \<Longrightarrow> map_of (insert_entry b c es) b' = (if b' = b then Some c else map_of es b')"
  by (induction es) (auto simp: insert_entry_simps)

lemma insert_entry_sorted: "strictly_sorted es \<Longrightarrow> b \<notin> fst ` set es \<Longrightarrow> strictly_sorted (insert_entry b c es)"
proof (induction es)
  case (Cons e es)
  have "fst e < b" if "\<not> b < fst e" using Cons.prems(2) that by (auto simp: not_less order.order_iff_strict)
  then show ?case
    using Cons insert_entry_facts(2) [of b c es] by (auto simp: insert_entry_simps strictly_sorted_def)
qed (simp add: insert_entry_simps strictly_sorted_def)

lemma alloc_live: "alloc_block B m = (ok, m') \<Longrightarrow> live m' k = live m k + (if ok \<and> k = B then 1 else 0)"
  by (auto simp: alloc_block_def split: list.splits)

lemma alloc_nodes_live:
  "alloc_node4 p m = (r, m') \<Longrightarrow> live m' k = live m k + (if r \<noteq> None \<and> k = BNode4 then 1 else 0)"
  "alloc_node16 p m = (r, m') \<Longrightarrow> live m' k = live m k + (if r \<noteq> None \<and> k = BNode16 then 1 else 0)"
  "alloc_node256 p m = (r, m') \<Longrightarrow> live m' k = live m k + (if r \<noteq> None \<and> k = BNode256 then 1 else 0)"
  by (auto simp: alloc_node4_def alloc_node16_def alloc_node256_def alloc_live split: prod.splits if_splits)

lemma alloc_nodes_partial:
  "alloc_node4 p m = (Some p', m') \<Longrightarrow> p' = take MAX_PARTIAL p"
  "alloc_node16 p m = (Some p', m') \<Longrightarrow> p' = take MAX_PARTIAL p"
  "alloc_node256 p m = (Some p', m') \<Longrightarrow> p' = take MAX_PARTIAL p"
  by (auto simp: alloc_node4_def alloc_node16_def alloc_node256_def split: prod.splits if_splits)

lemma release_live [simp]: "live (release B m) k = live m k - (if k = B then 1 else 0)"
  by (simp add: release_def)

lemma fold_slots:
  assumes "distinct (map fst es)" "length cs = 256"
  defines "r \<equiv> fold (\<lambda>(k, ch) cs. cs[unat k := ch]) es cs"
  shows "length r = 256" "r ! unat (b :: u8) = (case map_of es b of Some c \<Rightarrow> c | None \<Rightarrow> cs ! unat b)"
    "(\<And>e. e \<in> set es \<Longrightarrow> cs ! unat (fst e) = Null) \<Longrightarrow> (\<Sum>c\<leftarrow>r. census k c) = (\<Sum>c\<leftarrow>cs. census k c) + (\<Sum>e\<leftarrow>es. census k (snd e))"
    "(\<And>e. e \<in> set es \<Longrightarrow> cs ! unat (fst e) = Null) \<Longrightarrow> occupied r \<le> occupied cs + length es"
proof -
  have "length r = 256 \<and> r ! unat b = (case map_of es b of Some c \<Rightarrow> c | None \<Rightarrow> cs ! unat b) \<and>
    ((\<forall>e\<in>set es. cs ! unat (fst e) = Null) \<longrightarrow>
      (\<Sum>c\<leftarrow>r. census k c) = (\<Sum>c\<leftarrow>cs. census k c) + (\<Sum>e\<leftarrow>es. census k (snd e)) \<and> occupied r \<le> occupied cs + length es)"
    using assms(1,2) unfolding r_def
  proof (induction es arbitrary: cs)
    case (Cons e es)
    obtain kb ch where e: "e = (kb, ch)" by (cases e)
    let ?cs = "cs[unat kb := ch]"
    have len: "length ?cs = 256" "unat kb < length cs" using Cons.prems(2) by simp_all
    have ne: "fst x \<noteq> kb" if "x \<in> set es" for x using Cons.prems(1) e that by auto
    then have "unat (fst x) \<noteq> unat kb" if "x \<in> set es" for x using that by (simp add: word_unat_eq_iff)
    then have "?cs ! unat (fst x) = cs ! unat (fst x)" if "x \<in> set es" for x using that by (metis nth_list_update_neq)
    moreover have "map_of es b = None" if "b = kb" using ne that by (auto simp: map_of_eq_None_iff)
    moreover have "?cs ! unat b = (if b = kb then ch else cs ! unat b)" using len by (simp add: nth_list_update word_unat_eq_iff)
    ultimately show ?case
      using Cons.IH [of ?cs] Cons.prems len e occupied_upd [OF len(2), of ch]
      by (auto simp: sum_list_upd split: option.splits if_splits)
  qed simp
  then show "length r = 256" "r ! unat b = (case map_of es b of Some c \<Rightarrow> c | None \<Rightarrow> cs ! unat b)"
    "(\<And>e. e \<in> set es \<Longrightarrow> cs ! unat (fst e) = Null) \<Longrightarrow> (\<Sum>c\<leftarrow>r. census k c) = (\<Sum>c\<leftarrow>cs. census k c) + (\<Sum>e\<leftarrow>es. census k (snd e))"
    "(\<And>e. e \<in> set es \<Longrightarrow> cs ! unat (fst e) = Null) \<Longrightarrow> occupied r \<le> occupied cs + length es" by blast+
qed

definition child_added :: "u8 list \<Rightarrow> art \<Rightarrow> u8 \<Rightarrow> art \<Rightarrow> art \<Rightarrow> bool" where
  "child_added p t b c t' \<longleftrightarrow> is_node t' \<and> partial t' = partial t \<and>
     (\<forall>b'. find_child t' b' = (if b' = b then c else find_child t b')) \<and> wf_art p t' \<and>
     (counted t \<longrightarrow> spare t \<longrightarrow> counted c \<longrightarrow> counted t')"

lemma no_slot_small: "first_idx (\<lambda>e. fst e = b) es = None \<longleftrightarrow> b \<notin> fst ` set es"
  by (auto simp: first_idx_None)

lemma no_slot_child: "find_child_slot t b = None \<Longrightarrow> find_child t b = Null"
  by (cases t) (auto simp: no_slot_small map_of_eq_None_iff [THEN iffD2] split: if_splits)

lemma take_partial: "length p + length q < KEY_LEN \<Longrightarrow> take MAX_PARTIAL q = q"
  by (simp add: KEY_LEN_def MAX_PARTIAL_def)

lemma add_small:
  assumes "b \<notin> fst ` set es" "strictly_sorted es" "length p + length q < KEY_LEN"
    and "\<forall>e\<in>set es. wf_art (p @ q @ [fst e]) (snd e)" "wf_art (p @ q @ [b]) c"
  shows "length es < 4 \<Longrightarrow> child_added p (Node4 q es) b c (Node4 q (insert_entry b c es))"
    and "length es < 16 \<Longrightarrow> child_added p (Node16 q es) b c (Node16 q (insert_entry b c es))"
    and "length es < 16 \<Longrightarrow> child_added p (Node4 q es) b c (Node16 q (insert_entry b c es))"
  using assms insert_entry_sorted [OF assms(2,1), of c]
  by (auto simp: child_added_def insert_entry_facts insert_entry_map split: option.splits)

lemma add_large:
  assumes "b \<notin> fst ` set es" "strictly_sorted es" "length p + length q < KEY_LEN" "length es \<le> 16"
    and "\<forall>e\<in>set es. wf_art (p @ q @ [fst e]) (snd e)" "wf_art (p @ q @ [b]) c"
  defines "cs \<equiv> (fold (\<lambda>(k, ch) cs. cs[unat k := ch]) es (replicate 256 Null))[unat b := c]"
  shows "child_added p (Node16 q es) b c (Node256 q (unat (of_nat (length es + 1) :: u8)) cs)"
    and "(\<Sum>x\<leftarrow>cs. census k x) = (\<Sum>e\<leftarrow>es. census k (snd e)) + census k c"
proof -
  define r where "r = fold (\<lambda>(k, ch) cs. cs[unat k := ch]) es (replicate 256 Null)"
  note f = fold_slots [OF sorted_distinct_keys [OF assms(2)], of "replicate 256 Null", folded r_def]
  have len: "length r = 256" using f(1) by simp
  have nth: "r ! unat x = (case map_of es x of Some c \<Rightarrow> c | None \<Rightarrow> Null)" for x using f(2) [of x] by (simp split: option.splits)
  have "map_of es b = None" using assms(1) map_of_eq_None_iff [of es b] by blast
  then have b: "r ! unat b = Null" using nth [of b] by simp
  have cs: "cs = r[unat b := c]" by (simp add: cs_def r_def)
  have rNull: "(replicate 256 Null :: art list) ! unat (fst e) = Null" for e :: "u8 \<times> art" by simp
  show "(\<Sum>x\<leftarrow>cs. census k x) = (\<Sum>e\<leftarrow>es. census k (snd e)) + census k c"
    unfolding cs using f(3) rNull len b by (simp add: sum_list_upd sum_list_replicate)
  have child: "cs ! unat b' = (if b' = b then c else r ! unat b')" for b'
    unfolding cs using len by (simp add: nth_list_update word_unat_eq_iff)
  have n: "unat (of_nat (length es + 1) :: u8) = length es + 1" using assms(4) by (intro byte_roundtrip(1)) simp
  have "int (occupied cs) \<le> int (occupied r) + 1" unfolding cs using occupied_upd [of "unat b" r c] len by simp
  moreover have "occupied r \<le> length es" using f(4) rNull by (simp add: occupied_def)
  ultimately have occ: "occupied cs \<le> length es + 1" by linarith
  have at: "cs ! i = (if of_nat i = b then c else case map_of es (of_nat i) of Some c \<Rightarrow> c | None \<Rightarrow> Null)" if "i < 256" for i
    using child [of "of_nat i"] nth [of "of_nat i"] that by (simp add: byte_roundtrip(1))
  have w: "wf_art (p @ q @ [of_nat i]) (cs ! i)" if "i < 256" for i
    unfolding at [OF that] using assms(5,6) by (auto split: option.splits dest!: map_of_SomeD)
  have cnt: "counted x" if h: "\<forall>e\<in>set es. counted (snd e)" "counted c" "x \<in> set cs" for x
  proof -
    obtain i where "i < 256" "x = cs ! i" using h(3) len cs by (auto simp: in_set_conv_nth)
    then show ?thesis using h(1,2) at [of i] by (auto split: option.splits dest!: map_of_SomeD)
  qed
  have lc: "length cs = 256" using len cs by simp
  have fc: "find_child (Node256 q x cs) b' = (if b' = b then c else find_child (Node16 q es) b')" for x b'
    using child [of b'] nth [of b'] by simp
  show "child_added p (Node16 q es) b c (Node256 q (unat (of_nat (length es + 1) :: u8)) cs)"
    unfolding child_added_def n
  proof (intro conjI allI impI)
    show "find_child (Node256 q (length es + 1) cs) b' = (if b' = b then c else find_child (Node16 q es) b')" for b' by (rule fc)
    show "wf_art p (Node256 q (length es + 1) cs)" using lc assms(3) w by simp
    show "counted (Node256 q (length es + 1) cs)" if "counted (Node16 q es)" "counted c"
      using occ cnt that by simp
  qed simp_all
qed

lemma add_child_correct:
  assumes "wf_art p t" "is_node t" "find_child_slot t b = None" "wf_art (p @ partial t @ [b]) c" "c \<noteq> Null"
    and "add_child t b c m = (ok, t', m')"
  shows "if ok then child_added p t b c t' else t' = t"
    and "live m' k - live m k = census k t' - census k t - (if ok then census k c else 0)"
proof -
  have "(if ok then child_added p t b c t' else t' = t) \<and>
      live m' k - live m k = census k t' - census k t - (if ok then census k c else 0)"
  proof (cases t)
    case (Node4 q es)
    have pre: "b \<notin> fst ` set es" "strictly_sorted es" "length p + length q < KEY_LEN" "length es \<le> 4"
        "\<forall>e\<in>set es. wf_art (p @ q @ [fst e]) (snd e)" "wf_art (p @ q @ [b]) c"
      using assms(1,3,4) Node4 by (simp_all add: no_slot_small)
    note part = take_partial [OF pre(3)] and add = add_small [OF pre(1-3,5,6)]
    show ?thesis
    proof (cases "length es < 4")
      case True
      then show ?thesis
        using assms(6) Node4 part add(1) alloc_nodes_partial(1) [of q m]
        by (auto simp: rcu_defer_free_node_def insert_entry_facts alloc_nodes_live(1) split: prod.splits option.splits)
    next
      case False
      then show ?thesis
        using assms(6) Node4 part pre(4) add(3) alloc_nodes_partial(2) [of q m]
        by (auto simp: grow_to_16_def rcu_defer_free_node_def insert_entry_facts alloc_nodes_live(2) split: prod.splits option.splits)
    qed
  next
    case (Node16 q es)
    have pre: "b \<notin> fst ` set es" "strictly_sorted es" "length p + length q < KEY_LEN" "length es \<le> 16"
        "\<forall>e\<in>set es. wf_art (p @ q @ [fst e]) (snd e)" "wf_art (p @ q @ [b]) c"
      using assms(1,3,4) Node16 by (simp_all add: no_slot_small)
    note part = take_partial [OF pre(3)] and add = add_small [OF pre(1-3,5,6)] and large = add_large [OF pre]
    show ?thesis
    proof (cases "length es < 16")
      case True
      then show ?thesis
        using assms(6) Node16 part add(2) alloc_nodes_partial(2) [of q m]
        by (auto simp: rcu_defer_free_node_def insert_entry_facts alloc_nodes_live(2) split: prod.splits option.splits)
    next
      case False
      then show ?thesis
        using assms(6) Node16 part large(1) large(2) [of k] alloc_nodes_partial(3) [of q m]
        by (auto simp: grow_to_256_def Let_def rcu_defer_free_node_def alloc_nodes_live(3) simp del: of_nat_add of_nat_Suc split: prod.splits option.splits)
    qed
  next
    case (Node256 q n cs)
    have pre: "length p + length q < KEY_LEN" "length cs = 256" "cs ! unat b = Null" "unat b < length cs"
        "\<forall>i<length cs. wf_art (p @ q @ [of_nat i]) (cs ! i)" "wf_art (p @ q @ [b]) c"
      using assms(1,3,4) Node256 by (auto split: if_splits)
    have nth: "cs[unat b := c] ! unat b' = (if b' = b then c else cs ! unat b')" for b'
      using pre by (simp add: nth_list_update word_unat_eq_iff)
    have w: "wf_art (p @ q @ [of_nat i]) (cs[unat b := c] ! i)" if "i < length cs" for i
      using that pre by (cases "i = unat b") (simp_all add: byte_roundtrip)
    have occ: "occupied (cs[unat b := c]) = occupied cs + 1"
      using occupied_upd [OF pre(4), of c] pre(3) assms(5) by simp
    have cnt: "counted x" if "\<forall>x\<in>set cs. counted x" "counted c" "x \<in> set (cs[unat b := c])" for x
      using that set_update_subset_insert [of cs "unat b" c] by auto
    let ?t = "Node256 q (min 255 (n + 1)) (cs[unat b := c])"
    have r: "ok" "t' = ?t" "m' = m" using assms(6) Node256 by auto
    have "child_added p t b c ?t"
      unfolding child_added_def Node256
    proof (intro conjI allI impI)
      show "find_child ?t b' = (if b' = b then c else find_child (Node256 q n cs) b')" for b' using nth [of b'] by simp
      show "wf_art p ?t" using pre(1,2) w by simp
      show "counted ?t" if "counted (Node256 q n cs)" "spare (Node256 q n cs)" "counted c" using that occ cnt by auto
    qed simp_all
    then show ?thesis using r Node256 pre(3,4) by (simp add: sum_list_upd)
  qed (use assms(2) in simp_all)
  then show "if ok then child_added p t b c t' else t' = t"
    "live m' k - live m k = census k t' - census k t - (if ok then census k c else 0)" by blast+
qed

section \<open>Keys and their bytes\<close>

lemma bit_key_at: "d < KEY_LEN \<Longrightarrow> bit (key_at key d) r \<longleftrightarrow> r < 8 \<and> bit key (8 * (KEY_LEN - 1 - d) + r)"
proof -
  have m: "(0xFF :: u64) = mask 8" by (simp add: mask_eq_exp_minus_1)
  have "bit (0xFF :: u64) r \<longleftrightarrow> r < 8" unfolding m bit_mask_iff by auto
  then show ?thesis by (auto simp: key_at_def bit_ucast_iff bit_and_iff bit_drop_bit_eq)
qed

lemma high_bits: "key < 2 ^ 48 \<Longrightarrow> 48 \<le> n \<Longrightarrow> \<not> bit (key :: u64) n"
proof -
  assume h: "key < 2 ^ 48" "48 \<le> n"
  then have "unat key < 2 ^ 48" by (simp add: word_less_nat_alt)
  also have "(2 :: nat) ^ 48 \<le> 2 ^ n" using h(2) by (simp only: power_increasing_iff)
  finally have "unat key div 2 ^ n = 0" by simp
  then have "\<not> bit (unat key) n" by (simp add: bit_iff_odd)
  then show ?thesis by (auto simp: bit_unsigned_iff dest: bit_imp_le_length)
qed

lemma key_bytes_inj:
  assumes "k < 2 ^ 48" "k' < 2 ^ 48" "\<And>d. d < KEY_LEN \<Longrightarrow> key_at k d = key_at k' d"
  shows "k = k'"
proof (rule bit_word_eqI)
  fix n assume "n < LENGTH(64)"
  show "bit k n \<longleftrightarrow> bit k' n"
  proof (cases "n < 48")
    case True
    define d where "d = 5 - n div 8"
    have "n div 8 \<le> 5" using True by linarith
    then have d: "d < KEY_LEN" "8 * (KEY_LEN - 1 - d) + n mod 8 = n" by (auto simp: d_def KEY_LEN_def)
    have "n mod 8 < 8" by simp
    then have "bit k n = bit (key_at k d) (n mod 8)" "bit k' n = bit (key_at k' d) (n mod 8)"
      using bit_key_at [OF d(1), of k "n mod 8"] bit_key_at [OF d(1), of k' "n mod 8"] d(2) by simp_all
    then show ?thesis using assms(3) [OF d(1)] by simp
  next
    case False
    then show ?thesis using high_bits assms(1,2) by simp
  qed
qed

lemma agree_same_key:
  assumes "agree p k 0" "agree p k' 0" "k < 2 ^ 48" "k' < 2 ^ 48" "\<And>d. length p \<le> d \<Longrightarrow> d < KEY_LEN \<Longrightarrow> key_at k d = key_at k' d"
  shows "k = k'"
proof (rule key_bytes_inj [OF assms(3,4)])
  fix d assume "d < KEY_LEN"
  then show "key_at k d = key_at k' d" using assms(1,2,5) by (cases "d < length p") (auto simp: agree_def)
qed

lemma prefix_loop_spec:
  "n \<le> prefix_loop k k' d n" "\<And>i. n \<le> i \<Longrightarrow> i < prefix_loop k k' d n \<Longrightarrow> d + i < KEY_LEN \<and> key_at k (d + i) = key_at k' (d + i)"
  "d + prefix_loop k k' d n < KEY_LEN \<Longrightarrow> key_at k (d + prefix_loop k k' d n) \<noteq> key_at k' (d + prefix_loop k k' d n)"
proof -
  have "n \<le> prefix_loop k k' d n \<and>
     (\<forall>i. n \<le> i \<longrightarrow> i < prefix_loop k k' d n \<longrightarrow> d + i < KEY_LEN \<and> key_at k (d + i) = key_at k' (d + i)) \<and>
     (d + prefix_loop k k' d n < KEY_LEN \<longrightarrow> key_at k (d + prefix_loop k k' d n) \<noteq> key_at k' (d + prefix_loop k k' d n))"
  proof (induction k k' d n rule: prefix_loop.induct)
    case (1 k k' d n)
    show ?case
    proof (cases "d + n < KEY_LEN \<and> key_at k (d + n) = key_at k' (d + n)")
      case True
      then have e: "prefix_loop k k' d n = prefix_loop k k' d (n + 1)" by (subst prefix_loop.simps) simp
      show ?thesis unfolding e using 1 True by (metis Suc_eq_plus1 Suc_leD le_antisym not_less_eq_eq)
    next
      case False
      then have "prefix_loop k k' d n = n" by (subst prefix_loop.simps) auto
      then show ?thesis using False by auto
    qed
  qed
  then show "n \<le> prefix_loop k k' d n" "\<And>i. n \<le> i \<Longrightarrow> i < prefix_loop k k' d n \<Longrightarrow> d + i < KEY_LEN \<and> key_at k (d + i) = key_at k' (d + i)"
    "d + prefix_loop k k' d n < KEY_LEN \<Longrightarrow> key_at k (d + prefix_loop k k' d n) \<noteq> key_at k' (d + prefix_loop k k' d n)" by blast+
qed

section \<open>Splitting\<close>

lemma two_entries_facts:
  assumes "a \<noteq> b"
  shows "strictly_sorted (two_entries a x b y)" "set (two_entries a x b y) = {(a, x), (b, y)}" "length (two_entries a x b y) = 2"
    "map_of (two_entries a x b y) c = (if c = a then Some x else if c = b then Some y else None)"
    "(\<Sum>e\<leftarrow>two_entries a x b y. census k (snd e)) = census k x + census k y"
  using assms by (auto simp: two_entries_def strictly_sorted_def)

lemma two_node:
  assumes "a \<noteq> b" "length p + length q < KEY_LEN" "wf_art (p @ q @ [a]) x" "wf_art (p @ q @ [b]) y"
  defines "t \<equiv> Node4 q (two_entries a x b y)" and "d \<equiv> length p + length q"
  shows "wf_art p t"
    and "lookup_from t j (length p) = (if agree q j (length p) then
           if key_at j d = a then lookup_from x j (d + 1) else if key_at j d = b then lookup_from y j (d + 1) else None else None)"
    and "census k t = (if k = BNode4 then 1 else 0) + census k x + census k y"
    and "counted t \<longleftrightarrow> counted x \<and> counted y"
proof -
  note f = two_entries_facts [OF assms(1)]
  show "wf_art p t" using assms(2-4) f by (simp add: t_def)
  show "lookup_from t j (length p) = (if agree q j (length p) then
      if key_at j d = a then lookup_from x j (d + 1) else if key_at j d = b then lookup_from y j (d + 1) else None else None)"
    using lookup_node [of t j "length p"] assms(2) by (simp add: t_def d_def f(4))
  show "census k t = (if k = BNode4 then 1 else 0) + census k x + census k y" by (simp add: t_def f(5))
  show "counted t \<longleftrightarrow> counted x \<and> counted y" by (simp add: t_def f(2))
qed

lemma leaf_census: "census k (Leaf a b) = (if k = BLeaf then 1 else 0)"
  by simp

text \<open>What an insertion into a slot must achieve.\<close>

definition inserted :: "u8 list \<Rightarrow> art \<Rightarrow> nat \<Rightarrow> u64 \<Rightarrow> u64 \<Rightarrow> ArtMem \<Rightarrow> bool \<Rightarrow> art \<Rightarrow> nat \<Rightarrow> ArtMem \<Rightarrow> bool" where
  "inserted p t len key v m ok t' len' m' \<longleftrightarrow> wf_art p t' \<and>
     (\<forall>j. lookup_from t' j (length p) = (if ok \<and> j = key then Some v else lookup_from t j (length p))) \<and>
     int len' - int len = census BLeaf t' - census BLeaf t \<and>
     (\<forall>k. live m' k - live m k = census k t' - census k t - (if ok \<and> k = BLeaf then 1 else 0)) \<and>
     (counted t \<longrightarrow> spare t \<longrightarrow> counted t')"

lemma inserted_fail:
  "wf_art p t \<Longrightarrow> (\<And>k. live m' k = live m k) \<Longrightarrow> inserted p t len key v m False t len m'"
  by (simp add: inserted_def)

lemma split_leaves_correct:
  assumes "wf_art p (Leaf k v0)" "key < 2 ^ 48" "agree p key 0" "k \<noteq> key"
    and "split_leaves k v0 len key v (length p) m = (ok, t', len', m')"
  shows "inserted p (Leaf k v0) len key v m ok t' len' m'"
proof -
  let ?d = "length p"
  define n where "n = prefix_loop k key ?d 0"
  define q where "q = map (\<lambda>i. key_at k (?d + i)) [0..<n]"
  have eq: "?d + i < KEY_LEN \<and> key_at k (?d + i) = key_at key (?d + i)" if "i < n" for i
    using prefix_loop_spec(2) [of 0 i k key ?d] that by (simp add: n_def)
  have k: "k < 2 ^ 48" "agree p k 0" using assms(1) by simp_all
  have div: "?d + n < KEY_LEN"
  proof (rule ccontr)
    assume "\<not> ?d + n < KEY_LEN"
    then have "key_at k d = key_at key d" if "?d \<le> d" "d < KEY_LEN" for d using eq [of "d - ?d"] that by simp
    then show False using agree_same_key [OF k(2) assms(3) k(1) assms(2)] assms(4) by blast
  qed
  then have ne: "key_at k (?d + n) \<noteq> key_at key (?d + n)" using prefix_loop_spec(3) [of ?d k key 0] by (simp add: n_def)
  have q: "agree q k ?d" "agree q key ?d" "length q = n" using eq by (auto simp: q_def agree_def)
  have "min n MAX_PARTIAL = n" using div by (simp add: KEY_LEN_def MAX_PARTIAL_def)
  then have sl: "split_leaves k v0 len key v ?d m =
    (case alloc_node4 q m of (None, m1) \<Rightarrow> (False, Leaf k v0, len, m1)
      | (Some p', m1) \<Rightarrow> (True, Node4 p' (two_entries (key_at k (?d + n)) (Leaf k v0) (key_at key (?d + n)) (Leaf key v)), len + 1, m1))"
    using div by (simp add: split_leaves_def Let_def n_def [symmetric] q_def [symmetric] not_le split: prod.splits option.splits)
  obtain r m1 where a: "alloc_node4 q m = (r, m1)" by fastforce
  show ?thesis
  proof (cases r)
    case None
    then show ?thesis using assms(1,5) sl a alloc_nodes_live(1) [OF a] by (auto intro: inserted_fail)
  next
    case (Some p')
    then have p': "p' = q" using alloc_nodes_partial(1) [of q m p' m1] a take_partial [of p q] div q(3) by simp
    define t2 where "t2 = Node4 q (two_entries (key_at k (?d + n)) (Leaf k v0) (key_at key (?d + n)) (Leaf key v))"
    have r: "ok" "t' = t2" "len' = len + 1" "m' = m1" using assms(5) sl a Some p' by (simp_all add: t2_def)
    have w: "wf_art (p @ q @ [key_at k (?d + n)]) (Leaf k v0)" "wf_art (p @ q @ [key_at key (?d + n)]) (Leaf key v)"
      using k assms(2,3) q div by (simp_all add: agree_append agree_Cons)
    have "length p + length q < KEY_LEN" using div q(3) by simp
    note two = two_node [OF ne this w, folded t2_def]
    have "lookup_from t2 j ?d = (if j = key then Some v else lookup_from (Leaf k v0) j ?d)" for j
      unfolding two(2) using q ne by auto
    then show ?thesis
      using r two(1,3,4) alloc_nodes_live(1) [OF a] Some by (simp add: inserted_def)
  qed
qed

lemma shortened_drop: "n < length q \<Longrightarrow> length q < KEY_LEN \<Longrightarrow> shortened q n = drop (Suc n) q"
  by (intro nth_equalityI) (auto simp: shortened_def Let_def KEY_LEN_def MAX_PARTIAL_def)

lemma clone_facts:
  assumes "is_node t" "clone_node_with_partial t np m = (r, m')"
  shows "live m' k = live m k + (if r \<noteq> None \<and> k = block_of t then 1 else 0)"
    and "r = Some t' \<Longrightarrow> is_node t' \<and> partial t' = take MAX_PARTIAL np \<and> find_child t' = find_child t \<and>
      census k t' = census k t \<and> (counted t' = counted t)"
    and "r = Some t' \<Longrightarrow> wf_art p t \<Longrightarrow> p' @ take MAX_PARTIAL np = p @ partial t \<Longrightarrow> wf_art p' t'"
proof -
  show "live m' k = live m k + (if r \<noteq> None \<and> k = block_of t then 1 else 0)"
    using assms by (cases t) (auto simp: alloc_nodes_live split: prod.splits option.splits)
  assume r: "r = Some t'"
  have form: "t = Node4 q es \<Longrightarrow> t' = Node4 (take MAX_PARTIAL np) es" "t = Node16 q es \<Longrightarrow> t' = Node16 (take MAX_PARTIAL np) es"
      "t = Node256 q n cs \<Longrightarrow> t' = Node256 (take MAX_PARTIAL np) n cs" for q es n cs
    using assms r by (auto dest: alloc_nodes_partial split: prod.splits option.splits)
  show "is_node t' \<and> partial t' = take MAX_PARTIAL np \<and> find_child t' = find_child t \<and>
      census k t' = census k t \<and> (counted t' = counted t)"
    using assms(1) form by (cases t) (simp_all add: fun_eq_iff)
  assume w: "wf_art p t" and e: "p' @ take MAX_PARTIAL np = p @ partial t"
  have l: "length p' + length (take MAX_PARTIAL np) = length p + length (partial t)"
    using arg_cong [OF e, of length] by simp
  have e2: "p' @ take MAX_PARTIAL np @ [b] = p @ partial t @ [b]" for b
    using e by (metis append.assoc)
  show "wf_art p' t'" using assms(1) form w l by (cases t) (simp_all add: e2 del: length_take)
qed

lemma add_child_leaves: "add_child t b c m = (ok, t', m') \<Longrightarrow> live m' BLeaf = live m BLeaf"
  by (cases t) (auto simp: grow_to_16_def grow_to_256_def Let_def rcu_defer_free_node_def alloc_nodes_live split: prod.splits option.splits if_splits)

lemma split_node_correct:
  assumes wf: "wf_art p t" "is_node t" and key: "key < 2 ^ 48" "agree p key 0"
    and n: "n = match_len (partial t) key (length p)" "n < length (partial t)"
    and r: "split_node t len key v (length p) n m = (ok, t', len', m')"
  shows "inserted p t len key v m ok t' len' m'"
proof -
  let ?q = "partial t" and ?d = "length p"
  have part: "?d + length ?q < KEY_LEN" using wf_partial wf by blast
  have ml: "agree (take n ?q) key ?d" "?q ! n \<noteq> key_at key (?d + n)" "\<not> agree ?q key ?d"
    using match_len_cases [of ?q key ?d] n part by auto
  have tk: "take MAX_PARTIAL (take (min n MAX_PARTIAL) ?q) = take n ?q"
    using part n(2) by (simp add: KEY_LEN_def MAX_PARTIAL_def min_def)
  have sh: "shortened ?q n = drop (Suc n) ?q" "take MAX_PARTIAL (drop (Suc n) ?q) = drop (Suc n) ?q"
    using shortened_drop [OF n(2)] part by (simp_all add: KEY_LEN_def MAX_PARTIAL_def)
  obtain a1 m1 where a: "alloc_node4 (take (min n MAX_PARTIAL) ?q) m = (a1, m1)" by fastforce
  show ?thesis
  proof (cases a1)
    case None
    then show ?thesis using r a alloc_nodes_live(1) [OF a] wf(1) by (auto simp: split_node_def Let_def intro: inserted_fail)
  next
    case (Some np)
    then have "np = take MAX_PARTIAL (take (min n MAX_PARTIAL) ?q)" using alloc_nodes_partial(1) a by blast
    then have np: "np = take n ?q" using tk by (rule trans)
    obtain c m2 where c: "clone_node_with_partial t (shortened ?q n) m1 = (c, m2)" by fastforce
    note cl = clone_facts [OF wf(2) c]
    show ?thesis
    proof (cases c)
      case None
      then show ?thesis
        using r a Some c cl(1) alloc_nodes_live(1) [OF a] wf(1)
        by (auto simp: split_node_def Let_def intro: inserted_fail)
    next
      case (Some cl')
      define t2 where "t2 = Node4 (take n ?q) (two_entries (?q ! n) cl' (key_at key (?d + n)) (Leaf key v))"
      have res: "ok" "t' = t2" "len' = len + 1" "m' = rcu_defer_free_node t m2"
        using r a \<open>a1 = Some np\<close> c Some np by (simp_all add: split_node_def Let_def t2_def)
      have cl2: "is_node cl'" "partial cl' = drop (Suc n) ?q" "find_child cl' = find_child t" "\<And>k. census k cl' = census k t" "counted cl' = counted t"
        using cl(2) [OF Some] sh by auto
      have path: "(p @ take n ?q @ [?q ! n]) @ drop (Suc n) ?q = p @ ?q" using n(2) by (simp add: id_take_nth_drop [symmetric])
      then have w1: "wf_art (p @ take n ?q @ [?q ! n]) cl'" using cl(3) [OF Some wf(1)] sh by simp
      have w2: "wf_art (p @ take n ?q @ [key_at key (?d + n)]) (Leaf key v)"
        using key ml(1) n(2) part by (simp add: agree_append agree_Cons min_def)
      have len: "length p + length (take n ?q) < KEY_LEN" using part n(2) by simp
      note two = two_node [OF ml(2) len w1 w2, folded t2_def]
      have lk: "lookup_from t2 j ?d = (if j = key then Some v else lookup_from t j ?d)" for j
      proof -
        have lc: "lookup_from cl' j (?d + n + 1) =
            (if agree (drop (Suc n) ?q) j (?d + n + 1) then lookup_from (find_child t (key_at j (?d + length ?q))) j (?d + length ?q + 1) else None)"
        proof -
          have e: "?d + n + 1 + length (partial cl') = ?d + length ?q" using cl2(2) n(2) by simp
          show ?thesis using lookup_node [OF cl2(1), of j "?d + n + 1"] part unfolding e by (simp add: cl2(2,3))
        qed
        have lt: "lookup_from t j ?d = (if agree ?q j ?d then lookup_from (find_child t (key_at j (?d + length ?q))) j (?d + length ?q + 1) else None)"
          using lookup_node [OF wf(2), of j ?d] part by simp
        have nn: "length (take n ?q) = n" using n(2) by simp
        have "?d + n < KEY_LEN" using part n(2) by simp
        then have sp: "agree ?q j ?d \<longleftrightarrow> agree (take n ?q) j ?d \<and> ?q ! n = key_at j (?d + n) \<and> agree (drop (Suc n) ?q) j (?d + n + 1)"
          using agree_split [OF n(2), of j ?d] by simp
        show ?thesis
        proof (cases "j = key")
          case True
          then show ?thesis unfolding two(2) nn using ml by auto
        next
          case False
          then show ?thesis unfolding two(2) nn lc lt sp by auto
        qed
      qed
      have "live m' k - live m k = census k t2 - census k t - (if k = BLeaf then 1 else 0)" for k
        using res(4) cl(1) Some two(3) [of k] cl2(4) [of k] alloc_nodes_live(1) [OF a] \<open>a1 = Some np\<close>
        by (simp add: rcu_defer_free_node_def)
      moreover have "int len' - int len = census BLeaf t2 - census BLeaf t"
        using res(3) two(3) [of BLeaf] cl2(4) [of BLeaf] by simp
      ultimately show ?thesis
        using res two(1,4) lk cl2(5) by (simp add: inserted_def)
    qed
  qed
qed

lemma counted_child: "counted t \<Longrightarrow> wf_art p t \<Longrightarrow> counted (find_child t b)"
  by (cases t) (auto split: option.splits dest!: map_of_SomeD)

lemma spare_child: "spare t \<Longrightarrow> wf_art p t \<Longrightarrow> spare (find_child t b)"
  by (cases t) (auto split: option.splits dest!: map_of_SomeD)

lemma counted_set_child:
  assumes "counted t" "counted c" "find_child_slot t b = Some i" "wf_art p t"
  shows "counted (set_child t i c)"
proof (cases t)
  case (Node4 q es)
  then show ?thesis using assms set_update_subset_insert [of es i "(fst (es ! i), c)"] by auto
next
  case (Node16 q es)
  then show ?thesis using assms set_update_subset_insert [of es i "(fst (es ! i), c)"] by auto
next
  case (Node256 q n cs)
  then have i: "i = unat b" "cs ! i \<noteq> Null" "i < length cs" using assms(3,4) by (auto split: if_splits)
  have "occupied (cs[i := c]) \<le> occupied cs" using occupied_upd [OF i(3), of c] i(2) by (auto split: if_splits)
  then show ?thesis using assms(1,2) Node256 set_update_subset_insert [of cs i c] by auto
qed (use assms(3) in simp_all)

lemma insert_inner_node:
  assumes "is_node t" "depth + length (partial t) < KEY_LEN"
  shows "insert_inner t len key v depth m =
    (let n = match_len (partial t) key depth; d = depth + length (partial t) in
     if n < length (partial t) then split_node t len key v depth n m
     else let byte = key_at key d
          in (case find_child_slot t byte of
                Some i \<Rightarrow> (case insert_inner (child_at t i) len key v (d + 1) m of (ok, c, len', m') \<Rightarrow> (ok, set_child t i c, len', m'))
              | None \<Rightarrow> (case add_child t byte (Leaf key v) m of (ok, t', m') \<Rightarrow> (ok, t', if ok then len + 1 else len, m'))))"
proof (cases t)
  case (Node4 q es)
  show ?thesis using assms unfolding Node4 by (subst insert_inner.simps) (simp add: Let_def)
next
  case (Node16 q es)
  show ?thesis using assms unfolding Node16 by (subst insert_inner.simps) (simp add: Let_def)
next
  case (Node256 q n cs)
  show ?thesis using assms unfolding Node256 by (subst insert_inner.simps) (simp add: Let_def)
qed (use assms in simp_all)

lemma insert_inner_correct:
  "wf_art p t \<Longrightarrow> key < 2 ^ 48 \<Longrightarrow> agree p key 0 \<Longrightarrow> insert_inner t len key v (length p) m = (ok, t', len', m') \<Longrightarrow>
   inserted p t len key v m ok t' len' m'"
proof (induction p t arbitrary: ok t' len' m' rule: path_induct)
  case (step p t)
  note wf = step.prems(1) and key = step.prems(2,3) and r = step.prems(4)
  show ?case
  proof (cases "is_node t")
    case leaf: False
    show ?thesis
    proof (cases t)
      case Null
      then have "ok" "t' = Leaf key v" "len' = len + 1" "m' = m" using r by (auto simp: insert_inner.simps)
      then show ?thesis using Null key by (simp add: inserted_def)
    next
      case (Leaf k v0)
      show ?thesis
      proof (cases "k = key")
        case True
        then have "ok" "t' = Leaf key v" "len' = len" "m' = release BLeaf m" using r Leaf by (auto simp: insert_inner.simps)
        then show ?thesis using Leaf True key by (simp add: inserted_def)
      next
        case False
        then have "split_leaves k v0 len key v (length p) m = (ok, t', len', m')" using r Leaf by (auto simp: insert_inner.simps)
        then show ?thesis using split_leaves_correct wf key False Leaf by blast
      qed
    qed (use leaf in simp_all)
  next
    case node: True
    let ?q = "partial t" and ?d = "length p + length (partial t)"
    have part: "?d < KEY_LEN" using wf_partial wf node by blast
    note unf = insert_inner_node [OF node part, of len key v m]
    show ?thesis
    proof (cases "match_len ?q key (length p) < length ?q")
      case True
      then show ?thesis using split_node_correct [OF wf node key refl True] r unf by (simp add: Let_def)
    next
      case False
      then have ag: "agree ?q key (length p)" using match_len_full by blast
      let ?b = "key_at key ?d"
      have path: "agree (p @ ?q @ [?b]) key 0" using key(2) ag part by (simp add: agree_append agree_Cons)
      have wl: "wf_art (p @ ?q @ [?b]) (Leaf key v)" using path key(1) by simp
      have look: "lookup_from u j (length p) = (if agree ?q j (length p) then lookup_from (find_child u (key_at j ?d)) j (?d + 1) else None)"
        if "is_node u" "partial u = ?q" for u j using lookup_node [OF that(1), of j "length p"] that(2) part by simp
      have bytes: "key_at j ?d = ?b \<and> agree ?q j (length p)" if "lookup_from c j (?d + 1) = Some w" "wf_art (p @ ?q @ [?b]) c" for j w c
        using lookup_prefix [OF that(2), of j w] that(1) by (simp add: agree_append agree_Cons)
      show ?thesis
      proof (cases "find_child_slot t ?b")
        case None
        obtain t2 ok2 m2 where a: "add_child t ?b (Leaf key v) m = (ok2, t2, m2)" by (metis surj_pair)
        then have res: "ok = ok2" "t' = t2" "len' = (if ok2 then len + 1 else len)" "m' = m2" using r unf False None by (auto simp: Let_def)
        have live: "live m2 k - live m k = census k t2 - census k t - (if ok2 then census k (Leaf key v) else 0)" for k
          using add_child_correct(2) [OF wf node None wl _ a] by simp
        show ?thesis
        proof (cases ok2)
          case True
          then have ca: "child_added p t ?b (Leaf key v) t2" using add_child_correct(1) [OF wf node None wl _ a] by simp
          have "find_child t ?b = Null" using None by (rule no_slot_child)
          then have "lookup_from t2 j (length p) = (if j = key then Some v else lookup_from t j (length p))" for j
            using look [of t2 j] look [OF node refl, of j] ca ag by (auto simp: child_added_def)
          moreover have "int (len + 1) - int len = census BLeaf t2 - census BLeaf t"
            using live [of BLeaf] True add_child_leaves [OF a] by simp
          ultimately show ?thesis using res True live ca by (simp add: inserted_def child_added_def)
        next
          case False
          then have "t2 = t" using add_child_correct(1) [OF wf node None wl _ a] by simp
          then show ?thesis using res False live wf by (simp add: inserted_fail)
        qed
      next
        case (Some i)
        obtain ok2 c l2 m2 where ii: "insert_inner (find_child t ?b) len key v (?d + 1) m = (ok2, c, l2, m2)" by (metis surj_pair)
        note sc = set_child_node [OF wf Some]
        have res: "ok = ok2" "t' = set_child t i c" "len' = l2" "m' = m2" using r unf False Some ii sc(2) by (simp_all add: Let_def)
        have IH: "inserted (p @ ?q @ [?b]) (find_child t ?b) len key v m ok2 c l2 m2"
          using step.IH [OF node part, of ?b "find_child t ?b"] wf_find_child [OF wf node] key(1) path ii by simp
        have lc: "lookup_from c j (?d + 1) = (if ok2 \<and> j = key then Some v else lookup_from (find_child t ?b) j (?d + 1))" for j
          using IH by (simp add: inserted_def)
        have "lookup_from (set_child t i c) j (length p) = (if ok2 \<and> j = key then Some v else lookup_from t j (length p))" for j
          using look [OF sc(3,4), of c j] look [OF node refl, of j] sc(5) [of c "key_at j ?d"] lc [of j] ag by auto
        then show ?thesis
          using res IH sc(6) [of c] sc(7) [of _ c] counted_set_child [OF _ _ Some wf, of c] counted_child [OF _ wf, of ?b] spare_child [OF _ wf, of ?b]
          by (simp add: inserted_def)
      qed
    qed
  qed
qed

section \<open>Removal\<close>

lemma remove_inner_node:
  assumes "is_node t"
  shows "remove_inner t len key depth m =
    (let d = depth + length (partial t) in
     if agree (partial t) key depth \<and> d < KEY_LEN
     then (case find_child_slot t (key_at key d) of
             None \<Rightarrow> (None, t, len, m)
           | Some i \<Rightarrow>
               (case remove_inner (child_at t i) len key (d + 1) m of
                  (res, c, len', m') \<Rightarrow>
                    let t1 = set_child t i c
                    in if res \<noteq> None \<and> c = Null
                       then (case drop_child t1 (key_at key d) m' of (t2, m2) \<Rightarrow> (res, t2, len', m2))
                       else (res, t1, len', m')))
     else (None, t, len, m))"
proof (cases t)
  case (Node4 q es)
  show ?thesis using assms unfolding Node4 by (subst remove_inner.simps) (auto simp: Let_def match_len_full)
next
  case (Node16 q es)
  show ?thesis using assms unfolding Node16 by (subst remove_inner.simps) (auto simp: Let_def match_len_full)
next
  case (Node256 q n cs)
  show ?thesis using assms unfolding Node256 by (subst remove_inner.simps) (auto simp: Let_def match_len_full)
qed (use assms in simp_all)

text \<open>A node that has just lost the child at \<open>b\<close>: a small one still has the empty entry, a large one
  still counts it.\<close>

fun lost_child :: "u8 \<Rightarrow> art \<Rightarrow> bool" where
  "lost_child b (Node4 q es) \<longleftrightarrow> map_of es b = Some Null \<and> (\<forall>e\<in>set es. counted (snd e))"
| "lost_child b (Node16 q es) \<longleftrightarrow> map_of es b = Some Null \<and> (\<forall>e\<in>set es. counted (snd e))"
| "lost_child b (Node256 q n cs) \<longleftrightarrow> occupied cs + 1 \<le> n \<and> (\<forall>c\<in>set cs. counted c)"
| "lost_child b _ \<longleftrightarrow> False"

lemma lookup_no_children: "is_node t \<Longrightarrow> (\<And>b. find_child t b = Null) \<Longrightarrow> lookup_from t j d = None"
  using lookup_node [of t j d] by simp

lemma lookup_same_children:
  "is_node t \<Longrightarrow> is_node t' \<Longrightarrow> partial t' = partial t \<Longrightarrow> (\<And>b. find_child t' b = find_child t b) \<Longrightarrow> lookup_from t' j d = lookup_from t j d"
  using lookup_node [of t j d] lookup_node [of t' j d] by simp

lemma filter_sum: "distinct (map fst es) \<Longrightarrow> map_of es b = Some Null \<Longrightarrow>
  (\<Sum>e\<leftarrow>filter (\<lambda>e. fst e \<noteq> b) es. census k (snd e)) = (\<Sum>e\<leftarrow>es. census k (snd e))"
proof (induction es)
  case (Cons e es)
  show ?case
  proof (cases "fst e = b")
    case True
    then have "b \<notin> fst ` set es" using Cons.prems(1) by simp
    then have "\<forall>x\<in>set es. fst x \<noteq> b" by (metis image_eqI)
    then have "filter (\<lambda>e. fst e \<noteq> b) es = es" by simp
    then show ?thesis using True Cons.prems(2) by (cases e) simp
  next
    case False
    then show ?thesis using Cons by (cases e) auto
  qed
qed simp

lemma filter_map_of: "map_of (filter (\<lambda>e. fst e \<noteq> b) es) x = (if x = b then None else map_of es x)"
  by (induction es) auto

lemma strictly_sorted_filter: "strictly_sorted es \<Longrightarrow> strictly_sorted (filter P es)"
  by (induction es) (auto simp: strictly_sorted_def)

lemma single_entry_null: "map_of es b = Some Null \<Longrightarrow> length es \<le> 1 \<Longrightarrow> es = [(b, Null)]"
  by (cases es) (auto split: if_splits)

definition dropped :: "u8 list \<Rightarrow> art \<Rightarrow> ArtMem \<Rightarrow> art \<Rightarrow> ArtMem \<Rightarrow> bool" where
  "dropped p t m t' m' \<longleftrightarrow> wf_art p t' \<and> counted t' \<and> (\<forall>j. lookup_from t' j (length p) = lookup_from t j (length p)) \<and>
     (\<forall>k. live m' k - live m k = census k t' - census k t) \<and> live m' BLeaf = live m BLeaf"

lemma drop_small:
  assumes "map_of es b = Some Null" "\<forall>e\<in>set es. counted (snd e)"
  shows "wf_art p (Node4 q es) \<Longrightarrow> drop_child (Node4 q es) b m = (t', m') \<Longrightarrow> dropped p (Node4 q es) m t' m'"
    and "wf_art p (Node16 q es) \<Longrightarrow> drop_child (Node16 q es) b m = (t', m') \<Longrightarrow> dropped p (Node16 q es) m t' m'"
proof -
  have fc: "(case map_of (filter (\<lambda>e. fst e \<noteq> b) es) x of Some c \<Rightarrow> c | None \<Rightarrow> Null) = (case map_of es x of Some c \<Rightarrow> c | None \<Rightarrow> Null)" for x
    by (cases "x = b") (simp_all add: filter_map_of assms(1))
  show "dropped p (Node4 q es) m t' m'" if w: "wf_art p (Node4 q es)" and r: "drop_child (Node4 q es) b m = (t', m')"
  proof (cases "length es \<le> 1")
    case True
    then have es: "es = [(b, Null)]" using single_entry_null [OF assms(1)] by simp
    have "lookup_from (Node4 q es) j d = None" for j d by (rule lookup_no_children) (simp_all add: es split: option.splits)
    then show ?thesis using r es by (auto simp: drop_child_def dropped_def rcu_defer_free_node_def)
  next
    case False
    obtain a m1 where a: "alloc_node4 q m = (a, m1)" by fastforce
    have d: "distinct (map fst es)" using w sorted_distinct_keys by auto
    show ?thesis
    proof (cases a)
      case None
      then show ?thesis using r a False w assms(2) alloc_nodes_live(1) [OF a] by (auto simp: drop_child_def dropped_def)
    next
      case (Some q')
      then have q': "q' = q" using alloc_nodes_partial(1) a take_partial [of p q] w by auto
      let ?t = "Node4 q (filter (\<lambda>e. fst e \<noteq> b) es)"
      have t': "t' = ?t" "m' = release BNode4 m1" using r a Some False q' by (auto simp: drop_child_def rcu_defer_free_node_def)
      have "wf_art p ?t" using w strictly_sorted_filter [of es] by (auto intro: le_trans [OF length_filter_le])
      moreover have "lookup_from ?t j (length p) = lookup_from (Node4 q es) j (length p)" for j
        by (rule lookup_same_children) (simp_all add: fc)
      ultimately show ?thesis
        using t' Some assms(2) filter_sum [OF d assms(1)] alloc_nodes_live(1) [OF a] by (simp add: dropped_def)
    qed
  qed
  show "dropped p (Node16 q es) m t' m'" if w: "wf_art p (Node16 q es)" and r: "drop_child (Node16 q es) b m = (t', m')"
  proof (cases "length es \<le> 1")
    case True
    then have es: "es = [(b, Null)]" using single_entry_null [OF assms(1)] by simp
    have "lookup_from (Node16 q es) j d = None" for j d by (rule lookup_no_children) (simp_all add: es split: option.splits)
    then show ?thesis using r es by (auto simp: drop_child_def dropped_def rcu_defer_free_node_def)
  next
    case False
    obtain a m1 where a: "alloc_node16 q m = (a, m1)" by fastforce
    have d: "distinct (map fst es)" using w sorted_distinct_keys by auto
    show ?thesis
    proof (cases a)
      case None
      then show ?thesis using r a False w assms(2) alloc_nodes_live(2) [OF a] by (auto simp: drop_child_def dropped_def)
    next
      case (Some q')
      then have q': "q' = q" using alloc_nodes_partial(2) a take_partial [of p q] w by auto
      let ?t = "Node16 q (filter (\<lambda>e. fst e \<noteq> b) es)"
      have t': "t' = ?t" "m' = release BNode16 m1" using r a Some False q' by (auto simp: drop_child_def rcu_defer_free_node_def)
      have "wf_art p ?t" using w strictly_sorted_filter [of es] by (auto intro: le_trans [OF length_filter_le])
      moreover have "lookup_from ?t j (length p) = lookup_from (Node16 q es) j (length p)" for j
        by (rule lookup_same_children) (simp_all add: fc)
      ultimately show ?thesis
        using t' Some assms(2) filter_sum [OF d assms(1)] alloc_nodes_live(2) [OF a] by (simp add: dropped_def)
    qed
  qed
qed

lemma sum_list_zero: "(\<And>x. x \<in> set xs \<Longrightarrow> f x = 0) \<Longrightarrow> (\<Sum>x\<leftarrow>xs. f x) = (0 :: int)"
  by (induction xs) simp_all

lemma occupied_zero: "occupied cs = 0 \<Longrightarrow> c \<in> set cs \<Longrightarrow> c = Null"
  by (auto simp: occupied_def filter_empty_conv)

lemma drop_child_correct:
  assumes "wf_art p t" "lost_child b t" "drop_child t b m = (t', m')"
  shows "dropped p t m t' m'"
proof (cases t)
  case (Node4 q es)
  then show ?thesis using drop_small(1) assms by auto
next
  case (Node16 q es)
  then show ?thesis using drop_small(2) assms by auto
next
  case (Node256 q n cs)
  show ?thesis
  proof (cases "n - 1 = 0")
    case True
    then have o: "occupied cs = 0" using assms(2) Node256 by simp
    have "length cs = 256" using assms(1) Node256 by simp
    then have "cs ! unat x = Null" for x :: u8 using occupied_zero [OF o nth_mem, of "unat x"] by simp
    then have l: "lookup_from t j d = None" for j d unfolding Node256 by (intro lookup_no_children) simp_all
    have "(\<Sum>c\<leftarrow>cs. census k c) = 0" for k by (rule sum_list_zero) (use occupied_zero [OF o] in fastforce)
    then show ?thesis using assms(3) Node256 True l by (auto simp: drop_child_def dropped_def rcu_defer_free_node_def)
  next
    case False
    then have t': "t' = Node256 q (n - 1) cs" "m' = m" using assms(3) Node256 by (auto simp: drop_child_def)
    have "lookup_from t' j d = lookup_from t j d" for j d unfolding t' Node256 by (rule lookup_same_children) simp_all
    moreover have "occupied cs \<le> n - 1" using assms(2) Node256 by auto
    ultimately show ?thesis using t' assms(1,2) Node256 by (simp add: dropped_def)
  qed
qed (use assms in simp_all)

definition removed :: "u8 list \<Rightarrow> art \<Rightarrow> nat \<Rightarrow> u64 \<Rightarrow> ArtMem \<Rightarrow> u64 option \<Rightarrow> art \<Rightarrow> nat \<Rightarrow> ArtMem \<Rightarrow> bool" where
  "removed p t len key m res t' len' m' \<longleftrightarrow> wf_art p t' \<and> counted t' \<and> res = lookup_from t key (length p) \<and>
     (\<forall>j. lookup_from t' j (length p) = (if j = key then None else lookup_from t j (length p))) \<and>
     len' \<le> len \<and> (0 < len \<longrightarrow> int len' - int len = census BLeaf t' - census BLeaf t) \<and>
     (\<forall>k. live m' k - live m k = census k t' - census k t)"

lemma lost_set_child:
  assumes "wf_art p t" "counted t" "find_child_slot t b = Some i" "find_child t b \<noteq> Null"
  shows "lost_child b (set_child t i Null)"
proof (cases t)
  case (Node4 q es)
  then have f: "first_idx (\<lambda>e. fst e = b) es = Some i" and d: "distinct (map fst es)"
    using assms(1,3) sorted_distinct_keys by auto
  show ?thesis using set_child_small(1,2) [OF d f, of Null] Node4 assms(2) by auto
next
  case (Node16 q es)
  then have f: "first_idx (\<lambda>e. fst e = b) es = Some i" and d: "distinct (map fst es)"
    using assms(1,3) sorted_distinct_keys by auto
  show ?thesis using set_child_small(1,2) [OF d f, of Null] Node16 assms(2) by auto
next
  case (Node256 q n cs)
  then have i: "i = unat b" "cs ! i \<noteq> Null" "i < length cs" using assms(1,3) by (auto split: if_splits)
  have "int (occupied (cs[i := Null])) + 1 = int (occupied cs)" using occupied_upd [OF i(3), of Null] i(2) by simp
  then show ?thesis using assms(2) Node256 set_update_subset_insert [of cs i Null] by auto
qed (use assms(3) in simp_all)

lemma remove_inner_correct:
  "wf_art p t \<Longrightarrow> counted t \<Longrightarrow> remove_inner t len key (length p) m = (res, t', len', m') \<Longrightarrow>
   removed p t len key m res t' len' m'"
proof (induction p t arbitrary: res t' len' m' rule: path_induct)
  case (step p t)
  note wf = step.prems(1) and cnt = step.prems(2) and r = step.prems(3)
  show ?case
  proof (cases "is_node t")
    case False
    then show ?thesis using r wf
      by (cases t) (auto simp: remove_inner.simps [of Null] remove_inner.simps [of "Leaf _ _"] removed_def split: if_splits)
  next
    case node: True
    let ?q = "partial t" and ?d = "length p + length (partial t)"
    let ?b = "key_at key ?d"
    have part: "?d < KEY_LEN" using wf_partial wf node by blast
    note unf = remove_inner_node [OF node, of len key "length p" m]
    have look: "lookup_from u j (length p) = (if agree ?q j (length p) then lookup_from (find_child u (key_at j ?d)) j (?d + 1) else None)"
      if "is_node u" "partial u = ?q" for u j using lookup_node [OF that(1), of j "length p"] that(2) part by simp
    have same: "removed p t len key m None t len m" if "lookup_from t key (length p) = None"
      using that wf cnt by (auto simp: removed_def)
    show ?thesis
    proof (cases "agree ?q key (length p)")
      case False
      then show ?thesis using r unf same look [OF node refl, of key] by (simp add: Let_def)
    next
      case ag: True
      show ?thesis
      proof (cases "find_child_slot t ?b")
        case None
        have "find_child t ?b = Null" using None by (rule no_slot_child)
        then show ?thesis using r unf None ag part same look [OF node refl, of key] by (simp add: Let_def)
      next
        case (Some i)
        note sc = set_child_node [OF wf Some]
        obtain res2 c l2 m2 where rr: "remove_inner (find_child t ?b) len key (?d + 1) m = (res2, c, l2, m2)" by (metis surj_pair)
        have IH: "removed (p @ ?q @ [?b]) (find_child t ?b) len key m res2 c l2 m2"
          using step.IH [OF node part, of ?b "find_child t ?b"] wf_find_child [OF wf node] counted_child [OF cnt wf] rr by simp
        let ?t1 = "set_child t i c"
        have res2: "res2 = lookup_from t key (length p)" using IH look [OF node refl, of key] ag by (simp add: removed_def)
        have lc: "lookup_from c j (?d + 1) = (if j = key then None else lookup_from (find_child t ?b) j (?d + 1))" for j
          using IH by (simp add: removed_def)
        have lk: "lookup_from ?t1 j (length p) = (if j = key then None else lookup_from t j (length p))" for j
          using look [OF sc(3,4), of c j] look [OF node refl, of j] sc(5) [of c "key_at j ?d"] lc [of j] by auto
        have r1: "removed p t len key m res2 ?t1 l2 m2"
          using IH res2 lk sc(6) [of c] sc(7) [of _ c] counted_set_child [OF cnt _ Some wf, of c] by (simp add: removed_def)
        show ?thesis
        proof (cases "res2 \<noteq> None \<and> c = Null")
          case True
          obtain t2 m3 where dr: "drop_child ?t1 ?b m2 = (t2, m3)" by fastforce
          have "find_child t ?b \<noteq> Null" using True IH by (auto simp: removed_def)
          then have "lost_child ?b ?t1" using lost_set_child [OF wf cnt Some] True by simp
          then have "dropped p ?t1 m2 t2 m3" using drop_child_correct dr r1 by (simp add: removed_def)
          moreover have "res = res2" "t' = t2" "len' = l2" "m' = m3"
            using r unf ag part Some rr sc(2) True dr by (simp_all add: Let_def)
          moreover have "census BLeaf t2 = census BLeaf ?t1" using \<open>dropped p ?t1 m2 t2 m3\<close> unfolding dropped_def
            by (metis diff_self eq_iff_diff_eq_0)
          moreover have "live m3 k - live m k = census k t2 - census k t" for k
          proof -
            have "live m3 k - live m2 k = census k t2 - census k ?t1" using \<open>dropped p ?t1 m2 t2 m3\<close> by (simp add: dropped_def)
            moreover have "live m2 k - live m k = census k ?t1 - census k t" using r1 by (simp add: removed_def)
            ultimately show ?thesis by linarith
          qed
          ultimately show ?thesis using r1 by (simp add: removed_def dropped_def)
        next
          case False
          then have "res = res2" "t' = ?t1" "len' = l2" "m' = m2"
            using r unf ag part Some rr sc(2) by (auto simp: Let_def)
          then show ?thesis using r1 by simp
        qed
      qed
    qed
  qed
qed

section \<open>Iteration\<close>

lemma for_each_children:
  assumes "wf_art p t" "is_node t"
  shows "set (for_each_inner t) = (\<Union>b. set (for_each_inner (find_child t b)))"
proof -
  have small: "(\<Union>e\<in>set es. set (for_each_inner (snd e))) = (\<Union>b. set (for_each_inner (case map_of es b of Some c \<Rightarrow> c | None \<Rightarrow> Null)))"
    if "strictly_sorted es" for es
  proof (rule set_eqI, rule iffI)
    fix x assume "x \<in> (\<Union>e\<in>set es. set (for_each_inner (snd e)))"
    then obtain e where e: "e \<in> set es" "x \<in> set (for_each_inner (snd e))" by auto
    then have "map_of es (fst e) = Some (snd e)" using sorted_distinct_keys [OF that] by (simp add: map_of_is_SomeI)
    then show "x \<in> (\<Union>b. set (for_each_inner (case map_of es b of Some c \<Rightarrow> c | None \<Rightarrow> Null)))"
      using e(2) by (intro UN_I [of "fst e"]) simp_all
  next
    fix x assume "x \<in> (\<Union>b. set (for_each_inner (case map_of es b of Some c \<Rightarrow> c | None \<Rightarrow> Null)))"
    then show "x \<in> (\<Union>e\<in>set es. set (for_each_inner (snd e)))" by (force split: option.splits dest: map_of_SomeD)
  qed
  show ?thesis
  proof (cases t)
    case (Node256 q n cs)
    then have len: "length cs = 256" using assms(1) by simp
    have null: "(if c \<noteq> Null then for_each_inner c else []) = for_each_inner c" for c by simp
    have "set (for_each_inner t) = (\<Union>i\<in>{..<256}. set (for_each_inner (cs ! i)))"
    proof -
      have "set cs = (!) cs ` {..<256}" using len map_nth [of cs] by (metis set_map atLeast_upt)
      then show ?thesis using Node256 by (simp add: null)
    qed
    also have "\<dots> = (\<Union>b::u8. set (for_each_inner (cs ! unat b)))"
    proof (rule set_eqI, rule iffI)
      fix x assume "x \<in> (\<Union>i\<in>{..<256}. set (for_each_inner (cs ! i)))"
      then obtain i where "i < 256" "x \<in> set (for_each_inner (cs ! i))" by auto
      then show "x \<in> (\<Union>b::u8. set (for_each_inner (cs ! unat b)))"
        by (intro UN_I [of "of_nat i"]) (simp_all add: byte_roundtrip(1))
    qed auto
    finally show ?thesis using Node256 by simp
  qed (use assms small in auto)
qed

lemma for_each_lookup:
  "wf_art p t \<Longrightarrow> (k, v) \<in> set (for_each_inner t) \<longleftrightarrow> lookup_from t k (length p) = Some v"
proof (induction p t rule: path_induct)
  case (step p t)
  show ?case
  proof (cases "is_node t")
    case False
    then show ?thesis by (cases t) auto
  next
    case node: True
    let ?q = "partial t" and ?d = "length p + length (partial t)"
    have part: "?d < KEY_LEN" using wf_partial step.prems node by blast
    have ch: "(k, v) \<in> set (for_each_inner (find_child t b)) \<longleftrightarrow> lookup_from (find_child t b) k (?d + 1) = Some v" for b
      using step.IH [OF node part, of b "find_child t b"] wf_find_child [OF step.prems node] by simp
    have pre: "b = key_at k ?d \<and> agree ?q k (length p)" if "lookup_from (find_child t b) k (?d + 1) = Some v" for b
      using lookup_prefix [OF wf_find_child [OF step.prems node, of b], of k v] that by (simp add: agree_append agree_Cons)
    have "(k, v) \<in> set (for_each_inner t) \<longleftrightarrow> (\<exists>b. lookup_from (find_child t b) k (?d + 1) = Some v)"
      using for_each_children [OF step.prems node] ch by auto
    also have "\<dots> \<longleftrightarrow> agree ?q k (length p) \<and> lookup_from (find_child t (key_at k ?d)) k (?d + 1) = Some v" using pre by metis
    finally show ?thesis using lookup_node [OF node, of k "length p"] part by simp
  qed
qed

lemma census_for_each: "int (length (for_each_inner t)) = census BLeaf t"
proof (induction t rule: for_each_inner.induct)
  case (3 p es)
  then show ?case by (induction es) auto
next
  case (4 p es)
  then show ?case by (induction es) auto
next
  case (5 p n cs)
  then show ?case by (induction cs) auto
qed simp_all

lemma distinct_children:
  "distinct (map fst bs) \<Longrightarrow> (\<And>b l. (b, l) \<in> set bs \<Longrightarrow> distinct (map fst l) \<and> (\<forall>x\<in>set l. key_at (fst x) d = b)) \<Longrightarrow>
   distinct (map fst (concat (map snd bs)))"
proof (induction bs)
  case (Cons bl bs)
  obtain b l where bl: "bl = (b, l)" by (cases bl)
  have "distinct (map fst (concat (map snd bs)))"
  proof (rule Cons.IH)
    show "distinct (map fst l') \<and> (\<forall>x\<in>set l'. key_at (fst x) d = b')" if "(b', l') \<in> set bs" for b' l'
      using Cons.prems(2) [of b' l'] that by simp
  qed (use Cons.prems(1) in simp)
  moreover have "fst x \<noteq> fst y" if xy: "x \<in> set l" "y \<in> set (concat (map snd bs))" for x y
  proof -
    obtain b' l' where b': "(b', l') \<in> set bs" "y \<in> set l'" using xy(2) by auto
    then have "b' \<in> fst ` set bs" by (metis fst_conv image_eqI)
    then have "b' \<noteq> b" using Cons.prems(1) bl by auto
    then show ?thesis using Cons.prems(2) [of b l] Cons.prems(2) [of b' l'] b' xy(1) bl by auto
  qed
  then have "fst ` set l \<inter> fst ` set (concat (map snd bs)) = {}" by blast
  ultimately show ?case using Cons.prems(2) [of b l] bl by simp
qed simp

lemma for_each_distinct: "wf_art p t \<Longrightarrow> distinct (map fst (for_each_inner t))"
proof (induction p t rule: path_induct)
  case (step p t)
  show ?case
  proof (cases "is_node t")
    case False
    then show ?thesis by (cases t) auto
  next
    case node: True
    let ?q = "partial t" and ?d = "length p + length (partial t)"
    have part: "?d < KEY_LEN" using wf_partial step.prems node by blast
    have byte: "key_at k ?d = b" if "wf_art (p @ ?q @ [b]) c" "(k, v) \<in> set (for_each_inner c)" for b c k v
      using that for_each_lookup [OF that(1), of k v] lookup_prefix [OF that(1), of k v] by (simp add: agree_append agree_Cons)
    have ch: "distinct (map fst (for_each_inner c)) \<and> (\<forall>x\<in>set (for_each_inner c). key_at (fst x) ?d = b)" if "wf_art (p @ ?q @ [b]) c" for b c
      using step.IH [OF node part, of b c] that byte by auto
    have small: "distinct (map fst (concat (map (\<lambda>e. for_each_inner (snd e)) es)))"
      if "strictly_sorted es" "\<forall>e\<in>set es. wf_art (p @ ?q @ [fst e]) (snd e)" for es
    proof -
      have "distinct (map fst (concat (map snd (map (\<lambda>e. (fst e, for_each_inner (snd e))) es))))"
        using sorted_distinct_keys [OF that(1)] that(2) ch by (intro distinct_children [where d = ?d]) (auto simp: comp_def)
      then show ?thesis by (simp add: comp_def)
    qed
    show ?thesis
    proof (cases t)
      case (Node256 q n cs)
      then have len: "length cs = 256" and w: "\<And>i. i < 256 \<Longrightarrow> wf_art (p @ ?q @ [of_nat i]) (cs ! i)" using step.prems by auto
      have inj: "inj_on (of_nat :: nat \<Rightarrow> u8) {0..<256}" by (rule inj_onI) (metis atLeastLessThan_iff byte_roundtrip(1))
      have "distinct (map fst (concat (map snd (map (\<lambda>i. (of_nat i :: u8, for_each_inner (cs ! i))) [0..<256]))))"
      proof (rule distinct_children [where d = ?d])
        show "distinct (map fst (map (\<lambda>i. (of_nat i :: u8, for_each_inner (cs ! i))) [0..<256]))"
          using inj by (simp add: comp_def distinct_map)
        show "distinct (map fst l) \<and> (\<forall>x\<in>set l. key_at (fst x) ?d = b)"
          if h: "(b, l) \<in> set (map (\<lambda>i. (of_nat i :: u8, for_each_inner (cs ! i))) [0..<256])" for b l
        proof -
          obtain i where "i < 256" "b = of_nat i" "l = for_each_inner (cs ! i)" using h by auto
          then show ?thesis using ch [OF w] by simp
        qed
      qed
      moreover have "map (\<lambda>c. if c \<noteq> Null then for_each_inner c else []) cs = map (\<lambda>i. for_each_inner (cs ! i)) [0..<256]"
        using len by (intro nth_equalityI) auto
      ultimately show ?thesis using Node256 by (simp add: comp_def)
    qed (use node step.prems small in simp_all)
  qed
qed

lemma lookup_diag_found:
  "step \<le> depth \<Longrightarrow> (case lookup_diag_from t key depth step of Found v \<Rightarrow> lookup_from t key depth = Some v
     | WalkRunaway d \<Rightarrow> False | _ \<Rightarrow> lookup_from t key depth = None)"
proof (induction t key depth step rule: lookup_diag_from.induct)
  case (1 t key depth step)
  show ?case
  proof (cases "is_node t")
    case False
    then show ?thesis by (cases t) (auto simp: lookup_diag_from.simps [of Null] lookup_diag_from.simps [of "Leaf _ _"])
  next
    case node: True
    let ?q = "partial t" and ?d = "depth + length (partial t)"
    let ?i = "match_len ?q key depth" and ?c = "find_child t (key_at key ?d)"
    have unf: "lookup_diag_from t key depth step =
      (if ?i < length ?q then
         (if depth + ?i \<ge> KEY_LEN then DepthExceededInPartial (depth + ?i) (length ?q)
          else PartialMismatch (depth + ?i) (?q ! ?i) (key_at key (depth + ?i)) t)
       else if ?d \<ge> KEY_LEN then DepthExceededAfterPartial ?d
       else if ?c = Null then MissingChild ?d (key_at key ?d) t (num_children t)
       else if step + 1 > 32 then WalkRunaway (?d + 1)
       else lookup_diag_from ?c key (?d + 1) (step + 1))"
    proof (cases t)
      case (Node4 q es)
      show ?thesis unfolding Node4 by (subst lookup_diag_from.simps) (simp add: Let_def)
    next
      case (Node16 q es)
      show ?thesis unfolding Node16 by (subst lookup_diag_from.simps) (simp add: Let_def)
    next
      case (Node256 q n cs)
      show ?thesis unfolding Node256 by (subst lookup_diag_from.simps) (simp add: Let_def)
    qed (use node in simp_all)
    note l = lookup_node [OF node, of key depth]
    show ?thesis
    proof (cases "agree ?q key depth \<and> ?d < KEY_LEN \<and> ?c \<noteq> Null")
      case True
      then have "\<not> ?i < length ?q" using match_len_full by simp
      moreover have "\<not> step + 1 > 32" using True 1(4) by (simp add: KEY_LEN_def)
      moreover have IH: "case lookup_diag_from ?c key (?d + 1) (step + 1) of Found v \<Rightarrow> lookup_from ?c key (?d + 1) = Some v
          | WalkRunaway d \<Rightarrow> False | _ \<Rightarrow> lookup_from ?c key (?d + 1) = None"
        using 1 node True calculation by (cases t) (simp_all add: Let_def)
      ultimately have e: "lookup_diag_from t key depth step = lookup_diag_from ?c key (?d + 1) (step + 1)"
        "lookup_from t key depth = lookup_from ?c key (?d + 1)" using unf l True by simp_all
      show ?thesis unfolding e by (rule IH)
    next
      case False
      then show ?thesis using unf l by (auto simp: match_len_full)
    qed
  qed
qed

section \<open>The tree implements the contract\<close>

text \<open>The tree is well formed, its length is the number of its leaves, and the live blocks are exactly
  its nodes and leaves.\<close>

definition art_inv :: "Art \<times> ArtMem \<Rightarrow> bool" where
  "art_inv s \<longleftrightarrow> wf_art [] (art_root (fst s)) \<and> int (art_len (fst s)) = census BLeaf (art_root (fst s)) \<and>
     (\<forall>k. live (snd s) k = census k (art_root (fst s)))"

lemma art_insert_inv:
  assumes "art_inv s" "key < 2 ^ 48" "art_insert key v s = (ok, s')"
  shows "art_inv s'" "art_lookup (fst s') = (if ok then (art_lookup (fst s))(key \<mapsto> v) else art_lookup (fst s))"
    "counted (art_root (fst s)) \<Longrightarrow> spare (art_root (fst s)) \<Longrightarrow> counted (art_root (fst s'))"
proof -
  obtain a m where s: "s = (a, m)" by (cases s)
  let ?t = "art_root a"
  have inv: "wf_art [] ?t" "int (art_len a) = census BLeaf ?t" "\<And>k. live m k = census k ?t"
    using assms(1) s by (simp_all add: art_inv_def)
  obtain ok1 m1 where al: "alloc_block BLeaf m = (ok1, m1)" by fastforce
  have live1: "live m1 k = live m k + (if ok1 \<and> k = BLeaf then 1 else 0)" for k using alloc_live [OF al] .
  have "art_inv s' \<and> art_lookup (fst s') = (if ok then (art_lookup a)(key \<mapsto> v) else art_lookup a) \<and>
      (counted ?t \<longrightarrow> spare ?t \<longrightarrow> counted (art_root (fst s')))"
  proof (cases "ok1 \<and> ?t \<noteq> Null")
    case True
    obtain ok2 t len m2 where ii: "insert_inner ?t (art_len a) key v 0 m1 = (ok2, t, len, m2)" by (metis surj_pair)
    then have s': "ok = ok2" "s' = (\<lparr>art_root = t, art_len = len\<rparr>, if ok2 then m2 else release BLeaf m2)"
      using assms(3) s al True by (auto simp: art_insert_def)
    have "inserted [] ?t (art_len a) key v m1 ok2 t len m2" using insert_inner_correct [of "[]" ?t key] inv(1) assms(2) ii by simp
    then show ?thesis
      using s' True inv live1 unfolding inserted_def art_inv_def art_lookup_def
      by (auto simp: fun_eq_iff algebra_simps)
  next
    case False
    show ?thesis
    proof (cases ok1)
      case True
      then have "?t = Null" using False by simp
      then have "ok" "s' = (a\<lparr>art_root := Leaf key v, art_len := art_len a + 1\<rparr>, m1)"
        using assms(3) s al True by (auto simp: art_insert_def)
      then show ?thesis using inv live1 True \<open>?t = Null\<close> assms(2) by (auto simp: art_inv_def art_lookup_def fun_eq_iff)
    next
      case False
      then have "\<not> ok" "s' = (a, m1)" using assms(3) s al by (auto simp: art_insert_def)
      then show ?thesis using inv live1 False by (auto simp: art_inv_def)
    qed
  qed
  then show "art_inv s'" "art_lookup (fst s') = (if ok then (art_lookup (fst s))(key \<mapsto> v) else art_lookup (fst s))"
    "counted (art_root (fst s)) \<Longrightarrow> spare (art_root (fst s)) \<Longrightarrow> counted (art_root (fst s'))" using s by simp_all
qed

lemma art_remove_inv:
  assumes "art_inv s" "counted (art_root (fst s))" "art_remove key s = (r, s')"
  shows "art_inv s'" "r = art_lookup (fst s) key" "art_lookup (fst s') = (art_lookup (fst s))(key := None)" "counted (art_root (fst s'))"
proof -
  obtain a m where s: "s = (a, m)" by (cases s)
  let ?t = "art_root a"
  have inv: "wf_art [] ?t" "int (art_len a) = census BLeaf ?t" "\<And>k. live m k = census k ?t"
    using assms(1) s by (simp_all add: art_inv_def)
  have "art_inv s' \<and> r = art_lookup a key \<and> art_lookup (fst s') = (art_lookup a)(key := None) \<and> counted (art_root (fst s'))"
  proof (cases "?t = Null")
    case True
    then have "r = None" "s' = s" using assms(3) s by (simp_all add: art_remove_def)
    then show ?thesis using True assms(1) s by (auto simp: art_lookup_def fun_eq_iff)
  next
    case False
    obtain res t len m1 where rr: "remove_inner ?t (art_len a) key 0 m = (res, t, len, m1)" by (metis surj_pair)
    then have s': "r = res" "s' = (\<lparr>art_root = t, art_len = len\<rparr>, m1)" using assms(3) s False by (auto simp: art_remove_def)
    have rem: "removed [] ?t (art_len a) key m res t len m1" using remove_inner_correct [of "[]" ?t] inv(1) assms(2) s rr by simp
    have "int len = census BLeaf t"
    proof (cases "art_len a = 0")
      case True
      then have e: "for_each_inner ?t = []" using inv(2) census_for_each [of ?t] by simp
      have n: "lookup_from ?t j 0 = None" for j
      proof (cases "lookup_from ?t j 0")
        case (Some w)
        then show ?thesis using for_each_lookup [OF inv(1), of j w] e by simp
      qed simp
      have "for_each_inner t = []"
      proof (rule ccontr)
        assume "for_each_inner t \<noteq> []"
        then obtain k w where "(k, w) \<in> set (for_each_inner t)" by (cases "for_each_inner t") auto
        then have "lookup_from t k 0 = Some w" using for_each_lookup [of "[]" t k w] rem by (simp add: removed_def)
        then show False using rem n [of k] by (simp add: removed_def split: if_splits)
      qed
      then have "census BLeaf t = 0" using census_for_each [of t] by simp
      moreover have "len = 0" using rem True by (simp add: removed_def)
      ultimately show ?thesis by simp
    next
      case False
      then show ?thesis using rem inv(2) by (simp add: removed_def)
    qed
    then show ?thesis using s' rem inv(3) by (auto simp: removed_def art_inv_def art_lookup_def fun_eq_iff)
  qed
  then show "art_inv s'" "r = art_lookup (fst s) key" "art_lookup (fst s') = (art_lookup (fst s))(key := None)" "counted (art_root (fst s'))"
    using s by simp_all
qed

definition counted_inv :: "Art \<times> ArtMem \<Rightarrow> bool" where
  "counted_inv s \<longleftrightarrow> art_inv s \<and> counted (art_root (fst s))"

definition bindings :: "Art \<times> ArtMem \<Rightarrow> u64 \<Rightarrow> u64 option" where
  "bindings s = art_lookup (fst s)"

definition insertable :: "u64 \<Rightarrow> u64 \<Rightarrow> Art \<times> ArtMem \<Rightarrow> bool" where
  "insertable k v s \<longleftrightarrow> k < 2 ^ 48 \<and> spare (art_root (fst s))"

interpretation pm: id_map counted_inv bindings art_insert art_remove insertable
proof
  fix s k v ok s'
  assume "counted_inv s" "insertable k v s" "art_insert k v s = (ok, s')"
  then show "counted_inv s' \<and> bindings s' = (if ok then (bindings s)(k \<mapsto> v) else bindings s)"
    using art_insert_inv [of s k v ok s'] by (simp add: counted_inv_def bindings_def insertable_def)
next
  fix s k r s'
  assume "counted_inv s" "art_remove k s = (r, s')"
  then show "counted_inv s' \<and> r = bindings s k \<and> bindings s' = (bindings s)(k := None)"
    using art_remove_inv [of s k r s'] by (simp add: counted_inv_def bindings_def)
qed

section \<open>A full large node\<close>

definition plenty :: "nat \<Rightarrow> ArtMem \<Rightarrow> bool" where
  "plenty n m \<longleftrightarrow> n \<le> length (outcomes m) \<and> False \<notin> set (outcomes m)"

lemma plenty_alloc:
  assumes "plenty (Suc n) m"
  obtains m' where "alloc_block b m = (True, m')" "plenty n m'"
proof -
  obtain os where "outcomes m = True # os" using assms by (cases "outcomes m") (auto simp: plenty_def)
  then have "alloc_block b m = (True, m\<lparr>outcomes := os, live := (live m)(b := live m b + 1)\<rparr>)" by (simp add: alloc_block_def)
  moreover have "plenty n (m\<lparr>outcomes := os, live := (live m)(b := live m b + 1)\<rparr>)"
    using assms \<open>outcomes m = True # os\<close> by (auto simp: plenty_def)
  ultimately show ?thesis using that by blast
qed

lemma plenty_release [simp]: "plenty n (release b m) = plenty n m"
  by (simp add: plenty_def release_def)

lemma plenty_mono: "plenty n m \<Longrightarrow> k \<le> n \<Longrightarrow> plenty k m"
  by (simp add: plenty_def)

lemma key_at_small:
  assumes "k < 256" "d < KEY_LEN"
  shows "key_at (of_nat k) d = (if d = 5 then of_nat k else 0)"
proof (rule bit_word_eqI)
  fix n assume n: "n < LENGTH(8)"
  have hi: "\<not> bit k i" if "8 \<le> i" for i
  proof -
    have "(2 :: nat) ^ 8 \<le> 2 ^ i" using that by (simp only: power_increasing_iff)
    then have "k div 2 ^ i = 0" using assms(1) by simp
    then show ?thesis by (simp add: bit_iff_odd)
  qed
  show "bit (key_at (of_nat k) d) n \<longleftrightarrow> bit (if d = 5 then of_nat k else 0 :: u8) n"
    using n assms(2) hi [of "8 * (5 - d) + n"] bit_key_at [OF assms(2), of "of_nat k" n]
    by (auto simp: KEY_LEN_def bit_of_nat_iff)
qed

abbreviation z5 :: "u8 list" where "z5 \<equiv> [0, 0, 0, 0, 0]"

definition low_leaf :: "nat \<Rightarrow> art" where
  "low_leaf k = Leaf (of_nat k) (of_nat k)"

definition ents :: "nat \<Rightarrow> (u8 \<times> art) list" where
  "ents n = map (\<lambda>i. (of_nat i, low_leaf i)) [0..<n]"

definition slots :: "nat \<Rightarrow> nat \<Rightarrow> art list" where
  "slots lo hi = map (\<lambda>i. if lo \<le> i \<and> i < hi then low_leaf i else Null) [0..<256]"

definition shape :: "nat \<Rightarrow> art" where
  "shape n = (if n \<le> 4 then Node4 z5 (ents n) else if n \<le> 16 then Node16 z5 (ents n) else Node256 z5 (min 255 n) (slots 0 n))"

lemma low_leaf_ne [simp]: "low_leaf k \<noteq> Null" "Null \<noteq> low_leaf k"
  by (simp_all add: low_leaf_def)

lemma match_z5: "k < 256 \<Longrightarrow> match_len z5 (of_nat k) 0 = 5" "k < 256 \<Longrightarrow> agree z5 (of_nat k) 0"
proof -
  assume k: "k < 256"
  show "agree z5 (of_nat k) 0" using key_at_small [OF k] by (simp add: agree_Cons KEY_LEN_def)
  then show "match_len z5 (of_nat k) 0 = 5" using match_len_cases [of z5 "of_nat k" 0] by auto
qed

lemma byte_of_nat_eq: "i < 256 \<Longrightarrow> j < 256 \<Longrightarrow> (of_nat i :: u8) = of_nat j \<longleftrightarrow> i = j"
  by (metis byte_roundtrip(1))

lemma ents_Suc: "ents (Suc n) = ents n @ [(of_nat n, low_leaf n)]"
  by (simp add: ents_def)

lemma insert_ents: "n < 256 \<Longrightarrow> insert_entry (of_nat n) (low_leaf n) (ents n) = ents (Suc n)"
proof -
  assume n: "n < 256"
  have "\<not> (of_nat n :: u8) < of_nat i" if "i < n" for i
    using that n by (simp add: word_less_nat_alt byte_roundtrip(1))
  then have "first_idx (\<lambda>e. (of_nat n :: u8) < fst e) (ents n) = None" unfolding first_idx_None ents_def by auto
  then show ?thesis by (simp add: insert_entry_def sorted_pos_def ents_Suc)
qed

lemma no_slot_ents: "n < 256 \<Longrightarrow> first_idx (\<lambda>e. fst e = (of_nat n :: u8)) (ents n) = None"
  unfolding first_idx_None ents_def using byte_of_nat_eq by fastforce

lemma slots_nth: "i < 256 \<Longrightarrow> slots lo hi ! i = (if lo \<le> i \<and> i < hi then low_leaf i else Null)" "length (slots lo hi) = 256"
  by (simp_all add: slots_def)

lemma slots_add: "n < 256 \<Longrightarrow> (slots 0 n)[n := low_leaf n] = slots 0 (Suc n)"
  by (intro nth_equalityI) (auto simp: slots_nth nth_list_update less_Suc_eq)

lemma fold_ents: "n \<le> 256 \<Longrightarrow> fold (\<lambda>(k, ch) cs. cs[unat k := ch]) (ents n) (replicate 256 Null) = slots 0 n"
proof (induction n)
  case 0
  then show ?case by (intro nth_equalityI) (auto simp: ents_def slots_nth)
next
  case (Suc n)
  then show ?case by (simp add: ents_Suc byte_roundtrip(1) slots_add)
qed

lemma five: "(5 :: nat) = Suc (Suc (Suc (Suc (Suc 0))))"
  by simp

lemma plenty_nodes:
  assumes "plenty (Suc k) m"
  shows "\<exists>m'. alloc_node4 z5 m = (Some z5, m') \<and> plenty k m'"
    "\<exists>m'. alloc_node16 z5 m = (Some z5, m') \<and> plenty k m'"
    "\<exists>m'. alloc_node256 z5 m = (Some z5, m') \<and> plenty k m'"
proof -
  show "\<exists>m'. alloc_node4 z5 m = (Some z5, m') \<and> plenty k m'"
    by (rule plenty_alloc [OF assms, of BNode4]) (simp add: alloc_node4_def MAX_PARTIAL_def)
  show "\<exists>m'. alloc_node16 z5 m = (Some z5, m') \<and> plenty k m'"
    by (rule plenty_alloc [OF assms, of BNode16]) (simp add: alloc_node16_def MAX_PARTIAL_def)
  show "\<exists>m'. alloc_node256 z5 m = (Some z5, m') \<and> plenty k m'"
    by (rule plenty_alloc [OF assms, of BNode256]) (simp add: alloc_node256_def MAX_PARTIAL_def)
qed

lemma shape_insert:
  assumes n: "2 \<le> n" "n < 256" and m: "plenty (Suc k) m"
  shows "\<exists>m'. insert_inner (shape n) len (of_nat n) (of_nat n) 0 m = (True, shape (Suc n), len + 1, m') \<and> plenty k m'"
proof -
  have part: "partial (shape n) = z5" "is_node (shape n)" by (simp_all add: shape_def)
  have byte: "key_at (of_nat n) 5 = of_nat n" using key_at_small [OF n(2), of 5] by (simp add: KEY_LEN_def)
  have slot: "find_child_slot (shape n) (of_nat n) = None"
    using n no_slot_ents [OF n(2)] by (auto simp: shape_def slots_nth byte_roundtrip(1))
  obtain m4 where m4: "alloc_node4 z5 m = (Some z5, m4)" "plenty k m4"
    using plenty_nodes [OF m] by blast
  obtain m16 where m16: "alloc_node16 z5 m = (Some z5, m16)" "plenty k m16"
    using plenty_nodes [OF m] by blast
  obtain m256 where m256: "alloc_node256 z5 m = (Some z5, m256)" "plenty k m256"
    using plenty_nodes [OF m] by blast
  have le: "length (ents n) = n" by (simp add: ents_def)
  have "\<exists>m'. add_child (shape n) (of_nat n) (low_leaf n) m = (True, shape (Suc n), m') \<and> plenty k m'"
  proof -
    consider "n < 4" | "n = 4" | "4 < n" "n < 16" | "n = 16" | "16 < n" using n by linarith
    then show ?thesis
    proof cases
      case 5
      then show ?thesis
        using plenty_mono [OF m, of k] n slots_add [OF n(2)] by (auto simp: shape_def byte_roundtrip(1))
    next
      case 4
      have "unat (of_nat (length (ents 16) + 1) :: u8) = 17" by (simp add: ents_def)
      then show ?thesis
        using 4 m256 le fold_ents [of 16] slots_add [of 16]
        by (simp add: shape_def grow_to_256_def Let_def rcu_defer_free_node_def byte_roundtrip(1) del: of_nat_add)
    qed (use m4 m16 le n insert_ents [OF n(2)] in \<open>simp_all add: shape_def grow_to_16_def rcu_defer_free_node_def\<close>)
  qed
  then show ?thesis
    using insert_inner_node [OF part(2), of 0 len "of_nat n" "of_nat n" m] part(1) match_z5(1) [OF n(2)] byte [unfolded five] slot
    by (auto simp: KEY_LEN_def Let_def low_leaf_def)
qed


lemma shape_full: "shape 256 = Node256 z5 255 (slots 0 256)"
  by (simp add: shape_def)

primrec insert_low :: "nat \<Rightarrow> Art \<times> ArtMem \<Rightarrow> bool \<times> Art \<times> ArtMem" where
  "insert_low 0 s = (True, s)"
| "insert_low (Suc n) s = (case insert_low n s of (ok, s') \<Rightarrow> case art_insert (of_nat n) (of_nat n) s' of (ok', s'') \<Rightarrow> (ok \<and> ok', s''))"

primrec remove_low :: "nat \<Rightarrow> Art \<times> ArtMem \<Rightarrow> u64 option list \<times> Art \<times> ArtMem" where
  "remove_low 0 s = ([], s)"
| "remove_low (Suc n) s = (case remove_low n s of (rs, s') \<Rightarrow> case art_remove (of_nat n) s' of (r, s'') \<Rightarrow> (rs @ [r], s''))"

lemma insert_first_two:
  assumes "plenty (3 + k) m"
  shows "\<exists>m'. insert_low 2 (new_art, m) = (True, \<lparr>art_root = shape 2, art_len = 2\<rparr>, m') \<and> plenty k m'"
proof -
  obtain m1 where m1: "alloc_block BLeaf m = (True, m1)" "plenty (Suc (Suc k)) m1"
    using plenty_alloc [of "Suc (Suc k)" m BLeaf] assms by (auto simp: eval_nat_numeral)
  obtain m2 where m2: "alloc_block BLeaf m1 = (True, m2)" "plenty (Suc k) m2"
    using plenty_alloc [OF m1(2), of BLeaf] by metis
  obtain m3 where m3: "alloc_node4 z5 m2 = (Some z5, m3)" "plenty k m3"
    using plenty_nodes(1) [OF m2(2)] by blast
  have pl: "prefix_loop 0 1 0 0 = 5" by code_simp
  have ks: "map (key_at (0 :: u64)) [0..<5] = z5" "key_at (0 :: u64) 5 = 0" "key_at (1 :: u64) 5 = 1" by code_simp+
  have two: "[0..<2] = [0, Suc 0]" "(2 :: nat) = Suc (Suc 0)" by (simp_all add: upt_rec)
  have "shape 2 = Node4 z5 [(0, Leaf 0 0), (1, Leaf 1 1)]"
    by (simp add: shape_def ents_def low_leaf_def two)
  then have "split_leaves 0 0 1 1 1 0 m2 = (True, shape 2, 2, m3)"
    using pl ks m3 by (simp add: split_leaves_def two_entries_def MAX_PARTIAL_def KEY_LEN_def)
  then have "insert_inner (Leaf 0 0) 1 1 1 0 m2 = (True, shape 2, 2, m3)"
    by (subst insert_inner.simps) simp
  then have "insert_low (Suc (Suc 0)) (new_art, m) = (True, \<lparr>art_root = shape 2, art_len = 2\<rparr>, m3)"
    using m1(1) m2(1) by (simp add: art_insert_def new_art_def)
  then have "insert_low 2 (new_art, m) = (True, \<lparr>art_root = shape 2, art_len = 2\<rparr>, m3)" by (simp only: two(2))
  then show ?thesis using m3(2) by blast
qed

lemma insert_low_shape:
  assumes "plenty (2 * n + k) m" "2 \<le> n" "n \<le> 256"
  shows "\<exists>m'. insert_low n (new_art, m) = (True, \<lparr>art_root = shape n, art_len = n\<rparr>, m') \<and> plenty k m'"
  using assms(2,3,1)
proof (induction n arbitrary: k rule: nat_induct_at_least)
  case base
  then show ?case using insert_first_two [of k m] plenty_mono [of "2 * 2 + k" m "3 + k"] by simp
next
  case (Suc n)
  have "plenty (2 * n + (2 + k)) m" using Suc.prems by (simp add: algebra_simps)
  then obtain m1 where m1: "insert_low n (new_art, m) = (True, \<lparr>art_root = shape n, art_len = n\<rparr>, m1)" "plenty (Suc (Suc k)) m1"
    using Suc.IH [of "2 + k"] Suc.prems by auto
  obtain m2 where m2: "alloc_block BLeaf m1 = (True, m2)" "plenty (Suc k) m2"
    using plenty_alloc [OF m1(2), of BLeaf] by metis
  obtain m3 where m3: "insert_inner (shape n) n (of_nat n) (of_nat n) 0 m2 = (True, shape (Suc n), n + 1, m3)" "plenty k m3"
    using shape_insert [OF _ _ m2(2)] Suc.hyps Suc.prems by fastforce
  have "shape n \<noteq> Null" by (simp add: shape_def)
  then show ?case using m1(1) m2(1) m3 by (simp add: art_insert_def)
qed

lemma slots_remove: "k < 256 \<Longrightarrow> (slots k hi)[k := Null] = slots (Suc k) hi"
  by (intro nth_equalityI) (auto simp: slots_nth nth_list_update)

lemma remove_slot:
  assumes "k < 255"
  shows "remove_inner (Node256 z5 (255 - k) (slots k 256)) len (of_nat k) 0 m =
    (Some (of_nat k), if k = 254 then Null else Node256 z5 (254 - k) (slots (Suc k) 256), len - 1,
     (if k = 254 then release BNode256 else id) (release BLeaf m))"
proof -
  define t where "t = Node256 z5 (255 - k) (slots k 256)"
  have k: "k < 256" using assms by simp
  have byte: "key_at (of_nat k) 5 = of_nat k" using key_at_small [OF k, of 5] by (simp add: KEY_LEN_def)
  have leaf: "remove_inner (Leaf (of_nat k) (of_nat k)) len (of_nat k) 6 m = (Some (of_nat k), Null, len - 1, release BLeaf m)"
    by (subst remove_inner.simps) simp
  have slot: "slots k 256 ! k = Leaf (of_nat k) (of_nat k)" using k by (simp add: slots_nth low_leaf_def)
  have t: "is_node t" "agree (partial t) (of_nat k) 0" "length (partial t) = 5" "find_child_slot t (of_nat k) = Some k"
    "child_at t k = Leaf (of_nat k) (of_nat k)" "set_child t k Null = Node256 z5 (255 - k) (slots (Suc k) 256)"
    using k slot match_z5(2) [OF k] slots_remove [OF k] by (simp_all add: t_def byte_roundtrip(1))
  have "remove_inner t len (of_nat k) 0 m =
    (case drop_child (Node256 z5 (255 - k) (slots (Suc k) 256)) (of_nat k) (release BLeaf m) of
       (t2, m2) \<Rightarrow> (Some (of_nat k), t2, len - 1, m2))"
    using t byte leaf by (simp add: remove_inner_node Let_def KEY_LEN_def)
  then show ?thesis using assms by (auto simp: t_def drop_child_def rcu_defer_free_node_def)
qed

lemma remove_low_shape:
  assumes "k \<le> 255"
  shows "\<exists>m'. remove_low k (\<lparr>art_root = shape 256, art_len = 256\<rparr>, m) =
    (map (\<lambda>i. Some (of_nat i)) [0..<k],
     \<lparr>art_root = (if k = 255 then Null else Node256 z5 (255 - k) (slots k 256)), art_len = 256 - k\<rparr>, m')"
  using assms
proof (induction k)
  case 0
  then show ?case by (simp add: shape_full)
next
  case (Suc k)
  then obtain m1 where "remove_low k (\<lparr>art_root = shape 256, art_len = 256\<rparr>, m) =
    (map (\<lambda>i. Some (of_nat i)) [0..<k], \<lparr>art_root = Node256 z5 (255 - k) (slots k 256), art_len = 256 - k\<rparr>, m1)" by fastforce
  then show ?case using remove_slot [of k "256 - k" m1] Suc.prems by (auto simp: art_remove_def)
qed


lemma lookup_full: "k < 256 \<Longrightarrow> lookup_from (shape 256) (of_nat k) 0 = Some (of_nat k)"
proof -
  assume k: "k < 256"
  define t where "t = shape 256"
  have byte: "key_at (of_nat k) 5 = of_nat k" using key_at_small [OF k, of 5] by (simp add: KEY_LEN_def)
  have t: "is_node t" "agree (partial t) (of_nat k) 0" "length (partial t) = 5" "find_child t (of_nat k) = Leaf (of_nat k) (of_nat k)"
    using k match_z5(2) [OF k] by (simp_all add: t_def shape_full byte_roundtrip(1) slots_nth low_leaf_def)
  have "lookup_from (Leaf (of_nat k) (of_nat k)) (of_nat k) 6 = Some (of_nat k)" by (subst lookup_from.simps) simp
  then have "lookup_from t (of_nat k) 0 = Some (of_nat k)" using t byte by (simp add: lookup_node KEY_LEN_def)
  then show ?thesis by (simp add: t_def)
qed


section \<open>Histories of the tree\<close>

fun art_run :: "(u64, u64) map_op list \<Rightarrow> Art \<times> ArtMem \<Rightarrow> u64 map_ans list \<times> Art \<times> ArtMem" where
  "art_run [] s = ([], s)"
| "art_run (InsOp k v # ops) s = (case art_insert k v s of (ok, s1) \<Rightarrow> case art_run ops s1 of (as, s2) \<Rightarrow> (InsAns ok # as, s2))"
| "art_run (DelOp k # ops) s = (case art_remove k s of (r, s1) \<Rightarrow> case art_run ops s1 of (as, s2) \<Rightarrow> (DelAns r # as, s2))"

text \<open>Every key inserted has 48 bits and meets no node with 255 children.\<close>

fun art_room :: "(u64, u64) map_op list \<Rightarrow> Art \<times> ArtMem \<Rightarrow> bool" where
  "art_room [] s = True"
| "art_room (InsOp k v # ops) s = (insertable k v s \<and> art_room ops (snd (art_insert k v s)))"
| "art_room (DelOp k # ops) s = art_room ops (snd (art_remove k s))"

lemma pm_run: "pm.run ops s = art_run ops s"
  by (induction ops s rule: art_run.induct) (auto split: prod.splits)

lemma pm_roomy: "pm.roomy ops s = art_room ops s"
  by (induction ops s rule: art_room.induct) auto

definition empty_mem :: "bool list \<Rightarrow> ArtMem" where
  "empty_mem os = \<lparr>outcomes = os, live = (\<lambda>_. 0)\<rparr>"

lemma new_art_inv: "counted_inv (new_art, empty_mem os)" "bindings (new_art, empty_mem os) = Map.empty"
  by (auto simp: counted_inv_def art_inv_def new_art_def empty_mem_def bindings_def art_lookup_def)

lemma run_from_new:
  assumes "art_room ops (new_art, empty_mem os)" "art_run ops (new_art, empty_mem os) = (as, s)"
  shows "art_inv s" "spec_run ops as Map.empty = Some (art_lookup (fst s))"
  using pm.run_refines [of "(new_art, empty_mem os)" ops as s, unfolded pm_run pm_roomy] assms new_art_inv [of os]
  by (simp_all add: counted_inv_def bindings_def)

lemma for_each_exact:
  assumes "art_inv s"
  shows "set (art_for_each (fst s)) = Map.graph (art_lookup (fst s))" "distinct (map fst (art_for_each (fst s)))"
    "length (art_for_each (fst s)) = art_len (fst s)"
proof -
  have wf: "wf_art [] (art_root (fst s))" "int (art_len (fst s)) = census BLeaf (art_root (fst s))"
    using assms by (simp_all add: art_inv_def)
  have fe: "art_for_each (fst s) = for_each_inner (art_root (fst s))" by (simp add: art_for_each_def)
  show "set (art_for_each (fst s)) = Map.graph (art_lookup (fst s))"
    using for_each_lookup [OF wf(1)] by (auto simp: fe Map.graph_def art_lookup_def)
  show "distinct (map fst (art_for_each (fst s)))" using for_each_distinct [OF wf(1)] by (simp add: fe)
  show "length (art_for_each (fst s)) = art_len (fst s)"
    using wf(2) census_for_each [of "art_root (fst s)"] by (simp add: fe)
qed

section \<open>Properties\<close>

text \<open>C17 Every history of insertions and removals starting from the empty tree, with any allocation
  failures, answers as a partial map does: a successful insertion binds the key, a refused one changes
  nothing, and a removal returns the binding it deletes. Lookups afterwards read that map. The hypothesis
  asks that keys have 48 bits and that no insertion meets a node with 255 children.\<close>

theorem art_history_refines:
  assumes "art_room ops (new_art, empty_mem os)" "art_run ops (new_art, empty_mem os) = (as, s)"
  shows "spec_run ops as Map.empty = Some (art_lookup (fst s))"
  using run_from_new [OF assms] by blast

theorem art_history_refines_witness:
  "\<exists>as s. art_run [InsOp 1 10, InsOp 2 20, DelOp 1] (new_art, empty_mem [True, True, True]) = (as, s) \<and>
     spec_run [InsOp 1 10, InsOp 2 20, DelOp 1] as Map.empty = Some (art_lookup (fst s))"
proof -
  have "art_room [InsOp 1 10, InsOp 2 20, DelOp 1] (new_art, empty_mem [True, True, True])" by code_simp
  then show ?thesis using art_history_refines [of "[InsOp 1 10, InsOp 2 20, DelOp 1]" "[True, True, True]"] by (metis surj_pair)
qed



text \<open>The traversal visits every binding of the tree exactly once, and their number is the recorded
  length.\<close>

theorem art_for_each_exact:
  assumes "art_room ops (new_art, empty_mem os)" "art_run ops (new_art, empty_mem os) = (as, s)"
  shows "set (art_for_each (fst s)) = Map.graph (art_lookup (fst s)) \<and> distinct (map fst (art_for_each (fst s))) \<and>
    length (art_for_each (fst s)) = art_len (fst s)"
proof -
  have "art_inv s" using run_from_new [OF assms] by blast
  then show ?thesis using for_each_exact by blast
qed

theorem art_for_each_exact_witness:
  "\<exists>as s. art_run [InsOp 1 10, InsOp 2 20, DelOp 1] (new_art, empty_mem [True, True, True, True]) = (as, s) \<and>
     distinct (map fst (art_for_each (fst s)))"
proof -
  have "art_room [InsOp 1 10, InsOp 2 20, DelOp 1] (new_art, empty_mem [True, True, True, True])" by code_simp
  then show ?thesis using art_for_each_exact [of "[InsOp 1 10, InsOp 2 20, DelOp 1]" "[True, True, True, True]"] by (metis surj_pair)
qed

text \<open>The diagnostic lookup answers \<open>Found\<close> exactly when the lookup finds the value, on every tree,
  and never gives up because of its limit of 32 steps.\<close>

theorem lookup_diag_agrees:
  "(lookup_diag a key = Found v \<longleftrightarrow> art_lookup a key = Some v) \<and> lookup_diag a key \<noteq> WalkRunaway d"
  using lookup_diag_found [of 0 0 "art_root a" key]
  by (auto simp: lookup_diag_def art_lookup_def split: LookupOutcome.splits)

text \<open>C36 A large node counts at most 255 children. After the keys 0 to 255 have been inserted into an
  empty tree, removing 0 to 254 empties the tree: key 255, which was never removed, is no longer found,
  although the length is still 1.\<close>

theorem full_node_loses_key:
  "case insert_low 256 (new_art, empty_mem (replicate 512 True)) of
     (ok, s1) \<Rightarrow> ok \<and> art_lookup (fst s1) 255 = Some 255 \<and>
       (case remove_low 255 s1 of
          (rs, s2) \<Rightarrow> rs = map (\<lambda>i. Some (of_nat i)) [0..<255] \<and> art_lookup (fst s2) 255 = None \<and> art_len (fst s2) = 1)"
proof -
  have "plenty 512 (empty_mem (replicate 512 True))" by (simp add: plenty_def empty_mem_def)
  then obtain m1 where ins: "insert_low 256 (new_art, empty_mem (replicate 512 True)) = (True, \<lparr>art_root = shape 256, art_len = 256\<rparr>, m1)"
    using insert_low_shape [of 256 0 "empty_mem (replicate 512 True)"] by auto
  obtain m2 where rem: "remove_low 255 (\<lparr>art_root = shape 256, art_len = 256\<rparr>, m1) =
      (map (\<lambda>i. Some (of_nat i)) [0..<255], \<lparr>art_root = Null, art_len = 1\<rparr>, m2)"
    using remove_low_shape [of 255 m1] by auto
  have "lookup_from (shape 256) 255 0 = Some 255" using lookup_full [of 255] by simp
  then show ?thesis unfolding ins by (simp add: rem art_lookup_def)
qed

end
