(* ===== verification/Mpsc.thy ===== *)
theory Mpsc
  imports Telix_Prelude "HOL-Library.Log_Nat"
begin

text \<open>
  The lock-free message queue of \<open>ipc/port.rs\<close>: a ring of slots with a claim position for any number of producers
  and a read position for one consumer, both 32-bit counters that wrap around. A send and a receive are sequences
  of atomic accesses; a thread inside one has a program counter, and a history is any interleaving of such accesses
  (in the order in which memory takes them). The write of a message into a claimed slot is one access.

  The state carries three ghost fields that the code does not have: the messages in the order in which their slots
  were claimed, the messages taken so far, and the claim count that a producer saw when it read the tail.
\<close>

section \<open>The queue\<close>

record Message =
  msg_tag :: u64
  msg_data :: "u64 list"

definition SLOT_EMPTY :: u8 where "SLOT_EMPTY = 0"
definition SLOT_READY :: u8 where "SLOT_READY = 2"
definition PORT_QUEUE_SLAB_SIZE :: nat where "PORT_QUEUE_SLAB_SIZE = 2048"

record 'm MpscQueue =
  q_head :: u32
  q_tail :: u32
  q_capacity :: u32
  page_backed :: bool
  msgs :: "'m list"
  slot_states :: "u8 list"

definition slot_index :: "u32 \<Rightarrow> 'm MpscQueue \<Rightarrow> nat" where
  "slot_index t q = unat t AND (unat (q_capacity q) - 1)"

section \<open>Sending and receiving, access by access\<close>

datatype 'm send_pc =
    SIdle | SLoadTail 'm | SLoadHead 'm u32 | SCas 'm u32 | SWrite 'm u32 | SPublish u32 | SDone bool

text \<open>The flag says that a weak compare-exchange fails although the values agree.\<close>

fun send_step :: "bool \<Rightarrow> 'm send_pc \<Rightarrow> 'm MpscQueue \<Rightarrow> 'm send_pc \<times> 'm MpscQueue" where
  "send_step weak (SLoadTail m) q = (SLoadHead m (q_tail q), q)"
| "send_step weak (SLoadHead m t) q = (if t - q_head q \<ge> q_capacity q then SDone False else SCas m t, q)"
| "send_step weak (SCas m t) q =
     (if q_tail q = t \<and> \<not> weak then (SWrite m t, q\<lparr>q_tail := t + 1\<rparr>) else (SLoadTail m, q))"
| "send_step weak (SWrite m t) q = (SPublish t, q\<lparr>msgs := (msgs q)[slot_index t q := m]\<rparr>)"
| "send_step weak (SPublish t) q = (SDone True, q\<lparr>slot_states := (slot_states q)[slot_index t q := SLOT_READY]\<rparr>)"
| "send_step weak pc q = (pc, q)"

datatype 'm recv_pc =
    RIdle | RLoadHead | RCheck u32 | RRead u32 | RClear u32 'm | RAdvance u32 'm | RDone "'m option"

fun recv_step :: "'m recv_pc \<Rightarrow> 'm MpscQueue \<Rightarrow> 'm recv_pc \<times> 'm MpscQueue" where
  "recv_step RLoadHead q = (RCheck (q_head q), q)"
| "recv_step (RCheck h) q = (if slot_states q ! slot_index h q \<noteq> SLOT_READY then RDone None else RRead h, q)"
| "recv_step (RRead h) q = (RClear h (msgs q ! slot_index h q), q)"
| "recv_step (RClear h m) q = (RAdvance h m, q\<lparr>slot_states := (slot_states q)[slot_index h q := SLOT_EMPTY]\<rparr>)"
| "recv_step (RAdvance h m) q = (RDone (Some m), q\<lparr>q_head := h + 1\<rparr>)"
| "recv_step pc q = (pc, q)"

definition is_full :: "'m MpscQueue \<Rightarrow> bool" where
  "is_full q = (q_tail q - q_head q \<ge> q_capacity q)"

definition is_empty :: "'m MpscQueue \<Rightarrow> bool" where
  "is_empty q = (slot_states q ! slot_index (q_head q) q \<noteq> SLOT_READY)"

definition pending_count :: "'m MpscQueue \<Rightarrow> nat" where
  "pending_count q =
     (let claimed = unat (q_tail q - q_head q)
      in length (filter (\<lambda>i. slot_states q ! slot_index (q_head q + of_nat i) q = SLOT_READY)
           [0..<min claimed (unat (q_capacity q))]))"

section \<open>Size and allocation\<close>

definition HEADER_SIZE :: nat where "HEADER_SIZE = 16"
definition MESSAGE_SIZE :: nat where "MESSAGE_SIZE = 56"

definition leading_zeros32 :: "u32 \<Rightarrow> nat" where
  "leading_zeros32 w = length (takeWhile (\<lambda>i. \<not> bit w i) (rev [0..<32]))"

definition mpsc_capacity_for_size :: "nat \<Rightarrow> u32" where
  "mpsc_capacity_for_size alloc_size =
     (if alloc_size \<le> HEADER_SIZE then 0
      else let remaining = alloc_size - HEADER_SIZE; raw_cap = remaining div (MESSAGE_SIZE + 1)
           in if raw_cap = 0 then 0 else push_bit (31 - leading_zeros32 (of_nat raw_cap)) 1)"

definition new_queue :: "nat \<Rightarrow> bool \<Rightarrow> 'm \<Rightarrow> 'm MpscQueue" where
  "new_queue sz pb zero =
     (let cap = mpsc_capacity_for_size sz
      in \<lparr>q_head = 0, q_tail = 0, q_capacity = cap, page_backed = pb, msgs = replicate (unat cap) zero,
          slot_states = replicate (unat cap) SLOT_EMPTY\<rparr>)"

section \<open>Interleavings\<close>

record ('p, 'c, 'm) world =
  queue :: "'m MpscQueue"
  sender :: "'p \<Rightarrow> 'm send_pc"
  receiver :: "'c \<Rightarrow> 'm recv_pc"
  claimed :: "'m list"
  taken :: "'m list"
  seen :: "'p \<Rightarrow> nat"

datatype ('p, 'c, 'm) act = BeginSend 'p 'm | SendStep 'p bool | BeginRecv 'c | RecvStep 'c

definition send_idle :: "'m send_pc \<Rightarrow> bool" where
  "send_idle pc = (case pc of SIdle \<Rightarrow> True | SDone _ \<Rightarrow> True | _ \<Rightarrow> False)"

definition recv_idle :: "'m recv_pc \<Rightarrow> bool" where
  "recv_idle pc = (case pc of RIdle \<Rightarrow> True | RDone _ \<Rightarrow> True | _ \<Rightarrow> False)"

fun do_act :: "('p, 'c, 'm) act \<Rightarrow> ('p, 'c, 'm) world \<Rightarrow> ('p, 'c, 'm) world" where
  "do_act (BeginSend p m) s = (if send_idle (sender s p) then s\<lparr>sender := (sender s)(p := SLoadTail m)\<rparr> else s)"
| "do_act (SendStep p weak) s =
     (case send_step weak (sender s p) (queue s) of (pc, q) \<Rightarrow>
        s\<lparr>queue := q, sender := (sender s)(p := pc),
          seen := (case sender s p of SLoadTail m \<Rightarrow> (seen s)(p := length (claimed s)) | _ \<Rightarrow> seen s),
          claimed := (case pc of SWrite m t \<Rightarrow> claimed s @ [m] | _ \<Rightarrow> claimed s)\<rparr>)"
| "do_act (BeginRecv c) s = (if recv_idle (receiver s c) then s\<lparr>receiver := (receiver s)(c := RLoadHead)\<rparr> else s)"
| "do_act (RecvStep c) s =
     (case recv_step (receiver s c) (queue s) of (pc, q) \<Rightarrow>
        s\<lparr>queue := q, receiver := (receiver s)(c := pc),
          taken := (case receiver s c of RAdvance h m \<Rightarrow> taken s @ [m] | _ \<Rightarrow> taken s)\<rparr>)"

text \<open>
  No producer sleeps between its read of the tail and its compare-exchange while \<open>2 ^ 32\<close> slots are claimed; else
  the wrapped counter would look unchanged.
\<close>

fun timely :: "('p, 'c, 'm) act \<Rightarrow> ('p, 'c, 'm) world \<Rightarrow> bool" where
  "timely (SendStep p weak) s = (case sender s p of SCas m t \<Rightarrow> length (claimed s) < seen s p + 2 ^ 32 | _ \<Rightarrow> True)"
| "timely a s = True"

fun only_consumer :: "'c \<Rightarrow> ('p, 'c, 'm) act \<Rightarrow> bool" where
  "only_consumer c (BeginRecv d) = (d = c)"
| "only_consumer c (RecvStep d) = (d = c)"
| "only_consumer c a = True"

fun run_acts :: "('p, 'c, 'm) act list \<Rightarrow> ('p, 'c, 'm) world \<Rightarrow> ('p, 'c, 'm) world" where
  "run_acts [] s = s"
| "run_acts (a # as) s = run_acts as (do_act a s)"

fun all_timely :: "('p, 'c, 'm) act list \<Rightarrow> ('p, 'c, 'm) world \<Rightarrow> bool" where
  "all_timely [] s = True"
| "all_timely (a # as) s = (timely a s \<and> all_timely as (do_act a s))"

definition start_world :: "nat \<Rightarrow> bool \<Rightarrow> 'm \<Rightarrow> ('p, 'c, 'm) world" where
  "start_world sz pb zero =
     \<lparr>queue = new_queue sz pb zero, sender = (\<lambda>_. SIdle), receiver = (\<lambda>_. RIdle), claimed = [], taken = [], seen = (\<lambda>_. 0)\<rparr>"

section \<open>Positions and slots\<close>

definition geometry :: "'m MpscQueue \<Rightarrow> bool" where
  "geometry q \<longleftrightarrow> (\<exists>k\<le>31. q_capacity q = 2 ^ k) \<and> length (msgs q) = unat (q_capacity q) \<and> length (slot_states q) = unat (q_capacity q)"

definition slot :: "'m MpscQueue \<Rightarrow> nat \<Rightarrow> nat" where
  "slot q i = i mod unat (q_capacity q)"

lemma unat_power_of_2:
  assumes "k \<le> 31"
  shows "unat (2 ^ k :: u32) = 2 ^ k"
proof -
  have "(2::nat) ^ k mod 2 ^ 32 = 2 ^ k" by (rule mod_less) (rule power_strict_increasing; use assms in simp)
  moreover have "unat (of_nat (2 ^ k) :: u32) = 2 ^ k mod 2 ^ 32" by (simp only: unsigned_of_nat take_bit_eq_mod) simp
  moreover have "(of_nat (2 ^ k) :: u32) = 2 ^ k" by simp
  ultimately show ?thesis by metis
qed

lemma geometryD:
  assumes "geometry q"
  shows "0 < unat (q_capacity q)" "unat (q_capacity q) \<le> 2 ^ 31" "unat (q_capacity q) dvd 2 ^ 32"
    "slot_index (of_nat i) q = slot q i" "slot q i < length (msgs q)" "slot q i < length (slot_states q)"
proof -
  obtain k where k: "k \<le> 31" "q_capacity q = 2 ^ k" using assms by (auto simp: geometry_def)
  have u: "unat (q_capacity q) = 2 ^ k" using k unat_power_of_2 by simp
  show pos: "0 < unat (q_capacity q)" by (simp add: u)
  show "unat (q_capacity q) \<le> 2 ^ 31" unfolding u using k(1) by (intro power_increasing) auto
  show "unat (q_capacity q) dvd 2 ^ 32" unfolding u using k(1) by (intro le_imp_power_dvd) auto
  have "unat (of_nat i :: u32) AND (2 ^ k - 1) = take_bit k (take_bit 32 i)"
    by (simp add: unsigned_of_nat take_bit_eq_mask mask_eq_exp_minus_1)
  also have "\<dots> = take_bit k i" using k(1) by (simp only: take_bit_take_bit min_def) simp
  also have "\<dots> = i mod 2 ^ k" by (rule take_bit_eq_mod)
  finally show "slot_index (of_nat i) q = slot q i" by (simp add: slot_index_def slot_def u)
  show "slot q i < length (msgs q)" "slot q i < length (slot_states q)" using assms pos by (simp_all add: geometry_def slot_def)
qed

lemma mod_window_neq:
  fixes i j r c :: nat
  assumes "r \<le> i" "i < r + c" "r \<le> j" "j < r + c" "i mod c = j mod c"
  shows "i = j"
proof -
  have *: "a = b" if "a \<le> b" "b < a + c" "a mod c = b mod c" for a b
  proof -
    have "c dvd b - a" using that(1,3) by (metis mod_eq_dvd_iff_nat)
    moreover have "b - a < c" using that(1,2) by linarith
    ultimately have "b - a = 0" by (metis nat_dvd_not_less neq0_conv)
    then show ?thesis using that(1) by simp
  qed
  show ?thesis
  proof (cases "i \<le> j")
    case True
    then show ?thesis using * [of i j] assms by simp
  next
    case False
    then show ?thesis using * [of j i] assms by simp
  qed
qed

lemma of_nat_u32_inj:
  assumes "(of_nat a :: u32) = of_nat b" "a \<le> b" "b < a + 2 ^ 32"
  shows "a = b"
proof -
  have "unat (of_nat a :: u32) = unat (of_nat b :: u32)" using assms(1) by simp
  then have "a mod 2 ^ 32 = b mod 2 ^ 32" by (simp add: unsigned_of_nat take_bit_eq_mod)
  then show ?thesis using mod_window_neq [of a a "2 ^ 32" b] assms(2,3) by simp
qed

lemma distance:
  assumes "r \<le> n" "n - r < 2 ^ 32"
  shows "unat (of_nat n - of_nat r :: u32) = n - r"
proof -
  have "(of_nat n - of_nat r :: u32) = of_nat (n - r)" using assms(1) by (simp add: of_nat_diff)
  then show ?thesis using assms(2) by (simp add: unsigned_of_nat take_bit_nat_eq_self)
qed

section \<open>The invariant\<close>

definition holding :: "'m send_pc \<Rightarrow> bool" where
  "holding pc = (case pc of SWrite m t \<Rightarrow> True | SPublish t \<Rightarrow> True | _ \<Rightarrow> False)"

definition clearing :: "'m recv_pc \<Rightarrow> bool" where
  "clearing pc = (case pc of RAdvance h m \<Rightarrow> True | _ \<Rightarrow> False)"

definition slot_held :: "('p, 'c, 'm) world \<Rightarrow> nat \<Rightarrow> bool" where
  "slot_held s i \<longleftrightarrow> (\<exists>p. holding (sender s p) \<and> seen s p = i)"

definition ready :: "('p, 'c, 'm) world \<Rightarrow> nat \<Rightarrow> bool" where
  "ready s i \<longleftrightarrow> slot_states (queue s) ! slot (queue s) i = SLOT_READY"

definition published :: "('p, 'c, 'm) world \<Rightarrow> nat \<Rightarrow> bool" where
  "published s i \<longleftrightarrow> ready s i \<and> msgs (queue s) ! slot (queue s) i = claimed s ! i"

definition cap_of :: "('p, 'c, 'm) world \<Rightarrow> nat" where
  "cap_of s = unat (q_capacity (queue s))"

definition counters_ok :: "('p, 'c, 'm) world \<Rightarrow> bool" where
  "counters_ok s \<longleftrightarrow> geometry (queue s) \<and> length (taken s) \<le> length (claimed s) \<and> length (claimed s) \<le> length (taken s) + cap_of s \<and>
     q_tail (queue s) = of_nat (length (claimed s)) \<and> q_head (queue s) = of_nat (length (taken s)) \<and>
     taken s = take (length (taken s)) (claimed s)"

definition producer_ok :: "('p, 'c, 'm) world \<Rightarrow> 'p \<Rightarrow> bool" where
  "producer_ok s p \<longleftrightarrow>
     (case sender s p of
        SLoadHead m t \<Rightarrow> t = of_nat (seen s p) \<and> seen s p \<le> length (claimed s)
      | SCas m t \<Rightarrow> t = of_nat (seen s p) \<and> seen s p \<le> length (claimed s) \<and> seen s p < length (taken s) + cap_of s
      | SWrite m t \<Rightarrow> t = of_nat (seen s p) \<and> length (taken s) \<le> seen s p \<and> seen s p < length (claimed s) \<and> claimed s ! seen s p = m
      | SPublish t \<Rightarrow> t = of_nat (seen s p) \<and> length (taken s) \<le> seen s p \<and> seen s p < length (claimed s) \<and>
          msgs (queue s) ! slot (queue s) (seen s p) = claimed s ! seen s p
      | _ \<Rightarrow> True)"

definition slots_ok :: "'c \<Rightarrow> ('p, 'c, 'm) world \<Rightarrow> bool" where
  "slots_ok c s \<longleftrightarrow>
     (\<forall>i. length (taken s) \<le> i \<longrightarrow> i < length (claimed s) \<longrightarrow>
        (if slot_held s i \<or> clearing (receiver s c) \<and> i = length (taken s) then \<not> ready s i else published s i)) \<and>
     (\<forall>i. length (claimed s) \<le> i \<longrightarrow> i < length (taken s) + cap_of s \<longrightarrow> \<not> ready s i) \<and>
     (\<forall>p p'. holding (sender s p) \<longrightarrow> holding (sender s p') \<longrightarrow> seen s p = seen s p' \<longrightarrow> p = p')"

definition at_front :: "('p, 'c, 'm) world \<Rightarrow> u32 \<Rightarrow> bool" where
  "at_front s h \<longleftrightarrow> h = of_nat (length (taken s)) \<and> length (taken s) < length (claimed s) \<and> \<not> slot_held s (length (taken s))"

definition consumer_ok :: "'c \<Rightarrow> ('p, 'c, 'm) world \<Rightarrow> bool" where
  "consumer_ok c s \<longleftrightarrow> (\<forall>d. d \<noteq> c \<longrightarrow> recv_idle (receiver s d)) \<and>
     (case receiver s c of
        RCheck h \<Rightarrow> h = of_nat (length (taken s))
      | RRead h \<Rightarrow> at_front s h
      | RClear h m \<Rightarrow> at_front s h \<and> m = claimed s ! length (taken s)
      | RAdvance h m \<Rightarrow> at_front s h \<and> m = claimed s ! length (taken s)
      | RDone (Some m) \<Rightarrow> taken s \<noteq> [] \<and> m = last (taken s)
      | _ \<Rightarrow> True)"

definition mpsc_inv :: "'c \<Rightarrow> ('p, 'c, 'm) world \<Rightarrow> bool" where
  "mpsc_inv c s \<longleftrightarrow> counters_ok s \<and> (\<forall>p. producer_ok s p) \<and> slots_ok c s \<and> consumer_ok c s"

lemma countersD:
  assumes "counters_ok s"
  shows "geometry (queue s)" "length (taken s) \<le> length (claimed s)" "length (claimed s) \<le> length (taken s) + cap_of s"
    "q_tail (queue s) = of_nat (length (claimed s))" "q_head (queue s) = of_nat (length (taken s))" "taken s = take (length (taken s)) (claimed s)"
    "0 < cap_of s" "cap_of s \<le> 2 ^ 31"
  using assms geometryD(1,2) by (auto simp: counters_ok_def cap_of_def)

lemma slot_inj:
  assumes "r \<le> i" "i < r + cap_of s" "r \<le> j" "j < r + cap_of s" "slot (queue s) i = slot (queue s) j"
  shows "i = j"
  using mod_window_neq [of r i "cap_of s" j] assms by (simp add: slot_def cap_of_def)

lemma heldI: "holding (sender s p) \<Longrightarrow> seen s p = i \<Longrightarrow> slot_held s i"
  by (auto simp: slot_held_def)

section \<open>Every access keeps the invariant\<close>

text \<open>An access by a producer that neither has nor gets a slot, and changes nothing shared.\<close>

lemma quiet_step:
  assumes inv: "mpsc_inv c s" and pc: "\<not> holding (sender s p)" "\<not> holding pc"
    and s': "s' = s\<lparr>sender := (sender s)(p := pc), seen := sn\<rparr>" "\<And>p'. p' \<noteq> p \<Longrightarrow> sn p' = seen s p'" and p: "producer_ok s' p"
  shows "mpsc_inv c s'"
proof -
  have eq: "queue s' = queue s" "claimed s' = claimed s" "taken s' = taken s" "receiver s' = receiver s" "cap_of s' = cap_of s"
    by (simp_all add: s' cap_of_def)
  have hold: "holding (sender s' p') \<and> seen s' p' = i \<longleftrightarrow> holding (sender s p') \<and> seen s p' = i" for p' i
    using pc s'(2) [of p'] by (cases "p' = p") (simp_all add: s'(1))
  have slot_held: "slot_held s' i = slot_held s i" "ready s' i = ready s i" "published s' i = published s i" for i
    unfolding slot_held_def ready_def published_def hold eq by simp_all
  have other: "holding (sender s' q) \<Longrightarrow> holding (sender s q)" "holding (sender s' q) \<Longrightarrow> seen s' q = seen s q" for q
    using hold [of q "seen s' q"] hold [of q "seen s q"] by auto
  have "producer_ok s' p'" for p'
  proof (cases "p' = p")
    case False
    then have "sender s' p' = sender s p'" "seen s' p' = seen s p'" using s'(2) by (simp_all add: s'(1))
    then show ?thesis using inv unfolding mpsc_inv_def producer_ok_def eq by metis
  qed (use p in simp)
  moreover have "slots_ok c s'"
  proof -
    have sl: "slots_ok c s" using inv by (simp add: mpsc_inv_def)
    then have "a = b" if "holding (sender s' a)" "holding (sender s' b)" "seen s' a = seen s' b" for a b
      using other [OF that(1)] other [OF that(2)] that(3) by (auto simp: slots_ok_def)
    then show ?thesis using sl unfolding slots_ok_def slot_held eq by blast
  qed
  moreover have "counters_ok s'" "consumer_ok c s'"
    using inv unfolding mpsc_inv_def counters_ok_def consumer_ok_def at_front_def slot_held eq by simp_all
  ultimately show ?thesis unfolding mpsc_inv_def by blast
qed

lemma load_head_step:
  assumes inv: "mpsc_inv c s" and pc: "sender s p = SLoadHead m t"
  shows "mpsc_inv c (do_act (SendStep p weak) s)"
proof -
  have co: "counters_ok s" using inv by (simp add: mpsc_inv_def)
  note cd = countersD [OF co]
  have "producer_ok s p" using inv by (simp add: mpsc_inv_def)
  then have t: "t = of_nat (seen s p)" "seen s p \<le> length (claimed s)" by (simp_all add: producer_ok_def pc)
  let ?pc = "if t - q_head (queue s) \<ge> q_capacity (queue s) then SDone False else SCas m t"
  have "seen s p < length (taken s) + cap_of s" if "\<not> q_capacity (queue s) \<le> t - q_head (queue s)"
  proof (cases "length (taken s) \<le> seen s p")
    case True
    then have "unat (of_nat (seen s p) - of_nat (length (taken s)) :: u32) = seen s p - length (taken s)"
      using t(2) cd(3,8) by (intro distance) auto
    then have "seen s p - length (taken s) < cap_of s" using that t(1) cd(5) by (simp add: word_le_nat_alt cap_of_def)
    then show ?thesis by linarith
  qed (use cd(7) in linarith)
  then have "producer_ok (s\<lparr>sender := (sender s)(p := ?pc), seen := seen s\<rparr>) p" using t by (simp add: producer_ok_def cap_of_def)
  then have "mpsc_inv c (s\<lparr>sender := (sender s)(p := ?pc), seen := seen s\<rparr>)"
    by (intro quiet_step [OF inv _ _ refl]) (simp_all add: pc holding_def)
  moreover have "do_act (SendStep p weak) s = s\<lparr>sender := (sender s)(p := ?pc), seen := seen s\<rparr>" by (simp add: pc)
  ultimately show ?thesis by simp
qed

lemma claim_step:
  assumes inv: "mpsc_inv c s" and pc: "sender s p = SCas m t" and ti: "length (claimed s) < seen s p + 2 ^ 32"
    and cas: "q_tail (queue s) = t"
  shows "mpsc_inv c (s\<lparr>queue := (queue s)\<lparr>q_tail := t + 1\<rparr>, sender := (sender s)(p := SWrite m t), claimed := claimed s @ [m]\<rparr>)"
    (is "mpsc_inv c ?s")
proof -
  have co: "counters_ok s" and sl: "slots_ok c s" and pr: "\<And>p. producer_ok s p" and cn: "consumer_ok c s" using inv by (simp_all add: mpsc_inv_def)
  note cd = countersD [OF co]
  let ?n = "length (claimed s)" and ?r = "length (taken s)"
  have t: "t = of_nat (seen s p)" "seen s p \<le> ?n" "seen s p < ?r + cap_of s" using pr [of p] by (simp_all add: producer_ok_def pc)
  have "(of_nat (seen s p) :: u32) = of_nat ?n" using t(1) cas cd(4) by metis
  then have n: "seen s p = ?n" using of_nat_u32_inj t(2) ti by blast
  have eq: "cap_of ?s = cap_of s" "slot (queue ?s) = slot (queue s)" "ready ?s = ready s" "length (claimed ?s) = Suc ?n"
    by (simp_all add: cap_of_def slot_def ready_def fun_eq_iff)
  have hold: "holding (sender ?s q) \<longleftrightarrow> q = p \<or> holding (sender s q)" for q by (simp add: holding_def pc)
  have old: "holding (sender s q) \<Longrightarrow> seen s q < ?n" for q using pr [of q] by (auto simp: producer_ok_def holding_def split: send_pc.splits)
  have slot_held: "slot_held ?s i \<longleftrightarrow> i = ?n \<or> slot_held s i" for i
  proof -
    have "seen ?s = seen s" by simp
    then show ?thesis unfolding slot_held_def hold using n by auto
  qed
  have co': "counters_ok ?s"
    using co t(3) n cd(4) cas by (simp add: counters_ok_def geometry_def cap_of_def)
  moreover have "producer_ok ?s q" for q
    using pr [of q] n t(1) cd(2) by (auto simp: producer_ok_def cap_of_def slot_def nth_append split: send_pc.splits)
  moreover have "slots_ok c ?s"
    unfolding slots_ok_def eq slot_held
  proof (intro conjI allI impI)
    fix i assume i: "length (taken ?s) \<le> i" "i < Suc ?n"
    show "if (i = ?n \<or> slot_held s i) \<or> clearing (receiver ?s c) \<and> i = length (taken ?s) then \<not> ready s i else published ?s i"
    proof (cases "i = ?n")
      case True
      then have "\<not> ready s i" using sl t(3) n by (simp add: slots_ok_def)
      then show ?thesis using True by simp
    next
      case False
      then have "i < ?n" using i by simp
      then have "if slot_held s i \<or> clearing (receiver s c) \<and> i = ?r then \<not> ready s i else published s i" using sl i(1) by (simp add: slots_ok_def)
      moreover have "published ?s i = published s i" using \<open>i < ?n\<close> by (simp add: published_def eq nth_append) (simp add: slot_def)
      ultimately show ?thesis using False by simp
    qed
  next
    fix i assume "Suc ?n \<le> i" "i < length (taken ?s) + cap_of s"
    then show "\<not> ready s i" using sl by (simp add: slots_ok_def)
  next
    fix a b assume "holding (sender ?s a)" "holding (sender ?s b)" "seen ?s a = seen ?s b"
    then show "a = b" using sl old [of a] old [of b] n unfolding hold slots_ok_def by auto
  qed
  moreover have "consumer_ok c ?s"
    using cn by (auto simp: consumer_ok_def at_front_def slot_held nth_append split: recv_pc.splits option.splits)
  ultimately show ?thesis by (simp add: mpsc_inv_def)
qed

lemma write_step:
  assumes inv: "mpsc_inv c s" and pc: "sender s p = SWrite m t"
  shows "mpsc_inv c (do_act (SendStep p weak) s)"
proof -
  have co: "counters_ok s" and sl: "slots_ok c s" and pr: "\<And>p. producer_ok s p" and cn: "consumer_ok c s" using inv by (simp_all add: mpsc_inv_def)
  note cd = countersD [OF co]
  let ?r = "length (taken s)" and ?n = "length (claimed s)" and ?i = "seen s p"
  have t: "t = of_nat ?i" "?r \<le> ?i" "?i < ?n" "claimed s ! ?i = m" using pr [of p] by (simp_all add: producer_ok_def pc)
  have ix: "slot_index t (queue s) = slot (queue s) ?i" using geometryD(4) [OF cd(1)] t(1) by simp
  define s' where "s' = s\<lparr>queue := (queue s)\<lparr>msgs := (msgs (queue s))[slot (queue s) ?i := m]\<rparr>, sender := (sender s)(p := SPublish t)\<rparr>"
  have da: "do_act (SendStep p weak) s = s'" by (simp add: pc ix s'_def)
  have eq: "cap_of s' = cap_of s" "slot (queue s') = slot (queue s)" "ready s' = ready s" "claimed s' = claimed s" "taken s' = taken s" "receiver s' = receiver s" "seen s' = seen s"
    by (simp_all add: s'_def cap_of_def slot_def ready_def fun_eq_iff)
  have hold: "holding (sender s' q) = holding (sender s q)" for q by (simp add: s'_def holding_def pc)
  have slot_held: "slot_held s' = slot_held s" unfolding slot_held_def hold eq ..
  have win: "?r \<le> j \<Longrightarrow> j < ?n \<Longrightarrow> j \<noteq> ?i \<Longrightarrow> slot (queue s) j \<noteq> slot (queue s) ?i" for j
    using slot_inj [of ?r j s ?i] t(2,3) cd(3) by linarith
  have ms: "msgs (queue s') ! slot (queue s) j = (if j = ?i then m else msgs (queue s) ! slot (queue s) j)" if "?r \<le> j" "j < ?n" for j
    using win [OF that] geometryD(5) [OF cd(1)] by (auto simp: s'_def)
  have "counters_ok s'" using co by (simp add: counters_ok_def geometry_def s'_def cap_of_def)
  moreover have "producer_ok s' q" for q
  proof (cases "q = p")
    case True
    then have "sender s' q = SPublish t" by (simp add: s'_def)
    then show ?thesis using True t ms [of ?i] by (simp add: producer_ok_def eq)
  next
    case False
    then have "sender s' q = sender s q" by (simp add: s'_def)
    moreover have "msgs (queue s') ! slot (queue s) (seen s q) = claimed s ! seen s q"
      if "?r \<le> seen s q" "seen s q < ?n" "msgs (queue s) ! slot (queue s) (seen s q) = claimed s ! seen s q"
      using ms [OF that(1,2)] that(3) t(4) by auto
    ultimately show ?thesis using pr [of q] by (auto simp: producer_ok_def eq split: send_pc.splits)
  qed
  moreover have "slots_ok c s'"
  proof -
    have "published s' i = published s i" if "?r \<le> i" "i < ?n" "\<not> slot_held s i" for i
    proof -
      have "i \<noteq> ?i" using that(3) heldI [of s p] by (auto simp: pc holding_def)
      then show ?thesis using ms [OF that(1,2)] by (simp add: published_def eq)
    qed
    then show ?thesis using sl unfolding slots_ok_def eq slot_held hold by auto
  qed
  moreover have "consumer_ok c s'"
  proof -
    have af: "at_front s' = at_front s" by (simp add: at_front_def fun_eq_iff eq slot_held)
    show ?thesis using cn unfolding consumer_ok_def eq af .
  qed
  ultimately show ?thesis unfolding da mpsc_inv_def by blast
qed

lemma publish_step:
  assumes inv: "mpsc_inv c s" and pc: "sender s p = SPublish t"
  shows "mpsc_inv c (do_act (SendStep p weak) s)"
proof -
  have co: "counters_ok s" and sl: "slots_ok c s" and pr: "\<And>p. producer_ok s p" and cn: "consumer_ok c s" using inv by (simp_all add: mpsc_inv_def)
  note cd = countersD [OF co]
  let ?r = "length (taken s)" and ?n = "length (claimed s)" and ?i = "seen s p"
  have t: "t = of_nat ?i" "?r \<le> ?i" "?i < ?n" "msgs (queue s) ! slot (queue s) ?i = claimed s ! ?i" using pr [of p] by (simp_all add: producer_ok_def pc)
  have ix: "slot_index t (queue s) = slot (queue s) ?i" using geometryD(4) [OF cd(1)] t(1) by simp
  define s' where "s' = s\<lparr>queue := (queue s)\<lparr>slot_states := (slot_states (queue s))[slot (queue s) ?i := SLOT_READY]\<rparr>, sender := (sender s)(p := SDone True)\<rparr>"
  have da: "do_act (SendStep p weak) s = s'" by (simp add: pc ix s'_def)
  have eq: "cap_of s' = cap_of s" "slot (queue s') = slot (queue s)" "msgs (queue s') = msgs (queue s)" "claimed s' = claimed s" "taken s' = taken s"
    "receiver s' = receiver s" "seen s' = seen s"
    by (simp_all add: s'_def cap_of_def slot_def fun_eq_iff)
  have uniq: "holding (sender s a) \<Longrightarrow> holding (sender s b) \<Longrightarrow> seen s a = seen s b \<Longrightarrow> a = b" for a b using sl by (auto simp: slots_ok_def)
  have hold: "holding (sender s' q) \<longleftrightarrow> q \<noteq> p \<and> holding (sender s q)" for q by (simp add: s'_def holding_def)
  have hp: "holding (sender s p)" by (simp add: pc holding_def)
  have slot_held: "slot_held s' i \<longleftrightarrow> i \<noteq> ?i \<and> slot_held s i" for i
    unfolding slot_held_def hold eq using uniq [OF _ hp] by metis
  have win: "?r \<le> j \<Longrightarrow> j < ?r + cap_of s \<Longrightarrow> j \<noteq> ?i \<Longrightarrow> slot (queue s) j \<noteq> slot (queue s) ?i" for j
    using slot_inj [of ?r j s ?i] t(2,3) cd(3) by linarith
  have rd: "ready s' j \<longleftrightarrow> j = ?i \<or> ready s j" if "?r \<le> j" "j < ?r + cap_of s" for j
  proof -
    have "slot_states (queue s') = (slot_states (queue s))[slot (queue s) ?i := SLOT_READY]" by (simp add: s'_def)
    then show ?thesis using win [OF that] geometryD(6) [OF cd(1)] by (cases "j = ?i") (simp_all add: ready_def eq)
  qed
  have front: "clearing (receiver s c) \<Longrightarrow> ?r \<noteq> ?i"
    using cn heldI [OF hp, of ?r] by (auto simp: consumer_ok_def clearing_def at_front_def split: recv_pc.splits)
  have "counters_ok s'" using co by (simp add: counters_ok_def geometry_def s'_def cap_of_def)
  moreover have "producer_ok s' q" for q
  proof (cases "q = p")
    case False
    then have "sender s' q = sender s q" by (simp add: s'_def)
    then show ?thesis using pr [of q] by (auto simp: producer_ok_def eq split: send_pc.splits)
  qed (simp add: producer_ok_def s'_def)
  moreover have "slots_ok c s'"
    unfolding slots_ok_def eq slot_held hold
  proof (intro conjI allI impI)
    fix i assume i: "?r \<le> i" "i < ?n"
    then have w: "if slot_held s i \<or> clearing (receiver s c) \<and> i = ?r then \<not> ready s i else published s i" using sl by (simp add: slots_ok_def)
    have "i < ?r + cap_of s" using i(2) cd(3) by simp
    note r = rd [OF i(1) this]
    show "if i \<noteq> ?i \<and> slot_held s i \<or> clearing (receiver s c) \<and> i = ?r then \<not> ready s' i else published s' i"
    proof (cases "i = ?i")
      case True
      then have "published s' i" using r t(4) by (simp add: published_def eq)
      moreover have "\<not> (clearing (receiver s c) \<and> i = ?r)" using front True by auto
      ultimately show ?thesis using True by auto
    next
      case False
      then show ?thesis using w r by (simp add: published_def eq split: if_splits)
    qed
  next
    fix i assume i: "?n \<le> i" "i < ?r + cap_of s"
    then show "\<not> ready s' i" using sl rd [of i] t(3) cd(2) by (auto simp: slots_ok_def)
  next
    fix a b assume "a \<noteq> p \<and> holding (sender s a)" "b \<noteq> p \<and> holding (sender s b)" "seen s a = seen s b"
    then show "a = b" using uniq by blast
  qed
  moreover have "consumer_ok c s'" using cn by (auto simp: consumer_ok_def at_front_def eq slot_held split: recv_pc.splits option.splits)
  ultimately show ?thesis unfolding da mpsc_inv_def by blast
qed

lemma consumer_quiet:
  assumes inv: "mpsc_inv c s" and pc: "\<not> clearing (receiver s c)" "\<not> clearing pc"
    and ok: "case pc of RCheck h \<Rightarrow> h = of_nat (length (taken s)) | RRead h \<Rightarrow> at_front s h
      | RClear h m \<Rightarrow> at_front s h \<and> m = claimed s ! length (taken s) | RDone (Some m) \<Rightarrow> False | _ \<Rightarrow> True"
  shows "mpsc_inv c (s\<lparr>receiver := (receiver s)(c := pc)\<rparr>)"
proof -
  define s' where "s' = s\<lparr>receiver := (receiver s)(c := pc)\<rparr>"
  have eq: "queue s' = queue s" "claimed s' = claimed s" "taken s' = taken s" "cap_of s' = cap_of s" "sender s' = sender s" "seen s' = seen s"
    by (simp_all add: s'_def cap_of_def)
  have cl: "clearing (receiver s' c) = clearing (receiver s c)" using pc by (simp add: s'_def)
  have h: "slot_held s' = slot_held s" "ready s' = ready s" "published s' = published s" "at_front s' = at_front s" "producer_ok s' = producer_ok s"
    unfolding slot_held_def ready_def published_def at_front_def producer_ok_def fun_eq_iff eq by simp_all
  have "counters_ok s'" "slots_ok c s'" using inv unfolding mpsc_inv_def counters_ok_def slots_ok_def eq h cl by blast+
  moreover have "consumer_ok c s'"
  proof -
    have "receiver s' c = pc" "d \<noteq> c \<Longrightarrow> receiver s' d = receiver s d" for d by (simp_all add: s'_def)
    moreover have "d \<noteq> c \<Longrightarrow> recv_idle (receiver s d)" for d using inv by (simp add: mpsc_inv_def consumer_ok_def)
    ultimately show ?thesis using ok pc(2) unfolding consumer_ok_def eq h by (auto simp: clearing_def split: recv_pc.splits option.splits)
  qed
  ultimately show ?thesis using inv unfolding s'_def [symmetric] mpsc_inv_def h by blast
qed

lemma check_step:
  assumes inv: "mpsc_inv c s" and pc: "receiver s c = RCheck h"
  shows "mpsc_inv c (do_act (RecvStep c) s)"
proof -
  have co: "counters_ok s" and sl: "slots_ok c s" and cn: "consumer_ok c s" using inv by (simp_all add: mpsc_inv_def)
  note cd = countersD [OF co]
  let ?r = "length (taken s)"
  have h: "h = of_nat ?r" using cn by (simp add: consumer_ok_def pc)
  have ix: "slot_index h (queue s) = slot (queue s) ?r" using geometryD(4) [OF cd(1)] h by simp
  let ?pc = "if slot_states (queue s) ! slot (queue s) ?r \<noteq> SLOT_READY then RDone None else RRead h"
  have "at_front s h" if "ready s ?r"
  proof -
    have "?r < length (claimed s)"
    proof (rule ccontr)
      assume "\<not> ?r < length (claimed s)"
      then have "\<not> ready s ?r" using sl cd(7) by (simp add: slots_ok_def)
      then show False using that by simp
    qed
    moreover have "\<not> slot_held s ?r" using sl that calculation by (auto simp: slots_ok_def split: if_splits)
    ultimately show ?thesis using h by (simp add: at_front_def)
  qed
  then have "mpsc_inv c (s\<lparr>receiver := (receiver s)(c := ?pc)\<rparr>)"
    by (intro consumer_quiet [OF inv]) (auto simp: pc clearing_def ready_def)
  then show ?thesis by (simp add: pc ix)
qed

lemma read_step:
  assumes inv: "mpsc_inv c s" and pc: "receiver s c = RRead h"
  shows "mpsc_inv c (do_act (RecvStep c) s)"
proof -
  have co: "counters_ok s" and sl: "slots_ok c s" and cn: "consumer_ok c s" using inv by (simp_all add: mpsc_inv_def)
  note cd = countersD [OF co]
  let ?r = "length (taken s)"
  have h: "at_front s h" "h = of_nat ?r" "?r < length (claimed s)" "\<not> slot_held s ?r" using cn by (simp_all add: consumer_ok_def pc at_front_def)
  have ix: "slot_index h (queue s) = slot (queue s) ?r" using geometryD(4) [OF cd(1)] h(2) by simp
  have "published s ?r" using sl h(3,4) by (simp add: slots_ok_def pc clearing_def)
  then have "mpsc_inv c (s\<lparr>receiver := (receiver s)(c := RClear h (msgs (queue s) ! slot (queue s) ?r))\<rparr>)"
    using h(1) by (intro consumer_quiet [OF inv]) (simp_all add: pc clearing_def published_def)
  then show ?thesis by (simp add: pc ix)
qed

lemma clear_step:
  assumes inv: "mpsc_inv c s" and pc: "receiver s c = RClear h m"
  shows "mpsc_inv c (do_act (RecvStep c) s)"
proof -
  have co: "counters_ok s" and sl: "slots_ok c s" and pr: "\<And>p. producer_ok s p" and cn: "consumer_ok c s" using inv by (simp_all add: mpsc_inv_def)
  note cd = countersD [OF co]
  let ?r = "length (taken s)" and ?n = "length (claimed s)"
  have h: "h = of_nat ?r" "?r < ?n" "\<not> slot_held s ?r" "m = claimed s ! ?r" using cn by (simp_all add: consumer_ok_def pc at_front_def)
  have ix: "slot_index h (queue s) = slot (queue s) ?r" using geometryD(4) [OF cd(1)] h(1) by simp
  define s' where "s' = s\<lparr>queue := (queue s)\<lparr>slot_states := (slot_states (queue s))[slot (queue s) ?r := SLOT_EMPTY]\<rparr>, receiver := (receiver s)(c := RAdvance h m)\<rparr>"
  have da: "do_act (RecvStep c) s = s'" by (simp add: pc ix s'_def)
  have eq: "cap_of s' = cap_of s" "slot (queue s') = slot (queue s)" "msgs (queue s') = msgs (queue s)" "claimed s' = claimed s" "taken s' = taken s"
    "sender s' = sender s" "seen s' = seen s"
    by (simp_all add: s'_def cap_of_def slot_def fun_eq_iff)
  have hd: "slot_held s' = slot_held s" "at_front s' = at_front s" "producer_ok s' = producer_ok s"
    unfolding slot_held_def at_front_def producer_ok_def fun_eq_iff eq by simp_all
  have cl: "clearing (receiver s' c)" by (simp add: s'_def clearing_def)
  have win: "?r \<le> j \<Longrightarrow> j < ?r + cap_of s \<Longrightarrow> j \<noteq> ?r \<Longrightarrow> slot (queue s) j \<noteq> slot (queue s) ?r" for j
    using slot_inj [of ?r j s ?r] cd(7) by auto
  have rd: "ready s' j \<longleftrightarrow> j \<noteq> ?r \<and> ready s j" if "?r \<le> j" "j < ?r + cap_of s" for j
  proof -
    have "slot_states (queue s') = (slot_states (queue s))[slot (queue s) ?r := SLOT_EMPTY]" by (simp add: s'_def)
    then show ?thesis using win [OF that] geometryD(6) [OF cd(1)] by (cases "j = ?r") (simp_all add: ready_def eq SLOT_EMPTY_def SLOT_READY_def)
  qed
  have "counters_ok s'" using co by (simp add: counters_ok_def geometry_def s'_def cap_of_def)
  moreover have "slots_ok c s'"
    unfolding slots_ok_def eq hd
  proof (intro conjI allI impI)
    fix i assume i: "?r \<le> i" "i < ?n"
    then have w: "if slot_held s i then \<not> ready s i else published s i" using sl by (simp add: slots_ok_def pc clearing_def)
    have "i < ?r + cap_of s" using i(2) cd(3) by simp
    note r = rd [OF i(1) this]
    show "if slot_held s i \<or> clearing (receiver s' c) \<and> i = ?r then \<not> ready s' i else published s' i"
      using w r cl by (auto simp: published_def eq split: if_splits)
  next
    fix i assume i: "?n \<le> i" "i < ?r + cap_of s"
    then show "\<not> ready s' i" using sl rd [of i] cd(2) by (auto simp: slots_ok_def)
  next
    fix a b assume "holding (sender s a)" "holding (sender s b)" "seen s a = seen s b"
    then show "a = b" using sl by (auto simp: slots_ok_def)
  qed
  moreover have "consumer_ok c s'"
  proof -
    have "receiver s' c = RAdvance h m" "d \<noteq> c \<Longrightarrow> receiver s' d = receiver s d" for d by (simp_all add: s'_def)
    then show ?thesis using cn pc unfolding consumer_ok_def eq hd by simp
  qed
  ultimately show ?thesis using pr unfolding da mpsc_inv_def hd by blast
qed

lemma advance_step:
  assumes inv: "mpsc_inv c s" and pc: "receiver s c = RAdvance h m"
  shows "mpsc_inv c (do_act (RecvStep c) s)"
proof -
  have co: "counters_ok s" and sl: "slots_ok c s" and pr: "\<And>p. producer_ok s p" and cn: "consumer_ok c s" using inv by (simp_all add: mpsc_inv_def)
  note cd = countersD [OF co]
  let ?r = "length (taken s)" and ?n = "length (claimed s)"
  have h: "h = of_nat ?r" "?r < ?n" "\<not> slot_held s ?r" "m = claimed s ! ?r" using cn by (simp_all add: consumer_ok_def pc at_front_def)
  define s' where "s' = s\<lparr>queue := (queue s)\<lparr>q_head := h + 1\<rparr>, receiver := (receiver s)(c := RDone (Some m)), taken := taken s @ [m]\<rparr>"
  have da: "do_act (RecvStep c) s = s'" by (simp add: pc s'_def)
  have eq: "cap_of s' = cap_of s" "slot (queue s') = slot (queue s)" "msgs (queue s') = msgs (queue s)" "claimed s' = claimed s"
    "sender s' = sender s" "seen s' = seen s" "ready s' = ready s" "length (taken s') = Suc ?r"
    by (simp_all add: s'_def cap_of_def slot_def ready_def fun_eq_iff)
  have hd: "slot_held s' = slot_held s" "published s' = published s" unfolding slot_held_def published_def fun_eq_iff eq by simp_all
  have cl: "\<not> clearing (receiver s' c)" by (simp add: s'_def clearing_def)
  have "taken s @ [m] = take (Suc ?r) (claimed s)" using cd(6) h(2,4) by (metis take_Suc_conv_app_nth)
  then have "counters_ok s'" using co h(1,2) by (simp add: counters_ok_def geometry_def s'_def cap_of_def)
  moreover have "producer_ok s' p" for p
  proof -
    have "seen s p \<noteq> ?r" if "holding (sender s p)" using h(3) that heldI by metis
    then show ?thesis using pr [of p] by (auto simp: producer_ok_def eq holding_def split: send_pc.splits)
  qed
  moreover have "slots_ok c s'"
    unfolding slots_ok_def eq hd
  proof (intro conjI allI impI)
    fix i assume i: "Suc ?r \<le> i" "i < ?n"
    then have "if slot_held s i then \<not> ready s i else published s i" using sl by (simp add: slots_ok_def)
    then show "if slot_held s i \<or> clearing (receiver s' c) \<and> i = Suc ?r then \<not> ready s i else published s i" using cl by simp
  next
    fix i assume i: "?n \<le> i" "i < Suc ?r + cap_of s"
    show "\<not> ready s i"
    proof (cases "i < ?r + cap_of s")
      case True
      then show ?thesis using sl i(1) by (simp add: slots_ok_def)
    next
      case False
      then have "i = ?r + cap_of s" using i(2) by simp
      then have "slot (queue s) i = slot (queue s) ?r" by (simp add: slot_def cap_of_def)
      moreover have "\<not> ready s ?r" using sl h(2) by (simp add: slots_ok_def pc clearing_def)
      ultimately show ?thesis by (simp add: ready_def)
    qed
  next
    fix a b assume "holding (sender s a)" "holding (sender s b)" "seen s a = seen s b"
    then show "a = b" using sl by (auto simp: slots_ok_def)
  qed
  moreover have "consumer_ok c s'" using cn by (simp add: consumer_ok_def) (simp add: s'_def)
  ultimately show ?thesis unfolding da mpsc_inv_def by blast
qed

lemma do_act_inv:
  assumes inv: "mpsc_inv c s" and ti: "timely a s" and oc: "only_consumer c a"
  shows "mpsc_inv c (do_act a s)"
proof (cases a)
  case (BeginSend p m)
  have "mpsc_inv c (s\<lparr>sender := (sender s)(p := SLoadTail m), seen := seen s\<rparr>)" if "send_idle (sender s p)"
    using that by (intro quiet_step [OF inv _ _ refl]) (auto simp: producer_ok_def holding_def send_idle_def split: send_pc.splits)
  then show ?thesis using inv BeginSend by simp
next
  case (SendStep p weak)
  show ?thesis
  proof (cases "sender s p")
    case (SLoadTail m)
    have co: "counters_ok s" using inv by (simp add: mpsc_inv_def)
    let ?s = "s\<lparr>sender := (sender s)(p := SLoadHead m (q_tail (queue s))), seen := (seen s)(p := length (claimed s))\<rparr>"
    have "producer_ok ?s p" using countersD(4) [OF co] by (simp add: producer_ok_def)
    then have "mpsc_inv c ?s" by (intro quiet_step [OF inv _ _ refl]) (simp_all add: SLoadTail holding_def)
    then show ?thesis by (simp add: SendStep SLoadTail)
  next
    case (SLoadHead m t)
    then show ?thesis using load_head_step [OF inv] SendStep by blast
  next
    case (SCas m t)
    show ?thesis
    proof (cases "q_tail (queue s) = t \<and> \<not> weak")
      case True
      then have "mpsc_inv c (s\<lparr>queue := (queue s)\<lparr>q_tail := t + 1\<rparr>, sender := (sender s)(p := SWrite m t), claimed := claimed s @ [m]\<rparr>)"
        using claim_step [OF inv SCas] ti by (simp add: SendStep SCas)
      then show ?thesis using True by (simp add: SendStep SCas)
    next
      case False
      have "mpsc_inv c (s\<lparr>sender := (sender s)(p := SLoadTail m), seen := seen s\<rparr>)"
        by (intro quiet_step [OF inv _ _ refl]) (simp_all add: SCas holding_def producer_ok_def)
      then show ?thesis using False by (auto simp: SendStep SCas)
    qed
  next
    case (SWrite m t)
    then show ?thesis using write_step [OF inv] SendStep by blast
  next
    case (SPublish t)
    then show ?thesis using publish_step [OF inv] SendStep by blast
  qed (use inv in \<open>simp_all add: SendStep fun_upd_idem\<close>)
next
  case (BeginRecv d)
  then have d: "d = c" using oc by simp
  have "mpsc_inv c (s\<lparr>receiver := (receiver s)(c := RLoadHead)\<rparr>)" if "recv_idle (receiver s c)"
    using that by (intro consumer_quiet [OF inv]) (auto simp: clearing_def recv_idle_def split: recv_pc.splits)
  then show ?thesis using inv BeginRecv d by simp
next
  case (RecvStep d)
  then have d: "d = c" using oc by simp
  show ?thesis
  proof (cases "receiver s c")
    case RLoadHead
    have co: "counters_ok s" using inv by (simp add: mpsc_inv_def)
    have "mpsc_inv c (s\<lparr>receiver := (receiver s)(c := RCheck (q_head (queue s)))\<rparr>)"
      using countersD(5) [OF co] by (intro consumer_quiet [OF inv]) (simp_all add: RLoadHead clearing_def)
    then show ?thesis by (simp add: RecvStep d RLoadHead)
  next
    case (RCheck h)
    then show ?thesis using check_step [OF inv] RecvStep d by blast
  next
    case (RRead h)
    then show ?thesis using read_step [OF inv] RecvStep d by blast
  next
    case (RClear h m)
    then show ?thesis using clear_step [OF inv] RecvStep d by blast
  next
    case (RAdvance h m)
    then show ?thesis using advance_step [OF inv] RecvStep d by blast
  qed (use inv in \<open>simp_all add: RecvStep d fun_upd_idem\<close>)
qed

lemma run_acts_inv: "mpsc_inv c s \<Longrightarrow> all_timely as s \<Longrightarrow> list_all (only_consumer c) as \<Longrightarrow> mpsc_inv c (run_acts as s)"
  by (induction as s rule: run_acts.induct) (auto simp: do_act_inv)

section \<open>Capacity\<close>

lemma highest_bit:
  fixes w :: u32
  assumes "w \<noteq> 0"
  obtains h where "h \<le> 31" "leading_zeros32 w = 31 - h" "bit w h" "\<And>i. h < i \<Longrightarrow> \<not> bit w i"
proof -
  define h where "h = Max {i. bit w i}"
  have fin: "finite {i. bit w i}" by (rule finite_subset [of _ "{..<32}"]) (auto dest: bit_imp_le_length)
  have ne: "{i. bit w i} \<noteq> {}" using assms by (metis bit_eqI bit_0_eq Collect_empty_eq bot_apply bot_bool_def)
  have b: "bit w h" "\<And>i. h < i \<Longrightarrow> \<not> bit w i" using Max_in [OF fin ne] Max_ge [OF fin] by (auto simp: h_def not_le [symmetric])
  have h: "h < 32" using bit_imp_le_length [OF b(1)] by simp
  have "rev [0..<32] = rev [Suc h..<32] @ rev [0..<Suc h]" using h by (metis rev_append upt_add_eq_append le0 le_add_diff_inverse Suc_leI)
  moreover have "takeWhile (\<lambda>i. \<not> bit w i) (rev [Suc h..<32] @ rev [0..<Suc h]) = rev [Suc h..<32]"
  proof -
    have "takeWhile (\<lambda>i. \<not> bit w i) (rev [Suc h..<32] @ rev [0..<Suc h]) = rev [Suc h..<32] @ takeWhile (\<lambda>i. \<not> bit w i) (rev [0..<Suc h])"
      using b(2) by (intro takeWhile_append2) auto
    then show ?thesis using b(1) by simp
  qed
  ultimately have "leading_zeros32 w = 31 - h" by (simp add: leading_zeros32_def)
  then show ?thesis using that [of h] h b by simp
qed

lemma highest_bit_bounds:
  fixes w :: u32
  assumes "bit w h" "\<And>i. h < i \<Longrightarrow> \<not> bit w i"
  shows "2 ^ h \<le> unat w" "unat w < 2 ^ Suc h"
proof -
  have b: "bit (unat w) i = bit w i" for i by (simp add: bit_unsigned_iff)
  show "unat w < 2 ^ Suc h"
  proof -
    have "take_bit (Suc h) (unat w) = unat w" by (rule bit_eqI) (use b assms(2) in \<open>auto simp: bit_take_bit_iff less_Suc_eq_le not_less [symmetric]\<close>)
    then show ?thesis by (metis take_bit_nat_less_exp)
  qed
  show "2 ^ h \<le> unat w"
  proof (rule ccontr)
    assume "\<not> 2 ^ h \<le> unat w"
    then have "take_bit h (unat w) = unat w" by (simp add: take_bit_nat_eq_self)
    then have "\<not> bit (unat w) h" by (metis bit_take_bit_iff less_irrefl)
    then show False using b assms(1) by simp
  qed
qed

lemma capacity_power:
  assumes "HEADER_SIZE + MESSAGE_SIZE < sz" "sz < 2 ^ 32"
  obtains k where "k \<le> 31" "mpsc_capacity_for_size sz = 2 ^ k" "2 ^ k \<le> (sz - HEADER_SIZE) div (MESSAGE_SIZE + 1)"
    "(sz - HEADER_SIZE) div (MESSAGE_SIZE + 1) < 2 ^ Suc k"
proof -
  let ?raw = "(sz - HEADER_SIZE) div (MESSAGE_SIZE + 1)"
  have raw: "0 < ?raw" "?raw < 2 ^ 32" using assms by (auto simp: HEADER_SIZE_def MESSAGE_SIZE_def div_greater_zero_iff)
  then have u: "unat (of_nat ?raw :: u32) = ?raw" by (simp add: unsigned_of_nat take_bit_nat_eq_self)
  then have "(of_nat ?raw :: u32) \<noteq> 0" using raw(1) by (metis less_irrefl unat_0)
  then obtain h where h: "h \<le> 31" "leading_zeros32 (of_nat ?raw) = 31 - h" "bit (of_nat ?raw :: u32) h" "\<And>i. h < i \<Longrightarrow> \<not> bit (of_nat ?raw :: u32) i"
    by (rule highest_bit) blast
  have "mpsc_capacity_for_size sz = 2 ^ h"
    using assms(1) raw(1) h(1,2) by (simp add: mpsc_capacity_for_size_def Let_def push_bit_eq_mult)
  then show ?thesis using that [of h] h(1) highest_bit_bounds [OF h(3,4)] u by simp
qed

lemma start_inv:
  assumes "HEADER_SIZE + MESSAGE_SIZE < sz" "sz < 2 ^ 32"
  shows "mpsc_inv c (start_world sz pb zero)" (is "mpsc_inv c ?s")
proof -
  obtain k where k: "k \<le> 31" "mpsc_capacity_for_size sz = 2 ^ k" using capacity_power [OF assms] by metis
  have q: "q_capacity (queue ?s) = 2 ^ k" "length (msgs (queue ?s)) = 2 ^ k" "slot_states (queue ?s) = replicate (2 ^ k) SLOT_EMPTY"
    using k by (simp_all add: start_world_def new_queue_def Let_def unat_power_of_2)
  have "geometry (queue ?s)" unfolding geometry_def q using k(1) by (auto simp: unat_power_of_2)
  moreover have "\<not> ready ?s i" for i
  proof -
    have "slot (queue ?s) i < 2 ^ k" by (simp add: slot_def q(1) unat_power_of_2 k(1))
    then have "slot_states (queue ?s) ! slot (queue ?s) i = SLOT_EMPTY" unfolding q(3) by (rule nth_replicate)
    then show ?thesis by (simp add: ready_def SLOT_EMPTY_def SLOT_READY_def)
  qed
  moreover have "queue ?s = new_queue sz pb zero" "claimed ?s = []" "taken ?s = []" "sender ?s = (\<lambda>_. SIdle)" "receiver ?s = (\<lambda>_. RIdle)"
    by (simp_all add: start_world_def)
  ultimately show ?thesis
    by (simp add: mpsc_inv_def counters_ok_def producer_ok_def slots_ok_def consumer_ok_def holding_def recv_idle_def) (simp add: new_queue_def Let_def)
qed

section \<open>What the ring holds\<close>

definition contents :: "'m MpscQueue \<Rightarrow> 'm list" where
  "contents q = map (\<lambda>i. msgs q ! slot_index (q_head q + of_nat i) q) [0..<unat (q_tail q - q_head q)]"

lemma contents_quiet:
  assumes inv: "mpsc_inv c s" and q: "\<And>p. \<not> holding (sender s p)" "\<not> clearing (receiver s c)"
  shows "contents (queue s) = drop (length (taken s)) (claimed s)"
proof -
  have co: "counters_ok s" and sl: "slots_ok c s" using inv by (simp_all add: mpsc_inv_def)
  note cd = countersD [OF co]
  let ?r = "length (taken s)" and ?n = "length (claimed s)"
  have d: "unat (q_tail (queue s) - q_head (queue s)) = ?n - ?r" unfolding cd(4,5) using cd(2,3,8) by (intro distance) auto
  have "msgs (queue s) ! slot_index (q_head (queue s) + of_nat i) (queue s) = claimed s ! (?r + i)" if "i < ?n - ?r" for i
  proof -
    have "slot_index (q_head (queue s) + of_nat i) (queue s) = slot (queue s) (?r + i)"
      using geometryD(4) [OF cd(1), of "?r + i"] cd(5) by simp
    moreover have "published s (?r + i)" using sl that q by (auto simp: slots_ok_def slot_held_def)
    ultimately show ?thesis by (simp add: published_def)
  qed
  then show ?thesis unfolding contents_def d by (intro nth_equalityI) (use cd(2) in auto)
qed

section \<open>Uninterrupted sends and receives\<close>

text \<open>A send and a receive that nothing interrupts, as one step each.\<close>

definition mpsc_send :: "'m \<Rightarrow> 'm MpscQueue \<Rightarrow> bool \<times> 'm MpscQueue" where
  "mpsc_send m q =
     (let t = q_tail q; h = q_head q
      in if t - h \<ge> q_capacity q then (False, q)
         else let idx = slot_index t q
              in (True, q\<lparr>q_tail := t + 1, msgs := (msgs q)[idx := m], slot_states := (slot_states q)[idx := SLOT_READY]\<rparr>))"

definition mpsc_recv :: "'m MpscQueue \<Rightarrow> 'm option \<times> 'm MpscQueue" where
  "mpsc_recv q =
     (let h = q_head q; idx = slot_index h q
      in if slot_states q ! idx \<noteq> SLOT_READY then (None, q)
         else (Some (msgs q ! idx), q\<lparr>slot_states := (slot_states q)[idx := SLOT_EMPTY], q_head := h + 1\<rparr>))"

fun send_steps :: "nat \<Rightarrow> 'm send_pc \<Rightarrow> 'm MpscQueue \<Rightarrow> 'm send_pc \<times> 'm MpscQueue" where
  "send_steps 0 pc q = (pc, q)"
| "send_steps (Suc n) pc q = (case send_step False pc q of (pc', q') \<Rightarrow> send_steps n pc' q')"

fun recv_steps :: "nat \<Rightarrow> 'm recv_pc \<Rightarrow> 'm MpscQueue \<Rightarrow> 'm recv_pc \<times> 'm MpscQueue" where
  "recv_steps 0 pc q = (pc, q)"
| "recv_steps (Suc n) pc q = (case recv_step pc q of (pc', q') \<Rightarrow> recv_steps n pc' q')"

lemma mpsc_send_steps: "send_steps 5 (SLoadTail m) q = apfst SDone (mpsc_send m q)"
  by (simp add: mpsc_send_def Let_def numeral_eq_Suc slot_index_def)

lemma mpsc_recv_steps: "recv_steps 5 RLoadHead q = apfst RDone (mpsc_recv q)"
  by (simp add: mpsc_recv_def Let_def numeral_eq_Suc slot_index_def)

lemma step_capacity: "q_capacity (snd (send_step w pc q)) = q_capacity q" "q_capacity (snd (recv_step rpc q)) = q_capacity q"
  by (cases pc; simp) (cases rpc; simp)

lemma do_act_capacity: "cap_of (do_act a s) = cap_of s"
  using step_capacity(1) [of _ _ "queue s"] step_capacity(2) [of _ "queue s"]
  by (cases a) (auto simp: cap_of_def split: prod.splits, (metis snd_conv)+)

lemma run_acts_capacity: "cap_of (run_acts as (start_world sz pb zero)) = unat (mpsc_capacity_for_size sz)"
proof -
  have "cap_of (run_acts as s) = cap_of s" for s by (induction as s rule: run_acts.induct) (auto simp: do_act_capacity)
  then show ?thesis by (simp add: cap_of_def start_world_def new_queue_def Let_def)
qed

lemma do_act_claims: "length (claimed (do_act a s)) \<le> Suc (length (claimed s))"
  by (cases a) (auto split: prod.splits send_pc.splits)

lemma short_runs_timely: "length (claimed s) + length as < 2 ^ 32 \<Longrightarrow> all_timely as s"
proof (induction as arbitrary: s)
  case (Cons a as)
  have "timely a s" using Cons.prems by (cases a) (auto split: send_pc.splits)
  then show ?case using Cons do_act_claims [of a s] by simp
qed simp

section \<open>The queue between calls\<close>

text \<open>
  A queue that nobody is writing to: its slots from the head on are ready as far as the tail and empty beyond. On such a
  queue the uninterrupted send and receive are those of a bounded list.
\<close>

definition quiet :: "'m MpscQueue \<Rightarrow> bool" where
  "quiet q \<longleftrightarrow> geometry q \<and> unat (q_tail q - q_head q) \<le> unat (q_capacity q) \<and>
     (\<forall>i<unat (q_capacity q). slot_states q ! slot_index (q_head q + of_nat i) q =
        (if i < unat (q_tail q - q_head q) then SLOT_READY else SLOT_EMPTY))"

lemma unat_small32: "k < 2 ^ 32 \<Longrightarrow> unat (of_nat k :: u32) = k"
  by (simp add: unsigned_of_nat take_bit_nat_eq_self)

lemma length_contents: "length (contents q) = unat (q_tail q - q_head q)"
  by (simp add: contents_def)

lemma contents_nth: "i < unat (q_tail q - q_head q) \<Longrightarrow> contents q ! i = msgs q ! slot_index (q_head q + of_nat i) q"
  by (simp add: contents_def)

lemma window_slot:
  assumes "geometry q"
  shows "slot_index (q_head q + of_nat i) q = slot q (unat (q_head q) + i)"
  using geometryD(4) [OF assms, of "unat (q_head q) + i"] by simp

lemma window_inj:
  assumes "i < unat (q_capacity q)" "j < unat (q_capacity q)" "slot q (h + i) = slot q (h + j)"
  shows "i = j"
  using mod_window_neq [of h "h + i" "unat (q_capacity q)" "h + j"] assms by (simp add: slot_def)

lemma tail_as: "q_tail q = q_head q + of_nat (unat (q_tail q - q_head q))"
  by simp

lemma quietD:
  assumes "quiet q"
  shows "geometry q" "length (contents q) \<le> unat (q_capacity q)"
    "i < unat (q_capacity q) \<Longrightarrow> slot_states q ! slot q (unat (q_head q) + i) = (if i < length (contents q) then SLOT_READY else SLOT_EMPTY)"
    "i < length (contents q) \<Longrightarrow> contents q ! i = msgs q ! slot q (unat (q_head q) + i)"
  using assms window_slot [of q] by (auto simp: quiet_def length_contents) (simp add: contents_def)

lemma slot_code: "SLOT_READY \<noteq> SLOT_EMPTY" "SLOT_EMPTY \<noteq> SLOT_READY"
  by (simp_all add: SLOT_READY_def SLOT_EMPTY_def)

lemma quiet_empty: "quiet q \<Longrightarrow> is_empty q \<longleftrightarrow> contents q = []"
  using quietD(3) [of q 0] geometryD(1) [of q] quietD(1) [of q] window_slot [of q 0] by (auto simp: is_empty_def slot_code)

lemma quiet_full: "quiet q \<Longrightarrow> is_full q \<longleftrightarrow> length (contents q) = unat (q_capacity q)"
  using quietD(2) [of q] by (auto simp: is_full_def length_contents word_le_nat_alt)

lemma mpsc_send_quiet:
  assumes q: "quiet q" and s: "mpsc_send m q = (ok, q')"
  shows "quiet q'" "ok \<longleftrightarrow> length (contents q) < unat (q_capacity q)" "contents q' = (if ok then contents q @ [m] else contents q)"
    "q_capacity q' = q_capacity q" "page_backed q' = page_backed q"
proof -
  let ?n = "length (contents q)" and ?h = "unat (q_head q)" and ?c = "unat (q_capacity q)"
  note g = geometryD [OF quietD(1) [OF q]]
  have full: "q_tail q - q_head q \<ge> q_capacity q \<longleftrightarrow> \<not> ?n < ?c" by (auto simp: length_contents word_le_nat_alt)
  have "quiet q' \<and> (ok \<longleftrightarrow> ?n < ?c) \<and> contents q' = (if ok then contents q @ [m] else contents q) \<and>
    q_capacity q' = q_capacity q \<and> page_backed q' = page_backed q"
  proof (cases "?n < ?c")
    case False
    then show ?thesis using s q full by (simp add: mpsc_send_def Let_def)
  next
    case True
    have ti: "slot_index (q_tail q) q = slot q (?h + ?n)" using window_slot [OF quietD(1) [OF q], of ?n] tail_as [of q] by (simp add: length_contents)
    have r: "ok" "q' = q\<lparr>q_tail := q_tail q + 1, msgs := (msgs q)[slot q (?h + ?n) := m],
        slot_states := (slot_states q)[slot q (?h + ?n) := SLOT_READY]\<rparr>"
      using s full True ti by (simp_all add: mpsc_send_def Let_def)
    have f: "q_head q' = q_head q" "q_capacity q' = q_capacity q" "page_backed q' = page_backed q" "slot q' = slot q" "q_tail q' = q_tail q + 1"
      "msgs q' = (msgs q)[slot q (?h + ?n) := m]" "slot_states q' = (slot_states q)[slot q (?h + ?n) := SLOT_READY]"
      using r(2) by (simp_all add: slot_def fun_eq_iff)
    have g': "geometry q'" using quietD(1) [OF q] f by (simp add: geometry_def)
    have "q_tail q' - q_head q' = of_nat (Suc ?n)" using f(1,5) tail_as [of q] by (simp add: length_contents)
    moreover have "Suc ?n < 2 ^ 32" using True g(2) by simp
    ultimately have n': "unat (q_tail q' - q_head q') = Suc ?n" by (simp only: unat_small32)
    have st: "slot_states q' ! slot q (?h + i) = (if i < Suc ?n then SLOT_READY else SLOT_EMPTY)" if "i < ?c" for i
      using quietD(3) [OF q that] window_inj [OF that True, of ?h] g(6) f(7) by (auto simp: nth_list_update less_Suc_eq)
    have "quiet q'" using g' n' True st f window_slot [OF g'] by (simp add: quiet_def)
    moreover have "contents q' = contents q @ [m]"
    proof (intro nth_equalityI)
      fix i assume "i < length (contents q')"
      then have i: "i < Suc ?n" "i < ?c" using n' True by (simp_all add: length_contents)
      have "contents q' ! i = msgs q' ! slot q (?h + i)" using contents_nth [of i q'] i(1) n' window_slot [OF g', of i] f(1,4) by simp
      then show "contents q' ! i = (contents q @ [m]) ! i"
        using i f(6) g(5) quietD(4) [OF q, of i] window_inj [OF i(2) True, of ?h] by (auto simp: nth_append nth_list_update less_Suc_eq)
    qed (simp add: n' length_contents)
    ultimately show ?thesis using r(1) f True by simp
  qed
  then show "quiet q'" "ok \<longleftrightarrow> ?n < ?c" "contents q' = (if ok then contents q @ [m] else contents q)"
    "q_capacity q' = q_capacity q" "page_backed q' = page_backed q" by blast+
qed

lemma mpsc_recv_quiet:
  assumes q: "quiet q" and s: "mpsc_recv q = (r, q')"
  shows "quiet q'" "r = (case contents q of [] \<Rightarrow> None | m # ms \<Rightarrow> Some m)" "contents q' = tl (contents q)"
    "q_capacity q' = q_capacity q" "page_backed q' = page_backed q"
proof -
  let ?n = "length (contents q)" and ?h = "unat (q_head q)" and ?c = "unat (q_capacity q)"
  note g = geometryD [OF quietD(1) [OF q]]
  have hi: "slot_index (q_head q) q = slot q ?h" using window_slot [OF quietD(1) [OF q], of 0] by simp
  have s0: "slot_states q ! slot q ?h = (if contents q = [] then SLOT_EMPTY else SLOT_READY)" using quietD(3) [OF q, of 0] g(1) by simp
  have "quiet q' \<and> r = (case contents q of [] \<Rightarrow> None | m # ms \<Rightarrow> Some m) \<and> contents q' = tl (contents q) \<and>
    q_capacity q' = q_capacity q \<and> page_backed q' = page_backed q"
  proof (cases "contents q")
    case Nil
    then show ?thesis using s q s0 hi by (simp add: mpsc_recv_def Let_def slot_code)
  next
    case (Cons m ms)
    have m: "msgs q ! slot q ?h = m" using quietD(4) [OF q, of 0] Cons by simp
    have r: "r = Some m" "q' = q\<lparr>slot_states := (slot_states q)[slot q ?h := SLOT_EMPTY], q_head := q_head q + 1\<rparr>"
      using s s0 hi Cons m by (simp_all add: mpsc_recv_def Let_def)
    have f: "q_head q' = q_head q + of_nat 1" "q_capacity q' = q_capacity q" "page_backed q' = page_backed q" "slot q' = slot q" "q_tail q' = q_tail q"
      "msgs q' = msgs q" "slot_states q' = (slot_states q)[slot q ?h := SLOT_EMPTY]"
      using r(2) by (simp_all add: slot_def fun_eq_iff)
    have g': "geometry q'" using quietD(1) [OF q] f by (simp add: geometry_def)
    have w: "slot_index (q_head q' + of_nat i) q' = slot q (?h + Suc i)" for i
    proof -
      have "slot_index (q_head q' + of_nat i) q' = slot_index (q_head q + of_nat (Suc i)) q" using f(1,2) by (simp add: slot_index_def algebra_simps)
      then show ?thesis using window_slot [OF quietD(1) [OF q], of "Suc i"] by simp
    qed
    have "q_tail q = q_head q + of_nat (length (m # ms))" using tail_as [of q] unfolding length_contents [symmetric] Cons .
    then have "q_tail q' - q_head q' = of_nat (?n - 1)" using f(1,5) Cons by simp
    moreover have "?n - 1 < 2 ^ 32" using quietD(2) [OF q] g(2) by simp
    ultimately have n': "unat (q_tail q' - q_head q') = ?n - 1" by (simp only: unat_small32)
    have st: "slot_states q' ! slot q (?h + Suc i) = (if i < ?n - 1 then SLOT_READY else SLOT_EMPTY)" if "i < ?c" for i
    proof (cases "Suc i < ?c")
      case True
      then show ?thesis using quietD(3) [OF q True] window_inj [OF True g(1), of ?h] g(6) f(7) Cons by (auto simp: nth_list_update)
    next
      case False
      then have "Suc i = ?c" using that by simp
      then have "slot q (?h + Suc i) = slot q ?h" by (simp add: slot_def)
      moreover have "\<not> i < ?n - 1" using \<open>Suc i = ?c\<close> quietD(2) [OF q] by linarith
      ultimately show ?thesis using f(7) g(6) by simp
    qed
    have "quiet q'" using g' n' st f(2) w quietD(2) [OF q] by (simp add: quiet_def)
    moreover have "contents q' = tl (contents q)"
    proof (intro nth_equalityI)
      fix i assume "i < length (contents q')"
      then have i: "i < ?n - 1" "Suc i < ?n" using n' by (simp_all add: length_contents)
      have "contents q' ! i = msgs q ! slot q (?h + Suc i)" using contents_nth [of i q'] i(1) n' w [of i] f(6) by simp
      then show "contents q' ! i = tl (contents q) ! i" using quietD(4) [OF q i(2)] i(1) by (simp add: nth_tl)
    qed (simp add: n' length_contents)
    ultimately show ?thesis using r(1) f Cons by simp
  qed
  then show "quiet q'" "r = (case contents q of [] \<Rightarrow> None | m # ms \<Rightarrow> Some m)" "contents q' = tl (contents q)"
    "q_capacity q' = q_capacity q" "page_backed q' = page_backed q" by blast+
qed

lemma new_queue_quiet:
  assumes "HEADER_SIZE + MESSAGE_SIZE < sz" "sz < 2 ^ 32"
  shows "quiet (new_queue sz pb zero)" "contents (new_queue sz pb zero) = []" "q_capacity (new_queue sz pb zero) = mpsc_capacity_for_size sz"
    "page_backed (new_queue sz pb zero) = pb"
proof -
  let ?q = "new_queue sz pb zero"
  obtain k where k: "k \<le> 31" "mpsc_capacity_for_size sz = 2 ^ k" using capacity_power [OF assms] by metis
  have q: "q_capacity ?q = 2 ^ k" "length (msgs ?q) = 2 ^ k" "slot_states ?q = replicate (2 ^ k) SLOT_EMPTY" "q_head ?q = 0" "q_tail ?q = 0"
    using k by (simp_all add: new_queue_def Let_def unat_power_of_2)
  have g: "geometry ?q" unfolding geometry_def q using k(1) by (auto simp: unat_power_of_2)
  have "slot_states ?q ! slot ?q i = SLOT_EMPTY" for i
    unfolding q(3) using geometryD(6) [OF g, of i] by (intro nth_replicate) (simp add: q(3))
  then show "quiet ?q" using g window_slot [OF g] q(4,5) by (simp add: quiet_def)
  show "contents ?q = []" by (simp add: contents_def q(4,5))
  show "q_capacity ?q = mpsc_capacity_for_size sz" "page_backed ?q = pb" by (simp_all add: new_queue_def Let_def)
qed

section \<open>Properties\<close>

text \<open>C24 The message queue is a lossless first-in-first-out channel. Take any interleaving of the single accesses of any
  number of senders and one receiver on a new queue, with any spurious failures of the compare-exchange and both
  counters wrapping around. The messages received are, in order and without gap or repetition, the first of the
  messages in the order in which their slots were claimed; no more are outstanding than the queue has slots; a
  finished receive returned the last of them; and whenever no access to a slot is in progress the ring holds exactly
  the messages still to be received. The hypotheses say that the queue has room for one message and that no sender
  sleeps inside its compare-exchange loop while \<open>2 ^ 32\<close> slots are claimed.\<close>

theorem mpsc_channel:
  assumes "HEADER_SIZE + MESSAGE_SIZE < sz" "sz < 2 ^ 32" "list_all (only_consumer c) as" "all_timely as (start_world sz pb zero)"
  shows "let s = run_acts as (start_world sz pb zero) in
    taken s = take (length (taken s)) (claimed s) \<and> length (claimed s) \<le> length (taken s) + unat (mpsc_capacity_for_size sz) \<and>
    (\<forall>m. receiver s c = RDone (Some m) \<longrightarrow> taken s \<noteq> [] \<and> m = last (taken s)) \<and>
    ((\<forall>p. \<not> holding (sender s p)) \<longrightarrow> \<not> clearing (receiver s c) \<longrightarrow> taken s @ contents (queue s) = claimed s)"
proof -
  define s where "s = run_acts as (start_world sz pb zero)"
  have inv: "mpsc_inv c s" unfolding s_def using run_acts_inv [OF start_inv [OF assms(1,2)] assms(4,3)] .
  have co: "counters_ok s" and cn: "consumer_ok c s" using inv by (simp_all add: mpsc_inv_def)
  note cd = countersD [OF co]
  have "cap_of s = unat (mpsc_capacity_for_size sz)" unfolding s_def by (rule run_acts_capacity)
  then show ?thesis
    using cd(3,6) cn contents_quiet [OF inv] by (auto simp: s_def [symmetric] Let_def consumer_ok_def) (metis append_take_drop_id)
qed

text \<open>Two senders whose accesses alternate, then a receive.\<close>

definition two_sends :: "(nat, nat, nat) act list" where
  "two_sends =
     [BeginSend 1 7, BeginSend 2 8, SendStep 1 False, SendStep 2 False, SendStep 1 False, SendStep 2 False, SendStep 2 False, SendStep 1 False,
      SendStep 1 False, SendStep 1 False, SendStep 1 False, SendStep 1 False, SendStep 1 False, SendStep 2 False, SendStep 2 False,
      BeginRecv 0, RecvStep 0, RecvStep 0, RecvStep 0, RecvStep 0, RecvStep 0]"

fun acts_of :: "'p \<Rightarrow> ('p, 'c, 'm) act \<Rightarrow> bool" where
  "acts_of p (BeginSend p' m) = (p' = p)"
| "acts_of p (SendStep p' w) = (p' = p)"
| "acts_of p a = False"

lemma others_keep: "list_all (\<lambda>a. \<not> acts_of p a) as \<Longrightarrow> sender (run_acts as s) p = sender s p"
proof (induction as arbitrary: s)
  case (Cons a as)
  have "sender (do_act a s) p = sender s p" using Cons.prems by (cases a) (auto split: prod.splits)
  then show ?case using Cons by simp
qed simp

theorem mpsc_channel_witness:
  "list_all (only_consumer 0) two_sends \<and> all_timely two_sends (start_world 256 False 0) \<and>
   (let s = run_acts two_sends (start_world 256 False 0) in claimed s = [8, 7] \<and> taken s = [8] \<and> taken s @ contents (queue s) = claimed s)"
proof -
  let ?s = "run_acts two_sends (start_world 256 False 0)"
  have h: "list_all (only_consumer 0) two_sends" "all_timely two_sends (start_world 256 False 0)"
    by (simp add: two_sends_def) (rule short_runs_timely, simp add: two_sends_def start_world_def)
  have "HEADER_SIZE + MESSAGE_SIZE < 256" by (simp add: HEADER_SIZE_def MESSAGE_SIZE_def)
  note ch = mpsc_channel [OF this _ h]
  have c: "claimed ?s = [8, 7]" "taken ?s = [8]" "\<not> clearing (receiver ?s 0)" "\<not> holding (sender ?s 1)" "\<not> holding (sender ?s 2)"
    by code_simp+
  have "\<not> holding (sender ?s p)" for p
  proof (cases "p = 1 \<or> p = 2")
    case False
    then have "sender ?s p = SIdle" by (subst others_keep) (auto simp: two_sends_def start_world_def)
    then show ?thesis by (simp add: holding_def)
  qed (use c in auto)
  then show ?thesis using h c ch by (simp add: Let_def)
qed

definition two_receivers :: "(nat, nat, nat) act list" where
  "two_receivers =
     [BeginSend 1 7, SendStep 1 False, SendStep 1 False, SendStep 1 False, SendStep 1 False, SendStep 1 False,
      BeginRecv 0, BeginRecv 1, RecvStep 0, RecvStep 1, RecvStep 0, RecvStep 1, RecvStep 0, RecvStep 1, RecvStep 0, RecvStep 1, RecvStep 0, RecvStep 1]"


definition overtaken_send :: "(nat, nat, nat) act list" where
  "overtaken_send =
     [BeginSend 1 7, SendStep 1 False,
      BeginSend 2 8, SendStep 2 False, SendStep 2 False, SendStep 2 False, SendStep 2 False, SendStep 2 False,
      BeginRecv 0, RecvStep 0, RecvStep 0, RecvStep 0, RecvStep 0, RecvStep 0, SendStep 1 False]"

text \<open>A send can be refused by an empty queue. A sender reads the tail; another message is sent and received; the first
  sender then reads a head beyond its tail, the difference wraps around to a huge number, and the send reports a full
  queue.\<close>

theorem send_refused_by_empty_queue:
  "let s = run_acts overtaken_send (start_world PORT_QUEUE_SLAB_SIZE False 0)
   in sender s 1 = SDone False \<and> claimed s = [8] \<and> taken s = [8] \<and> contents (queue s) = [] \<and> \<not> is_full (queue s)"
  by code_simp

text \<open>C40 A queue fits its block. For every block size below \<open>2 ^ 32\<close> the computed capacity is zero or a power of two, the
  header, the messages and the state bytes fit into the block, and a queue of twice the capacity would not. The
  default block of 2048 bytes holds 32 messages.\<close>

theorem capacity_fits:
  assumes "sz < 2 ^ 32"
  shows "let cap = unat (mpsc_capacity_for_size sz) in
    (cap = 0 \<longleftrightarrow> sz \<le> HEADER_SIZE + MESSAGE_SIZE) \<and>
    (0 < cap \<longrightarrow> (\<exists>k\<le>31. cap = 2 ^ k) \<and> HEADER_SIZE + cap * (MESSAGE_SIZE + 1) \<le> sz \<and> sz < HEADER_SIZE + 2 * cap * (MESSAGE_SIZE + 1)) \<and>
    mpsc_capacity_for_size PORT_QUEUE_SLAB_SIZE = 32"
proof -
  have d: "mpsc_capacity_for_size PORT_QUEUE_SLAB_SIZE = 32" by code_simp
  show ?thesis
  proof (cases "HEADER_SIZE + MESSAGE_SIZE < sz")
    case True
    obtain k where k: "k \<le> 31" "mpsc_capacity_for_size sz = 2 ^ k" "2 ^ k \<le> (sz - HEADER_SIZE) div (MESSAGE_SIZE + 1)"
      "(sz - HEADER_SIZE) div (MESSAGE_SIZE + 1) < 2 ^ Suc k" using capacity_power [OF True assms] by metis
    have u: "unat (mpsc_capacity_for_size sz) = 2 ^ k" using k(1,2) unat_power_of_2 by simp
    have "2 ^ k * (MESSAGE_SIZE + 1) \<le> sz - HEADER_SIZE" using k(3) by (simp add: less_eq_div_iff_mult_less_eq MESSAGE_SIZE_def)
    moreover have "sz - HEADER_SIZE < 2 ^ Suc k * (MESSAGE_SIZE + 1)" using k(4) by (simp add: div_less_iff_less_mult MESSAGE_SIZE_def)
    ultimately have "HEADER_SIZE + 2 ^ k * (MESSAGE_SIZE + 1) \<le> sz" "sz < HEADER_SIZE + 2 * 2 ^ k * (MESSAGE_SIZE + 1)"
      using True by (simp_all add: algebra_simps)
    then show ?thesis using True d k(1) unfolding Let_def u by auto
  next
    case False
    then have "mpsc_capacity_for_size sz = 0" by (auto simp: mpsc_capacity_for_size_def Let_def HEADER_SIZE_def MESSAGE_SIZE_def)
    then show ?thesis using False d by simp
  qed
qed

theorem capacity_fits_witness: "unat (mpsc_capacity_for_size 4096) = 64 \<and> HEADER_SIZE + 64 * (MESSAGE_SIZE + 1) \<le> 4096"
proof -
  have "mpsc_capacity_for_size 4096 = 64" by code_simp
  then show ?thesis using capacity_fits [of 4096] by (simp add: Let_def)
qed

end
