(* ===== verification/Hamt.thy ===== *)
theory Hamt
  imports Telix_Prelude IdMap
begin

text \<open>
  The hash trie of the wait subsystem (\<open>sync/turnstile.rs\<close>): keys of waiters, their FNV-1a hashes, and the
  trie that maps a key to its turnstile. A child pointer is the subtree below it (\<open>HNull\<close>, a tagged leaf with
  the address of a turnstile, or a node of sixteen children); the turnstiles are read through \<open>mem\<close>, the
  contents of the slab blocks. Node allocations take their outcomes from a list and are counted.
\<close>

section \<open>Turnstiles and their keys\<close>

record Turnstile =
  aspace_id :: u64
  key_type :: u8
  va :: u64
  ts_hash :: u64
  ts_head :: u32
  ts_tail :: u32
  waiter_count :: u16
  owner_tid :: u32
  max_waiter_prio :: u8
  canary_tail :: "u8 list"

datatype wkey = WKey u8 u64 u64

type_synonym ts_mem = "nat \<Rightarrow> Turnstile"

definition key_of :: "Turnstile \<Rightarrow> wkey" where
  "key_of t = WKey (key_type t) (aspace_id t) (va t)"

definition KEY_FUTEX :: u8 where "KEY_FUTEX = 0"
definition KEY_PORT_RECV :: u8 where "KEY_PORT_RECV = 1"
definition KEY_PORT_SEND :: u8 where "KEY_PORT_SEND = 2"
definition KEY_PORT_RECV_PARK :: u8 where "KEY_PORT_RECV_PARK = 3"

definition HAMT_WIDTH :: nat where "HAMT_WIDTH = 16"
definition MAX_LEVEL :: nat where "MAX_LEVEL = 14"
definition NUM_BUCKETS :: nat where "NUM_BUCKETS = 16"

definition FNV_OFFSET :: u64 where "FNV_OFFSET = 0xcbf29ce484222325"
definition FNV_PRIME :: u64 where "FNV_PRIME = 0x00000100000001b3"

definition to_le_bytes :: "u64 \<Rightarrow> u64 list" where
  "to_le_bytes x = map (\<lambda>i. drop_bit (8 * i) x AND 0xFF) [0..<8]"

definition fnv_step :: "u64 \<Rightarrow> u64 \<Rightarrow> u64" where
  "fnv_step h b = (h XOR b) * FNV_PRIME"

definition futex_hash :: "u64 \<Rightarrow> u64 \<Rightarrow> u64" where
  "futex_hash aspace v = foldl fnv_step (foldl fnv_step FNV_OFFSET (to_le_bytes aspace)) (to_le_bytes v)"

definition port_key_hash :: "u64 \<Rightarrow> u8 \<Rightarrow> u64" where
  "port_key_hash port_id kt = foldl fnv_step (fnv_step FNV_OFFSET (ucast kt)) (to_le_bytes port_id)"

definition bucket_index :: "u64 \<Rightarrow> nat" where
  "bucket_index hash = unat (drop_bit 60 hash AND 0xF)"

definition nibble_at :: "u64 \<Rightarrow> nat \<Rightarrow> nat" where
  "nibble_at hash level = unat (drop_bit (56 - level * 4) hash AND 0xF)"

section \<open>The trie\<close>

datatype hamt = HNull | HLeaf nat | HNode "hamt list"

record NodeMem =
  node_answers :: "bool list"
  node_live :: int

definition alloc_hnode :: "NodeMem \<Rightarrow> hamt list option \<times> NodeMem" where
  "alloc_hnode nm =
     (case node_answers nm of
        True # os \<Rightarrow> (Some (replicate HAMT_WIDTH HNull), nm\<lparr>node_answers := os, node_live := node_live nm + 1\<rparr>)
      | False # os \<Rightarrow> (None, nm\<lparr>node_answers := os\<rparr>)
      | [] \<Rightarrow> (None, nm))"

definition free_hnode :: "NodeMem \<Rightarrow> NodeMem" where
  "free_hnode nm = nm\<lparr>node_live := node_live nm - 1\<rparr>"

function lookup_slot :: "ts_mem \<Rightarrow> u64 \<Rightarrow> wkey \<Rightarrow> nat \<Rightarrow> hamt \<Rightarrow> nat option" where
  "lookup_slot mem hash k level slot =
     (case slot of
        HNull \<Rightarrow> None
      | HLeaf p \<Rightarrow> if key_of (mem p) = k then Some p else None
      | HNode cs \<Rightarrow> if level > MAX_LEVEL then None else lookup_slot mem hash k (level + 1) (cs ! nibble_at hash level))"
  by pat_completeness auto
termination
  by (relation "measure (\<lambda>(mem, hash, k, level, slot). MAX_LEVEL + 1 - level)") auto

declare lookup_slot.simps [simp del]

definition hamt_lookup :: "ts_mem \<Rightarrow> hamt list \<Rightarrow> u64 \<Rightarrow> wkey \<Rightarrow> nat option" where
  "hamt_lookup mem root hash k = lookup_slot mem hash k 1 (root ! nibble_at hash 0)"

function insert_slot :: "ts_mem \<Rightarrow> u64 \<Rightarrow> nat \<Rightarrow> nat \<Rightarrow> hamt \<Rightarrow> NodeMem \<Rightarrow> bool \<times> hamt \<times> NodeMem" where
  "insert_slot mem hash ts level slot nm =
     (case slot of
        HNull \<Rightarrow> (True, HLeaf ts, nm)
      | HLeaf ex \<Rightarrow>
          if key_of (mem ex) = key_of (mem ts) then (False, slot, nm)
          else if level > MAX_LEVEL then (False, slot, nm)
          else (case alloc_hnode nm of
                  (None, nm1) \<Rightarrow> (False, slot, nm1)
                | (Some cs, nm1) \<Rightarrow>
                    let ex_nibble = nibble_at (ts_hash (mem ex)) level; new_nibble = nibble_at hash level
                    in if ex_nibble \<noteq> new_nibble
                       then (True, HNode (cs[ex_nibble := slot, new_nibble := HLeaf ts]), nm1)
                       else (case insert_slot mem hash ts (level + 1) slot nm1 of
                               (ok, c, nm2) \<Rightarrow> (ok, HNode (cs[new_nibble := c]), nm2)))
      | HNode cs \<Rightarrow>
          if level > MAX_LEVEL then (False, slot, nm)
          else let nibble = nibble_at hash level
               in (case insert_slot mem hash ts (level + 1) (cs ! nibble) nm of
                     (ok, c, nm1) \<Rightarrow> (ok, HNode (cs[nibble := c]), nm1)))"
  by pat_completeness auto
termination
  by (relation "measure (\<lambda>(mem, hash, ts, level, slot, nm). MAX_LEVEL + 1 - level)") auto

declare insert_slot.simps [simp del]

definition hamt_insert :: "ts_mem \<Rightarrow> hamt list \<Rightarrow> u64 \<Rightarrow> nat \<Rightarrow> NodeMem \<Rightarrow> bool \<times> hamt list \<times> NodeMem" where
  "hamt_insert mem root hash ts nm =
     (let nibble0 = nibble_at hash 0
      in (case insert_slot mem hash ts 1 (root ! nibble0) nm of (ok, c, nm1) \<Rightarrow> (ok, root[nibble0 := c], nm1)))"

text \<open>After a removal below: a node without children goes, a node whose only child is a leaf becomes that leaf.\<close>

definition collapse :: "hamt list \<Rightarrow> NodeMem \<Rightarrow> hamt \<times> NodeMem" where
  "collapse cs nm =
     (case filter (\<lambda>c. c \<noteq> HNull) cs of
        [] \<Rightarrow> (HNull, free_hnode nm)
      | [HLeaf p] \<Rightarrow> (HLeaf p, free_hnode nm)
      | _ \<Rightarrow> (HNode cs, nm))"

function hamt_remove_at :: "ts_mem \<Rightarrow> u64 \<Rightarrow> wkey \<Rightarrow> nat \<Rightarrow> hamt \<Rightarrow> NodeMem \<Rightarrow> nat option \<times> hamt \<times> NodeMem" where
  "hamt_remove_at mem hash k level slot nm =
     (case slot of
        HNull \<Rightarrow> (None, slot, nm)
      | HLeaf p \<Rightarrow> if key_of (mem p) = k then (Some p, HNull, nm) else (None, slot, nm)
      | HNode cs \<Rightarrow>
          if level > MAX_LEVEL then (None, slot, nm)
          else let nibble = nibble_at hash level
               in (case hamt_remove_at mem hash k (level + 1) (cs ! nibble) nm of
                     (res, c, nm1) \<Rightarrow>
                       let cs1 = cs[nibble := c]
                       in if res \<noteq> None then (case collapse cs1 nm1 of (t, nm2) \<Rightarrow> (res, t, nm2))
                          else (res, HNode cs1, nm1)))"
  by pat_completeness auto
termination
  by (relation "measure (\<lambda>(mem, hash, k, level, slot, nm). MAX_LEVEL + 1 - level)") auto

declare hamt_remove_at.simps [simp del]

definition hamt_remove :: "ts_mem \<Rightarrow> hamt list \<Rightarrow> u64 \<Rightarrow> wkey \<Rightarrow> NodeMem \<Rightarrow> nat option \<times> hamt list \<times> NodeMem" where
  "hamt_remove mem root hash k nm =
     (let nibble0 = nibble_at hash 0
      in (case hamt_remove_at mem hash k 1 (root ! nibble0) nm of (res, c, nm1) \<Rightarrow> (res, root[nibble0 := c], nm1)))"

section \<open>Well-formed tries\<close>

text \<open>The hash of a key, and the digits that lead to its leaf: the bucket, then the nibbles of the levels.\<close>

definition key_hash :: "wkey \<Rightarrow> u64" where
  "key_hash k = (case k of WKey kt aspace v \<Rightarrow> if kt = KEY_FUTEX then futex_hash aspace v else port_key_hash v kt)"

fun digit :: "u64 \<Rightarrow> nat \<Rightarrow> nat" where
  "digit hash 0 = bucket_index hash"
| "digit hash (Suc level) = nibble_at hash level"

definition on_path :: "u64 \<Rightarrow> nat list \<Rightarrow> bool" where
  "on_path hash path \<longleftrightarrow> (\<forall>i<length path. path ! i = digit hash i)"

lemma nibble_less [simp]: "nibble_at hash level < 16" "bucket_index hash < 16"
proof -
  have "unat (x AND 0xF :: u64) < 16" for x
    using word_and_le1 [of x "0xF"] by (simp add: word_le_nat_alt)
  then show "nibble_at hash level < 16" "bucket_index hash < 16" by (simp_all add: nibble_at_def bucket_index_def)
qed

lemma on_path_snoc: "on_path hash (path @ [d]) \<longleftrightarrow> on_path hash path \<and> d = digit hash (length path)"
  by (auto simp: on_path_def nth_append less_Suc_eq)

lemma size_hnth_less [termination_simp]: "i < length cs \<Longrightarrow> size (cs ! i :: hamt) < Suc (size_list size cs)"
  using size_list_estimation' [OF nth_mem, of i cs "size (cs ! i)" size] by simp

fun hwf :: "ts_mem \<Rightarrow> nat list \<Rightarrow> hamt \<Rightarrow> bool" where
  "hwf mem path HNull = True"
| "hwf mem path (HLeaf p) \<longleftrightarrow> ts_hash (mem p) = key_hash (key_of (mem p)) \<and> on_path (key_hash (key_of (mem p))) path"
| "hwf mem path (HNode cs) \<longleftrightarrow> length path \<le> 15 \<and> length cs = 16 \<and> (\<forall>i<length cs. hwf mem (path @ [i]) (cs ! i))"

fun nodes_in :: "hamt \<Rightarrow> int" where
  "nodes_in (HNode cs) = 1 + (\<Sum>c\<leftarrow>cs. nodes_in c)"
| "nodes_in _ = 0"

lemma lookup_simps [simp]:
  "lookup_slot mem h k level HNull = None"
  "lookup_slot mem h k level (HLeaf p) = (if key_of (mem p) = k then Some p else None)"
  "level \<le> 14 \<Longrightarrow> lookup_slot mem h k level (HNode cs) = lookup_slot mem h k (Suc level) (cs ! nibble_at h level)"
  by (subst lookup_slot.simps, simp add: MAX_LEVEL_def)+


text \<open>What a slot binds: the lookups of the keys whose hash leads to it.\<close>

definition binds :: "ts_mem \<Rightarrow> nat list \<Rightarrow> hamt \<Rightarrow> wkey \<Rightarrow> nat option" where
  "binds mem path t k = (if on_path (key_hash k) path then lookup_slot mem (key_hash k) k (length path - 1) t else None)"

lemma digit_pos: "0 < n \<Longrightarrow> digit hash n = nibble_at hash (n - 1)"
  by (cases n) auto

lemma digit_less [simp]: "digit hash n < 16"
  by (cases n) auto

lemma binds_leaf: "hwf mem path (HLeaf p) \<Longrightarrow> binds mem path (HLeaf p) k = (if key_of (mem p) = k then Some p else None)"
  by (auto simp: binds_def)

lemma binds_null [simp]: "binds mem path HNull k = None"
  by (simp add: binds_def)

lemma binds_node:
  assumes "path \<noteq> []" "length path \<le> 15" "on_path (key_hash k) path"
  shows "binds mem path (HNode cs) k = binds mem (path @ [digit (key_hash k) (length path)]) (cs ! digit (key_hash k) (length path)) k"
  using assms by (simp add: binds_def on_path_snoc digit_pos)

lemma binds_off: "\<not> on_path (key_hash k) path \<Longrightarrow> binds mem path t k = None"
  by (simp add: binds_def)

lemma binds_child_upd:
  assumes "path \<noteq> []" "length path \<le> 15" "length cs = 16" "n < 16" "on_path (key_hash k) path"
  shows "binds mem path (HNode (cs[n := c])) k =
    (if digit (key_hash k) (length path) = n then binds mem (path @ [n]) c k else binds mem path (HNode cs) k)"
  using assms by (simp add: binds_node nth_list_update)

lemma hwf_upd:
  assumes "hwf mem path (HNode cs)" "hwf mem (path @ [n]) c"
  shows "hwf mem path (HNode (cs[n := c]))"
  using assms by (cases "n < 16") (auto simp: nth_list_update)

lemma nodes_upd:
  assumes "n < length cs"
  shows "nodes_in (HNode (cs[n := c])) = nodes_in (HNode cs) + (nodes_in c - nodes_in (cs ! n))"
proof -
  have "(\<Sum>x\<leftarrow>cs[n := c]. nodes_in x) = (\<Sum>x\<leftarrow>cs. nodes_in x) + (nodes_in c - nodes_in (cs ! n))"
    using assms by (induction cs arbitrary: n) (auto split: nat.splits)
  then show ?thesis by simp
qed

lemma hwf_empty: "length path \<le> 15 \<Longrightarrow> hwf mem path (HNode (replicate 16 HNull))"
  by simp

lemma nodes_empty [simp]: "nodes_in (HNode (replicate 16 HNull)) = 1"
  by (simp add: sum_list_replicate)

lemma binds_empty: "path \<noteq> [] \<Longrightarrow> length path \<le> 15 \<Longrightarrow> binds mem path (HNode (replicate 16 HNull)) k = None"
  by (cases "on_path (key_hash k) path") (simp_all add: binds_node binds_off)

lemma alloc_hnode_cases:
  assumes "alloc_hnode nm = (r, nm')"
  shows "r = None \<and> node_live nm' = node_live nm \<or> r = Some (replicate 16 HNull) \<and> node_live nm' = node_live nm + 1"
  using assms by (auto simp: alloc_hnode_def HAMT_WIDTH_def split: list.splits bool.splits)

section \<open>Insertion and removal\<close>

definition slot_inserted :: "ts_mem \<Rightarrow> nat list \<Rightarrow> nat \<Rightarrow> hamt \<Rightarrow> NodeMem \<Rightarrow> bool \<Rightarrow> hamt \<Rightarrow> NodeMem \<Rightarrow> bool" where
  "slot_inserted mem path ts t nm ok t' nm' \<longleftrightarrow>
     hwf mem path t' \<and> (\<forall>k. binds mem path t' k = (if ok \<and> k = key_of (mem ts) then Some ts else binds mem path t k)) \<and>
     node_live nm' - node_live nm = nodes_in t' - nodes_in t"

lemma slot_insertedD:
  assumes "slot_inserted mem path ts t nm ok t' nm'"
  shows "hwf mem path t'" "binds mem path t' k = (if ok \<and> k = key_of (mem ts) then Some ts else binds mem path t k)"
    "node_live nm' - node_live nm = nodes_in t' - nodes_in t"
  using assms unfolding slot_inserted_def by blast+

lemma slot_insertedI:
  assumes "hwf mem path t'" "\<And>k. binds mem path t' k = (if ok \<and> k = key_of (mem ts) then Some ts else binds mem path t k)"
    "node_live nm' - node_live nm = nodes_in t' - nodes_in t"
  shows "slot_inserted mem path ts t nm ok t' nm'"
  using assms unfolding slot_inserted_def by blast

lemma slot_inserted_same: "hwf mem path t \<Longrightarrow> node_live nm' = node_live nm \<Longrightarrow> slot_inserted mem path ts t nm False t nm'"
  by (simp add: slot_inserted_def)

lemma slot_inserted_child:
  assumes ins: "slot_inserted mem (path @ [n]) ts (cs ! n) nm ok c nm'" and wf: "hwf mem path (HNode cs)" "path \<noteq> []"
    and n: "n = digit (key_hash (key_of (mem ts))) (length path)" "on_path (key_hash (key_of (mem ts))) path"
  shows "slot_inserted mem path ts (HNode cs) nm ok (HNode (cs[n := c])) nm'"
proof -
  have len: "length path \<le> 15" "length cs = 16" "n < 16" using wf n by simp_all
  have "binds mem path (HNode (cs[n := c])) k = (if ok \<and> k = key_of (mem ts) then Some ts else binds mem path (HNode cs) k)" for k
  proof (cases "on_path (key_hash k) path")
    case True
    show ?thesis
      using slot_insertedD(2) [OF ins, of k] binds_child_upd [OF wf(2) len True, of mem c] binds_node [OF wf(2) len(1) True, of mem cs] n(1) by auto
  next
    case False
    then show ?thesis using n(2) by (auto simp: binds_off)
  qed
  moreover have "nodes_in (HNode (cs[n := c])) = nodes_in (HNode cs) + (nodes_in c - nodes_in (cs ! n))"
    by (rule nodes_upd) (simp add: len)
  then have "node_live nm' - node_live nm = nodes_in (HNode (cs[n := c])) - nodes_in (HNode cs)"
    using slot_insertedD(3) [OF ins] by simp
  ultimately show ?thesis using hwf_upd [OF wf(1) slot_insertedD(1) [OF ins]] by (intro slot_insertedI)
qed

lemma pushed_down:
  assumes wf: "hwf mem path (HLeaf ex)" "path \<noteq> []" "length path \<le> 15" and n: "n = digit (key_hash (key_of (mem ex))) (length path)"
  shows "hwf mem path (HNode ((replicate 16 HNull)[n := HLeaf ex]))"
    "binds mem path (HNode ((replicate 16 HNull)[n := HLeaf ex])) k = binds mem path (HLeaf ex) k" "nodes_in (HNode ((replicate 16 HNull)[n := HLeaf ex])) = 1"
proof -
  let ?t = "(HNode ((replicate 16 HNull)[n := HLeaf ex]))"
  have leaf: "hwf mem (path @ [n]) (HLeaf ex)" using wf(1) n by (simp add: on_path_snoc)
  show "hwf mem path ?t" using hwf_upd [OF hwf_empty [OF wf(3)] leaf] .
  show "binds mem path ?t k = binds mem path (HLeaf ex) k"
  proof (cases "on_path (key_hash k) path")
    case True
    have n16: "n < 16" using n by simp
    have "binds mem path ?t k = (if digit (key_hash k) (length path) = n then binds mem (path @ [n]) (HLeaf ex) k else None)"
      unfolding binds_child_upd [OF wf(2,3) length_replicate n16 True] binds_empty [OF wf(2,3)] ..
    also have "\<dots> = (if key_of (mem ex) = k then Some ex else None)"
      unfolding binds_leaf [OF leaf] using n by (cases "key_of (mem ex) = k") simp_all
    finally show ?thesis unfolding binds_leaf [OF wf(1)] .
  qed (simp add: binds_off)
  have "n < 16" using n by simp
  then show "nodes_in ?t = 1" by (subst nodes_upd) (simp_all del: nodes_in.simps(1))
qed


lemma insert_slot_correct:
  assumes "hwf mem path t" "length path = Suc level" "0 < level" "hash = key_hash (key_of (mem ts))" "on_path hash path"
    "ts_hash (mem ts) = hash" "binds mem path t (key_of (mem ts)) = None" "insert_slot mem hash ts level t nm = (ok, t', nm')"
  shows "slot_inserted mem path ts t nm ok t' nm'"
  using assms
proof (induction mem hash ts level t nm arbitrary: path ok t' nm' rule: insert_slot.induct)
  case (1 mem hash ts level t nm)
  have ne: "path \<noteq> []" using "1.prems"(2) by auto
  show ?case
  proof (cases t)
    case HNull
    then show ?thesis
      using "1.prems" by (auto simp: slot_inserted_def insert_slot.simps [of _ _ _ _ HNull] binds_leaf)
  next
    case (HLeaf ex)
    have key: "key_of (mem ex) \<noteq> key_of (mem ts)" using "1.prems"(1,7) HLeaf by (auto simp: binds_leaf)
    show ?thesis
    proof (cases "level > MAX_LEVEL \<or> fst (alloc_hnode nm) = None")
      case True
      then show ?thesis
        using "1.prems" HLeaf key alloc_hnode_cases [of nm "fst (alloc_hnode nm)" "snd (alloc_hnode nm)"]
        by (auto simp: insert_slot.simps [of _ _ _ _ "HLeaf ex"] split: prod.splits option.splits if_splits intro!: slot_inserted_same)
    next
      case False
      then obtain nm1 where al: "alloc_hnode nm = (Some (replicate 16 HNull), nm1)" "node_live nm1 = node_live nm + 1"
        using alloc_hnode_cases [of nm "fst (alloc_hnode nm)" "snd (alloc_hnode nm)"] by (metis prod.collapse)
      have lv: "level \<le> 14" "length path \<le> 15" using False "1.prems"(2) by (simp_all add: MAX_LEVEL_def)
      let ?e = "nibble_at (ts_hash (mem ex)) level" and ?n = "nibble_at hash level"
      let ?cs = "(replicate 16 HNull)[?e := HLeaf ex]"
      have dig: "?e = digit (key_hash (key_of (mem ex))) (length path)" "?n = digit (key_hash (key_of (mem ts))) (length path)"
        using "1.prems"(1,2,4) HLeaf by simp_all
      note pd = pushed_down [OF "1.prems"(1) [unfolded HLeaf] ne lv(2) dig(1)]
      have step: "slot_inserted mem path ts t nm ok (HNode (?cs[?n := c])) nm2"
        if "slot_inserted mem (path @ [?n]) ts (?cs ! ?n) nm1 ok c nm2" for ok c nm2
      proof -
        have "slot_inserted mem path ts (HNode ?cs) nm1 ok (HNode (?cs[?n := c])) nm2"
          using slot_inserted_child [OF that pd(1) ne dig(2)] "1.prems"(4,5) by simp
        note ins = slot_insertedD [OF this]
        have "node_live nm2 - node_live nm = nodes_in (HNode (?cs[?n := c])) - nodes_in t"
          using ins(3) pd(3) al(2) unfolding HLeaf nodes_in.simps(3) by linarith
        then show ?thesis using ins(1) by (intro slot_insertedI) (simp_all only: ins(2) pd(2) HLeaf)
      qed
      have child: "hwf mem (path @ [?n]) (?cs ! ?n)" using pd(1) by simp
      have off: "binds mem (path @ [?n]) (?cs ! ?n) (key_of (mem ts)) = None"
        using binds_node [OF ne lv(2), of "key_of (mem ts)" mem ?cs] pd(2) "1.prems"(4,5,7) HLeaf dig(2) by simp
      show ?thesis
      proof (cases "?e = ?n")
        case False
        have "slot_inserted mem (path @ [?n]) ts (?cs ! ?n) nm1 True (HLeaf ts) nm1"
          using False "1.prems"(4,5,6) dig(2) by (simp add: slot_inserted_def binds_leaf on_path_snoc)
        note fin = step [OF this]
        have "insert_slot mem hash ts level t nm = (True, HNode (?cs[?n := HLeaf ts]), nm1)"
          using False al HLeaf key lv by (simp add: insert_slot.simps [of _ _ _ _ "HLeaf ex"] MAX_LEVEL_def Let_def)
        then show ?thesis using fin "1.prems"(8) by simp
      next
        case True
        obtain ok1 c nm2 where rec: "insert_slot mem hash ts (level + 1) (HLeaf ex) nm1 = (ok1, c, nm2)" by (metis prod_cases3)
        have nth: "?cs ! ?n = HLeaf ex" using True by simp
        have "slot_inserted mem (path @ [?n]) ts (HLeaf ex) nm1 ok1 c nm2"
          using "1.IH"(1) [OF HLeaf _ _ al(1) [symmetric] refl refl refl _, of "path @ [?n]" ok1 c nm2] key True rec HLeaf
            child off "1.prems"(2-6) dig(2) lv(1) unfolding nth by (simp add: on_path_snoc MAX_LEVEL_def)
        then have fin: "slot_inserted mem path ts t nm ok1 (HNode (?cs[?n := c])) nm2" using step [of ok1 c nm2] unfolding nth by blast
        have "insert_slot mem hash ts level t nm = (ok1, HNode (?cs[?n := c]), nm2)"
          using True al HLeaf key lv rec by (simp add: insert_slot.simps [of _ _ _ _ "HLeaf ex"] MAX_LEVEL_def Let_def)
        then show ?thesis using fin "1.prems"(8) by simp
      qed
    qed
  next
    case (HNode cs)
    have lv: "level \<le> 14" "length path \<le> 15" "length cs = 16" using "1.prems"(1,2) HNode by simp_all
    let ?n = "nibble_at hash level"
    have dig: "?n = digit (key_hash (key_of (mem ts))) (length path)" using "1.prems"(2,4) by simp
    obtain ok1 c nm1 where rec: "insert_slot mem hash ts (level + 1) (cs ! ?n) nm = (ok1, c, nm1)" by (metis prod_cases3)
    have "hwf mem (path @ [?n]) (cs ! ?n)" using "1.prems"(1) HNode lv by simp
    moreover have "binds mem (path @ [?n]) (cs ! ?n) (key_of (mem ts)) = None"
      using binds_node [OF ne lv(2), of "key_of (mem ts)" mem cs] "1.prems"(4,5,7) HNode dig by simp
    ultimately have "slot_inserted mem (path @ [?n]) ts (cs ! ?n) nm ok1 c nm1"
      using "1.IH"(2) [OF HNode _ refl, of "path @ [?n]" ok1 c nm1] rec "1.prems"(2-6) dig lv(1)
      by (simp add: on_path_snoc MAX_LEVEL_def)
    then have "slot_inserted mem path ts (HNode cs) nm ok1 (HNode (cs[?n := c])) nm1"
      using slot_inserted_child [OF _ "1.prems"(1) [unfolded HNode] ne dig] "1.prems"(4,5) by simp
    moreover have "insert_slot mem hash ts level t nm = (ok1, HNode (cs[?n := c]), nm1)"
      using HNode lv rec by (simp add: insert_slot.simps [of _ _ _ _ "HNode cs"] MAX_LEVEL_def Let_def)
    ultimately show ?thesis using "1.prems"(8) HNode by simp
  qed
qed


definition slot_removed :: "ts_mem \<Rightarrow> nat list \<Rightarrow> wkey \<Rightarrow> hamt \<Rightarrow> NodeMem \<Rightarrow> nat option \<Rightarrow> hamt \<Rightarrow> NodeMem \<Rightarrow> bool" where
  "slot_removed mem path k t nm r t' nm' \<longleftrightarrow>
     hwf mem path t' \<and> r = binds mem path t k \<and> (\<forall>j. binds mem path t' j = (if j = k then None else binds mem path t j)) \<and>
     node_live nm' - node_live nm = nodes_in t' - nodes_in t"

lemma slot_removedD:
  assumes "slot_removed mem path k t nm r t' nm'"
  shows "hwf mem path t'" "r = binds mem path t k" "binds mem path t' j = (if j = k then None else binds mem path t j)"
    "node_live nm' - node_live nm = nodes_in t' - nodes_in t"
  using assms unfolding slot_removed_def by blast+

lemma slot_removedI:
  assumes "hwf mem path t'" "r = binds mem path t k" "\<And>j. binds mem path t' j = (if j = k then None else binds mem path t j)"
    "node_live nm' - node_live nm = nodes_in t' - nodes_in t"
  shows "slot_removed mem path k t nm r t' nm'"
  using assms unfolding slot_removed_def by blast

lemma slot_removed_none:
  assumes "hwf mem path t" "binds mem path t k = None"
  shows "slot_removed mem path k t nm None t nm"
  using assms by (intro slot_removedI) simp_all

lemma only_child:
  assumes "filter (\<lambda>c. c \<noteq> HNull) cs = [x]"
  obtains i where "i < length cs" "cs ! i = x" "\<And>j. j < length cs \<Longrightarrow> j \<noteq> i \<Longrightarrow> cs ! j = HNull"
proof -
  obtain us vs where cs: "cs = us @ x # vs" "\<forall>u\<in>set us. u = HNull" "\<forall>u\<in>set vs. u = HNull"
    using assms by (auto simp: filter_eq_Cons_iff empty_filter_conv)
  have "cs ! j = HNull" if "j < length cs" "j \<noteq> length us" for j
    using that cs by (cases "j < length us") (auto simp: nth_append nth_Cons' all_set_conv_all_nth)
  then show ?thesis using that [of "length us"] cs(1) by (simp add: nth_append)
qed

lemma binds_all_null:
  assumes "path \<noteq> []" "length path \<le> 15" "length cs = 16" "filter (\<lambda>c. c \<noteq> HNull) cs = []"
  shows "binds mem path (HNode cs) k = None"
proof -
  have "cs ! digit (key_hash k) (length path) = HNull" using assms(3,4) by (simp add: filter_empty_conv)
  then show ?thesis using assms by (cases "on_path (key_hash k) path") (simp_all add: binds_node binds_off)
qed

lemma nodes_null: "filter (\<lambda>c. c \<noteq> HNull) cs = [] \<Longrightarrow> nodes_in (HNode cs) = 1"
  by (induction cs) (auto split: if_splits)

lemma nodes_single: "filter (\<lambda>c. c \<noteq> HNull) cs = [x] \<Longrightarrow> nodes_in (HNode cs) = 1 + nodes_in x"
proof (induction cs)
  case (Cons c cs)
  then show ?case using nodes_null [of cs] by (cases "c = HNull") auto
qed simp

text \<open>Collapsing a node does not change what it binds.\<close>

lemma collapse_correct:
  assumes wf: "hwf mem path (HNode cs)" "path \<noteq> []" and c: "collapse cs nm = (t, nm')"
  shows "hwf mem path t" "binds mem path t k = binds mem path (HNode cs) k" "node_live nm' - node_live nm = nodes_in t - nodes_in (HNode cs)"
proof -
  have len: "length path \<le> 15" "length cs = 16" using wf(1) by simp_all
  consider (null) "filter (\<lambda>c. c \<noteq> HNull) cs = []" | (leaf) p where "filter (\<lambda>c. c \<noteq> HNull) cs = [HLeaf p]"
    | (keep) "t = HNode cs" "nm' = nm"
    using c unfolding collapse_def by (auto split: list.splits hamt.splits)
  then have "hwf mem path t \<and> binds mem path t k = binds mem path (HNode cs) k \<and> node_live nm' - node_live nm = nodes_in t - nodes_in (HNode cs)"
  proof cases
    case null
    then have t: "t = HNull" "nm' = free_hnode nm" using c by (simp_all add: collapse_def)
    show ?thesis unfolding t binds_all_null [OF wf(2) len null] nodes_null [OF null] by (simp add: free_hnode_def)
  next
    case leaf
    then have t: "t = HLeaf p" "nm' = free_hnode nm" using c by (simp_all add: collapse_def)
    obtain i where i: "i < length cs" "cs ! i = HLeaf p" "\<And>j. j < length cs \<Longrightarrow> j \<noteq> i \<Longrightarrow> cs ! j = HNull"
      using only_child [OF leaf] by metis
    have "hwf mem (path @ [i]) (HLeaf p)" using wf(1) i(1,2) by (metis hwf.simps(3))
    then have h: "hwf mem path (HLeaf p)" "i = digit (key_hash (key_of (mem p))) (length path)" by (simp_all add: on_path_snoc)
    have "binds mem path (HNode cs) k = (if key_of (mem p) = k then Some p else None)"
    proof (cases "on_path (key_hash k) path \<and> digit (key_hash k) (length path) = i")
      case True
      then show ?thesis
        using binds_node [OF wf(2) len(1), of k mem cs] i(2) binds_leaf [OF \<open>hwf mem (path @ [i]) (HLeaf p)\<close>, of k] by simp
    next
      case False
      have "key_of (mem p) \<noteq> k" using False h by auto
      moreover have "binds mem path (HNode cs) k = None"
        using False binds_node [OF wf(2) len(1), of k mem cs] i(3) len(2) by (cases "on_path (key_hash k) path") (simp_all add: binds_off)
      ultimately show ?thesis by simp
    qed
    then show ?thesis unfolding t nodes_single [OF leaf] using h(1) binds_leaf [OF h(1), of k] by (simp add: free_hnode_def)
  next
    case keep
    then show ?thesis using wf(1) by simp
  qed
  then show "hwf mem path t" "binds mem path t k = binds mem path (HNode cs) k" "node_live nm' - node_live nm = nodes_in t - nodes_in (HNode cs)"
    by blast+
qed

lemma remove_at_correct:
  assumes "hwf mem path t" "length path = Suc level" "0 < level" "hash = key_hash k" "on_path hash path"
    "hamt_remove_at mem hash k level t nm = (r, t', nm')"
  shows "slot_removed mem path k t nm r t' nm'"
  using assms
proof (induction mem hash k level t nm arbitrary: path r t' nm' rule: hamt_remove_at.induct)
  case (1 mem hash k level t nm)
  have ne: "path \<noteq> []" using "1.prems"(2) by auto
  show ?case
  proof (cases t)
    case HNull
    then show ?thesis
      using "1.prems" by (auto simp: hamt_remove_at.simps [of _ _ _ _ HNull] intro!: slot_removed_none)
  next
    case (HLeaf p)
    show ?thesis
    proof (cases "key_of (mem p) = k")
      case True
      then have "(r, t', nm') = (Some p, HNull, nm)" using "1.prems"(6) HLeaf by (simp add: hamt_remove_at.simps [of _ _ _ _ "HLeaf p"])
      then show ?thesis using True "1.prems"(1) HLeaf by (intro slot_removedI) (simp_all add: binds_leaf)
    next
      case False
      then have "(r, t', nm') = (None, t, nm)" using "1.prems"(6) HLeaf by (simp add: hamt_remove_at.simps [of _ _ _ _ "HLeaf p"])
      then show ?thesis using False "1.prems"(1) HLeaf slot_removed_none [of mem path t k] by (simp add: binds_leaf)
    qed
  next
    case (HNode cs)
    have lv: "level \<le> 14" "length path \<le> 15" "length cs = 16" using "1.prems"(1,2) HNode by simp_all
    let ?n = "nibble_at hash level"
    have dig: "?n = digit (key_hash k) (length path)" using "1.prems"(2,4) by simp
    obtain r1 c nm1 where rec: "hamt_remove_at mem hash k (level + 1) (cs ! ?n) nm = (r1, c, nm1)" by (metis prod_cases3)
    have "hwf mem (path @ [?n]) (cs ! ?n)" using "1.prems"(1) HNode lv by simp
    then have "slot_removed mem (path @ [?n]) k (cs ! ?n) nm r1 c nm1"
      using "1.IH" [OF HNode _ refl, of "path @ [?n]" r1 c nm1] rec "1.prems"(2-5) dig lv(1)
      by (simp add: on_path_snoc MAX_LEVEL_def)
    note rm = slot_removedD [OF this]
    have here: "binds mem path t k = r1" using rm(2) binds_node [OF ne lv(2), of k mem cs] "1.prems"(4,5) HNode dig by simp
    have wf1: "hwf mem path (HNode (cs[?n := c]))" using hwf_upd [OF "1.prems"(1) [unfolded HNode] rm(1)] .
    have b1: "binds mem path (HNode (cs[?n := c])) j = (if j = k then None else binds mem path t j)" for j
    proof (cases "on_path (key_hash j) path")
      case True
      show ?thesis
        using binds_child_upd [OF ne lv(2,3) nibble_less(1) True, of mem hash level c] binds_node [OF ne lv(2) True, of mem cs] rm(3) [of j]
          dig HNode by auto
    next
      case False
      then show ?thesis by (simp add: binds_off)
    qed
    have n1: "node_live nm1 - node_live nm = nodes_in (HNode (cs[?n := c])) - nodes_in t"
      using nodes_upd [of ?n cs c] rm(4) lv(3) unfolding HNode by simp
    show ?thesis
    proof (cases "r1 = None")
      case True
      have "(r, t', nm') = (r1, HNode (cs[?n := c]), nm1)"
        using "1.prems"(6) True HNode lv rec by (simp add: hamt_remove_at.simps [of _ _ _ _ "HNode cs"] MAX_LEVEL_def Let_def)
      then show ?thesis using wf1 b1 n1 here by (intro slot_removedI) simp_all
    next
      case False
      obtain u nm2 where col: "collapse (cs[?n := c]) nm1 = (u, nm2)" by fastforce
      have "(r, t', nm') = (r1, u, nm2)"
        using "1.prems"(6) False HNode lv rec col by (simp add: hamt_remove_at.simps [of _ _ _ _ "HNode cs"] MAX_LEVEL_def Let_def)
      moreover note cc = collapse_correct [OF wf1 ne col]
      have "slot_removed mem path k t nm r1 u nm2"
      proof (rule slot_removedI)
        show "node_live nm2 - node_live nm = nodes_in u - nodes_in t" using cc(3) n1 by linarith
      qed (simp_all only: cc(1) cc(2) b1 here)
      ultimately show ?thesis by simp
    qed
  qed
qed


section \<open>The sixteen buckets\<close>

type_synonym roots = "hamt list list"

definition roots_new :: roots where
  "roots_new = replicate NUM_BUCKETS (replicate HAMT_WIDTH HNull)"

definition wait_lookup :: "ts_mem \<Rightarrow> roots \<Rightarrow> wkey \<Rightarrow> nat option" where
  "wait_lookup mem rs k = hamt_lookup mem (rs ! bucket_index (key_hash k)) (key_hash k) k"

definition wait_insert :: "ts_mem \<Rightarrow> roots \<Rightarrow> u64 \<Rightarrow> nat \<Rightarrow> NodeMem \<Rightarrow> bool \<times> roots \<times> NodeMem" where
  "wait_insert mem rs hash ts nm =
     (case hamt_insert mem (rs ! bucket_index hash) hash ts nm of (ok, root, nm1) \<Rightarrow> (ok, rs[bucket_index hash := root], nm1))"

definition wait_remove :: "ts_mem \<Rightarrow> roots \<Rightarrow> u64 \<Rightarrow> wkey \<Rightarrow> NodeMem \<Rightarrow> nat option \<times> roots \<times> NodeMem" where
  "wait_remove mem rs hash k nm =
     (case hamt_remove mem (rs ! bucket_index hash) hash k nm of (r, root, nm1) \<Rightarrow> (r, rs[bucket_index hash := root], nm1))"

definition roots_ok :: "ts_mem \<Rightarrow> roots \<Rightarrow> bool" where
  "roots_ok mem rs \<longleftrightarrow> length rs = 16 \<and> (\<forall>b<16. length (rs ! b) = 16 \<and> (\<forall>i<16. hwf mem [b, i] (rs ! b ! i)))"

definition nodes_total :: "roots \<Rightarrow> int" where
  "nodes_total rs = (\<Sum>root\<leftarrow>rs. \<Sum>c\<leftarrow>root. nodes_in c)"

definition set_slot :: "roots \<Rightarrow> nat \<Rightarrow> nat \<Rightarrow> hamt \<Rightarrow> roots" where
  "set_slot rs b i c = rs[b := (rs ! b)[i := c]]"

lemma on_path_root: "on_path h [b, i] \<longleftrightarrow> b = bucket_index h \<and> i = nibble_at h 0"
  by (auto simp: on_path_def less_Suc_eq)

lemma wait_lookup_binds: "wait_lookup mem rs k = binds mem [bucket_index (key_hash k), nibble_at (key_hash k) 0]
    (rs ! bucket_index (key_hash k) ! nibble_at (key_hash k) 0) k"
  by (simp add: wait_lookup_def hamt_lookup_def binds_def on_path_root)

lemma roots_ok_slot:
  "roots_ok mem rs \<Longrightarrow> length rs = 16 \<and> length (rs ! bucket_index h) = 16 \<and>
     hwf mem [bucket_index h, nibble_at h 0] (rs ! bucket_index h ! nibble_at h 0)"
  by (simp add: roots_ok_def)

lemma set_slot_ok:
  assumes "roots_ok mem rs" "hwf mem [b, i] c" "b < 16" "i < 16"
  shows "roots_ok mem (set_slot rs b i c)"
  using assms by (simp add: roots_ok_def set_slot_def nth_list_update)

lemma wait_lookup_set_slot:
  assumes "roots_ok mem rs" "b < 16" "i < 16"
  shows "wait_lookup mem (set_slot rs b i c) k = (if on_path (key_hash k) [b, i] then binds mem [b, i] c k else wait_lookup mem rs k)"
  using assms by (auto simp: wait_lookup_binds set_slot_def roots_ok_def nth_list_update on_path_root)

lemma sum_list_upd_diff: "n < length xs \<Longrightarrow> (\<Sum>x\<leftarrow>xs[n := y]. f x) = (\<Sum>x\<leftarrow>xs. f x) + (f y - f (xs ! n) :: int)"
  by (induction xs arbitrary: n) (auto split: nat.splits)

lemma nodes_total_set_slot:
  assumes "roots_ok mem rs" "b < 16" "i < 16"
  shows "nodes_total (set_slot rs b i c) = nodes_total rs + (nodes_in c - nodes_in (rs ! b ! i))"
  using assms by (simp add: roots_ok_def nodes_total_def set_slot_def sum_list_upd_diff)

lemma wait_insert_correct:
  assumes ok: "roots_ok mem rs" and h: "h = key_hash (key_of (mem ts))" "ts_hash (mem ts) = h"
    and none: "wait_lookup mem rs (key_of (mem ts)) = None" and ins: "wait_insert mem rs h ts nm = (r, rs', nm')"
  shows "roots_ok mem rs'" "wait_lookup mem rs' = (if r then (wait_lookup mem rs)(key_of (mem ts) \<mapsto> ts) else wait_lookup mem rs)"
    "node_live nm' - node_live nm = nodes_total rs' - nodes_total rs"
proof -
  let ?b = "bucket_index h" and ?i = "nibble_at h 0"
  obtain c where c: "insert_slot mem h ts 1 (rs ! ?b ! ?i) nm = (r, c, nm')" "rs' = set_slot rs ?b ?i c"
    using ins by (auto simp: wait_insert_def hamt_insert_def Let_def set_slot_def split: prod.splits)
  have "slot_inserted mem [?b, ?i] ts (rs ! ?b ! ?i) nm r c nm'"
    using insert_slot_correct [of mem "[?b, ?i]" "rs ! ?b ! ?i" 1 h ts nm r c nm'] c(1) h none roots_ok_slot [OF ok, of h]
    by (simp add: on_path_root wait_lookup_binds)
  note si = slot_insertedD [OF this]
  show "roots_ok mem rs'" unfolding c(2) using set_slot_ok [OF ok si(1)] by simp
  show "wait_lookup mem rs' = (if r then (wait_lookup mem rs)(key_of (mem ts) \<mapsto> ts) else wait_lookup mem rs)"
  proof
    fix k
    have off: "\<not> on_path (key_hash k) [?b, ?i] \<Longrightarrow> k \<noteq> key_of (mem ts)" using h(1) by (auto simp: on_path_root)
    have "wait_lookup mem rs' k = (if on_path (key_hash k) [?b, ?i] then binds mem [?b, ?i] c k else wait_lookup mem rs k)"
      unfolding c(2) by (rule wait_lookup_set_slot [OF ok]) simp_all
    also have "\<dots> = (if r \<and> k = key_of (mem ts) then Some ts else wait_lookup mem rs k)"
      using off si(2) [of k] by (auto simp: wait_lookup_binds [of mem rs k] on_path_root)
    finally show "wait_lookup mem rs' k = (if r then (wait_lookup mem rs)(key_of (mem ts) \<mapsto> ts) else wait_lookup mem rs) k" by simp
  qed
  show "node_live nm' - node_live nm = nodes_total rs' - nodes_total rs"
    unfolding c(2) using nodes_total_set_slot [OF ok, of ?b ?i c] si(3) by simp
qed

lemma wait_remove_correct:
  assumes ok: "roots_ok mem rs" and h: "h = key_hash k" and rem: "wait_remove mem rs h k nm = (r, rs', nm')"
  shows "roots_ok mem rs'" "r = wait_lookup mem rs k" "wait_lookup mem rs' = (wait_lookup mem rs)(k := None)"
    "node_live nm' - node_live nm = nodes_total rs' - nodes_total rs"
proof -
  let ?b = "bucket_index h" and ?i = "nibble_at h 0"
  obtain c where c: "hamt_remove_at mem h k 1 (rs ! ?b ! ?i) nm = (r, c, nm')" "rs' = set_slot rs ?b ?i c"
    using rem by (auto simp: wait_remove_def hamt_remove_def Let_def set_slot_def split: prod.splits)
  have "slot_removed mem [?b, ?i] k (rs ! ?b ! ?i) nm r c nm'"
    using remove_at_correct [of mem "[?b, ?i]" "rs ! ?b ! ?i" 1 h k nm r c nm'] c(1) h roots_ok_slot [OF ok, of h]
    by (simp add: on_path_root)
  note sr = slot_removedD [OF this]
  show "roots_ok mem rs'" unfolding c(2) using set_slot_ok [OF ok sr(1)] by simp
  show "r = wait_lookup mem rs k" using sr(2) h by (simp add: wait_lookup_binds)
  show "wait_lookup mem rs' = (wait_lookup mem rs)(k := None)"
  proof
    fix j
    have eq: "wait_lookup mem rs' j = (if on_path (key_hash j) [?b, ?i] then binds mem [?b, ?i] c j else wait_lookup mem rs j)"
      unfolding c(2) by (rule wait_lookup_set_slot [OF ok]) simp_all
    show "wait_lookup mem rs' j = ((wait_lookup mem rs)(k := None)) j"
    proof (cases "on_path (key_hash j) [?b, ?i]")
      case True
      then have "wait_lookup mem rs j = binds mem [?b, ?i] (rs ! ?b ! ?i) j" by (simp add: wait_lookup_binds [of mem rs j] on_path_root)
      then show ?thesis using eq True sr(3) [of j] by (simp only: fun_upd_def if_True)
    next
      case False
      then have "j \<noteq> k" using h by (auto simp: on_path_root)
      then show ?thesis using eq False by simp
    qed
  qed
  show "node_live nm' - node_live nm = nodes_total rs' - nodes_total rs"
    unfolding c(2) using nodes_total_set_slot [OF ok, of ?b ?i c] sr(4) by simp
qed


lemma binds_key: "hwf mem path t \<Longrightarrow> path \<noteq> [] \<Longrightarrow> binds mem path t k = Some p \<Longrightarrow> key_of (mem p) = k \<and> ts_hash (mem p) = key_hash k"
proof (induction mem path t rule: hwf.induct)
  case (3 mem path cs)
  have on: "on_path (key_hash k) path" using "3.prems"(3) by (metis binds_off option.distinct(1))
  show ?case
    using "3.IH" [of "digit (key_hash k) (length path)"] "3.prems" binds_node [OF "3.prems"(2) _ on, of mem cs] by simp
qed (auto simp: binds_leaf split: if_splits)

lemma wait_lookup_key:
  assumes "roots_ok mem rs" "wait_lookup mem rs k = Some p"
  shows "key_of (mem p) = k" "ts_hash (mem p) = key_hash k"
  using binds_key [of mem _ _ k p] roots_ok_slot [OF assms(1), of "key_hash k"] assms(2) by (auto simp: wait_lookup_binds)

text \<open>The trie only reads the keys and hashes of the turnstiles it holds.\<close>

definition same_key :: "ts_mem \<Rightarrow> ts_mem \<Rightarrow> nat \<Rightarrow> bool" where
  "same_key mem mem' p \<longleftrightarrow> key_of (mem' p) = key_of (mem p) \<and> ts_hash (mem' p) = ts_hash (mem p)"

lemma hwf_mem_cong:
  "hwf mem path t \<Longrightarrow> path \<noteq> [] \<Longrightarrow> (\<And>k p. binds mem path t k = Some p \<Longrightarrow> same_key mem mem' p) \<Longrightarrow>
   hwf mem' path t \<and> (\<forall>k. binds mem' path t k = binds mem path t k)"
proof (induction mem path t rule: hwf.induct)
  case (2 mem path p)
  have "same_key mem mem' p" using "2.prems"(1,3) binds_leaf [OF "2.prems"(1), of "key_of (mem p)"] by auto
  then have "hwf mem' path (HLeaf p)" "key_of (mem' p) = key_of (mem p)" using "2.prems"(1) by (simp_all add: same_key_def)
  then show ?case using "2.prems"(1) by (simp add: binds_leaf)
next
  case (3 mem path cs)
  have len: "length path \<le> 15" "length cs = 16" using "3.prems"(1) by simp_all
  have ch: "hwf mem' (path @ [i]) (cs ! i) \<and> (\<forall>k. binds mem' (path @ [i]) (cs ! i) k = binds mem (path @ [i]) (cs ! i) k)"
    if i: "i < length cs" for i
  proof (rule "3.IH" [OF i])
    show "hwf mem (path @ [i]) (cs ! i)" using "3.prems"(1) i by simp
    fix k p assume b: "binds mem (path @ [i]) (cs ! i) k = Some p"
    then have on: "on_path (key_hash k) (path @ [i])" by (metis binds_off option.distinct(1))
    then have "binds mem path (HNode cs) k = Some p"
      using b binds_node [OF "3.prems"(2) len(1), of k mem cs] by (simp add: on_path_snoc)
    then show "same_key mem mem' p" by (rule "3.prems"(3))
  qed simp
  have chb: "binds mem' (path @ [i]) (cs ! i) k = binds mem (path @ [i]) (cs ! i) k" if "i < 16" for i k
  proof -
    have "i < length cs" using that len(2) by simp
    then show ?thesis using ch by blast
  qed
  have "binds mem' path (HNode cs) k = binds mem path (HNode cs) k" for k
  proof (cases "on_path (key_hash k) path")
    case True
    show ?thesis unfolding binds_node [OF "3.prems"(2) len(1) True] by (rule chb) simp
  qed (simp add: binds_off)
  then show ?case using ch len by simp
qed simp

lemma wait_lookup_cong:
  assumes "roots_ok mem rs" "\<And>k p. wait_lookup mem rs k = Some p \<Longrightarrow> same_key mem mem' p"
  shows "roots_ok mem' rs" "wait_lookup mem' rs = wait_lookup mem rs"
proof -
  have slot: "hwf mem' [b, i] (rs ! b ! i) \<and> (\<forall>k. binds mem' [b, i] (rs ! b ! i) k = binds mem [b, i] (rs ! b ! i) k)"
    if b: "b < 16" "i < 16" for b i
  proof (rule hwf_mem_cong)
    show "hwf mem [b, i] (rs ! b ! i)" using assms(1) b by (simp add: roots_ok_def)
    fix k p assume s: "binds mem [b, i] (rs ! b ! i) k = Some p"
    then have "on_path (key_hash k) [b, i]" by (metis binds_off option.distinct(1))
    then show "same_key mem mem' p" using assms(2) [of k p] s by (simp add: wait_lookup_binds on_path_root)
  qed simp
  then show "roots_ok mem' rs" using assms(1) by (simp add: roots_ok_def)
  show "wait_lookup mem' rs = wait_lookup mem rs"
  proof
    fix k
    have "binds mem' [bucket_index (key_hash k), nibble_at (key_hash k) 0] (rs ! bucket_index (key_hash k) ! nibble_at (key_hash k) 0) k =
        binds mem [bucket_index (key_hash k), nibble_at (key_hash k) 0] (rs ! bucket_index (key_hash k) ! nibble_at (key_hash k) 0) k"
      using slot [OF nibble_less(2) nibble_less(1)] by blast
    then show "wait_lookup mem' rs k = wait_lookup mem rs k" by (simp only: wait_lookup_binds)
  qed
qed

section \<open>Initialised turnstiles\<close>

definition TS_NIL :: u32 where "TS_NIL = 0"

definition TS_CANARY :: "u8 list" where
  "TS_CANARY = [0xC0, 0xDE, 0xCA, 0xFE, 0xBA, 0xAA, 0xDD, 0xEE, 0xFA, 0xCE, 0xAD, 0x11]"

definition init_ts :: "wkey \<Rightarrow> u64 \<Rightarrow> Turnstile \<Rightarrow> Turnstile" where
  "init_ts k hash t =
     (case k of WKey kt aspace v \<Rightarrow>
        t\<lparr>key_type := kt, aspace_id := aspace, va := v, ts_hash := hash, ts_head := TS_NIL, ts_tail := TS_NIL,
          waiter_count := 0, owner_tid := 0, max_waiter_prio := 255, canary_tail := TS_CANARY\<rparr>)"

lemma init_ts_key [simp]: "key_of (init_ts k h t) = k" "ts_hash (init_ts k h t) = h"
  by (simp_all add: init_ts_def key_of_def split: wkey.splits)

text \<open>Initialising a turnstile that the trie does not hold and inserting it, as every blocking call does.\<close>

type_synonym index = "ts_mem \<times> roots \<times> NodeMem"

definition bind_key :: "wkey \<Rightarrow> nat \<Rightarrow> index \<Rightarrow> bool \<times> index" where
  "bind_key k p s =
     (case s of (mem, rs, nm) \<Rightarrow>
        let mem1 = mem(p := init_ts k (key_hash k) (mem p))
        in (case wait_insert mem1 rs (key_hash k) p nm of (ok, rs1, nm1) \<Rightarrow> (ok, mem1, rs1, nm1)))"

definition unbind_key :: "wkey \<Rightarrow> index \<Rightarrow> nat option \<times> index" where
  "unbind_key k s =
     (case s of (mem, rs, nm) \<Rightarrow> case wait_remove mem rs (key_hash k) k nm of (r, rs1, nm1) \<Rightarrow> (r, mem, rs1, nm1))"

definition index_ok :: "index \<Rightarrow> bool" where
  "index_ok s = (case s of (mem, rs, nm) \<Rightarrow> roots_ok mem rs \<and> node_live nm = nodes_total rs)"

definition index_map :: "index \<Rightarrow> wkey \<Rightarrow> nat option" where
  "index_map s = (case s of (mem, rs, nm) \<Rightarrow> wait_lookup mem rs)"

fun leaves :: "hamt \<Rightarrow> nat list" where
  "leaves HNull = []"
| "leaves (HLeaf p) = [p]"
| "leaves (HNode cs) = concat (map leaves cs)"

definition held :: "roots \<Rightarrow> nat list" where
  "held rs = concat (map (\<lambda>root. concat (map leaves root)) rs)"

definition unused :: "wkey \<Rightarrow> nat \<Rightarrow> index \<Rightarrow> bool" where
  "unused k p s = (case s of (mem, rs, nm) \<Rightarrow> p \<notin> set (held rs))"

lemma binds_leaves: "hwf mem path t \<Longrightarrow> path \<noteq> [] \<Longrightarrow> binds mem path t k = Some p \<Longrightarrow> p \<in> set (leaves t)"
proof (induction mem path t rule: hwf.induct)
  case (3 mem path cs)
  have on: "on_path (key_hash k) path" using "3.prems"(3) by (metis binds_off option.distinct(1))
  have len: "digit (key_hash k) (length path) < length cs" "length path \<le> 15" using "3.prems"(1) by simp_all
  have "p \<in> set (leaves (cs ! digit (key_hash k) (length path)))"
    using "3.IH" [OF len(1)] "3.prems" binds_node [OF "3.prems"(2) len(2) on, of mem cs] len(1) by simp
  then show ?case using len(1) by (auto intro!: bexI [where x = "cs ! digit (key_hash k) (length path)"])
qed (auto simp: binds_leaf split: if_splits)

lemma wait_lookup_held:
  assumes "roots_ok mem rs" "wait_lookup mem rs k = Some p"
  shows "p \<in> set (held rs)"
proof -
  let ?b = "bucket_index (key_hash k)" and ?i = "nibble_at (key_hash k) 0"
  have "p \<in> set (leaves (rs ! ?b ! ?i))"
    using assms(2) roots_ok_slot [OF assms(1), of "key_hash k"] binds_leaves [of mem "[?b, ?i]" "rs ! ?b ! ?i" k p]
    by (simp add: wait_lookup_binds)
  moreover have "rs ! ?b \<in> set rs" "rs ! ?b ! ?i \<in> set (rs ! ?b)" using roots_ok_slot [OF assms(1), of "key_hash k"] by simp_all
  ultimately show ?thesis unfolding held_def by auto
qed

lemma insert_slot_dup:
  "lookup_slot mem hash (key_of (mem ts)) level t \<noteq> None \<Longrightarrow> insert_slot mem hash ts level t nm = (False, t, nm)"
proof (induction mem hash ts level t nm rule: insert_slot.induct)
  case (1 mem hash ts level t nm)
  show ?case
  proof (cases t)
    case HNull
    then show ?thesis using "1.prems" by simp
  next
    case (HLeaf ex)
    then show ?thesis using "1.prems" by (simp add: insert_slot.simps [of _ _ _ _ "HLeaf ex"] split: if_splits)
  next
    case (HNode cs)
    have lv: "level \<le> 14" using "1.prems" HNode by (subst (asm) lookup_slot.simps) (simp add: MAX_LEVEL_def split: if_splits)
    have "insert_slot mem hash ts (level + 1) (cs ! nibble_at hash level) nm = (False, cs ! nibble_at hash level, nm)"
      using "1.IH"(2) [OF HNode _ refl] "1.prems" HNode lv by (simp add: MAX_LEVEL_def)
    then show ?thesis using HNode lv by (simp add: insert_slot.simps [of _ _ _ _ "HNode cs"] MAX_LEVEL_def Let_def)
  qed
qed

lemma wait_insert_dup:
  "wait_lookup mem rs (key_of (mem ts)) \<noteq> None \<Longrightarrow> wait_insert mem rs (key_hash (key_of (mem ts))) ts nm = (False, rs, nm)"
  by (simp add: wait_lookup_def hamt_lookup_def wait_insert_def hamt_insert_def insert_slot_dup Let_def del: not_None_eq)

lemma bind_key_correct:
  assumes "index_ok s" "\<And>j. index_map s j \<noteq> Some p" "bind_key k p s = (ok, s')"
  shows "index_ok s'" "index_map s' = (if ok then (index_map s)(k \<mapsto> p) else index_map s)" "index_map s k \<noteq> None \<Longrightarrow> \<not> ok"
proof -
  obtain mem rs nm where s: "s = (mem, rs, nm)" by (cases s)
  let ?mem = "mem(p := init_ts k (key_hash k) (mem p))"
  obtain rs1 nm1 where w: "wait_insert ?mem rs (key_hash k) p nm = (ok, rs1, nm1)" "s' = (?mem, rs1, nm1)"
    using assms(3) s by (auto simp: bind_key_def Let_def split: prod.splits)
  have ok0: "roots_ok mem rs" "node_live nm = nodes_total rs" using assms(1) s by (simp_all add: index_ok_def)
  have cong: "roots_ok ?mem rs" "wait_lookup ?mem rs = wait_lookup mem rs"
    by (rule wait_lookup_cong [OF ok0(1)], use assms(2) s in \<open>force simp: index_map_def same_key_def\<close>)+
  have "index_ok s' \<and> index_map s' = (if ok then (index_map s)(k \<mapsto> p) else index_map s) \<and> (index_map s k \<noteq> None \<longrightarrow> \<not> ok)"
  proof (cases "wait_lookup mem rs k")
    case None
    have "wait_lookup ?mem rs (key_of (?mem p)) = None" using None cong(2) by simp
    note wi = wait_insert_correct [OF cong(1) _ _ this, of "key_hash k" nm ok rs1 nm1, simplified, OF w(1)]
    show ?thesis using wi None ok0 unfolding s w(2) index_ok_def index_map_def cong(2) by simp
  next
    case (Some q)
    then have "wait_lookup ?mem rs (key_of (?mem p)) \<noteq> None" using cong(2) by simp
    then have "(ok, rs1, nm1) = (False, rs, nm)" using wait_insert_dup [of ?mem rs p nm] w(1) by simp
    then show ?thesis using cong ok0 unfolding s w(2) index_ok_def index_map_def by simp
  qed
  then show "index_ok s'" "index_map s' = (if ok then (index_map s)(k \<mapsto> p) else index_map s)" "index_map s k \<noteq> None \<Longrightarrow> \<not> ok"
    by blast+
qed

lemma unbind_key_correct:
  assumes "index_ok s" "unbind_key k s = (r, s')"
  shows "index_ok s'" "r = index_map s k" "index_map s' = (index_map s)(k := None)"
proof -
  obtain mem rs nm where s: "s = (mem, rs, nm)" by (cases s)
  obtain rs1 nm1 where w: "wait_remove mem rs (key_hash k) k nm = (r, rs1, nm1)" "s' = (mem, rs1, nm1)"
    using assms(2) s by (auto simp: unbind_key_def split: prod.splits)
  have ok: "roots_ok mem rs" "node_live nm = nodes_total rs" using assms(1) s by (simp_all add: index_ok_def)
  note wr = wait_remove_correct [OF ok(1) refl w(1)]
  show "index_ok s'" "r = index_map s k" "index_map s' = (index_map s)(k := None)"
    using wr ok unfolding s w(2) index_ok_def index_map_def by simp_all
qed

interpretation hm: id_map index_ok index_map bind_key unbind_key unused
proof
  fix s k p ok s'
  assume a: "index_ok s" "unused k p s" "bind_key k p s = (ok, s')"
  have "index_map s j \<noteq> Some p" for j
    using a(1,2) wait_lookup_held by (auto simp: index_ok_def index_map_def unused_def split: prod.splits)
  then show "index_ok s' \<and> index_map s' = (if ok then (index_map s)(k \<mapsto> p) else index_map s)"
    using bind_key_correct [OF a(1) _ a(3)] by blast
next
  fix s k r s'
  assume "index_ok s" "unbind_key k s = (r, s')"
  then show "index_ok s' \<and> r = index_map s k \<and> index_map s' = (index_map s)(k := None)"
    using unbind_key_correct by blast
qed


section \<open>An insertion that is not refused\<close>

lemma bit_unat_nibble: "bit (unat (drop_bit k h AND 0xF :: u64)) n \<longleftrightarrow> n < 4 \<and> bit h (k + n)"
proof -
  have m: "(0xF :: u64) = mask 4" by (simp add: mask_eq_exp_minus_1)
  show ?thesis unfolding m by (auto simp: bit_unsigned_iff bit_and_iff bit_mask_iff bit_drop_bit_eq)
qed

lemma bit_nibble: "bit (nibble_at h level) n \<longleftrightarrow> n < 4 \<and> bit h (56 - level * 4 + n)"
  unfolding nibble_at_def by (rule bit_unat_nibble)

lemma bit_bucket: "bit (bucket_index h) n \<longleftrightarrow> n < 4 \<and> bit h (60 + n)"
  unfolding bucket_index_def by (rule bit_unat_nibble)

text \<open>The sixteen digits determine the hash.\<close>

lemma digits_hash:
  assumes "\<And>i. i < 16 \<Longrightarrow> digit h i = digit h' i"
  shows "h = h'"
proof (rule bit_word_eqI)
  fix n assume "n < LENGTH(64)"
  then have n: "n < 64" by simp
  show "bit h n \<longleftrightarrow> bit h' n"
  proof (cases "n < 60")
    case True
    let ?l = "14 - n div 4"
    have l: "?l \<le> 14" "56 - ?l * 4 + n mod 4 = n" using True by (simp_all add: minus_div_mult_eq_mod [symmetric])
    have "nibble_at h ?l = nibble_at h' ?l" using assms [of "Suc ?l"] by simp
    then show ?thesis using bit_nibble [of h ?l "n mod 4"] bit_nibble [of h' ?l "n mod 4"] l(2) by simp
  next
    case False
    then have "60 + (n - 60) = n" "n - 60 < 4" using n by simp_all
    then show ?thesis using bit_bucket [of h "n - 60"] bit_bucket [of h' "n - 60"] assms [of 0] by simp
  qed
qed

definition nodes_free :: "nat \<Rightarrow> NodeMem \<Rightarrow> bool" where
  "nodes_free n nm \<longleftrightarrow> n \<le> length (node_answers nm) \<and> False \<notin> set (node_answers nm)"

lemma nodes_free_alloc: "nodes_free (Suc n) nm \<Longrightarrow> \<exists>nm'. alloc_hnode nm = (Some (replicate 16 HNull), nm') \<and> nodes_free n nm'"
  by (cases "node_answers nm") (auto simp: nodes_free_def alloc_hnode_def HAMT_WIDTH_def)

lemma insert_slot_succeeds:
  assumes "hwf mem path t" "length path = Suc level" "0 < level" "hash = key_hash (key_of (mem ts))" "on_path hash path"
    "\<And>k p. binds mem path t k = Some p \<Longrightarrow> key_hash k \<noteq> hash" "nodes_free (15 - level) nm" "level \<le> 15"
  shows "fst (insert_slot mem hash ts level t nm)"
  using assms
proof (induction mem hash ts level t nm arbitrary: path rule: insert_slot.induct)
  case (1 mem hash ts level t nm)
  have ne: "path \<noteq> []" using "1.prems"(2) by auto
  show ?case
  proof (cases t)
    case HNull
    then show ?thesis by (simp add: insert_slot.simps [of _ _ _ _ HNull])
  next
    case (HLeaf ex)
    have wf: "hwf mem path (HLeaf ex)" using "1.prems"(1) HLeaf by simp
    have hne: "key_hash (key_of (mem ex)) \<noteq> hash"
      using "1.prems"(6) [of "key_of (mem ex)" ex] HLeaf by (simp add: binds_leaf [OF wf])
    have lv: "level \<le> 14"
    proof (rule ccontr)
      assume "\<not> level \<le> 14"
      then have "length path = 16" using "1.prems"(2,8) by simp
      then have "key_hash (key_of (mem ex)) = hash"
        using digits_hash [of "key_hash (key_of (mem ex))" hash] wf "1.prems"(5) by (auto simp: on_path_def)
      then show False using hne by simp
    qed
    have len15: "length path \<le> 15" using lv "1.prems"(2) by simp
    have "Suc (15 - Suc level) = 15 - level" using lv by simp
    then have "nodes_free (Suc (15 - Suc level)) nm" using "1.prems"(7) by simp
    then obtain nm1 where al: "alloc_hnode nm = (Some (replicate 16 HNull), nm1)" "nodes_free (15 - Suc level) nm1"
      using nodes_free_alloc by blast
    have key: "key_of (mem ex) \<noteq> key_of (mem ts)" using hne "1.prems"(4) by auto
    let ?e = "nibble_at (ts_hash (mem ex)) level" and ?n = "nibble_at hash level"
    show ?thesis
    proof (cases "?e = ?n")
      case False
      then show ?thesis using HLeaf al key lv by (simp add: insert_slot.simps [of _ _ _ _ "HLeaf ex"] MAX_LEVEL_def Let_def)
    next
      case True
      have path: "on_path hash (path @ [?n])" "hwf mem (path @ [?n]) (HLeaf ex)"
        using "1.prems"(2,5) wf True by (simp_all add: on_path_snoc)
      have b: "binds mem (path @ [?n]) (HLeaf ex) k = Some p \<Longrightarrow> key_hash k \<noteq> hash" for k p
        using hne by (auto simp: binds_leaf [OF path(2)] split: if_splits)
      have "fst (insert_slot mem hash ts (level + 1) t nm1)"
        by (rule "1.IH"(1) [OF HLeaf _ _ al(1) [symmetric] refl refl refl, of "path @ [?n]"])
          (use key lv True path HLeaf b al(2) "1.prems"(2,3,4) in \<open>simp_all add: MAX_LEVEL_def\<close>)
      then have "fst (insert_slot mem hash ts (level + 1) (HLeaf ex) nm1)" using HLeaf by simp
      then show ?thesis
        using True HLeaf al key lv
        by (cases "insert_slot mem hash ts (level + 1) (HLeaf ex) nm1") (simp add: insert_slot.simps [of _ _ _ _ "HLeaf ex"] MAX_LEVEL_def Let_def)
    qed
  next
    case (HNode cs)
    have lv: "level \<le> 14" "length path \<le> 15" "length cs = 16" using "1.prems"(1,2) HNode by simp_all
    let ?n = "nibble_at hash level"
    have path: "on_path hash (path @ [?n])" "hwf mem (path @ [?n]) (cs ! ?n)"
      using "1.prems"(1,2,5) HNode lv by (simp_all add: on_path_snoc)
    have "key_hash k \<noteq> hash" if b: "binds mem (path @ [?n]) (cs ! ?n) k = Some p" for k p
    proof -
      have "on_path (key_hash k) (path @ [?n])" using b by (metis binds_off option.distinct(1))
      then have "binds mem path t k = Some p" using b binds_node [OF ne lv(2), of k mem cs] HNode by (simp add: on_path_snoc)
      then show ?thesis by (rule "1.prems"(6))
    qed
    moreover have "nodes_free (15 - Suc level) nm" using "1.prems"(7) by (auto simp: nodes_free_def)
    ultimately have "fst (insert_slot mem hash ts (level + 1) (cs ! ?n) nm)"
      by (intro "1.IH"(2) [OF HNode _ refl, of "path @ [?n]"]) (use path lv "1.prems"(2,3,4) in \<open>simp_all add: MAX_LEVEL_def\<close>)
    then show ?thesis
      using HNode lv by (cases "insert_slot mem hash ts (level + 1) (cs ! ?n) nm") (simp add: insert_slot.simps [of _ _ _ _ "HNode cs"] MAX_LEVEL_def Let_def)
  qed
qed


lemma bind_key_succeeds:
  assumes "index_ok s" "\<And>j. index_map s j \<noteq> Some p" "\<And>j q. index_map s j = Some q \<Longrightarrow> key_hash j \<noteq> key_hash k"
    "nodes_free 14 (snd (snd s))"
  shows "fst (bind_key k p s)"
proof -
  obtain mem rs nm where s: "s = (mem, rs, nm)" by (cases s)
  let ?mem = "mem(p := init_ts k (key_hash k) (mem p))"
  let ?h = "key_hash k"
  let ?b = "bucket_index ?h" and ?i = "nibble_at ?h 0"
  have ok0: "roots_ok mem rs" using assms(1) s by (simp add: index_ok_def)
  have cong: "roots_ok ?mem rs" "wait_lookup ?mem rs = wait_lookup mem rs"
    by (rule wait_lookup_cong [OF ok0], use assms(2) s in \<open>force simp: index_map_def same_key_def\<close>)+
  have "key_hash j \<noteq> ?h" if b: "binds ?mem [?b, ?i] (rs ! ?b ! ?i) j = Some q" for j q
  proof
    assume e: "key_hash j = ?h"
    then have "wait_lookup ?mem rs j = Some q" using b by (simp add: wait_lookup_binds)
    then show False using assms(3) [of j q] e s cong(2) by (simp add: index_map_def)
  qed
  then have "fst (insert_slot ?mem ?h p 1 (rs ! ?b ! ?i) nm)"
    using insert_slot_succeeds [of ?mem "[?b, ?i]" "rs ! ?b ! ?i" 1 ?h p nm] roots_ok_slot [OF cong(1), of ?h] assms(4) s
    by (simp add: on_path_root)
  then show ?thesis
    using s by (cases "insert_slot ?mem ?h p 1 (rs ! ?b ! ?i) nm") (simp add: bind_key_def wait_insert_def hamt_insert_def Let_def)
qed

section \<open>Histories of the trie\<close>

fun hamt_run :: "(wkey, nat) map_op list \<Rightarrow> index \<Rightarrow> nat map_ans list \<times> index" where
  "hamt_run [] s = ([], s)"
| "hamt_run (InsOp k p # ops) s = (case bind_key k p s of (ok, s1) \<Rightarrow> case hamt_run ops s1 of (as, s2) \<Rightarrow> (InsAns ok # as, s2))"
| "hamt_run (DelOp k # ops) s = (case unbind_key k s of (r, s1) \<Rightarrow> case hamt_run ops s1 of (as, s2) \<Rightarrow> (DelAns r # as, s2))"

text \<open>No turnstile is inserted while the trie holds it.\<close>

fun lent_once :: "(wkey, nat) map_op list \<Rightarrow> index \<Rightarrow> bool" where
  "lent_once [] s = True"
| "lent_once (InsOp k p # ops) s = (unused k p s \<and> lent_once ops (snd (bind_key k p s)))"
| "lent_once (DelOp k # ops) s = lent_once ops (snd (unbind_key k s))"

lemma hm_run: "hm.run ops s = hamt_run ops s"
  by (induction ops s rule: hamt_run.induct) (auto split: prod.splits)

lemma hm_roomy: "hm.roomy ops s = lent_once ops s"
  by (induction ops s rule: lent_once.induct) auto

definition index_new :: "ts_mem \<Rightarrow> bool list \<Rightarrow> index" where
  "index_new mem os = (mem, roots_new, \<lparr>node_answers = os, node_live = 0\<rparr>)"

lemma index_new_ok: "index_ok (index_new mem os)" "index_map (index_new mem os) = Map.empty"
  by (simp_all add: index_ok_def index_map_def index_new_def roots_ok_def roots_new_def NUM_BUCKETS_def HAMT_WIDTH_def
      nodes_total_def sum_list_replicate fun_eq_iff wait_lookup_def hamt_lookup_def)

text \<open>C23 The trie of the waiters is a map. After any history of insertions and removals, with any outcomes of
  the node allocations, the answers are those of a partial map from keys to turnstiles, the nodes allocated
  and not freed are exactly the nodes of the trie, and a further insertion of an unbound key is refused only if
  a bound key has the same 64-bit hash or a node cannot be allocated. The hypothesis asks that a turnstile is
  not inserted while the trie holds it.\<close>

theorem hamt_history_refines:
  assumes "lent_once ops (index_new mem os)" "hamt_run ops (index_new mem os) = (as, s)"
  shows "spec_run ops as Map.empty = Some (index_map s) \<and> node_live (snd (snd s)) = nodes_total (fst (snd s)) \<and>
    (\<forall>k p. (\<forall>j q. index_map s j = Some q \<longrightarrow> q \<noteq> p \<and> key_hash j \<noteq> key_hash k) \<longrightarrow> nodes_free 14 (snd (snd s)) \<longrightarrow>
       fst (bind_key k p s))"
proof -
  have r: "index_ok s" "spec_run ops as Map.empty = Some (index_map s)"
    using hm.run_refines [of "index_new mem os" ops as s, unfolded hm_run hm_roomy] assms index_new_ok by auto
  then have "node_live (snd (snd s)) = nodes_total (fst (snd s))" by (auto simp: index_ok_def split: prod.splits)
  moreover have "fst (bind_key k p s)"
    if h: "\<forall>j q. index_map s j = Some q \<longrightarrow> q \<noteq> p \<and> key_hash j \<noteq> key_hash k" "nodes_free 14 (snd (snd s))" for k p
    by (rule bind_key_succeeds [OF r(1)]) (use h in auto)
  ultimately show ?thesis using r(2) by blast
qed

definition blank_ts :: Turnstile where
  "blank_ts = \<lparr>aspace_id = 0, key_type = 0, va = 0, ts_hash = 0, ts_head = 0, ts_tail = 0, waiter_count = 0, owner_tid = 0,
     max_waiter_prio = 0, canary_tail = replicate 12 0\<rparr>"

theorem hamt_history_refines_witness:
  "\<exists>as s. hamt_run [InsOp (WKey 1 0 7) 64, InsOp (WKey 2 0 7) 128, DelOp (WKey 1 0 7)] (index_new (\<lambda>_. blank_ts) []) = (as, s) \<and>
     spec_run [InsOp (WKey 1 0 7) 64, InsOp (WKey 2 0 7) 128, DelOp (WKey 1 0 7)] as Map.empty = Some (index_map s)"
proof -
  have "lent_once [InsOp (WKey 1 0 7) 64, InsOp (WKey 2 0 7) 128, DelOp (WKey 1 0 7)] (index_new (\<lambda>_. blank_ts) [])" by code_simp
  then show ?thesis
    using hamt_history_refines [of "[InsOp (WKey 1 0 7) 64, InsOp (WKey 2 0 7) 128, DelOp (WKey 1 0 7)]" "\<lambda>_. blank_ts" "[]"]
    by (metis surj_pair)
qed

end
