(* ===== verification/WaitQueue.thy ===== *)
theory WaitQueue
  imports Hamt
begin

text \<open>
  The wait queues of \<open>sync/turnstile.rs\<close>: the state of the subsystem, and the doubly linked list of waiting
  threads that runs through the threads' \<open>ts_next\<close> and \<open>ts_prev\<close> links from the head and tail of a turnstile.
  The links are the code's: each operation is a sequence of stores into the thread table and the turnstile.
  \<open>queued s p xs\<close> says that the list at turnstile \<open>p\<close> is \<open>xs\<close>.

  The calls into the scheduler are recorded as events in the order in which they are made; user memory is a
  partial map; slab answers for turnstiles are a list of addresses or failures.
\<close>

section \<open>State\<close>

record Thread =
  ts_next :: u32
  ts_prev :: u32
  ts_blocked_on :: nat
  turnstile :: nat
  prio :: u8

record TsTraceSlot =
  tr_seq :: u32
  tr_op_tid :: u64
  tr_ts_ptr :: u64
  tr_head_tail :: u64
  tr_wc :: u32

datatype sched_event = ClearWakeup u32 | WakeThread u32 | BoostPriority u32 u8 | ResetPriority u32

record TsSys =
  thr :: "u32 \<Rightarrow> Thread"
  mem :: ts_mem
  alive :: "nat \<Rightarrow> bool"
  wait_roots :: roots
  node_mem :: NodeMem
  ts_answers :: "nat option list"
  inv_fails :: u64
  double_enq :: u64
  deq_hamt_miss :: u64
  deq_ts_empty_ok :: u64
  deq_ts_empty_bug :: u64
  ts_trace :: "TsTraceSlot list"
  ts_trace_head :: u32
  cpu_id :: u64
  events :: "sched_event list"
  umem :: "u64 \<Rightarrow> u64 \<Rightarrow> u32 option"

definition upd_thr :: "u32 \<Rightarrow> (Thread \<Rightarrow> Thread) \<Rightarrow> TsSys \<Rightarrow> TsSys" where
  "upd_thr tid f s = s\<lparr>thr := (thr s)(tid := f (thr s tid))\<rparr>"

definition upd_ts :: "nat \<Rightarrow> (Turnstile \<Rightarrow> Turnstile) \<Rightarrow> TsSys \<Rightarrow> TsSys" where
  "upd_ts p f s = s\<lparr>mem := (mem s)(p := f (mem s p))\<rparr>"

definition emit :: "sched_event \<Rightarrow> TsSys \<Rightarrow> TsSys" where
  "emit e s = s\<lparr>events := events s @ [e]\<rparr>"

section \<open>Diagnostics\<close>

definition TS_TRACE_LEN :: nat where "TS_TRACE_LEN = 256"

definition record_ts_mut :: "u8 \<Rightarrow> u32 \<Rightarrow> nat \<Rightarrow> TsSys \<Rightarrow> TsSys" where
  "record_ts_mut opn tid p s =
     (let ts = mem s p; seq = ts_trace_head s; idx = unat seq mod TS_TRACE_LEN
      in s\<lparr>ts_trace_head := seq + 1,
           ts_trace := (ts_trace s)[idx :=
             \<lparr>tr_seq = seq + 1, tr_op_tid = push_bit 32 (ucast tid) OR push_bit 8 (cpu_id s) OR ucast opn, tr_ts_ptr = of_nat p,
              tr_head_tail = push_bit 32 (ucast (ts_tail ts)) OR ucast (ts_head ts), tr_wc = ucast (waiter_count ts)\<rparr>]\<rparr>)"

fun walk :: "(u32 \<Rightarrow> Thread) \<Rightarrow> u32 \<Rightarrow> nat \<Rightarrow> nat" where
  "walk th cur 0 = 0"
| "walk th cur (Suc n) = (if cur \<noteq> TS_NIL then Suc (walk th (ts_next (th cur)) n) else 0)"

definition MAX_WALK :: nat where "MAX_WALK = 64"

definition check_invariant :: "nat \<Rightarrow> TsSys \<Rightarrow> TsSys" where
  "check_invariant p s =
     (let ts = mem s p
      in if canary_tail ts \<noteq> TS_CANARY then s\<lparr>inv_fails := inv_fails s + 1\<rparr>
         else let walked = walk (thr s) (ts_head ts) MAX_WALK; wc = unat (waiter_count ts)
              in if walked \<noteq> wc \<or> (wc = 0) \<noteq> (ts_head ts = TS_NIL) then s\<lparr>inv_fails := inv_fails s + 1\<rparr> else s)"

section \<open>Operations\<close>

definition ts_enqueue :: "nat \<Rightarrow> u32 \<Rightarrow> TsSys \<Rightarrow> TsSys" where
  "ts_enqueue p tid s =
     (let s0 = check_invariant p s
      in if ts_blocked_on (thr s0 tid) \<noteq> 0 then s0\<lparr>double_enq := double_enq s0 + 1\<rparr>
         else let s1 = upd_thr tid (\<lambda>t. t\<lparr>ts_next := TS_NIL\<rparr>) s0;
                  s2 = upd_thr tid (\<lambda>t. t\<lparr>ts_prev := ts_tail (mem s1 p)\<rparr>) s1;
                  s3 = (if ts_tail (mem s2 p) \<noteq> TS_NIL then upd_thr (ts_tail (mem s2 p)) (\<lambda>t. t\<lparr>ts_next := tid\<rparr>) s2
                        else upd_ts p (\<lambda>q. q\<lparr>ts_head := tid\<rparr>) s2);
                  s4 = upd_ts p (\<lambda>q. q\<lparr>ts_tail := tid, waiter_count := waiter_count q + 1\<rparr>) s3
              in record_ts_mut 1 tid p s4)"

definition ts_dequeue_head :: "nat \<Rightarrow> TsSys \<Rightarrow> u32 option \<times> TsSys" where
  "ts_dequeue_head p s =
     (let s0 = check_invariant p s; hd = ts_head (mem s0 p)
      in if hd = TS_NIL then (None, s0)
         else let nxt = ts_next (thr s0 hd);
                  s1 = upd_thr hd (\<lambda>t. t\<lparr>ts_next := TS_NIL, ts_prev := TS_NIL\<rparr>) s0;
                  s2 = upd_ts p (\<lambda>q. q\<lparr>ts_head := nxt\<rparr>) s1;
                  s3 = (if nxt \<noteq> TS_NIL then upd_thr nxt (\<lambda>t. t\<lparr>ts_prev := TS_NIL\<rparr>) s2
                        else upd_ts p (\<lambda>q. q\<lparr>ts_tail := TS_NIL\<rparr>) s2);
                  s4 = upd_ts p (\<lambda>q. q\<lparr>waiter_count := waiter_count q - 1\<rparr>) s3
              in (Some hd, record_ts_mut 2 hd p s4))"

text \<open>Unlinking the thread that the loop of \<open>ts_remove\<close> has found.\<close>

definition unlink :: "nat \<Rightarrow> u32 \<Rightarrow> TsSys \<Rightarrow> TsSys" where
  "unlink p tid s =
     (let prv = ts_prev (thr s tid); nxt = ts_next (thr s tid);
          s1 = (if prv \<noteq> TS_NIL then upd_thr prv (\<lambda>t. t\<lparr>ts_next := nxt\<rparr>) s else upd_ts p (\<lambda>q. q\<lparr>ts_head := nxt\<rparr>) s);
          s2 = (if nxt \<noteq> TS_NIL then upd_thr nxt (\<lambda>t. t\<lparr>ts_prev := prv\<rparr>) s1 else upd_ts p (\<lambda>q. q\<lparr>ts_tail := prv\<rparr>) s1);
          s3 = upd_thr tid (\<lambda>t. t\<lparr>ts_next := TS_NIL, ts_prev := TS_NIL\<rparr>) s2;
          s4 = upd_ts p (\<lambda>q. q\<lparr>waiter_count := waiter_count q - 1\<rparr>) s3
      in record_ts_mut 3 tid p s4)"

partial_function (option) ts_remove_loop :: "nat \<Rightarrow> u32 \<Rightarrow> u32 \<Rightarrow> TsSys \<Rightarrow> (bool \<times> TsSys) option" where
  "ts_remove_loop p tid cur s =
     (if cur \<noteq> TS_NIL then (if cur = tid then Some (True, unlink p tid s) else ts_remove_loop p tid (ts_next (thr s cur)) s)
      else Some (False, s))"

definition ts_remove :: "nat \<Rightarrow> u32 \<Rightarrow> TsSys \<Rightarrow> (bool \<times> TsSys) option" where
  "ts_remove p tid s = (let s0 = check_invariant p s in ts_remove_loop p tid (ts_head (mem s0 p)) s0)"

text \<open>The place for a thread of priority \<open>my_prio\<close>: the last waiter that is at least as urgent, and its successor.\<close>

partial_function (option) prio_loop :: "(u32 \<Rightarrow> Thread) \<Rightarrow> u8 \<Rightarrow> u32 \<Rightarrow> u32 \<Rightarrow> (u32 \<times> u32) option" where
  "prio_loop th my_prio cur prev_tid =
     (if cur \<noteq> TS_NIL then
        (if prio (th cur) > my_prio then Some (cur, prev_tid) else prio_loop th my_prio (ts_next (th cur)) cur)
      else Some (cur, prev_tid))"

definition link_between :: "nat \<Rightarrow> u32 \<Rightarrow> u32 \<Rightarrow> u32 \<Rightarrow> TsSys \<Rightarrow> TsSys" where
  "link_between p tid cur prev_tid s =
     (let s1 = upd_thr tid (\<lambda>t. t\<lparr>ts_prev := prev_tid, ts_next := cur\<rparr>) s;
          s2 = (if prev_tid \<noteq> TS_NIL then upd_thr prev_tid (\<lambda>t. t\<lparr>ts_next := tid\<rparr>) s1 else upd_ts p (\<lambda>q. q\<lparr>ts_head := tid\<rparr>) s1);
          s3 = (if cur \<noteq> TS_NIL then upd_thr cur (\<lambda>t. t\<lparr>ts_prev := tid\<rparr>) s2 else upd_ts p (\<lambda>q. q\<lparr>ts_tail := tid\<rparr>) s2);
          s4 = upd_ts p (\<lambda>q. q\<lparr>waiter_count := waiter_count q + 1\<rparr>) s3
      in record_ts_mut 4 tid p s4)"

definition ts_enqueue_prio :: "nat \<Rightarrow> u32 \<Rightarrow> TsSys \<Rightarrow> TsSys option" where
  "ts_enqueue_prio p tid s =
     (let s0 = check_invariant p s
      in map_option (\<lambda>(cur, prev_tid). link_between p tid cur prev_tid s0)
           (prio_loop (thr s0) (prio (thr s0 tid)) (ts_head (mem s0 p)) TS_NIL))"

section \<open>Linked lists\<close>

text \<open>The segment from \<open>h\<close> through the threads \<open>xs\<close> to \<open>n\<close>, after \<open>b\<close> and with last thread \<open>t\<close>.\<close>

primrec dls :: "(u32 \<Rightarrow> Thread) \<Rightarrow> u32 \<Rightarrow> u32 \<Rightarrow> u32 list \<Rightarrow> u32 \<Rightarrow> u32 \<Rightarrow> bool" where
  "dls th b h [] n t \<longleftrightarrow> h = n \<and> t = b"
| "dls th b h (x # xs) n t \<longleftrightarrow> h = x \<and> x \<noteq> TS_NIL \<and> ts_prev (th x) = b \<and> dls th x (ts_next (th x)) xs n t"

definition same_links :: "(u32 \<Rightarrow> Thread) \<Rightarrow> (u32 \<Rightarrow> Thread) \<Rightarrow> u32 \<Rightarrow> bool" where
  "same_links th th' x \<longleftrightarrow> ts_next (th' x) = ts_next (th x) \<and> ts_prev (th' x) = ts_prev (th x)"

lemma dls_cong: "(\<And>x. x \<in> set xs \<Longrightarrow> same_links th th' x) \<Longrightarrow> dls th' b h xs n t = dls th b h xs n t"
  by (induction xs arbitrary: b h) (auto simp: same_links_def)

lemma dls_append: "dls th b h (xs @ ys) n t \<longleftrightarrow> (\<exists>m l. dls th b h xs m l \<and> dls th l m ys n t)"
  by (induction xs arbitrary: b h) auto

lemma dls_last: "dls th b h xs n t \<Longrightarrow> t = (if xs = [] then b else last xs)"
  by (induction xs arbitrary: b h) auto

lemma dls_head: "dls th b h xs n t \<Longrightarrow> h = (if xs = [] then n else hd xs)"
  by (cases xs) auto

lemma dls_nonzero: "dls th b h xs n t \<Longrightarrow> x \<in> set xs \<Longrightarrow> x \<noteq> TS_NIL"
  by (induction xs arbitrary: b h) auto

lemma dls_set_next:
  assumes "dls th b h xs n t" "xs \<noteq> []" "distinct xs" "ts_next (th' t) = n'" "ts_prev (th' t) = ts_prev (th t)"
    "\<And>x. x \<noteq> t \<Longrightarrow> x \<in> set xs \<Longrightarrow> same_links th th' x"
  shows "dls th' b h xs n' t"
  using assms
proof (induction xs arbitrary: b h)
  case (Cons x xs)
  show ?case
  proof (cases "xs = []")
    case True
    then show ?thesis using Cons.prems by auto
  next
    case False
    have "t = last xs" using dls_last [of th x "ts_next (th x)" xs n t] Cons.prems(1) False by simp
    then have "t \<in> set xs" using False by simp
    then have "x \<noteq> t" using Cons.prems(3) by auto
    then show ?thesis using Cons.IH [of x "ts_next (th x)"] Cons.prems False by (auto simp: same_links_def)
  qed
qed simp

lemma dls_set_prev:
  assumes "dls th b h xs n t" "xs \<noteq> []" "distinct xs" "ts_prev (th' h) = b'" "ts_next (th' h) = ts_next (th h)"
    "\<And>x. x \<noteq> h \<Longrightarrow> x \<in> set xs \<Longrightarrow> same_links th th' x"
  shows "dls th' b' h xs n t"
proof (cases xs)
  case (Cons x ys)
  have "dls th' x (ts_next (th x)) ys n t = dls th x (ts_next (th x)) ys n t"
    by (rule dls_cong, rule assms(6)) (use assms(1,3) Cons in auto)
  then show ?thesis using assms(1,4,5) Cons by simp
qed (use assms(2) in simp)

definition queued :: "TsSys \<Rightarrow> nat \<Rightarrow> u32 list \<Rightarrow> bool" where
  "queued s p xs \<longleftrightarrow> dls (thr s) TS_NIL (ts_head (mem s p)) xs TS_NIL (ts_tail (mem s p)) \<and> distinct xs \<and>
     unat (waiter_count (mem s p)) = length xs \<and> canary_tail (mem s p) = TS_CANARY"


section \<open>What the operations leave alone\<close>

lemma check_invariant_frame [simp]:
  "thr (check_invariant p s) = thr s" "mem (check_invariant p s) = mem s" "alive (check_invariant p s) = alive s"
  "wait_roots (check_invariant p s) = wait_roots s" "node_mem (check_invariant p s) = node_mem s"
  "ts_answers (check_invariant p s) = ts_answers s" "events (check_invariant p s) = events s" "umem (check_invariant p s) = umem s"
  "deq_hamt_miss (check_invariant p s) = deq_hamt_miss s" "deq_ts_empty_ok (check_invariant p s) = deq_ts_empty_ok s"
  "deq_ts_empty_bug (check_invariant p s) = deq_ts_empty_bug s" "double_enq (check_invariant p s) = double_enq s"
  by (simp_all add: check_invariant_def Let_def)

lemma record_frame [simp]:
  "thr (record_ts_mut k t p s) = thr s" "mem (record_ts_mut k t p s) = mem s" "alive (record_ts_mut k t p s) = alive s"
  "wait_roots (record_ts_mut k t p s) = wait_roots s" "node_mem (record_ts_mut k t p s) = node_mem s"
  "ts_answers (record_ts_mut k t p s) = ts_answers s" "events (record_ts_mut k t p s) = events s" "umem (record_ts_mut k t p s) = umem s"
  "deq_hamt_miss (record_ts_mut k t p s) = deq_hamt_miss s" "deq_ts_empty_ok (record_ts_mut k t p s) = deq_ts_empty_ok s"
  "deq_ts_empty_bug (record_ts_mut k t p s) = deq_ts_empty_bug s" "inv_fails (record_ts_mut k t p s) = inv_fails s"
  "double_enq (record_ts_mut k t p s) = double_enq s"
  by (simp_all add: record_ts_mut_def Let_def)

text \<open>A queue operation at \<open>p\<close> changes links, the queue fields of the turnstile at \<open>p\<close> and the diagnostics.\<close>

definition wq_frame :: "nat \<Rightarrow> TsSys \<Rightarrow> TsSys \<Rightarrow> bool" where
  "wq_frame p s s' \<longleftrightarrow>
     (\<forall>t. ts_blocked_on (thr s' t) = ts_blocked_on (thr s t) \<and> turnstile (thr s' t) = turnstile (thr s t) \<and> prio (thr s' t) = prio (thr s t)) \<and>
     (\<forall>q. q \<noteq> p \<longrightarrow> mem s' q = mem s q) \<and> key_of (mem s' p) = key_of (mem s p) \<and> ts_hash (mem s' p) = ts_hash (mem s p) \<and>
     owner_tid (mem s' p) = owner_tid (mem s p) \<and> max_waiter_prio (mem s' p) = max_waiter_prio (mem s p) \<and>
     alive s' = alive s \<and> wait_roots s' = wait_roots s \<and> node_mem s' = node_mem s \<and> ts_answers s' = ts_answers s \<and>
     events s' = events s \<and> umem s' = umem s"

lemmas link_defs = upd_thr_def upd_ts_def Let_def

lemma enqueue_frame: "wq_frame p s (ts_enqueue p tid s)"
  by (auto simp: wq_frame_def ts_enqueue_def link_defs key_of_def)

lemma dequeue_frame: "ts_dequeue_head p s = (r, s') \<Longrightarrow> wq_frame p s s'"
  by (auto simp: wq_frame_def ts_dequeue_head_def link_defs key_of_def split: if_splits)

lemma unlink_frame: "wq_frame p s (unlink p tid s)"
  by (auto simp: wq_frame_def unlink_def link_defs key_of_def)

lemma link_between_frame: "wq_frame p s (link_between p tid cur prv s)"
  by (auto simp: wq_frame_def link_between_def link_defs key_of_def)

lemma wq_frame_check: "wq_frame p (check_invariant q s) s' = wq_frame p s s'"
  by (simp add: wq_frame_def)

lemma wq_frame_refl: "wq_frame p s (check_invariant q s)" "wq_frame p s s"
  by (simp_all add: wq_frame_def)

section \<open>Linked lists as lists\<close>

lemma walk_queued: "dls th b h xs TS_NIL t \<Longrightarrow> walk th h n = min n (length xs)"
proof (induction xs arbitrary: b h n)
  case (Cons x xs)
  then show ?case by (cases n) auto
next
  case Nil
  then show ?case by (cases n) auto
qed

text \<open>The consistency check of a well-formed queue raises an alarm exactly when there are more than 64 waiters.\<close>

lemma check_invariant_queued:
  assumes "queued s p xs"
  shows "inv_fails (check_invariant p s) = (if length xs \<le> MAX_WALK then inv_fails s else inv_fails s + 1)"
proof -
  have "walk (thr s) (ts_head (mem s p)) MAX_WALK = min MAX_WALK (length xs)"
    using assms walk_queued by (auto simp: queued_def)
  moreover have "ts_head (mem s p) = TS_NIL \<longleftrightarrow> xs = []"
    using assms dls_nonzero [of _ _ _ xs] by (cases xs) (auto simp: queued_def)
  ultimately show ?thesis using assms by (auto simp: check_invariant_def queued_def Let_def min_def)
qed

lemma same_links_refl [simp]: "same_links th th x"
  by (simp add: same_links_def)

lemma inc_count: "unat (w :: u16) = n \<Longrightarrow> n < 65535 \<Longrightarrow> unat (w + 1) = Suc n"
  by (simp add: unat_word_ariths)

lemma dec_count: "unat (w :: u16) = Suc n \<Longrightarrow> unat (w - 1) = n"
proof -
  assume w: "unat w = Suc n"
  then have "w \<noteq> 0" by auto
  then show ?thesis using unat_minus_one [of w] w by simp
qed


lemma enqueue_links:
  assumes q: "queued s p xs" and t: "tid \<notin> set xs" "tid \<noteq> TS_NIL" "ts_blocked_on (thr s tid) = 0" and n: "length xs < 65535"
  shows "queued (ts_enqueue p tid s) p (xs @ [tid])"
    "x \<notin> set xs \<Longrightarrow> x \<noteq> tid \<Longrightarrow> same_links (thr s) (thr (ts_enqueue p tid s)) x"
proof -
  let ?th = "thr s" and ?tl = "ts_tail (mem s p)" and ?s = "ts_enqueue p tid s"
  have d: "dls ?th TS_NIL (ts_head (mem s p)) xs TS_NIL ?tl" and rest: "distinct xs" "unat (waiter_count (mem s p)) = length xs"
    "canary_tail (mem s p) = TS_CANARY" using q by (auto simp: queued_def)
  have tl: "?tl = (if xs = [] then TS_NIL else last xs)" using dls_last [OF d] .
  have tl0: "?tl = TS_NIL \<longleftrightarrow> xs = []" using tl dls_nonzero [OF d, of "last xs"] by auto
  have tlt: "?tl \<noteq> tid" using tl t by auto
  have th: "thr ?s = (if xs = [] then ?th(tid := (?th tid)\<lparr>ts_next := TS_NIL, ts_prev := ?tl\<rparr>)
      else ?th(tid := (?th tid)\<lparr>ts_next := TS_NIL, ts_prev := ?tl\<rparr>, ?tl := (?th ?tl)\<lparr>ts_next := tid\<rparr>))"
    using t(3) tl0 tlt by (auto simp: ts_enqueue_def link_defs)
  have hd: "ts_head (mem ?s p) = (if xs = [] then tid else ts_head (mem s p))" "ts_tail (mem ?s p) = tid"
    "waiter_count (mem ?s p) = waiter_count (mem s p) + 1" "canary_tail (mem ?s p) = canary_tail (mem s p)"
    using t(3) tl0 by (auto simp: ts_enqueue_def link_defs)
  show "same_links (thr s) (thr ?s) x" if "x \<notin> set xs" "x \<noteq> tid" for x
    using that tl by (auto simp: th same_links_def)
  have "dls (thr ?s) TS_NIL (ts_head (mem ?s p)) (xs @ [tid]) TS_NIL tid"
  proof (cases "xs = []")
    case True
    then show ?thesis using hd(1) th tl t(2) by simp
  next
    case False
    have "dls (thr ?s) TS_NIL (ts_head (mem s p)) xs tid ?tl"
      by (rule dls_set_next [OF d False rest(1)]) (use False th t(1) in \<open>auto simp: same_links_def\<close>)
    then show ?thesis using False hd(1) th tlt t(2) by (simp add: dls_append)
  qed
  then show "queued ?s p (xs @ [tid])" using hd rest t(1) n inc_count [OF rest(2)] by (simp add: queued_def)
qed

lemma dequeue_empty: "queued s p [] \<Longrightarrow> ts_dequeue_head p s = (None, check_invariant p s)"
  by (simp add: queued_def ts_dequeue_head_def Let_def)

lemma dequeue_links:
  assumes q: "queued s p (x # xs)"
  obtains s' where "ts_dequeue_head p s = (Some x, s')" "queued s' p xs" "\<And>y. y \<notin> set (x # xs) \<Longrightarrow> same_links (thr s) (thr s') y"
proof -
  let ?th = "thr s" and ?n = "ts_next (thr s x)"
  have d: "ts_head (mem s p) = x" "x \<noteq> TS_NIL" "dls ?th x ?n xs TS_NIL (ts_tail (mem s p))"
    and rest: "x \<notin> set xs" "distinct xs" "unat (waiter_count (mem s p)) = Suc (length xs)" "canary_tail (mem s p) = TS_CANARY"
    using q by (auto simp: queued_def)
  have n: "?n = (if xs = [] then TS_NIL else hd xs)" using dls_head [OF d(3)] .
  have n0: "?n = TS_NIL \<longleftrightarrow> xs = []" using n dls_nonzero [OF d(3), of "hd xs"] by auto
  have nx: "?n \<noteq> x" using n d(2) rest(1) by auto
  obtain s' where s': "ts_dequeue_head p s = (Some x, s')" using d by (simp add: ts_dequeue_head_def Let_def)
  have th: "thr s' = (if xs = [] then ?th(x := (?th x)\<lparr>ts_next := TS_NIL, ts_prev := TS_NIL\<rparr>)
      else ?th(x := (?th x)\<lparr>ts_next := TS_NIL, ts_prev := TS_NIL\<rparr>, ?n := (?th ?n)\<lparr>ts_prev := TS_NIL\<rparr>))"
    using s' d(1,2) n0 nx by (auto simp: ts_dequeue_head_def link_defs split: if_splits)
  have hd: "ts_head (mem s' p) = ?n" "ts_tail (mem s' p) = (if xs = [] then TS_NIL else ts_tail (mem s p))"
    "waiter_count (mem s' p) = waiter_count (mem s p) - 1" "canary_tail (mem s' p) = canary_tail (mem s p)"
    using s' d(1,2) n0 by (auto simp: ts_dequeue_head_def link_defs split: if_splits)
  have "dls (thr s') TS_NIL ?n xs TS_NIL (ts_tail (mem s' p))"
  proof (cases "xs = []")
    case True
    then show ?thesis using n hd(2) by simp
  next
    case False
    have "dls (thr s') TS_NIL ?n xs TS_NIL (ts_tail (mem s p))"
      by (rule dls_set_prev [OF d(3) False rest(2)]) (use False th nx rest(1) in \<open>auto simp: same_links_def\<close>)
    then show ?thesis using False hd(2) by simp
  qed
  then have "queued s' p xs" using hd rest dec_count [OF rest(3)] by (simp add: queued_def)
  moreover have "same_links (thr s) (thr s') y" if "y \<notin> set (x # xs)" for y
    using that n by (auto simp: th same_links_def)
  ultimately show ?thesis using that s' by blast
qed


lemma queued_split:
  assumes "queued s p (us @ vs)"
  obtains m l where "dls (thr s) TS_NIL (ts_head (mem s p)) us m l" "dls (thr s) l m vs TS_NIL (ts_tail (mem s p))"
    "l = (if us = [] then TS_NIL else last us)" "l = TS_NIL \<longleftrightarrow> us = []" "m = (if vs = [] then TS_NIL else hd vs)" "m = TS_NIL \<longleftrightarrow> vs = []"
    "l \<notin> set vs" "m \<notin> set us"
proof -
  obtain m l where ml: "dls (thr s) TS_NIL (ts_head (mem s p)) us m l" "dls (thr s) l m vs TS_NIL (ts_tail (mem s p))"
    using assms by (auto simp: queued_def dls_append)
  have l: "l = (if us = [] then TS_NIL else last us)" and m: "m = (if vs = [] then TS_NIL else hd vs)"
    using dls_last [OF ml(1)] dls_head [OF ml(2)] .
  have nz: "\<And>x. x \<in> set us \<Longrightarrow> x \<noteq> TS_NIL" "\<And>x. x \<in> set vs \<Longrightarrow> x \<noteq> TS_NIL"
    using dls_nonzero [OF ml(1)] dls_nonzero [OF ml(2)] by auto
  have "set us \<inter> set vs = {}" using assms by (auto simp: queued_def)
  then have "l \<notin> set vs" "m \<notin> set us" using l m nz by (auto simp: disjoint_iff split: if_splits)
  moreover have "l = TS_NIL \<longleftrightarrow> us = []" "m = TS_NIL \<longleftrightarrow> vs = []"
    using l m nz(1) [of "last us"] nz(2) [of "hd vs"] by auto
  ultimately show ?thesis using that ml l m by blast
qed

lemma unlink_links:
  assumes q: "queued s p (us @ x # vs)"
  shows "queued (unlink p x s) p (us @ vs)" "y \<notin> set (us @ x # vs) \<Longrightarrow> same_links (thr s) (thr (unlink p x s)) y"
proof -
  let ?th = "thr s" and ?n = "ts_next (thr s x)" and ?s = "unlink p x s"
  obtain m l where ml: "dls ?th TS_NIL (ts_head (mem s p)) us m l" "dls ?th l m (x # vs) TS_NIL (ts_tail (mem s p))"
    "l = (if us = [] then TS_NIL else last us)" "l = TS_NIL \<longleftrightarrow> us = []" "l \<notin> set (x # vs)"
    using queued_split [OF q] by metis
  have x: "m = x" "x \<noteq> TS_NIL" "ts_prev (?th x) = l" "dls ?th x ?n vs TS_NIL (ts_tail (mem s p))" using ml(2) by auto
  have rest: "distinct us" "distinct vs" "x \<notin> set us" "x \<notin> set vs" "set us \<inter> set vs = {}"
    "unat (waiter_count (mem s p)) = Suc (length (us @ vs))" "canary_tail (mem s p) = TS_CANARY" using q by (auto simp: queued_def)
  have n: "?n = (if vs = [] then TS_NIL else hd vs)" using dls_head [OF x(4)] .
  have n0: "?n = TS_NIL \<longleftrightarrow> vs = []" using n dls_nonzero [OF x(4), of "hd vs"] by auto
  have ne: "?n \<noteq> x" "l \<noteq> x" using n rest(3,4) ml(3,5) x(2) by auto
  have th: "thr ?s = (let a = (if us = [] then ?th else ?th(l := (?th l)\<lparr>ts_next := ?n\<rparr>));
        b = (if vs = [] then a else a(?n := (a ?n)\<lparr>ts_prev := l\<rparr>)) in b(x := (b x)\<lparr>ts_next := TS_NIL, ts_prev := TS_NIL\<rparr>))"
    using ml(4) n0 x(3) by (auto simp: unlink_def link_defs)
  have hd: "ts_head (mem ?s p) = (if us = [] then ?n else ts_head (mem s p))" "ts_tail (mem ?s p) = (if vs = [] then l else ts_tail (mem s p))"
    "waiter_count (mem ?s p) = waiter_count (mem s p) - 1" "canary_tail (mem ?s p) = canary_tail (mem s p)"
    using ml(4) n0 x(3) by (auto simp: unlink_def link_defs)
  have ins: "us \<noteq> [] \<Longrightarrow> l \<in> set us" "vs \<noteq> [] \<Longrightarrow> ?n \<in> set vs" using n ml(3) by simp_all
  show "same_links (thr s) (thr ?s) y" if "y \<notin> set (us @ x # vs)" for y
    using that ins by (auto simp: th same_links_def Let_def)
  have fr: "dls (thr ?s) TS_NIL (ts_head (mem ?s p)) us ?n l"
  proof (cases "us = []")
    case True
    then show ?thesis using hd(1) ml(1,3) by simp
  next
    case False
    have "l \<in> set us" using ml(3) False by simp
    then have nl: "?n \<noteq> l" using n rest(5) ml(4) False by (auto split: if_splits)
    have "dls (thr ?s) TS_NIL (ts_head (mem s p)) us ?n l"
    proof (rule dls_set_next [OF ml(1) False rest(1)])
      show "same_links ?th (thr ?s) y" if "y \<noteq> l" "y \<in> set us" for y
        using that rest(3,5) ins(2) by (auto simp: th same_links_def Let_def)
    qed (use False ne nl in \<open>auto simp: th Let_def\<close>)
    then show ?thesis using False hd(1) by simp
  qed
  have bck: "dls (thr ?s) l ?n vs TS_NIL (ts_tail (mem ?s p))"
  proof (cases "vs = []")
    case True
    then show ?thesis using n hd(2) by simp
  next
    case False
    have "?n \<in> set vs" using n False by simp
    then have nl: "?n \<noteq> l" using ml(5) by auto
    have "dls (thr ?s) l ?n vs TS_NIL (ts_tail (mem s p))"
    proof (rule dls_set_prev [OF x(4) False rest(2)])
      show "same_links ?th (thr ?s) y" if "y \<noteq> ?n" "y \<in> set vs" for y
        using that rest(4,5) ml(5) by (auto simp: th same_links_def Let_def)
    qed (use False ne nl in \<open>auto simp: th Let_def\<close>)
    then show ?thesis using False hd(2) by simp
  qed
  show "queued ?s p (us @ vs)"
    using fr bck rest hd dec_count [OF rest(6)] by (auto simp: queued_def dls_append)
qed

lemma ts_remove_loop_found: "dls (thr s) b h (us @ x # vs) n t \<Longrightarrow> x \<notin> set us \<Longrightarrow> ts_remove_loop p x h s = Some (True, unlink p x s)"
proof (induction us arbitrary: b h)
  case Nil
  then show ?case by (subst ts_remove_loop.simps) auto
next
  case (Cons y us)
  then show ?case using Cons.IH [of y "ts_next (thr s y)"] by (subst ts_remove_loop.simps) auto
qed

lemma ts_remove_loop_missing: "dls (thr s) b h xs TS_NIL t \<Longrightarrow> x \<notin> set xs \<Longrightarrow> ts_remove_loop p x h s = Some (False, s)"
proof (induction xs arbitrary: b h)
  case Nil
  then show ?case by (subst ts_remove_loop.simps) auto
next
  case (Cons y ys)
  then show ?case using Cons.IH [of y "ts_next (thr s y)"] by (subst ts_remove_loop.simps) auto
qed

lemma queued_check: "queued (check_invariant q s) p xs = queued s p xs"
  by (simp add: queued_def)

lemma ts_remove_found:
  assumes "queued s p (us @ x # vs)"
  obtains s' where "ts_remove p x s = Some (True, s')" "queued s' p (us @ vs)" "wq_frame p s s'"
    "\<And>y. y \<notin> set (us @ x # vs) \<Longrightarrow> same_links (thr s) (thr s') y"
proof -
  let ?s = "check_invariant p s"
  have q: "queued ?s p (us @ x # vs)" using assms by (simp add: queued_check)
  have "x \<notin> set us" "dls (thr ?s) TS_NIL (ts_head (mem ?s p)) (us @ x # vs) TS_NIL (ts_tail (mem ?s p))"
    using q by (auto simp: queued_def)
  then have "ts_remove p x s = Some (True, unlink p x ?s)" using ts_remove_loop_found by (simp add: ts_remove_def Let_def)
  then show ?thesis
    using that unlink_links [OF q] unlink_frame [of p ?s x] by (simp add: wq_frame_check)
qed

lemma ts_remove_missing:
  assumes "queued s p xs" "x \<notin> set xs"
  shows "ts_remove p x s = Some (False, check_invariant p s)"
  using ts_remove_loop_missing [of "check_invariant p s" TS_NIL "ts_head (mem s p)" xs "ts_tail (mem s p)" x p] assms
  by (simp add: ts_remove_def Let_def queued_def)

section \<open>Priority order\<close>

lemma prio_loop_spec:
  "dls th b h xs TS_NIL t \<Longrightarrow>
   prio_loop th mp h b = Some (let us = takeWhile (\<lambda>x. prio (th x) \<le> mp) xs; vs = dropWhile (\<lambda>x. prio (th x) \<le> mp) xs
     in (if vs = [] then TS_NIL else hd vs, if us = [] then b else last us))"
proof (induction xs arbitrary: b h)
  case Nil
  then show ?case by (subst prio_loop.simps) simp
next
  case (Cons x xs)
  then show ?case
    using Cons.IH [of x "ts_next (th x)"] by (subst prio_loop.simps) (auto simp: Let_def)
qed

definition by_prio :: "TsSys \<Rightarrow> u32 \<Rightarrow> u32 list \<Rightarrow> u32 list" where
  "by_prio s tid xs = (let ahead = (\<lambda>x. prio (thr s x) \<le> prio (thr s tid)) in takeWhile ahead xs @ tid # dropWhile ahead xs)"

lemma link_between_links:
  assumes q: "queued s p (us @ vs)" and t: "tid \<notin> set (us @ vs)" "tid \<noteq> TS_NIL" and n: "length (us @ vs) < 65535"
    and cur: "cur = (if vs = [] then TS_NIL else hd vs)" and prv: "prv = (if us = [] then TS_NIL else last us)"
  shows "queued (link_between p tid cur prv s) p (us @ tid # vs)"
    "y \<notin> set (us @ vs) \<Longrightarrow> y \<noteq> tid \<Longrightarrow> same_links (thr s) (thr (link_between p tid cur prv s)) y"
proof -
  let ?th = "thr s" and ?s = "link_between p tid cur prv s"
  obtain m l where ml0: "dls ?th TS_NIL (ts_head (mem s p)) us m l" "dls ?th l m vs TS_NIL (ts_tail (mem s p))"
    "l = (if us = [] then TS_NIL else last us)" "l = TS_NIL \<longleftrightarrow> us = []" "m = (if vs = [] then TS_NIL else hd vs)" "m = TS_NIL \<longleftrightarrow> vs = []"
    "l \<notin> set vs" "m \<notin> set us" by (rule queued_split [OF q])
  have eq: "cur = m" "prv = l" using cur prv ml0(3,5) by simp_all
  note ml = ml0(1,2,4,6,7,8)
  have rest: "distinct us" "distinct vs" "set us \<inter> set vs = {}" "unat (waiter_count (mem s p)) = length (us @ vs)"
    "canary_tail (mem s p) = TS_CANARY" using q by (auto simp: queued_def)
  have lt: "l \<noteq> tid" "m \<noteq> tid" using t ml0(3,5) by auto
  have th: "thr ?s = (let a = ?th(tid := (?th tid)\<lparr>ts_prev := l, ts_next := m\<rparr>);
        b = (if us = [] then a else a(l := (a l)\<lparr>ts_next := tid\<rparr>)) in if vs = [] then b else b(m := (b m)\<lparr>ts_prev := tid\<rparr>))"
    using ml(3,4) eq by (auto simp: link_between_def link_defs)
  have hd: "ts_head (mem ?s p) = (if us = [] then tid else ts_head (mem s p))" "ts_tail (mem ?s p) = (if vs = [] then tid else ts_tail (mem s p))"
    "waiter_count (mem ?s p) = waiter_count (mem s p) + 1" "canary_tail (mem ?s p) = canary_tail (mem s p)"
    using ml(3,4) eq by (auto simp: link_between_def link_defs)
  have ins: "us \<noteq> [] \<Longrightarrow> l \<in> set us" "vs \<noteq> [] \<Longrightarrow> m \<in> set vs" using ml0(3,5) by simp_all
  show "same_links (thr s) (thr ?s) y" if "y \<notin> set (us @ vs)" "y \<noteq> tid" for y
    using that ins by (auto simp: th same_links_def Let_def)
  have fr: "dls (thr ?s) TS_NIL (ts_head (mem ?s p)) us tid l"
  proof (cases "us = []")
    case True
    then show ?thesis using hd(1) ml0(3) by simp
  next
    case False
    have "l \<in> set us" using ml0(3) False by simp
    then have lm: "l \<noteq> m" using ml(6) by auto
    have "dls (thr ?s) TS_NIL (ts_head (mem s p)) us tid l"
    proof (rule dls_set_next [OF ml(1) False rest(1)])
      show "same_links ?th (thr ?s) y" if "y \<noteq> l" "y \<in> set us" for y
        using that t(1) ml(6) by (auto simp: th same_links_def Let_def)
    qed (use False lt lm in \<open>auto simp: th Let_def\<close>)
    then show ?thesis using False hd(1) by simp
  qed
  have mid: "ts_prev (thr ?s tid) = l" "ts_next (thr ?s tid) = m" using lt by (auto simp: th Let_def)
  have bck: "dls (thr ?s) tid m vs TS_NIL (ts_tail (mem ?s p))"
  proof (cases "vs = []")
    case True
    then show ?thesis using ml0(5) hd(2) by simp
  next
    case False
    have "m \<in> set vs" using ml0(5) False by simp
    then have lm: "l \<noteq> m" using ml(5) by auto
    have "dls (thr ?s) tid m vs TS_NIL (ts_tail (mem s p))"
    proof (rule dls_set_prev [OF ml(2) False rest(2)])
      show "same_links ?th (thr ?s) y" if "y \<noteq> m" "y \<in> set vs" for y
        using that t(1) ml(5) by (auto simp: th same_links_def Let_def)
    qed (use False lt lm in \<open>auto simp: th Let_def\<close>)
    then show ?thesis using False hd(2) by simp
  qed
  have "dls (thr ?s) TS_NIL (ts_head (mem ?s p)) (us @ tid # vs) TS_NIL (ts_tail (mem ?s p))"
    using fr bck mid t(2) by (auto simp: dls_append)
  then show "queued ?s p (us @ tid # vs)"
    using rest hd t(1) n inc_count [OF rest(4)] by (auto simp: queued_def)
qed

lemma enqueue_prio_links:
  assumes q: "queued s p xs" and t: "tid \<notin> set xs" "tid \<noteq> TS_NIL" and n: "length xs < 65535"
  obtains s' where "ts_enqueue_prio p tid s = Some s'" "queued s' p (by_prio s tid xs)" "wq_frame p s s'"
    "\<And>y. y \<notin> set xs \<Longrightarrow> y \<noteq> tid \<Longrightarrow> same_links (thr s) (thr s') y"
proof -
  let ?s = "check_invariant p s" and ?P = "\<lambda>x. prio (thr s x) \<le> prio (thr s tid)"
  let ?us = "takeWhile ?P xs" and ?vs = "dropWhile ?P xs"
  let ?cur = "if ?vs = [] then TS_NIL else hd ?vs" and ?prv = "if ?us = [] then TS_NIL else last ?us"
  have q1: "queued ?s p (?us @ ?vs)" using q by (simp add: queued_check)
  have "prio_loop (thr s) (prio (thr s tid)) (ts_head (mem s p)) TS_NIL = Some (?cur, ?prv)"
    using prio_loop_spec [of "thr s" TS_NIL "ts_head (mem s p)" xs "ts_tail (mem s p)" "prio (thr s tid)"] q
    by (simp add: queued_def Let_def)
  then have "ts_enqueue_prio p tid s = Some (link_between p tid ?cur ?prv ?s)" by (simp add: ts_enqueue_prio_def Let_def)
  moreover have "queued (link_between p tid ?cur ?prv ?s) p (by_prio s tid xs)"
    using link_between_links(1) [OF q1 _ t(2) _ refl refl] t(1) n by (simp add: by_prio_def Let_def)
  moreover have "same_links (thr s) (thr (link_between p tid ?cur ?prv ?s)) y" if "y \<notin> set xs" "y \<noteq> tid" for y
    using link_between_links(2) [OF q1 _ t(2) _ refl refl, of y] t(1) n that by simp
  ultimately show ?thesis using that link_between_frame [of p ?s] by (simp add: wq_frame_check)
qed

end
