(* ===== verification/Turnstile.thy ===== *)
theory Turnstile
  imports WaitQueue
begin

text \<open>
  The turnstile calls of \<open>sync/turnstile.rs\<close>: blocking on a key with a turnstile lent by the first waiter, waking
  and dequeueing, futexes with and without priority inheritance, and the clean-up of a killed thread. Every
  call runs under the lock of its bucket and is one step here. A futex wait is two steps, before and after the
  thread is blocked. The condition that the code rechecks under the lock is an argument.
\<close>

section \<open>Turnstile blocks\<close>

definition alloc_turnstile :: "TsSys \<Rightarrow> nat option \<times> TsSys" where
  "alloc_turnstile s =
     (case ts_answers s of
        Some a # as \<Rightarrow> (Some a, s\<lparr>ts_answers := as, alive := (alive s)(a := True), mem := (mem s)(a := blank_ts)\<rparr>)
      | None # as \<Rightarrow> (None, s\<lparr>ts_answers := as\<rparr>)
      | [] \<Rightarrow> (None, s))"

definition free_turnstile :: "nat \<Rightarrow> TsSys \<Rightarrow> TsSys" where
  "free_turnstile p s = s\<lparr>alive := (alive s)(p := False)\<rparr>"

definition init_turnstile :: "nat \<Rightarrow> wkey \<Rightarrow> u64 \<Rightarrow> TsSys \<Rightarrow> TsSys" where
  "init_turnstile p k hash s = record_ts_mut 5 0 p (upd_ts p (init_ts k hash) s)"

definition take_or_alloc_turnstile :: "u32 \<Rightarrow> TsSys \<Rightarrow> nat option \<times> TsSys" where
  "take_or_alloc_turnstile tid s =
     (let addr = turnstile (thr s tid); s1 = upd_thr tid (\<lambda>t. t\<lparr>turnstile := 0\<rparr>) s
      in if addr \<noteq> 0 then (Some addr, s1) else alloc_turnstile s1)"

definition alloc_thread_turnstile :: "TsSys \<Rightarrow> nat \<times> TsSys" where
  "alloc_thread_turnstile s = (case alloc_turnstile s of (Some p, s1) \<Rightarrow> (p, s1) | (None, s1) \<Rightarrow> (0, s1))"

definition free_thread_turnstile :: "nat \<Rightarrow> TsSys \<Rightarrow> TsSys" where
  "free_thread_turnstile addr s = (if addr \<noteq> 0 then free_turnstile addr s else s)"

section \<open>The index of the system\<close>

definition sys_lookup :: "u64 \<Rightarrow> wkey \<Rightarrow> TsSys \<Rightarrow> nat option" where
  "sys_lookup hash k s = hamt_lookup (mem s) (wait_roots s ! bucket_index hash) hash k"

definition sys_insert :: "u64 \<Rightarrow> nat \<Rightarrow> TsSys \<Rightarrow> bool \<times> TsSys" where
  "sys_insert hash p s =
     (case wait_insert (mem s) (wait_roots s) hash p (node_mem s) of
        (ok, rs, nm) \<Rightarrow> (ok, s\<lparr>wait_roots := rs, node_mem := nm\<rparr>))"

definition sys_remove :: "u64 \<Rightarrow> wkey \<Rightarrow> TsSys \<Rightarrow> TsSys" where
  "sys_remove hash k s =
     (case wait_remove (mem s) (wait_roots s) hash k (node_mem s) of (r, rs, nm) \<Rightarrow> s\<lparr>wait_roots := rs, node_mem := nm\<rparr>)"

text \<open>The turnstile of a key: the one in the trie, or the caller's own, initialised and inserted.\<close>

definition turnstile_for :: "u64 \<Rightarrow> wkey \<Rightarrow> u32 \<Rightarrow> TsSys \<Rightarrow> nat option \<times> TsSys" where
  "turnstile_for hash k tid s =
     (case sys_lookup hash k s of
        Some p \<Rightarrow> (Some p, s)
      | None \<Rightarrow>
          (case take_or_alloc_turnstile tid s of
             (None, s1) \<Rightarrow> (None, s1)
           | (Some p, s1) \<Rightarrow>
               (case sys_insert hash p (init_turnstile p k hash s1) of
                  (True, s2) \<Rightarrow> (Some p, s2)
                | (False, s2) \<Rightarrow> (None, free_turnstile p s2))))"

definition block_on :: "u32 \<Rightarrow> nat \<Rightarrow> TsSys \<Rightarrow> TsSys" where
  "block_on tid p s = upd_thr tid (\<lambda>t. t\<lparr>ts_blocked_on := p\<rparr>) s"

definition give_back :: "u32 \<Rightarrow> nat \<Rightarrow> TsSys \<Rightarrow> TsSys" where
  "give_back tid p s =
     (if turnstile (thr s tid) = 0 then upd_thr tid (\<lambda>t. t\<lparr>turnstile := p\<rparr>) s else free_turnstile p s)"

definition retire :: "u64 \<Rightarrow> wkey \<Rightarrow> nat \<Rightarrow> u32 \<Rightarrow> TsSys \<Rightarrow> TsSys" where
  "retire hash k p tid s = (if waiter_count (mem s p) = 0 then give_back tid p (sys_remove hash k s) else s)"

section \<open>Port waiters\<close>

abbreviation port_key :: "u64 \<Rightarrow> u8 \<Rightarrow> wkey" where
  "port_key port_id kt \<equiv> WKey kt 0 port_id"

definition port_enqueue_with_check :: "u64 \<Rightarrow> u8 \<Rightarrow> u32 \<Rightarrow> bool \<Rightarrow> TsSys \<Rightarrow> bool \<times> TsSys" where
  "port_enqueue_with_check port_id kt tid cond s =
     (let hash = port_key_hash port_id kt; s1 = emit (ClearWakeup tid) s
      in if \<not> cond then (False, s1)
         else (case turnstile_for hash (port_key port_id kt) tid s1 of
                 (None, s2) \<Rightarrow> (False, s2)
               | (Some p, s2) \<Rightarrow> (True, block_on tid p (ts_enqueue p tid s2))))"

definition port_enqueue_raw :: "u64 \<Rightarrow> u8 \<Rightarrow> u32 \<Rightarrow> TsSys \<Rightarrow> TsSys" where
  "port_enqueue_raw port_id kt tid s =
     (case turnstile_for (port_key_hash port_id kt) (port_key port_id kt) tid s of
        (None, s1) \<Rightarrow> s1
      | (Some p, s1) \<Rightarrow> block_on tid p (ts_enqueue p tid s1))"

definition port_wake_one :: "u64 \<Rightarrow> u8 \<Rightarrow> TsSys \<Rightarrow> u32 option \<times> TsSys" where
  "port_wake_one port_id kt s =
     (let hash = port_key_hash port_id kt; k = port_key port_id kt
      in (case sys_lookup hash k s of
            None \<Rightarrow> (None, s)
          | Some p \<Rightarrow>
              (case ts_dequeue_head p s of
                 (None, s1) \<Rightarrow> (None, s1)
               | (Some tid, s1) \<Rightarrow> (Some tid, emit (WakeThread tid) (retire hash k p tid (block_on tid 0 s1))))))"

definition port_dequeue_one :: "u64 \<Rightarrow> u8 \<Rightarrow> TsSys \<Rightarrow> u32 option \<times> TsSys" where
  "port_dequeue_one port_id kt s =
     (let hash = port_key_hash port_id kt; k = port_key port_id kt
      in (case sys_lookup hash k s of
            None \<Rightarrow> (None, s\<lparr>deq_hamt_miss := deq_hamt_miss s + 1\<rparr>)
          | Some p \<Rightarrow>
              (case ts_dequeue_head p s of
                 (None, s1) \<Rightarrow>
                   (None, if waiter_count (mem s1 p) > 0 then s1\<lparr>deq_ts_empty_bug := deq_ts_empty_bug s1 + 1\<rparr>
                          else s1\<lparr>deq_ts_empty_ok := deq_ts_empty_ok s1 + 1\<rparr>)
               | (Some tid, s1) \<Rightarrow> (Some tid, retire hash k p tid (block_on tid 0 s1)))))"

definition deq_counters :: "TsSys \<Rightarrow> u64 \<times> u64 \<times> u64" where
  "deq_counters s = (deq_hamt_miss s, deq_ts_empty_ok s, deq_ts_empty_bug s)"

partial_function (option) wake_all_loop :: "nat \<Rightarrow> nat \<Rightarrow> u32 \<Rightarrow> TsSys \<Rightarrow> (nat \<times> u32 \<times> TsSys) option" where
  "wake_all_loop p woken last_tid s =
     (case ts_dequeue_head p s of
        (None, s1) \<Rightarrow> Some (woken, last_tid, s1)
      | (Some tid, s1) \<Rightarrow> wake_all_loop p (woken + 1) tid (emit (WakeThread tid) (block_on tid 0 s1)))"

definition port_wake_all :: "u64 \<Rightarrow> u8 \<Rightarrow> TsSys \<Rightarrow> (u32 \<times> TsSys) option" where
  "port_wake_all port_id kt s =
     (let hash = port_key_hash port_id kt; k = port_key port_id kt
      in (case sys_lookup hash k s of
            None \<Rightarrow> Some (0, s)
          | Some p \<Rightarrow>
              (case wake_all_loop p 0 TS_NIL s of
                 None \<Rightarrow> None
               | Some (woken, last_tid, s1) \<Rightarrow>
                   let s2 = sys_remove hash k s1
                   in Some (of_nat woken, if last_tid \<noteq> TS_NIL then give_back last_tid p s2 else free_turnstile p s2))))"

definition lookup_port_turnstile :: "u64 \<Rightarrow> u8 \<Rightarrow> TsSys \<Rightarrow> bool \<times> nat" where
  "lookup_port_turnstile port_id kt s =
     (case sys_lookup (port_key_hash port_id kt) (port_key port_id kt) s of Some p \<Rightarrow> (True, p) | None \<Rightarrow> (False, 0))"

definition turnstile_info :: "nat \<Rightarrow> TsSys \<Rightarrow> (u8 \<times> u64 \<times> u64 \<times> u16 \<times> u64) option" where
  "turnstile_info ts_addr s =
     (if ts_addr = 0 then None
      else let ts = mem s ts_addr in Some (key_type ts, aspace_id ts, va ts, waiter_count ts, ts_hash ts))"

section \<open>Clean-up of a killed thread\<close>

definition cleanup_blocked_inner :: "u32 \<Rightarrow> nat \<Rightarrow> u64 \<Rightarrow> wkey \<Rightarrow> TsSys \<Rightarrow> TsSys option" where
  "cleanup_blocked_inner tid ts_addr hash k s =
     (case sys_lookup hash k s of
        None \<Rightarrow> Some s
      | Some p \<Rightarrow>
          if p = ts_addr then
            (case ts_remove p tid s of
               None \<Rightarrow> None
             | Some (found, s1) \<Rightarrow>
                 Some (if found \<and> waiter_count (mem s1 p) = 0
                       then upd_thr tid (\<lambda>t. t\<lparr>turnstile := ts_addr\<rparr>) (sys_remove hash k s1) else s1))
          else Some s)"

definition cleanup_blocked :: "u32 \<Rightarrow> TsSys \<Rightarrow> TsSys option" where
  "cleanup_blocked tid s =
     (let ts_addr = ts_blocked_on (thr s tid); s1 = block_on tid 0 s
      in if ts_addr = 0 then Some s1
         else let ts = mem s1 ts_addr in cleanup_blocked_inner tid ts_addr (ts_hash ts) (key_of ts) s1)"

section \<open>Futexes\<close>

datatype wait_result = Returned u64 | Blocked

abbreviation futex_key :: "u64 \<Rightarrow> u64 \<Rightarrow> wkey" where
  "futex_key aspace addr \<equiv> WKey KEY_FUTEX aspace addr"

definition futex_wait :: "u32 \<Rightarrow> u64 \<Rightarrow> u64 \<Rightarrow> u32 \<Rightarrow> TsSys \<Rightarrow> wait_result \<times> TsSys" where
  "futex_wait tid aspace addr expected s =
     (let hash = futex_hash aspace addr
      in (case umem s aspace addr of
            None \<Rightarrow> (Returned (- 1), s)
          | Some w \<Rightarrow>
              if w \<noteq> expected then (Returned 1, s)
              else (case turnstile_for hash (futex_key aspace addr) tid (emit (ClearWakeup tid) s) of
                      (None, s1) \<Rightarrow> (Returned (- 1), s1)
                    | (Some p, s1) \<Rightarrow> (Blocked, block_on tid p (ts_enqueue p tid s1)))))"

text \<open>The rest of a futex wait, once the thread runs again.\<close>

definition futex_wait_return :: "u32 \<Rightarrow> u64 \<Rightarrow> u64 \<Rightarrow> TsSys \<Rightarrow> (u64 \<times> TsSys) option" where
  "futex_wait_return tid aspace addr s =
     (let ts_addr = ts_blocked_on (thr s tid); s1 = block_on tid 0 s
      in (case (if ts_addr \<noteq> 0 then cleanup_blocked_inner tid ts_addr (futex_hash aspace addr) (futex_key aspace addr) s1 else Some s1) of
            None \<Rightarrow> None
          | Some s2 \<Rightarrow>
              Some (0, if turnstile (thr s2 tid) = 0
                       then (case alloc_turnstile s2 of
                               (Some p, s3) \<Rightarrow> upd_thr tid (\<lambda>t. t\<lparr>turnstile := p\<rparr>) s3
                             | (None, s3) \<Rightarrow> s3)
                       else s2)))"

fun futex_wake_loop :: "nat \<Rightarrow> nat \<Rightarrow> nat \<Rightarrow> u32 \<Rightarrow> TsSys \<Rightarrow> nat \<times> u32 \<times> TsSys" where
  "futex_wake_loop p 0 woken last_tid s = (woken, last_tid, s)"
| "futex_wake_loop p (Suc n) woken last_tid s =
     (case ts_dequeue_head p s of
        (None, s1) \<Rightarrow> (woken, last_tid, s1)
      | (Some tid, s1) \<Rightarrow> futex_wake_loop p n (woken + 1) tid (emit (WakeThread tid) (block_on tid 0 s1)))"

definition futex_wake :: "u64 \<Rightarrow> u64 \<Rightarrow> u32 \<Rightarrow> TsSys \<Rightarrow> u64 \<times> TsSys" where
  "futex_wake aspace addr cnt s =
     (let hash = futex_hash aspace addr; k = futex_key aspace addr
      in (case sys_lookup hash k s of
            None \<Rightarrow> (0, s)
          | Some p \<Rightarrow>
              (case futex_wake_loop p (unat cnt) 0 TS_NIL s of
                 (woken, last_tid, s1) \<Rightarrow>
                   (of_nat woken,
                    if waiter_count (mem s1 p) = 0
                    then let s2 = sys_remove hash k s1
                         in if last_tid \<noteq> TS_NIL then give_back last_tid p s2 else free_turnstile p s2
                    else s1))))"

definition PI_WAITERS_BIT :: u32 where "PI_WAITERS_BIT = 0x80000000"
definition PI_TID_MASK :: u32 where "PI_TID_MASK = 0x7FFFFFFF"

definition copy_to_user :: "u64 \<Rightarrow> u64 \<Rightarrow> u32 \<Rightarrow> TsSys \<Rightarrow> TsSys" where
  "copy_to_user aspace addr w s =
     (if umem s aspace addr \<noteq> None then s\<lparr>umem := (umem s)(aspace := (umem s aspace)(addr \<mapsto> w))\<rparr> else s)"

definition futex_wait_pi :: "u32 \<Rightarrow> u64 \<Rightarrow> u64 \<Rightarrow> u32 \<Rightarrow> TsSys \<Rightarrow> (wait_result \<times> TsSys) option" where
  "futex_wait_pi tid aspace addr expected_owner s =
     (let hash = futex_hash aspace addr
      in (case umem s aspace addr of
            None \<Rightarrow> Some (Returned (- 1), s)
          | Some word \<Rightarrow>
              if (word AND PI_TID_MASK) \<noteq> expected_owner then Some (Returned 1, s)
              else let new_word = word OR PI_WAITERS_BIT;
                       s1 = (if new_word \<noteq> word then copy_to_user aspace addr new_word s else s)
                   in (case turnstile_for hash (futex_key aspace addr) tid (emit (ClearWakeup tid) s1) of
                         (None, s2) \<Rightarrow> Some (Returned (- 1), s2)
                       | (Some p, s2) \<Rightarrow>
                           (case ts_enqueue_prio p tid (upd_ts p (\<lambda>q. q\<lparr>owner_tid := expected_owner\<rparr>) s2) of
                              None \<Rightarrow> None
                            | Some s3 \<Rightarrow>
                                let my_prio = prio (thr s3 tid);
                                    s4 = (if my_prio < max_waiter_prio (mem s3 p)
                                          then upd_ts p (\<lambda>q. q\<lparr>max_waiter_prio := my_prio\<rparr>) s3 else s3);
                                    s5 = block_on tid p s4
                                in Some (Blocked, if expected_owner \<noteq> 0 then emit (BoostPriority expected_owner my_prio) s5 else s5)))))"

definition futex_wake_pi :: "u32 \<Rightarrow> u64 \<Rightarrow> u64 \<Rightarrow> TsSys \<Rightarrow> u64 \<times> TsSys" where
  "futex_wake_pi caller aspace addr s =
     (let hash = futex_hash aspace addr; k = futex_key aspace addr
      in (case sys_lookup hash k s of
            None \<Rightarrow> (1, s)
          | Some p \<Rightarrow>
              (case ts_dequeue_head p s of
                 (None, s1) \<Rightarrow> (1, s1)
               | (Some new_owner, s1) \<Rightarrow>
                   let s2 = block_on new_owner 0 s1;
                       has_more = waiter_count (mem s2 p) > 0;
                       new_word = (new_owner AND PI_TID_MASK) OR (if has_more then PI_WAITERS_BIT else 0);
                       s3 = upd_ts p (\<lambda>q. q\<lparr>owner_tid := new_owner\<rparr>) (copy_to_user aspace addr new_word s2);
                       s4 = (if has_more then upd_ts p (\<lambda>q. q\<lparr>max_waiter_prio := prio (thr s3 (ts_head (mem s3 p)))\<rparr>) s3 else s3);
                       s5 = emit (ResetPriority caller) s4;
                       s6 = (if has_more then emit (BoostPriority new_owner (max_waiter_prio (mem s5 p))) s5 else s5)
                   in (0, emit (WakeThread new_owner) (retire hash k p new_owner s6)))))"


section \<open>What the state represents\<close>

text \<open>
  \<open>Q\<close> gives for every key the threads that wait on it, in order. \<open>trie_ok\<close>, \<open>queues_ok\<close> and \<open>owned_ok\<close> say that
  the trie is well formed, that its turnstiles are live blocks whose lists are the queues of \<open>Q\<close> and that the
  threads know where they wait, and that a turnstile kept by a thread is live, not lent, and kept by no other.
\<close>

definition look :: "TsSys \<Rightarrow> wkey \<Rightarrow> nat option" where
  "look s = wait_lookup (mem s) (wait_roots s)"

definition trie_ok :: "TsSys \<Rightarrow> bool" where
  "trie_ok s \<longleftrightarrow> roots_ok (mem s) (wait_roots s) \<and> node_live (node_mem s) = nodes_total (wait_roots s)"

definition queues_ok :: "TsSys \<Rightarrow> (wkey \<Rightarrow> u32 list) \<Rightarrow> bool" where
  "queues_ok s Q \<longleftrightarrow>
     (\<forall>k. look s k = None \<longrightarrow> Q k = []) \<and>
     (\<forall>k p. look s k = Some p \<longrightarrow> p \<noteq> 0 \<and> alive s p \<and> queued s p (Q k) \<and> (\<forall>t\<in>set (Q k). ts_blocked_on (thr s t) = p)) \<and>
     (\<forall>t. ts_blocked_on (thr s t) \<noteq> 0 \<longrightarrow> (\<exists>k. t \<in> set (Q k)))"

definition owned_ok :: "TsSys \<Rightarrow> bool" where
  "owned_ok s \<longleftrightarrow>
     (\<forall>t. turnstile (thr s t) \<noteq> 0 \<longrightarrow> alive s (turnstile (thr s t)) \<and> (\<forall>k. look s k \<noteq> Some (turnstile (thr s t)))) \<and>
     (\<forall>t u. turnstile (thr s t) = turnstile (thr s u) \<longrightarrow> turnstile (thr s t) \<noteq> 0 \<longrightarrow> t = u)"

definition ts_part :: "TsSys \<Rightarrow> (wkey \<Rightarrow> u32 list) \<Rightarrow> bool" where
  "ts_part s Q \<longleftrightarrow> trie_ok s \<and> queues_ok s Q \<and> owned_ok s"

definition ts_rep :: "TsSys \<Rightarrow> (wkey \<Rightarrow> u32 list) \<Rightarrow> bool" where
  "ts_rep s Q \<longleftrightarrow> ts_part s Q \<and> (\<forall>k p. look s k = Some p \<longrightarrow> Q k \<noteq> [])"

text \<open>No block is lost: every live turnstile is in the trie or kept by a thread.\<close>

definition no_leak :: "TsSys \<Rightarrow> bool" where
  "no_leak s \<longleftrightarrow> (\<forall>a. alive s a \<longrightarrow> (\<exists>k. look s k = Some a) \<or> (\<exists>t. turnstile (thr s t) = a \<and> a \<noteq> 0))"

lemma sys_lookup_look: "sys_lookup (key_hash k) k s = look s k"
  by (simp add: sys_lookup_def look_def wait_lookup_def)

lemma port_hash: "kt \<noteq> KEY_FUTEX \<Longrightarrow> port_key_hash pid kt = key_hash (port_key pid kt)"
  by (simp add: key_hash_def)

lemma futex_key_hash: "futex_hash aspace addr = key_hash (futex_key aspace addr)"
  by (simp add: key_hash_def)

lemma look_key:
  assumes "trie_ok s" "look s k = Some p"
  shows "key_of (mem s p) = k" "ts_hash (mem s p) = key_hash k"
  using wait_lookup_key [of "mem s" "wait_roots s" k p] assms by (simp_all add: trie_ok_def look_def)

lemma look_inj: "trie_ok s \<Longrightarrow> look s k = Some p \<Longrightarrow> look s j = Some p \<Longrightarrow> j = k"
  using look_key(1) by blast

lemma queuesD:
  assumes "queues_ok s Q"
  shows "look s k = None \<Longrightarrow> Q k = []" "look s k = Some p \<Longrightarrow> p \<noteq> 0" "look s k = Some p \<Longrightarrow> alive s p"
    "look s k = Some p \<Longrightarrow> queued s p (Q k)" "look s k = Some p \<Longrightarrow> t \<in> set (Q k) \<Longrightarrow> ts_blocked_on (thr s t) = p"
    "ts_blocked_on (thr s t) \<noteq> 0 \<Longrightarrow> \<exists>k. t \<in> set (Q k)"
  using assms unfolding queues_ok_def by blast+

lemma in_queue_look:
  assumes "queues_ok s Q" "t \<in> set (Q k)"
  obtains p where "look s k = Some p" "ts_blocked_on (thr s t) = p" "p \<noteq> 0"
proof (cases "look s k")
  case None
  then show ?thesis using queuesD(1) [OF assms(1) None] assms(2) by simp
next
  case (Some p)
  then show ?thesis using that [OF Some] queuesD(5) [OF assms(1) Some assms(2)] queuesD(2) [OF assms(1) Some] by simp
qed

lemma queues_disjoint:
  assumes "trie_ok s" "queues_ok s Q" "t \<in> set (Q k)" "t \<in> set (Q j)"
  shows "j = k"
proof -
  obtain p where p: "look s k = Some p" "ts_blocked_on (thr s t) = p" using in_queue_look [OF assms(2,3)] by blast
  obtain p' where "look s j = Some p'" "ts_blocked_on (thr s t) = p'" using in_queue_look [OF assms(2,4)] by blast
  then show ?thesis using look_inj [OF assms(1)] p by simp
qed

text \<open>A change of the links, the queue fields of one turnstile and the threads' \<open>ts_blocked_on\<close>.\<close>

definition links_frame :: "nat \<Rightarrow> TsSys \<Rightarrow> TsSys \<Rightarrow> bool" where
  "links_frame p s s' \<longleftrightarrow>
     (\<forall>t. turnstile (thr s' t) = turnstile (thr s t) \<and> prio (thr s' t) = prio (thr s t)) \<and> (\<forall>q. q \<noteq> p \<longrightarrow> mem s' q = mem s q) \<and>
     key_of (mem s' p) = key_of (mem s p) \<and> ts_hash (mem s' p) = ts_hash (mem s p) \<and>
     alive s' = alive s \<and> wait_roots s' = wait_roots s \<and> node_mem s' = node_mem s \<and> ts_answers s' = ts_answers s"

lemma links_frame_wq: "wq_frame p s s' \<Longrightarrow> links_frame p s s'"
  by (simp add: wq_frame_def links_frame_def)

lemma links_frame_look:
  assumes "trie_ok s" "links_frame p s s'"
  shows "look s' = look s" "trie_ok s'"
proof -
  have "same_key (mem s) (mem s') q" for q using assms(2) by (cases "q = p") (auto simp: links_frame_def same_key_def)
  then have "roots_ok (mem s') (wait_roots s)" "wait_lookup (mem s') (wait_roots s) = wait_lookup (mem s) (wait_roots s)"
    using wait_lookup_cong [of "mem s" "wait_roots s" "mem s'"] assms(1) by (auto simp: trie_ok_def)
  then show "look s' = look s" "trie_ok s'" using assms by (simp_all add: look_def trie_ok_def links_frame_def)
qed

lemma links_frame_owned: "trie_ok s \<Longrightarrow> links_frame p s s' \<Longrightarrow> owned_ok s' = owned_ok s \<and> no_leak s' = no_leak s"
proof -
  assume a: "trie_ok s" "links_frame p s s'"
  have "turnstile (thr s' t) = turnstile (thr s t)" "alive s' = alive s" for t using a(2) by (simp_all add: links_frame_def)
  then show ?thesis unfolding owned_ok_def no_leak_def links_frame_look(1) [OF a] by simp
qed

lemma queued_cong:
  assumes "mem s' p = mem s p" "\<And>x. x \<in> set xs \<Longrightarrow> same_links (thr s) (thr s') x"
  shows "queued s' p xs = queued s p xs"
  using dls_cong [of xs "thr s" "thr s'"] assms by (simp add: queued_def)

lemma queue_step:
  assumes rep: "ts_part s Q" and k: "look s k = Some p" and fr: "links_frame p s s'" and q: "queued s' p ys"
    and links: "\<And>x. x \<notin> set (Q k) \<Longrightarrow> x \<notin> set ys \<Longrightarrow> same_links (thr s) (thr s') x"
    and blk: "\<And>t. ts_blocked_on (thr s' t) = (if t \<in> set ys then p else if t \<in> set (Q k) then 0 else ts_blocked_on (thr s t))"
    and fresh: "\<And>t. t \<in> set ys \<Longrightarrow> t \<notin> set (Q k) \<Longrightarrow> ts_blocked_on (thr s t) = 0"
  shows "ts_part s' (Q(k := ys))" "look s' = look s" "no_leak s' = no_leak s"
proof -
  have t: "trie_ok s" and qs: "queues_ok s Q" and ow: "owned_ok s" using rep by (simp_all add: ts_part_def)
  show lk: "look s' = look s" using links_frame_look(1) [OF t fr] .
  show "no_leak s' = no_leak s" using links_frame_owned [OF t fr] by blast
  have other: "t \<notin> set ys \<and> t \<notin> set (Q k)" if "t \<in> set (Q j)" "j \<noteq> k" for t j
  proof -
    have "t \<notin> set (Q k)" using queues_disjoint [OF t qs] that by blast
    moreover have "ts_blocked_on (thr s t) \<noteq> 0" using in_queue_look [OF qs that(1)] by metis
    ultimately show ?thesis using fresh [of t] by auto
  qed
  have same: "queued s' p' (Q j)" if j: "look s j = Some p'" "j \<noteq> k" for j p'
  proof -
    have "p' \<noteq> p" using look_inj [OF t k] j by blast
    then have "mem s' p' = mem s p'" using fr by (simp add: links_frame_def)
    then have "queued s' p' (Q j) = queued s p' (Q j)" using other j(2) links by (intro queued_cong) blast+
    then show ?thesis using queuesD(4) [OF qs j(1)] by simp
  qed
  have "queues_ok s' (Q(k := ys))"
    unfolding queues_ok_def lk
  proof (intro conjI allI impI ballI)
    fix j assume "look s j = None"
    then show "(Q(k := ys)) j = []" using queuesD(1) [OF qs] k by auto
  next
    fix j p' assume j: "look s j = Some p'"
    show "p' \<noteq> 0" "alive s' p'" using queuesD(2,3) [OF qs j] fr by (simp_all add: links_frame_def)
    show "queued s' p' ((Q(k := ys)) j)" using same [OF j] q j k by auto
    fix t assume "t \<in> set ((Q(k := ys)) j)"
    then show "ts_blocked_on (thr s' t) = p'" using blk [of t] other [of t j] queuesD(5) [OF qs j, of t] j k by (auto split: if_splits)
  next
    fix t assume "ts_blocked_on (thr s' t) \<noteq> 0"
    then show "\<exists>j. t \<in> set ((Q(k := ys)) j)" using blk [of t] queuesD(6) [OF qs, of t] by (metis fun_upd_apply)
  qed
  then show "ts_part s' (Q(k := ys))"
    using links_frame_look(2) [OF t fr] links_frame_owned [OF t fr] ow by (simp add: ts_part_def)
qed


section \<open>The building blocks\<close>

lemma emit_frame [simp]:
  "thr (emit e s) = thr s" "mem (emit e s) = mem s" "alive (emit e s) = alive s" "wait_roots (emit e s) = wait_roots s"
  "node_mem (emit e s) = node_mem s" "ts_answers (emit e s) = ts_answers s" "umem (emit e s) = umem s"
  by (simp_all add: emit_def)

lemma rep_cong:
  assumes "thr s' = thr s" "mem s' = mem s" "alive s' = alive s" "wait_roots s' = wait_roots s" "node_mem s' = node_mem s"
  shows "look s' = look s" "ts_part s' Q = ts_part s Q" "no_leak s' = no_leak s" "ts_rep s' Q = ts_rep s Q" "queued s' p xs = queued s p xs"
proof -
  show l: "look s' = look s" by (simp add: look_def assms)
  show q: "queued s' p xs = queued s p xs" for p xs by (simp add: queued_def assms)
  show p: "ts_part s' Q = ts_part s Q" by (simp add: ts_part_def trie_ok_def queues_ok_def owned_ok_def l q assms)
  show "no_leak s' = no_leak s" by (simp add: no_leak_def l assms)
  show "ts_rep s' Q = ts_rep s Q" by (simp add: ts_rep_def p l)
qed

lemma rep_emit [simp]:
  "look (emit e s) = look s" "ts_part (emit e s) Q = ts_part s Q" "no_leak (emit e s) = no_leak s" "ts_rep (emit e s) Q = ts_rep s Q"
  by (rule rep_cong; simp)+

lemma not_waiting:
  assumes "queues_ok s Q" "ts_blocked_on (thr s tid) = 0"
  shows "tid \<notin> set (Q k)"
  using in_queue_look [OF assms(1), of tid k] assms(2) by auto

lemma block_on_frame: "wq_frame p s s' \<Longrightarrow> links_frame p s (block_on tid a s')"
  by (simp add: links_frame_def wq_frame_def block_on_def upd_thr_def)

lemma block_on_thr: "thr (block_on tid a s) t = (if t = tid then (thr s t)\<lparr>ts_blocked_on := a\<rparr> else thr s t)"
  by (simp add: block_on_def upd_thr_def)

lemma block_on_links: "same_links th (thr (block_on tid a s)) x = same_links th (thr s) x"
  by (simp add: same_links_def block_on_thr)

lemma queued_block_on: "queued (block_on tid a s) p xs = queued s p xs"
proof -
  have "dls (thr (block_on tid a s)) b h ys n t = dls (thr s) b h ys n t" for b h ys n t
    by (rule dls_cong) (simp add: block_on_links)
  then show ?thesis by (simp add: queued_def block_on_def upd_thr_def)
qed

lemma join_step:
  assumes rep: "ts_part s Q" and k: "look s k = Some p" and t: "tid \<noteq> TS_NIL" "ts_blocked_on (thr s tid) = 0" and n: "length (Q k) < 65535"
  shows "ts_part (block_on tid p (ts_enqueue p tid s)) (Q(k := Q k @ [tid]))" "look (block_on tid p (ts_enqueue p tid s)) = look s"
    "no_leak (block_on tid p (ts_enqueue p tid s)) = no_leak s"
proof -
  let ?s = "ts_enqueue p tid s"
  have qs: "queues_ok s Q" using rep by (simp add: ts_part_def)
  note el = enqueue_links [OF queuesD(4) [OF qs k] not_waiting [OF qs t(2)] t n]
  have fr: "links_frame p s (block_on tid p ?s)" using block_on_frame [OF enqueue_frame] .
  have q: "queued (block_on tid p ?s) p (Q k @ [tid])" using el(1) by (simp add: queued_block_on)
  have bl: "ts_blocked_on (thr (block_on tid p ?s) t) =
      (if t \<in> set (Q k @ [tid]) then p else if t \<in> set (Q k) then 0 else ts_blocked_on (thr s t))" for t
    using enqueue_frame [of p s tid] queuesD(5) [OF qs k, of t] by (auto simp: wq_frame_def block_on_thr)
  have li: "same_links (thr s) (thr (block_on tid p ?s)) x" if "x \<notin> set (Q k)" "x \<notin> set (Q k @ [tid])" for x
    using el(2) that by (simp add: block_on_links)
  show "ts_part (block_on tid p ?s) (Q(k := Q k @ [tid]))" "look (block_on tid p ?s) = look s" "no_leak (block_on tid p ?s) = no_leak s"
    by (rule queue_step [OF rep k fr q li bl]; use t(2) in auto)+
qed

lemma dequeue_step:
  assumes rep: "ts_part s Q" and k: "look s k = Some p" and x: "Q k = x # xs"
  obtains s1 where "ts_dequeue_head p s = (Some x, s1)" "ts_part (block_on x 0 s1) (Q(k := xs))" "look (block_on x 0 s1) = look s"
    "no_leak (block_on x 0 s1) = no_leak s" "waiter_count (mem (block_on x 0 s1) p) = 0 \<longleftrightarrow> xs = []" "links_frame p s (block_on x 0 s1)"
proof -
  have qs: "queues_ok s Q" using rep by (simp add: ts_part_def)
  have q0: "queued s p (x # xs)" using queuesD(4) [OF qs k] x by simp
  obtain s1 where s1: "ts_dequeue_head p s = (Some x, s1)" "queued s1 p xs" "\<And>y. y \<notin> set (x # xs) \<Longrightarrow> same_links (thr s) (thr s1) y"
    using dequeue_links [OF q0] by blast
  let ?s = "block_on x 0 s1"
  have fr: "links_frame p s ?s" using block_on_frame [OF dequeue_frame [OF s1(1)]] .
  have q: "queued ?s p xs" using s1(2) by (simp add: queued_block_on)
  have "x \<notin> set xs" using q0 by (simp add: queued_def)
  then have bl: "ts_blocked_on (thr ?s t) = (if t \<in> set xs then p else if t \<in> set (Q k) then 0 else ts_blocked_on (thr s t))" for t
    using dequeue_frame [OF s1(1)] queuesD(5) [OF qs k, of t] x by (auto simp: wq_frame_def block_on_thr)
  have li: "same_links (thr s) (thr ?s) y" if "y \<notin> set (Q k)" "y \<notin> set xs" for y
    using s1(3) that x by (simp add: block_on_links)
  have fresh: "ts_blocked_on (thr s t) = 0" if "t \<in> set xs" "t \<notin> set (Q k)" for t using that x by simp
  have "waiter_count (mem ?s p) = 0 \<longleftrightarrow> xs = []" using q by (auto simp: queued_def unat_eq_0)
  then show ?thesis using that [OF s1(1)] queue_step [OF rep k fr q li bl fresh] fr by blast
qed

lemma sys_remove_look:
  assumes "trie_ok s"
  shows "look (sys_remove (key_hash k) k s) = (look s)(k := None)" "trie_ok (sys_remove (key_hash k) k s)"
    "thr (sys_remove h k s) = thr s" "mem (sys_remove h k s) = mem s" "alive (sys_remove h k s) = alive s"
proof -
  obtain r rs nm where w: "wait_remove (mem s) (wait_roots s) (key_hash k) k (node_mem s) = (r, rs, nm)" by (metis prod_cases3)
  note wr = wait_remove_correct [OF _ refl w]
  show "look (sys_remove (key_hash k) k s) = (look s)(k := None)" "trie_ok (sys_remove (key_hash k) k s)"
    using wr assms by (simp_all add: sys_remove_def w look_def trie_ok_def)
  show "thr (sys_remove h k s) = thr s" "mem (sys_remove h k s) = mem s" "alive (sys_remove h k s) = alive s"
    by (simp_all add: sys_remove_def split: prod.splits)
qed

text \<open>Taking an empty turnstile out of the trie and giving it back to a thread.\<close>

definition slot_frame :: "TsSys \<Rightarrow> TsSys \<Rightarrow> bool" where
  "slot_frame s s' \<longleftrightarrow> mem s' = mem s \<and> (\<forall>t. same_links (thr s) (thr s') t \<and> ts_blocked_on (thr s' t) = ts_blocked_on (thr s t))"

lemma slot_frame_queued: "slot_frame s s' \<Longrightarrow> queued s' p xs = queued s p xs"
  by (rule queued_cong) (simp_all add: slot_frame_def)

lemma give_back_step:
  assumes rep: "ts_part s Q" and k: "look s k = Some p" and e: "Q k = []"
  shows "ts_part (give_back tid p (sys_remove (key_hash k) k s)) Q" "look (give_back tid p (sys_remove (key_hash k) k s)) = (look s)(k := None)"
    "no_leak s \<Longrightarrow> no_leak (give_back tid p (sys_remove (key_hash k) k s))"
proof -
  let ?r = "sys_remove (key_hash k) k s"
  let ?s = "give_back tid p ?r"
  have t: "trie_ok s" and qs: "queues_ok s Q" and ow: "owned_ok s" using rep by (simp_all add: ts_part_def)
  note sr = sys_remove_look [OF t, where k = k]
  have p: "p \<noteq> 0" "alive s p" using queuesD(2,3) [OF qs k] .
  have lk: "look ?s = (look s)(k := None)" using sr(1) by (simp add: give_back_def look_def upd_thr_def free_turnstile_def)
  have tr: "trie_ok ?s" using sr(2) by (simp add: give_back_def trie_ok_def upd_thr_def free_turnstile_def)
  have notp: "turnstile (thr s u) \<noteq> p" for u using ow k p(1) by (auto simp: owned_ok_def)
  have inj: "look s j \<noteq> Some p" if "j \<noteq> k" for j using look_inj [OF t k] that by blast
  have th: "thr ?s = (if turnstile (thr s tid) = 0 then (thr s)(tid := (thr s tid)\<lparr>turnstile := p\<rparr>) else thr s)"
    and al: "alive ?s = (if turnstile (thr s tid) = 0 then alive s else (alive s)(p := False))"
    using sr(3,5) by (simp_all add: give_back_def upd_thr_def free_turnstile_def)
  have fr: "slot_frame s ?s" using sr(3,4) by (auto simp: slot_frame_def same_links_def give_back_def upd_thr_def free_turnstile_def)
  have q: "queues_ok ?s Q"
    unfolding queues_ok_def lk
  proof (intro conjI allI impI ballI)
    fix j assume "((look s)(k := None)) j = None"
    then show "Q j = []" using queuesD(1) [OF qs] e by (auto split: if_splits)
  next
    fix j p' assume "((look s)(k := None)) j = Some p'"
    then have j: "j \<noteq> k" "look s j = Some p'" by (auto split: if_splits)
    show "p' \<noteq> 0" using queuesD(2) [OF qs j(2)] .
    show "alive ?s p'" using queuesD(3) [OF qs j(2)] inj [OF j(1)] j(2) by (auto simp: al)
    show "queued ?s p' (Q j)" using queuesD(4) [OF qs j(2)] slot_frame_queued [OF fr] by simp
    fix u assume "u \<in> set (Q j)"
    then show "ts_blocked_on (thr ?s u) = p'" using queuesD(5) [OF qs j(2)] fr by (simp add: slot_frame_def)
  next
    fix u assume "ts_blocked_on (thr ?s u) \<noteq> 0"
    then show "\<exists>j. u \<in> set (Q j)" using queuesD(6) [OF qs] fr by (simp add: slot_frame_def)
  qed
  have "owned_ok ?s"
    unfolding owned_ok_def lk
  proof (intro conjI allI impI)
    fix u assume u: "turnstile (thr ?s u) \<noteq> 0"
    show "alive ?s (turnstile (thr ?s u))" using u ow p notp [of u] by (auto simp: th al owned_ok_def split: if_splits)
    fix j
    show "((look s)(k := None)) j \<noteq> Some (turnstile (thr ?s u))" using u ow inj [of j] by (auto simp: th owned_ok_def split: if_splits)
  next
    fix u v assume "turnstile (thr ?s u) = turnstile (thr ?s v)" "turnstile (thr ?s u) \<noteq> 0"
    then show "u = v" using ow notp [of u] notp [of v] by (auto simp: th owned_ok_def split: if_splits)
  qed
  then show "ts_part ?s Q" using tr q by (simp add: ts_part_def)
  show "look ?s = (look s)(k := None)" using lk .
  assume nl: "no_leak s"
  show "no_leak ?s"
    unfolding no_leak_def lk
  proof (intro allI impI)
    fix a assume a: "alive ?s a"
    show "(\<exists>j. ((look s)(k := None)) j = Some a) \<or> (\<exists>u. turnstile (thr ?s u) = a \<and> a \<noteq> 0)"
    proof (cases "a = p")
      case True
      then show ?thesis using a p(1) by (auto simp: th al split: if_splits)
    next
      case False
      then have "alive s a" using a by (auto simp: al split: if_splits)
      then consider j where "look s j = Some a" | u where "turnstile (thr s u) = a" "a \<noteq> 0" using nl by (auto simp: no_leak_def)
      then show ?thesis
      proof cases
        case 1
        then have "j \<noteq> k" using k False by auto
        then show ?thesis using 1 by auto
      next
        case 2
        then have "turnstile (thr ?s u) = a" by (auto simp: th)
        then show ?thesis using 2(2) by blast
      qed
    qed
  qed
qed


definition alloc_ok :: "TsSys \<Rightarrow> bool" where
  "alloc_ok s = (case ts_answers s of Some a # _ \<Rightarrow> a \<noteq> 0 \<and> \<not> alive s a | _ \<Rightarrow> True)"

lemma alloc_ok_emit [simp]: "alloc_ok (emit e s) = alloc_ok s"
  unfolding alloc_ok_def emit_frame ..

lemma alloc_ok_cong:
  assumes "alive s' = alive s" "ts_answers s' = ts_answers s"
  shows "alloc_ok s' = alloc_ok s"
  unfolding alloc_ok_def assms ..

lemma alloc_turnstile_step:
  assumes rep: "ts_part s Q" and ok: "alloc_ok s" and al: "alloc_turnstile s = (r, s')"
  shows "ts_part s' Q" "look s' = look s" "thr s' = thr s"
    "r = Some a \<Longrightarrow> a \<noteq> 0 \<and> alive s' a \<and> (\<forall>k. look s k \<noteq> Some a) \<and> (\<forall>t. turnstile (thr s t) \<noteq> a)"
    "no_leak s \<Longrightarrow> alive s' b \<Longrightarrow> r \<noteq> Some b \<Longrightarrow> (\<exists>k. look s k = Some b) \<or> (\<exists>t. turnstile (thr s t) = b \<and> b \<noteq> 0)"
proof -
  have t: "trie_ok s" and qs: "queues_ok s Q" and ow: "owned_ok s" using rep by (simp_all add: ts_part_def)
  have "ts_part s' Q \<and> look s' = look s \<and> thr s' = thr s \<and>
    (r = Some a \<longrightarrow> a \<noteq> 0 \<and> alive s' a \<and> (\<forall>k. look s k \<noteq> Some a) \<and> (\<forall>t. turnstile (thr s t) \<noteq> a)) \<and>
    (no_leak s \<longrightarrow> alive s' b \<longrightarrow> r \<noteq> Some b \<longrightarrow> (\<exists>k. look s k = Some b) \<or> (\<exists>t. turnstile (thr s t) = b \<and> b \<noteq> 0))"
  proof (cases "r")
    case None
    then have "thr s' = thr s" "mem s' = mem s" "alive s' = alive s" "wait_roots s' = wait_roots s" "node_mem s' = node_mem s"
      using al by (auto simp: alloc_turnstile_def split: list.splits option.splits)
    then show ?thesis using rep_cong [of s' s] rep None by (auto simp: no_leak_def)
  next
    case (Some c)
    then obtain as where an: "ts_answers s = Some c # as" and s': "s' = s\<lparr>ts_answers := as, alive := (alive s)(c := True), mem := (mem s)(c := blank_ts)\<rparr>"
      using al by (auto simp: alloc_turnstile_def split: list.splits option.splits)
    have c: "c \<noteq> 0" "\<not> alive s c" using ok an by (simp_all add: alloc_ok_def)
    have lc: "look s k \<noteq> Some c" for k using queuesD(3) [OF qs, of k c] c(2) by auto
    have tc: "turnstile (thr s u) \<noteq> c" for u using ow c by (auto simp: owned_ok_def)
    have "same_key (mem s) (mem s') q" if "q \<noteq> c" for q using that s' by (simp add: same_key_def)
    then have "roots_ok (mem s') (wait_roots s)" "wait_lookup (mem s') (wait_roots s) = wait_lookup (mem s) (wait_roots s)"
      using wait_lookup_cong [of "mem s" "wait_roots s" "mem s'"] t lc by (metis look_def trie_ok_def)+
    then have lk: "look s' = look s" "trie_ok s'" using t s' by (simp_all add: look_def trie_ok_def)
    have q: "queued s' p xs = queued s p xs" if "p \<noteq> c" for p xs by (rule queued_cong) (use that s' in simp_all)
    have "queues_ok s' Q"
      unfolding queues_ok_def lk
    proof (intro conjI allI impI ballI)
      fix j assume "look s j = None"
      then show "Q j = []" using queuesD(1) [OF qs] by simp
    next
      fix j p assume j: "look s j = Some p"
      have "p \<noteq> c" using lc j by auto
      then show "p \<noteq> 0" "alive s' p" "queued s' p (Q j)" using queuesD(2,3,4) [OF qs j] q s' by simp_all
      fix u assume "u \<in> set (Q j)"
      then show "ts_blocked_on (thr s' u) = p" using queuesD(5) [OF qs j] s' by simp
    next
      fix u assume "ts_blocked_on (thr s' u) \<noteq> 0"
      then show "\<exists>j. u \<in> set (Q j)" using queuesD(6) [OF qs] s' by simp
    qed
    moreover have "owned_ok s'" using ow lk(1) s' by (auto simp: owned_ok_def)
    ultimately have "ts_part s' Q" using lk by (simp add: ts_part_def)
    moreover have "alive s' b \<Longrightarrow> r \<noteq> Some b \<Longrightarrow> alive s b" using s' Some by (auto split: if_splits)
    ultimately show ?thesis using lk(1) s' c lc tc Some by (auto simp: no_leak_def)
  qed
  then show "ts_part s' Q" "look s' = look s" "thr s' = thr s"
    "r = Some a \<Longrightarrow> a \<noteq> 0 \<and> alive s' a \<and> (\<forall>k. look s k \<noteq> Some a) \<and> (\<forall>t. turnstile (thr s t) \<noteq> a)"
    "no_leak s \<Longrightarrow> alive s' b \<Longrightarrow> r \<noteq> Some b \<Longrightarrow> (\<exists>k. look s k = Some b) \<or> (\<exists>t. turnstile (thr s t) = b \<and> b \<noteq> 0)"
    by blast+
qed

text \<open>A turnstile taken out of its thread's slot: it is live and nobody else refers to it.\<close>

definition loose :: "TsSys \<Rightarrow> nat \<Rightarrow> bool" where
  "loose s a \<longleftrightarrow> a \<noteq> 0 \<and> alive s a \<and> (\<forall>k. look s k \<noteq> Some a) \<and> (\<forall>t. turnstile (thr s t) \<noteq> a)"

definition no_leak_but :: "nat option \<Rightarrow> TsSys \<Rightarrow> bool" where
  "no_leak_but r s \<longleftrightarrow> (\<forall>b. alive s b \<longrightarrow> r \<noteq> Some b \<longrightarrow> (\<exists>k. look s k = Some b) \<or> (\<exists>t. turnstile (thr s t) = b \<and> b \<noteq> 0))"

lemma no_leak_but_None: "no_leak_but None s = no_leak s"
  by (simp add: no_leak_but_def no_leak_def)

lemma clear_slot_step:
  fixes tid :: u32
  assumes rep: "ts_part s Q"
  defines "s' \<equiv> upd_thr tid (\<lambda>t. t\<lparr>turnstile := 0\<rparr>) s"
  shows "ts_part s' Q" "look s' = look s" "slot_frame s s'" "turnstile (thr s tid) \<noteq> 0 \<Longrightarrow> loose s' (turnstile (thr s tid))"
    "no_leak s \<Longrightarrow> no_leak_but (if turnstile (thr s tid) = 0 then None else Some (turnstile (thr s tid))) s'"
    "ts_answers s' = ts_answers s" "alive s' = alive s"
proof -
  have t: "trie_ok s" and qs: "queues_ok s Q" and ow: "owned_ok s" using rep by (simp_all add: ts_part_def)
  show fr: "slot_frame s s'" by (simp add: slot_frame_def s'_def upd_thr_def same_links_def)
  show lk: "look s' = look s" by (simp add: s'_def upd_thr_def look_def)
  have tr: "trie_ok s'" using t by (simp add: s'_def upd_thr_def trie_ok_def)
  have ts: "turnstile (thr s' u) = (if u = tid then 0 else turnstile (thr s u))" "ts_blocked_on (thr s' u) = ts_blocked_on (thr s u)" for u
    by (simp_all add: s'_def upd_thr_def)
  show al: "alive s' = alive s" "ts_answers s' = ts_answers s" by (simp_all add: s'_def upd_thr_def)
  have "queues_ok s' Q" using qs slot_frame_queued [OF fr] by (simp add: queues_ok_def lk al ts)
  moreover have "owned_ok s'" using ow by (auto simp: owned_ok_def lk al ts)
  ultimately show "ts_part s' Q" using tr by (simp add: ts_part_def)
  show "loose s' (turnstile (thr s tid))" if "turnstile (thr s tid) \<noteq> 0"
    using ow that by (auto simp: loose_def owned_ok_def lk al ts)
  show "no_leak_but (if turnstile (thr s tid) = 0 then None else Some (turnstile (thr s tid))) s'" if nl: "no_leak s"
    unfolding no_leak_but_def lk al
  proof (intro allI impI)
    fix b assume b: "alive s b" "(if turnstile (thr s tid) = 0 then None else Some (turnstile (thr s tid))) \<noteq> Some b"
    then consider k where "look s k = Some b" | u where "turnstile (thr s u) = b" "b \<noteq> 0" using nl by (auto simp: no_leak_def)
    then show "(\<exists>k. look s k = Some b) \<or> (\<exists>t. turnstile (thr s' t) = b \<and> b \<noteq> 0)"
    proof cases
      case 2
      then have "u \<noteq> tid" using b(2) by auto
      then show ?thesis using 2 ts(1) by metis
    qed blast
  qed
qed

lemma take_or_alloc_step:
  assumes rep: "ts_part s Q" and ok: "alloc_ok s" and ta: "take_or_alloc_turnstile tid s = (r, s')"
  shows "ts_part s' Q" "look s' = look s" "r = Some p \<Longrightarrow> loose s' p" "no_leak s \<Longrightarrow> no_leak_but r s'"
    "\<And>t. ts_blocked_on (thr s' t) = ts_blocked_on (thr s t)"
proof -
  let ?c = "upd_thr tid (\<lambda>t. t\<lparr>turnstile := 0\<rparr>) s"
  note cs = clear_slot_step [OF rep, of tid]
  have bc: "ts_blocked_on (thr ?c t) = ts_blocked_on (thr s t)" for t using cs(3) by (simp add: slot_frame_def)
  have "ts_part s' Q \<and> look s' = look s \<and> (r = Some p \<longrightarrow> loose s' p) \<and> (no_leak s \<longrightarrow> no_leak_but r s') \<and>
      (\<forall>t. ts_blocked_on (thr s' t) = ts_blocked_on (thr s t))"
  proof (cases "turnstile (thr s tid) = 0")
    case False
    then have "r = Some (turnstile (thr s tid))" "s' = ?c" using ta by (auto simp: take_or_alloc_turnstile_def Let_def)
    then show ?thesis using cs(1,2,4,5) bc False by auto
  next
    case True
    then have a: "alloc_turnstile ?c = (r, s')" using ta by (simp add: take_or_alloc_turnstile_def Let_def)
    have okc: "alloc_ok ?c" using ok unfolding alloc_ok_def cs(6,7) .
    note as = alloc_turnstile_step [OF cs(1) okc a]
    have "no_leak_but r s'" if "no_leak s"
    proof -
      have "no_leak ?c" using cs(5) [OF that] True by (simp add: no_leak_but_None)
      then show ?thesis using as(2,3,5) unfolding no_leak_but_def by metis
    qed
    moreover have "r = Some p \<longrightarrow> loose s' p" using as(4) [of p] unfolding loose_def as(2,3) by blast
    ultimately show ?thesis using as(1,2,3) cs(2) bc by simp
  qed
  then show "ts_part s' Q" "look s' = look s" "r = Some p \<Longrightarrow> loose s' p" "no_leak s \<Longrightarrow> no_leak_but r s'"
    "\<And>t. ts_blocked_on (thr s' t) = ts_blocked_on (thr s t)" by blast+
qed


text \<open>Initialising a loose turnstile and putting it into the trie.\<close>

lemma init_frame [simp]:
  "thr (init_turnstile p k h s) = thr s" "alive (init_turnstile p k h s) = alive s" "wait_roots (init_turnstile p k h s) = wait_roots s"
  "node_mem (init_turnstile p k h s) = node_mem s" "mem (init_turnstile p k h s) = (mem s)(p := init_ts k h (mem s p))"
  by (simp_all add: init_turnstile_def upd_ts_def)

lemma queued_init: "queued s p [] \<longleftrightarrow> ts_head (mem s p) = TS_NIL \<and> ts_tail (mem s p) = TS_NIL \<and> waiter_count (mem s p) = 0 \<and> canary_tail (mem s p) = TS_CANARY"
  by (auto simp: queued_def unat_eq_0)

lemma init_ts_fields:
  "ts_head (init_ts k h t) = TS_NIL" "ts_tail (init_ts k h t) = TS_NIL" "waiter_count (init_ts k h t) = 0" "canary_tail (init_ts k h t) = TS_CANARY"
  by (simp_all add: init_ts_def split: wkey.splits)

lemma insert_turnstile_step:
  assumes rep: "ts_part s Q" and p: "loose s p" and k: "look s k = None"
    and ins: "sys_insert (key_hash k) p (init_turnstile p k (key_hash k) s) = (ok, s')"
  shows "ts_part (if ok then s' else free_turnstile p s') Q"
    "look (if ok then s' else free_turnstile p s') = (if ok then (look s)(k \<mapsto> p) else look s)"
    "no_leak_but (Some p) s \<Longrightarrow> no_leak (if ok then s' else free_turnstile p s')" "thr s' = thr s"
proof -
  let ?i = "init_turnstile p k (key_hash k) s" and ?f = "if ok then s' else free_turnstile p s'"
  have t: "trie_ok s" and qs: "queues_ok s Q" and ow: "owned_ok s" using rep by (simp_all add: ts_part_def)
  have lp: "look s j \<noteq> Some p" "turnstile (thr s u) \<noteq> p" "p \<noteq> 0" "alive s p" for j u using p by (simp_all add: loose_def)
  have cong: "roots_ok (mem ?i) (wait_roots s)" "wait_lookup (mem ?i) (wait_roots s) = look s"
    using wait_lookup_cong [of "mem s" "wait_roots s" "mem ?i"] t lp(1) by (force simp: same_key_def look_def trie_ok_def)+
  obtain rs nm where w: "wait_insert (mem ?i) (wait_roots s) (key_hash k) p (node_mem s) = (ok, rs, nm)"
    and s': "s' = ?i\<lparr>wait_roots := rs, node_mem := nm\<rparr>" using ins by (auto simp: sys_insert_def split: prod.splits)
  have kp: "key_of (mem ?i p) = k" "ts_hash (mem ?i p) = key_hash k" by simp_all
  have none: "wait_lookup (mem ?i) (wait_roots s) (key_of (mem ?i p)) = None" unfolding cong(2) kp using k .
  have hk: "key_hash k = key_hash (key_of (mem ?i p))" unfolding kp ..
  note wi = wait_insert_correct [OF cong(1) hk kp(2) none w]
  have m: "mem s' = mem ?i" "thr s' = thr s" "alive s' = alive s" "wait_roots s' = rs" "node_mem s' = nm" using s' by simp_all
  show "thr s' = thr s" using m by simp
  have lk': "look s' = (if ok then (look s)(k \<mapsto> p) else look s)"
    using wi(2) unfolding look_def [of s'] m(1,4) kp cong(2) .
  have tr': "trie_ok s'" using wi(1,3) t unfolding trie_ok_def m by simp
  have f: "thr ?f = thr s" "mem ?f = mem ?i" "look ?f = look s'" "trie_ok ?f = trie_ok s'" "alive ?f = (if ok then alive s else (alive s)(p := False))"
    using m by (simp_all add: free_turnstile_def look_def trie_ok_def)
  show lf: "look ?f = (if ok then (look s)(k \<mapsto> p) else look s)" using f(3) lk' by simp
  have qsame: "queued ?f a xs = queued s a xs" if "a \<noteq> p" for a xs by (rule queued_cong) (use that f in simp_all)
  have qp: "queued ?f p []" unfolding queued_init f(2) by (simp add: init_ts_fields)
  have "queues_ok ?f Q"
    unfolding queues_ok_def lf
  proof (intro conjI allI impI ballI)
    fix j assume "(if ok then (look s)(k \<mapsto> p) else look s) j = None"
    then show "Q j = []" using queuesD(1) [OF qs, of j] by (auto split: if_splits)
  next
    fix j a assume j: "(if ok then (look s)(k \<mapsto> p) else look s) j = Some a"
    have "a \<noteq> 0 \<and> alive ?f a \<and> queued ?f a (Q j) \<and> (\<forall>u\<in>set (Q j). ts_blocked_on (thr ?f u) = a)"
    proof (cases "ok \<and> j = k")
      case True
      then have "a = p" using j by simp
      then show ?thesis using lp(3,4) qp True queuesD(1) [OF qs k] f(5) by simp
    next
      case False
      then have j': "look s j = Some a" using j by (auto split: if_splits)
      have "a \<noteq> p" using lp(1) j' by auto
      then show ?thesis using queuesD(2,3,4,5) [OF qs j'] qsame f(1,5) by simp
    qed
    then show "a \<noteq> 0" "alive ?f a" "queued ?f a (Q j)" "\<And>u. u \<in> set (Q j) \<Longrightarrow> ts_blocked_on (thr ?f u) = a" by blast+
  next
    fix u assume "ts_blocked_on (thr ?f u) \<noteq> 0"
    then show "\<exists>j. u \<in> set (Q j)" using queuesD(6) [OF qs] f(1) by simp
  qed
  moreover have "owned_ok ?f"
    unfolding owned_ok_def lf f(1,5) using ow lp(2) by (auto simp: owned_ok_def)
  ultimately show "ts_part ?f Q" using tr' f(4) by (simp add: ts_part_def)
  assume nl: "no_leak_but (Some p) s"
  show "no_leak ?f"
    unfolding no_leak_def lf f(1)
  proof (intro allI impI)
    fix a assume a: "alive ?f a"
    show "(\<exists>j. (if ok then (look s)(k \<mapsto> p) else look s) j = Some a) \<or> (\<exists>u. turnstile (thr s u) = a \<and> a \<noteq> 0)"
    proof (cases "a = p")
      case True
      then have ok using a f(5) by (auto split: if_splits)
      then show ?thesis using True by auto
    next
      case False
      then have "alive s a" using a f(5) by (auto split: if_splits)
      then consider j where "look s j = Some a" | u where "turnstile (thr s u) = a" "a \<noteq> 0"
        using nl False by (auto simp: no_leak_but_def)
      then show ?thesis
      proof cases
        case 1
        then have "j \<noteq> k" using k by auto
        then show ?thesis using 1 by auto
      qed blast
    qed
  qed
qed

lemma turnstile_for_step:
  assumes rep: "ts_part s Q" and ok: "alloc_ok s" and tf: "turnstile_for (key_hash k) k tid s = (r, s')"
  shows "ts_part s' Q" "no_leak s \<Longrightarrow> no_leak s'" "\<And>t. ts_blocked_on (thr s' t) = ts_blocked_on (thr s t)"
    "look s' = (case r of Some p \<Rightarrow> (look s)(k \<mapsto> p) | None \<Rightarrow> look s)" "r = None \<Longrightarrow> look s k = None"
proof -
  have "ts_part s' Q \<and> (no_leak s \<longrightarrow> no_leak s') \<and> (\<forall>t. ts_blocked_on (thr s' t) = ts_blocked_on (thr s t)) \<and>
    look s' = (case r of Some p \<Rightarrow> (look s)(k \<mapsto> p) | None \<Rightarrow> look s) \<and> (r = None \<longrightarrow> look s k = None)"
  proof (cases "look s k")
    case (Some p)
    then have "r = Some p" "s' = s" using tf by (simp_all add: turnstile_for_def sys_lookup_look)
    then show ?thesis using rep Some by (auto simp: fun_upd_idem)
  next
    case None
    obtain a s1 where ta: "take_or_alloc_turnstile tid s = (a, s1)" by fastforce
    note ts = take_or_alloc_step [OF rep ok ta]
    show ?thesis
    proof (cases a)
      case None2: None
      then have "r = None" "s' = s1" using tf None ta by (simp_all add: turnstile_for_def sys_lookup_look)
      then show ?thesis using ts(1,2,4,5) None None2 by (auto simp: no_leak_but_None)
    next
      case (Some p)
      obtain b s2 where ins: "sys_insert (key_hash k) p (init_turnstile p k (key_hash k) s1) = (b, s2)" by fastforce
      have l1: "look s1 k = None" using ts(2) None by simp
      note it = insert_turnstile_step [OF ts(1) ts(3) [OF Some] l1 ins]
      have r: "r = (if b then Some p else None)" "s' = (if b then s2 else free_turnstile p s2)"
        using tf None ta Some ins by (auto simp: turnstile_for_def sys_lookup_look split: if_splits bool.splits)
      have thr: "thr s' = thr s1" using it(4) r(2) by (simp add: free_turnstile_def)
      have "no_leak s'" if "no_leak s" using ts(4) [OF that] it(3) Some r(2) by simp
      moreover have "look s' = (case r of Some p \<Rightarrow> (look s)(k \<mapsto> p) | None \<Rightarrow> look s)"
        unfolding r(2) it(2) r(1) ts(2) by simp
      ultimately show ?thesis using it(1) r None thr ts(5) by simp
    qed
  qed
  then show "ts_part s' Q" "no_leak s \<Longrightarrow> no_leak s'" "\<And>t. ts_blocked_on (thr s' t) = ts_blocked_on (thr s t)"
    "look s' = (case r of Some p \<Rightarrow> (look s)(k \<mapsto> p) | None \<Rightarrow> look s)" "r = None \<Longrightarrow> look s k = None" by blast+
qed


section \<open>The calls\<close>

lemma repD: "ts_rep s Q \<Longrightarrow> ts_part s Q" "ts_rep s Q \<Longrightarrow> look s k = Some p \<Longrightarrow> Q k \<noteq> []"
  by (simp_all add: ts_rep_def)

lemma rep_queue: "ts_rep s Q \<Longrightarrow> look s k = None \<longleftrightarrow> Q k = []"
  using queuesD(1) [of s Q k] by (cases "look s k") (auto simp: ts_rep_def ts_part_def)

lemma block_step:
  assumes rep: "ts_rep s Q" and ok: "alloc_ok s" and t: "tid \<noteq> TS_NIL" "ts_blocked_on (thr s tid) = 0" and n: "length (Q k) < 65535"
    and tf: "turnstile_for (key_hash k) k tid s = (r, s')"
  shows "case r of None \<Rightarrow> ts_rep s' Q \<and> (no_leak s \<longrightarrow> no_leak s')
    | Some p \<Rightarrow> ts_rep (block_on tid p (ts_enqueue p tid s')) (Q(k := Q k @ [tid])) \<and>
        (no_leak s \<longrightarrow> no_leak (block_on tid p (ts_enqueue p tid s')))"
proof -
  note f = turnstile_for_step [OF repD(1) [OF rep] ok tf]
  show ?thesis
  proof (cases r)
    case None
    then show ?thesis using f(1,2,4) rep by (simp add: ts_rep_def)
  next
    case (Some p)
    have l: "look s' k = Some p" "look s' = (look s)(k \<mapsto> p)" using f(4) Some by simp_all
    have b: "ts_blocked_on (thr s' tid) = 0" using f(3) t(2) by simp
    note j = join_step [OF f(1) l(1) t(1) b n]
    show ?thesis using Some j f(2) repD(2) [OF rep] l(2) by (auto simp: ts_rep_def)
  qed
qed

lemma retire_step:
  assumes rep: "ts_rep s Q" and k: "look s k = Some p" and s1: "ts_part s1 (Q(k := xs))" "look s1 = look s" "no_leak s1 = no_leak s"
    "waiter_count (mem s1 p) = 0 \<longleftrightarrow> xs = []"
  shows "ts_rep (retire (key_hash k) k p x s1) (Q(k := xs)) \<and> (no_leak s \<longrightarrow> no_leak (retire (key_hash k) k p x s1))"
proof (cases "xs = []")
  case True
  have e: "(Q(k := xs)) k = []" "look s1 k = Some p" using True s1(2) k by simp_all
  note g = give_back_step [where Q = "Q(k := xs)", OF s1(1) e(2,1), of x]
  show ?thesis using True s1(2-) g repD(2) [OF rep] by (auto simp: retire_def ts_rep_def)
next
  case False
  then show ?thesis using s1 repD(2) [OF rep] by (auto simp: retire_def ts_rep_def)
qed

lemma leave_step:
  assumes rep: "ts_rep s Q" and k: "look s k = Some p"
  obtains x xs s1 where "Q k = x # xs" "ts_dequeue_head p s = (Some x, s1)" "ts_rep (retire (key_hash k) k p x (block_on x 0 s1)) (Q(k := xs))"
    "no_leak s \<Longrightarrow> no_leak (retire (key_hash k) k p x (block_on x 0 s1))"
proof -
  obtain x xs where q: "Q k = x # xs" using repD(2) [OF rep k] by (cases "Q k") auto
  obtain s1 where s1: "ts_dequeue_head p s = (Some x, s1)" "ts_part (block_on x 0 s1) (Q(k := xs))" "look (block_on x 0 s1) = look s"
    "no_leak (block_on x 0 s1) = no_leak s" "waiter_count (mem (block_on x 0 s1) p) = 0 \<longleftrightarrow> xs = []"
    using dequeue_step [OF repD(1) [OF rep] k q] by blast
  show ?thesis using that q s1(1) retire_step [OF rep k s1(2-5)] by blast
qed

lemma port_enqueue_step:
  assumes "ts_rep s Q" "alloc_ok s" "tid \<noteq> TS_NIL" "ts_blocked_on (thr s tid) = 0" "kt \<noteq> KEY_FUTEX" "length (Q (port_key pid kt)) < 65535"
    "port_enqueue_with_check pid kt tid cond s = (ok, s')"
  shows "ts_rep s' (if ok then Q(port_key pid kt := Q (port_key pid kt) @ [tid]) else Q)" "ok \<Longrightarrow> cond" "no_leak s \<Longrightarrow> no_leak s'"
proof -
  let ?k = "port_key pid kt" and ?s = "emit (ClearWakeup tid) s"
  obtain r s1 where tf: "turnstile_for (key_hash ?k) ?k tid ?s = (r, s1)" by fastforce
  have "alloc_ok ?s" using assms(2) by simp
  then have b: "case r of None \<Rightarrow> ts_rep s1 Q \<and> (no_leak ?s \<longrightarrow> no_leak s1)
    | Some p \<Rightarrow> ts_rep (block_on tid p (ts_enqueue p tid s1)) (Q(?k := Q ?k @ [tid])) \<and>
        (no_leak ?s \<longrightarrow> no_leak (block_on tid p (ts_enqueue p tid s1)))"
    using block_step [where Q = Q and k = ?k, OF _ _ assms(3) _ assms(6) tf] assms(1,4) by simp
  show "ts_rep s' (if ok then Q(?k := Q ?k @ [tid]) else Q)" "ok \<Longrightarrow> cond" "no_leak s \<Longrightarrow> no_leak s'"
    using assms(1,5,7) tf b by (auto simp: port_enqueue_with_check_def port_hash Let_def split: if_splits option.splits prod.splits)
qed

lemma port_enqueue_raw_step:
  assumes "ts_rep s Q" "alloc_ok s" "tid \<noteq> TS_NIL" "ts_blocked_on (thr s tid) = 0" "kt \<noteq> KEY_FUTEX" "length (Q (port_key pid kt)) < 65535"
  shows "\<exists>Q'. ts_rep (port_enqueue_raw pid kt tid s) Q' \<and> Q' \<in> {Q, Q(port_key pid kt := Q (port_key pid kt) @ [tid])}"
    "no_leak s \<Longrightarrow> no_leak (port_enqueue_raw pid kt tid s)"
proof -
  let ?k = "port_key pid kt"
  obtain r s1 where tf: "turnstile_for (key_hash ?k) ?k tid s = (r, s1)" by fastforce
  note b = block_step [where Q = Q and k = ?k, OF assms(1,2,3,4,6) tf]
  show "\<exists>Q'. ts_rep (port_enqueue_raw pid kt tid s) Q' \<and> Q' \<in> {Q, Q(?k := Q ?k @ [tid])}" "no_leak s \<Longrightarrow> no_leak (port_enqueue_raw pid kt tid s)"
    using assms(5) tf b by (auto simp: port_enqueue_raw_def port_hash split: option.splits)
qed

lemma port_wake_one_step:
  assumes "ts_rep s Q" "kt \<noteq> KEY_FUTEX" "port_wake_one pid kt s = (r, s')"
  shows "r = (case Q (port_key pid kt) of [] \<Rightarrow> None | x # xs \<Rightarrow> Some x)" "ts_rep s' (Q(port_key pid kt := tl (Q (port_key pid kt))))"
    "no_leak s \<Longrightarrow> no_leak s'"
proof -
  let ?k = "port_key pid kt"
  have "r = (case Q ?k of [] \<Rightarrow> None | x # xs \<Rightarrow> Some x) \<and> ts_rep s' (Q(?k := tl (Q ?k))) \<and> (no_leak s \<longrightarrow> no_leak s')"
  proof (cases "look s ?k")
    case None
    then show ?thesis
      using assms rep_queue [OF assms(1), of ?k] by (simp add: port_wake_one_def port_hash sys_lookup_look Let_def fun_upd_idem)
  next
    case (Some p)
    obtain x xs s1 where l: "Q ?k = x # xs" "ts_dequeue_head p s = (Some x, s1)"
      "ts_rep (retire (key_hash ?k) ?k p x (block_on x 0 s1)) (Q(?k := xs))" "no_leak s \<Longrightarrow> no_leak (retire (key_hash ?k) ?k p x (block_on x 0 s1))"
      using leave_step [OF assms(1) Some] by blast
    then show ?thesis using assms(2,3) Some by (auto simp: port_wake_one_def port_hash sys_lookup_look Let_def)
  qed
  then show "r = (case Q ?k of [] \<Rightarrow> None | x # xs \<Rightarrow> Some x)" "ts_rep s' (Q(?k := tl (Q ?k)))" "no_leak s \<Longrightarrow> no_leak s'" by blast+
qed

lemma port_dequeue_one_step:
  assumes "ts_rep s Q" "kt \<noteq> KEY_FUTEX" "port_dequeue_one pid kt s = (r, s')"
  shows "r = (case Q (port_key pid kt) of [] \<Rightarrow> None | x # xs \<Rightarrow> Some x)" "ts_rep s' (Q(port_key pid kt := tl (Q (port_key pid kt))))"
    "no_leak s \<Longrightarrow> no_leak s'" "deq_ts_empty_bug s' = deq_ts_empty_bug s \<and> deq_ts_empty_ok s' = deq_ts_empty_ok s"
proof -
  let ?k = "port_key pid kt"
  have "r = (case Q ?k of [] \<Rightarrow> None | x # xs \<Rightarrow> Some x) \<and> ts_rep s' (Q(?k := tl (Q ?k))) \<and> (no_leak s \<longrightarrow> no_leak s') \<and>
      deq_ts_empty_bug s' = deq_ts_empty_bug s \<and> deq_ts_empty_ok s' = deq_ts_empty_ok s"
  proof (cases "look s ?k")
    case None
    then have "s' = s\<lparr>deq_hamt_miss := deq_hamt_miss s + 1\<rparr>" "r = None"
      using assms by (simp_all add: port_dequeue_one_def port_hash sys_lookup_look Let_def)
    moreover from this have "ts_rep s' Q = ts_rep s Q" "no_leak s' = no_leak s" by (intro rep_cong; simp)+
    ultimately show ?thesis using assms(1) None rep_queue [OF assms(1), of ?k] by (simp add: fun_upd_idem)
  next
    case (Some p)
    obtain x xs s1 where l: "Q ?k = x # xs" "ts_dequeue_head p s = (Some x, s1)"
      "ts_rep (retire (key_hash ?k) ?k p x (block_on x 0 s1)) (Q(?k := xs))" "no_leak s \<Longrightarrow> no_leak (retire (key_hash ?k) ?k p x (block_on x 0 s1))"
      using leave_step [OF assms(1) Some] by blast
    have "deq_ts_empty_bug s1 = deq_ts_empty_bug s" "deq_ts_empty_ok s1 = deq_ts_empty_ok s"
      using l(2) by (auto simp: ts_dequeue_head_def link_defs split: if_splits)
    then show ?thesis
      using assms(2,3) Some l by (auto simp: port_dequeue_one_def port_hash sys_lookup_look Let_def retire_def give_back_def
          free_turnstile_def upd_thr_def sys_remove_def block_on_def split: prod.splits)
  qed
  then show "r = (case Q ?k of [] \<Rightarrow> None | x # xs \<Rightarrow> Some x)" "ts_rep s' (Q(?k := tl (Q ?k)))" "no_leak s \<Longrightarrow> no_leak s'"
    "deq_ts_empty_bug s' = deq_ts_empty_bug s \<and> deq_ts_empty_ok s' = deq_ts_empty_ok s" by blast+
qed


lemma check_invariant_rep: "ts_part (check_invariant p s) Q = ts_part s Q" "look (check_invariant p s) = look s" "no_leak (check_invariant p s) = no_leak s"
  by (intro rep_cong; simp)+

lemma dequeue_events:
  assumes "ts_dequeue_head p s = (r, s1)"
  shows "events (block_on x 0 s1) = events s" "umem (block_on x 0 s1) = umem s"
  using dequeue_frame [OF assms] by (simp_all add: wq_frame_def block_on_def upd_thr_def)

lemma futex_wake_loop_step:
  assumes "ts_part s Q" "look s k = Some p"
  shows "\<exists>s'. futex_wake_loop p n w lst s = (w + min n (length (Q k)), if n = 0 \<or> Q k = [] then lst else last (take n (Q k)), s') \<and>
    ts_part s' (Q(k := drop n (Q k))) \<and> look s' = look s \<and> no_leak s' = no_leak s \<and> events s' = events s @ map WakeThread (take n (Q k))"
  using assms
proof (induction n arbitrary: s Q w lst)
  case 0
  then show ?case by (simp add: fun_upd_idem)
next
  case (Suc n)
  have qs: "queues_ok s Q" using Suc.prems(1) by (simp add: ts_part_def)
  show ?case
  proof (cases "Q k")
    case Nil
    have "queued s p []" using queuesD(4) [OF qs Suc.prems(2)] Nil by simp
    then have "futex_wake_loop p (Suc n) w lst s = (w, lst, check_invariant p s)" by (simp add: dequeue_empty)
    then show ?thesis using Nil Suc.prems check_invariant_rep [of p s] by (simp add: fun_upd_idem)
  next
    case (Cons x xs)
    obtain s1 where s1: "ts_dequeue_head p s = (Some x, s1)" "ts_part (block_on x 0 s1) (Q(k := xs))" "look (block_on x 0 s1) = look s"
      "no_leak (block_on x 0 s1) = no_leak s" using dequeue_step [OF Suc.prems Cons] by blast
    let ?s = "emit (WakeThread x) (block_on x 0 s1)"
    have a: "ts_part ?s (Q(k := xs))" "look ?s k = Some p" using s1(2,3) Suc.prems(2) by simp_all
    obtain s' where s': "futex_wake_loop p n (w + 1) x ?s = (w + 1 + min n (length xs), if n = 0 \<or> xs = [] then x else last (take n xs), s')"
      "ts_part s' (Q(k := drop n xs))" "look s' = look ?s" "no_leak s' = no_leak ?s" "events s' = events ?s @ map WakeThread (take n xs)"
      using Suc.IH [OF a, of "w + 1" x, unfolded fun_upd_upd fun_upd_same] by blast
    have ev: "events ?s = events s @ [WakeThread x]" using dequeue_events(1) [OF s1(1)] by (simp add: emit_def)
    have "futex_wake_loop p (Suc n) w lst s = (w + min (Suc n) (length (Q k)), last (take (Suc n) (Q k)), s')"
      using s1(1) s'(1) Cons by (auto simp: take_Cons')
    then show ?thesis using s' s1(3,4) Cons ev by (simp del: fun_upd_apply)
  qed
qed

lemma wake_all_is_futex_loop:
  assumes "ts_part s Q" "look s k = Some p" "length (Q k) < n"
  shows "wake_all_loop p w lst s = Some (futex_wake_loop p n w lst s)"
  using assms
proof (induction n arbitrary: s Q w lst)
  case (Suc n)
  have qs: "queues_ok s Q" using Suc.prems(1) by (simp add: ts_part_def)
  show ?case
  proof (cases "Q k")
    case Nil
    then have "queued s p []" using queuesD(4) [OF qs Suc.prems(2)] by simp
    then show ?thesis by (subst wake_all_loop.simps) (simp add: dequeue_empty)
  next
    case (Cons x xs)
    obtain s1 where s1: "ts_dequeue_head p s = (Some x, s1)" "ts_part (block_on x 0 s1) (Q(k := xs))" "look (block_on x 0 s1) = look s"
      using dequeue_step [OF Suc.prems(1,2) Cons] by blast
    let ?s = "emit (WakeThread x) (block_on x 0 s1)"
    have a: "ts_part ?s (Q(k := xs))" "look ?s k = Some p" using s1(2,3) Suc.prems(2) by simp_all
    then show ?thesis
      using Suc.IH [OF a, of "w + 1" x] Suc.prems(3) Cons s1(1) by (subst wake_all_loop.simps) (simp add: fun_upd_same del: fun_upd_apply)
  qed
qed simp

lemma queue_count: "ts_part s Q \<Longrightarrow> look s k = Some p \<Longrightarrow> waiter_count (mem s p) = 0 \<longleftrightarrow> Q k = []"
  using queuesD(4) [of s Q k p] by (auto simp: ts_part_def queued_def unat_eq_0)

lemma queue_members: "ts_part s Q \<Longrightarrow> t \<in> set (Q k) \<Longrightarrow> t \<noteq> TS_NIL"
proof -
  assume a: "ts_part s Q" "t \<in> set (Q k)"
  then have qs: "queues_ok s Q" by (simp add: ts_part_def)
  obtain p where "look s k = Some p" using in_queue_look [OF qs a(2)] by blast
  then have "dls (thr s) TS_NIL (ts_head (mem s p)) (Q k) TS_NIL (ts_tail (mem s p))" using queuesD(4) [OF qs] by (simp add: queued_def)
  then show ?thesis using dls_nonzero a(2) by blast
qed

lemma wake_some_step:
  assumes rep: "ts_rep s Q" and k: "look s k = Some p" and l: "futex_wake_loop p n 0 TS_NIL s = (w, lst, s1)"
  defines "s2 \<equiv> if waiter_count (mem s1 p) = 0
    then if lst \<noteq> TS_NIL then give_back lst p (sys_remove (key_hash k) k s1) else free_turnstile p (sys_remove (key_hash k) k s1) else s1"
  shows "w = min n (length (Q k))" "ts_rep s2 (Q(k := drop n (Q k)))" "no_leak s \<Longrightarrow> no_leak s2"
    "events s2 = events s @ map WakeThread (take n (Q k))" "waiter_count (mem s1 p) = 0 \<longleftrightarrow> length (Q k) \<le> n" "waiter_count (mem s1 p) = 0 \<Longrightarrow> lst \<noteq> TS_NIL"
proof -
  have ne: "Q k \<noteq> []" using repD(2) [OF rep k] .
  have st: "w = min n (length (Q k))" "lst = (if n = 0 \<or> Q k = [] then TS_NIL else last (take n (Q k)))" "ts_part s1 (Q(k := drop n (Q k)))"
    "look s1 = look s" "no_leak s1 = no_leak s" "events s1 = events s @ map WakeThread (take n (Q k))"
    using futex_wake_loop_step [OF repD(1) [OF rep] k, of n 0 TS_NIL] l by auto
  show "w = min n (length (Q k))" using st(1) .
  have k1: "look s1 k = Some p" using st(4) k by simp
  show cnt: "waiter_count (mem s1 p) = 0 \<longleftrightarrow> length (Q k) \<le> n" using queue_count [OF st(3) k1] by simp
  show lst: "lst \<noteq> TS_NIL" if z: "waiter_count (mem s1 p) = 0"
  proof -
    have "n \<noteq> 0" using cnt z ne by (cases n) auto
    then have "lst \<in> set (take n (Q k))" using st(2) ne by (auto intro!: last_in_set)
    then have "lst \<in> set (Q k)" by (meson in_set_takeD)
    then show ?thesis using queue_members [OF repD(1) [OF rep]] by blast
  qed
  have ev: "events (give_back t a (sys_remove h j u)) = events u" for t a h j u
    by (simp add: give_back_def upd_thr_def free_turnstile_def sys_remove_def split: prod.splits)
  have "ts_rep s2 (Q(k := drop n (Q k))) \<and> (no_leak s \<longrightarrow> no_leak s2) \<and> events s2 = events s @ map WakeThread (take n (Q k))"
  proof (cases "waiter_count (mem s1 p) = 0")
    case True
    have e: "(Q(k := drop n (Q k))) k = []" using cnt True by simp
    have s2: "s2 = give_back lst p (sys_remove (key_hash k) k s1)" using True lst [OF True] by (simp add: s2_def)
    note g = give_back_step [where Q = "Q(k := drop n (Q k))", OF st(3) k1 e, of lst]
    show ?thesis using g st(4,5,6) repD(2) [OF rep] unfolding s2 ev by (auto simp: ts_rep_def)
  next
    case False
    then have "s2 = s1" "drop n (Q k) \<noteq> []" using cnt by (simp_all add: s2_def)
    then show ?thesis using st repD(2) [OF rep] by (auto simp: ts_rep_def)
  qed
  then show "ts_rep s2 (Q(k := drop n (Q k)))" "no_leak s \<Longrightarrow> no_leak s2" "events s2 = events s @ map WakeThread (take n (Q k))" by blast+
qed

lemma port_wake_all_step:
  assumes rep: "ts_rep s Q" and kt: "kt \<noteq> KEY_FUTEX"
  shows "\<exists>s'. port_wake_all pid kt s = Some (of_nat (length (Q (port_key pid kt))), s') \<and> ts_rep s' (Q(port_key pid kt := [])) \<and>
    (no_leak s \<longrightarrow> no_leak s') \<and> events s' = events s @ map WakeThread (Q (port_key pid kt))"
proof (cases "look s (port_key pid kt)")
  case None
  then show ?thesis using rep_queue [OF rep, of "port_key pid kt"] rep kt
    by (simp add: port_wake_all_def port_hash sys_lookup_look Let_def fun_upd_idem)
next
  case (Some p)
  let ?k = "port_key pid kt" and ?n = "Suc (length (Q (port_key pid kt)))"
  obtain w lst s1 where l: "futex_wake_loop p ?n 0 TS_NIL s = (w, lst, s1)" by (metis prod_cases3)
  note ws = wake_some_step [OF rep Some l]
  have wl: "wake_all_loop p 0 TS_NIL s = Some (w, lst, s1)" using wake_all_is_futex_loop [OF repD(1) [OF rep] Some, of ?n] l by simp
  have z: "waiter_count (mem s1 p) = 0" using ws(5) by simp
  have "port_wake_all pid kt s = Some (of_nat w, give_back lst p (sys_remove (key_hash ?k) ?k s1))"
    using Some wl ws(6) [OF z] kt by (simp add: port_wake_all_def port_hash sys_lookup_look Let_def)
  then show ?thesis using ws z ws(6) [OF z] by simp
qed

lemma futex_wake_step:
  assumes rep: "ts_rep s Q" and f: "futex_wake aspace addr cnt s = (r, s')"
  shows "r = of_nat (min (unat cnt) (length (Q (futex_key aspace addr))))" "ts_rep s' (Q(futex_key aspace addr := drop (unat cnt) (Q (futex_key aspace addr))))"
    "no_leak s \<Longrightarrow> no_leak s'" "events s' = events s @ map WakeThread (take (unat cnt) (Q (futex_key aspace addr)))"
proof -
  let ?k = "futex_key aspace addr"
  have "r = of_nat (min (unat cnt) (length (Q ?k))) \<and> ts_rep s' (Q(?k := drop (unat cnt) (Q ?k))) \<and> (no_leak s \<longrightarrow> no_leak s') \<and>
      events s' = events s @ map WakeThread (take (unat cnt) (Q ?k))"
  proof (cases "look s ?k")
    case None
    then show ?thesis using rep_queue [OF rep, of ?k] rep f
      by (simp add: futex_wake_def futex_key_hash sys_lookup_look Let_def fun_upd_idem)
  next
    case (Some p)
    obtain w lst s1 where l: "futex_wake_loop p (unat cnt) 0 TS_NIL s = (w, lst, s1)" by (metis prod_cases3)
    note ws = wake_some_step [OF rep Some l]
    have "(r, s') = (of_nat w, if waiter_count (mem s1 p) = 0
      then if lst \<noteq> TS_NIL then give_back lst p (sys_remove (key_hash ?k) ?k s1) else free_turnstile p (sys_remove (key_hash ?k) ?k s1) else s1)"
      using Some f l by (auto simp: futex_wake_def futex_key_hash sys_lookup_look Let_def)
    then show ?thesis using ws(1-4) by simp
  qed
  then show "r = of_nat (min (unat cnt) (length (Q ?k)))" "ts_rep s' (Q(?k := drop (unat cnt) (Q ?k)))" "no_leak s \<Longrightarrow> no_leak s'"
    "events s' = events s @ map WakeThread (take (unat cnt) (Q ?k))" by blast+
qed

section \<open>Clean-up\<close>

lemma block_first_frame: "wq_frame p (block_on tid a s) s' \<Longrightarrow> links_frame p s s'"
  by (auto simp: wq_frame_def links_frame_def block_on_def upd_thr_def)

lemma remove_step:
  assumes rep: "ts_part s Q" and k: "look s k = Some p" and x: "Q k = us @ x # vs"
  obtains s1 where "ts_remove p x (block_on x 0 s) = Some (True, s1)" "ts_part s1 (Q(k := us @ vs))" "look s1 = look s"
    "no_leak s1 = no_leak s" "\<And>t. turnstile (thr s1 t) = turnstile (thr s t)" "alloc_ok s1 = alloc_ok s"
    "\<And>t. prio (thr s1 t) = prio (thr s t)"
proof -
  have qs: "queues_ok s Q" using rep by (simp add: ts_part_def)
  let ?s = "block_on x 0 s"
  have q: "queued s p (us @ x # vs)" using queuesD(4) [OF qs k] x by simp
  obtain s1 where s1: "ts_remove p x ?s = Some (True, s1)" "queued s1 p (us @ vs)" "wq_frame p ?s s1"
    "\<And>y. y \<notin> set (us @ x # vs) \<Longrightarrow> same_links (thr ?s) (thr s1) y"
    using ts_remove_found [of ?s p us x vs] q by (auto simp: queued_block_on)
  have fr: "links_frame p s s1" using block_first_frame [OF s1(3)] .
  have d: "x \<notin> set (us @ vs)" using q by (auto simp: queued_def)
  have blk: "ts_blocked_on (thr s1 t) = (if t \<in> set (us @ vs) then p else if t \<in> set (Q k) then 0 else ts_blocked_on (thr s t))" for t
  proof -
    have "ts_blocked_on (thr s1 t) = (if t = x then 0 else ts_blocked_on (thr s t))" using s1(3) by (simp add: wq_frame_def block_on_thr)
    then show ?thesis using queuesD(5) [OF qs k, of t] x d by auto
  qed
  have links: "same_links (thr s) (thr s1) y" if "y \<notin> set (Q k)" "y \<notin> set (us @ vs)" for y
    using s1(4) [of y] that x by (auto simp: same_links_def block_on_thr split: if_splits)
  note st = queue_step [OF rep k fr s1(2) links blk]
  have "ts_part s1 (Q(k := us @ vs)) \<and> look s1 = look s \<and> no_leak s1 = no_leak s" using st x by auto
  moreover have "alloc_ok s1 = alloc_ok s" using fr by (intro alloc_ok_cong) (simp_all add: links_frame_def)
  ultimately show ?thesis using that s1(1) fr by (auto simp: links_frame_def)
qed

lemma store_back_step:
  fixes tid :: u32
  assumes rep: "ts_part s Q" and k: "look s k = Some p" and e: "Q k = []"
  defines "s' \<equiv> upd_thr tid (\<lambda>t. t\<lparr>turnstile := p\<rparr>) (sys_remove (key_hash k) k s)"
  shows "ts_part s' Q" "look s' = (look s)(k := None)" "turnstile (thr s tid) = 0 \<Longrightarrow> no_leak s \<Longrightarrow> no_leak s'"
    "turnstile (thr s tid) \<noteq> 0 \<Longrightarrow> loose s' (turnstile (thr s tid))"
proof -
  let ?c = "upd_thr tid (\<lambda>t. t\<lparr>turnstile := 0\<rparr>) s"
  note cs = clear_slot_step [OF rep, of tid]
  have k': "look ?c k = Some p" using k cs(2) by simp
  have s': "s' = give_back tid p (sys_remove (key_hash k) k ?c)"
    by (simp add: s'_def give_back_def sys_remove_def upd_thr_def split: prod.splits)
  note gb = give_back_step [OF cs(1) k' e, of tid, folded s']
  show "ts_part s' Q" using gb(1) .
  show lk: "look s' = (look s)(k := None)" using gb(2) cs(2) by simp
  show "no_leak s'" if z: "turnstile (thr s tid) = 0" "no_leak s"
    using gb(3) cs(5) [OF z(2)] z(1) by (simp add: no_leak_but_None)
  show "loose s' (turnstile (thr s tid))" if z: "turnstile (thr s tid) \<noteq> 0"
  proof -
    have t: "trie_ok s" using rep by (simp add: ts_part_def)
    have lo: "loose ?c (turnstile (thr s tid))" using cs(4) [OF z] .
    have ne: "turnstile (thr s tid) \<noteq> p" using lo k' by (auto simp: loose_def)
    have "thr s' u = (if u = tid then (thr s u)\<lparr>turnstile := p\<rparr> else thr s u)" "alive s' = alive s" for u
      using sys_remove_look(3,5) [OF t] by (simp_all add: s'_def upd_thr_def)
    moreover have "turnstile (thr s u) \<noteq> turnstile (thr s tid)" if "u \<noteq> tid" for u
      using rep z that by (auto simp: ts_part_def owned_ok_def)
    ultimately show ?thesis using lo ne unfolding loose_def lk cs(2) by (auto simp: upd_thr_def)
  qed
qed

lemma cleanup_inner_step:
  assumes rep: "ts_rep s Q" and k: "look s k = Some p" and x: "Q k = us @ x # vs"
  obtains s' where "cleanup_blocked_inner x p (key_hash k) k (block_on x 0 s) = Some s'" "ts_rep s' (Q(k := us @ vs))"
    "turnstile (thr s x) = 0 \<or> us @ vs \<noteq> [] \<Longrightarrow> no_leak s \<Longrightarrow> no_leak s'"
    "turnstile (thr s x) \<noteq> 0 \<Longrightarrow> us @ vs = [] \<Longrightarrow> loose s' (turnstile (thr s x))" "alloc_ok s' = alloc_ok s"
    "\<And>t. prio (thr s' t) = prio (thr s t)"
proof -
  let ?Q = "Q(k := us @ vs)" and ?b = "block_on x 0 s"
  obtain s1 where s1: "ts_remove p x ?b = Some (True, s1)" "ts_part s1 ?Q" "look s1 = look s"
    "no_leak s1 = no_leak s" "\<And>t. turnstile (thr s1 t) = turnstile (thr s t)" "alloc_ok s1 = alloc_ok s"
    "\<And>t. prio (thr s1 t) = prio (thr s t)"
    using remove_step [OF repD(1) [OF rep] k x] by metis
  have k1: "look s1 k = Some p" using k s1(3) by simp
  have l: "sys_lookup (key_hash k) k ?b = Some p" using k by (simp add: sys_lookup_def look_def wait_lookup_def block_on_def upd_thr_def)
  have c: "waiter_count (mem s1 p) = 0 \<longleftrightarrow> us @ vs = []" using queue_count [OF s1(2) k1] by simp
  let ?r = "upd_thr x (\<lambda>t. t\<lparr>turnstile := p\<rparr>) (sys_remove (key_hash k) k s1)"
  have inner: "cleanup_blocked_inner x p (key_hash k) k ?b = Some (if us @ vs = [] then ?r else s1)"
    using l s1(1) c by (simp add: cleanup_blocked_inner_def)
  show ?thesis
  proof (cases "us @ vs = []")
    case True
    then have "?Q k = []" by simp
    note sb = store_back_step [OF s1(2) k1 this, of x]
    have "ts_rep ?r ?Q"
      unfolding ts_rep_def
    proof (intro conjI allI impI)
      show "ts_part ?r ?Q" using sb(1) .
      fix j q assume "look ?r j = Some q"
      then show "?Q j \<noteq> []" using sb(2) s1(3) repD(2) [OF rep] by (auto split: if_splits)
    qed
    moreover have "alloc_ok ?r = alloc_ok s" 
      using s1(6) alloc_ok_cong [of ?r s1] by (simp add: upd_thr_def sys_remove_def split: prod.splits)
    moreover have "prio (thr ?r t) = prio (thr s t)" for t using s1(7) by (simp add: upd_thr_def sys_remove_def split: prod.splits)
    ultimately show ?thesis using that inner sb(3,4) s1(4,5) True by simp
  next
    case False
    have "?Q j \<noteq> []" if "look s1 j = Some q" for j q using that False s1(3) repD(2) [OF rep] by auto
    then have "ts_rep s1 ?Q" using s1(2) unfolding ts_rep_def by blast
    then show ?thesis using that inner s1(4,6,7) False by auto
  qed
qed

lemma cleanup_step:
  assumes rep: "ts_rep s Q"
  obtains s' where "cleanup_blocked tid s = Some s'" "ts_rep s' (\<lambda>k. filter (\<lambda>t. t \<noteq> tid) (Q k))"
    "turnstile (thr s tid) = 0 \<or> (\<forall>k. Q k \<noteq> [tid]) \<Longrightarrow> no_leak s \<Longrightarrow> no_leak s'"
    "\<And>k. turnstile (thr s tid) \<noteq> 0 \<Longrightarrow> Q k = [tid] \<Longrightarrow> loose s' (turnstile (thr s tid))"
    "\<And>t. prio (thr s' t) = prio (thr s t)"
proof -
  have t: "trie_ok s" and qs: "queues_ok s Q" using repD(1) [OF rep] by (simp_all add: ts_part_def)
  show ?thesis
  proof (cases "ts_blocked_on (thr s tid) = 0")
    case True
    then have n: "tid \<notin> set (Q k)" for k using not_waiting [OF qs] by blast
    have "(thr s tid)\<lparr>ts_blocked_on := 0\<rparr> = thr s tid" using True by (cases "thr s tid") simp
    then have b: "block_on tid 0 s = s" by (simp add: block_on_def upd_thr_def)
    have Q': "(\<lambda>k. filter (\<lambda>t. t \<noteq> tid) (Q k)) = Q" using n by (intro ext) (auto intro: filter_True)
    have "cleanup_blocked tid s = Some s" using True b by (simp add: cleanup_blocked_def)
    moreover have "Q k \<noteq> [tid]" for k using n [of k] by auto
    ultimately show ?thesis using that [of s] rep unfolding Q' by blast
  next
    case False
    then obtain k where k: "tid \<in> set (Q k)" using queuesD(6) [OF qs] by blast
    then obtain p where p: "look s k = Some p" "ts_blocked_on (thr s tid) = p" using in_queue_look [OF qs] by metis
    obtain us vs where x: "Q k = us @ tid # vs" using split_list [OF k] by blast
    have d: "tid \<notin> set (us @ vs)" using queuesD(4) [OF qs p(1)] x by (auto simp: queued_def)
    have Q': "(\<lambda>j. filter (\<lambda>t. t \<noteq> tid) (Q j)) = Q(k := us @ vs)"
    proof
      fix j
      have "filter (\<lambda>t. t \<noteq> tid) ys = ys" if "tid \<notin> set ys" for ys using that by (auto intro: filter_True)
      moreover have "tid \<notin> set (Q j)" if "j \<noteq> k" using queues_disjoint [OF t qs k] that by blast
      ultimately show "filter (\<lambda>t. t \<noteq> tid) (Q j) = (Q(k := us @ vs)) j" using x d by (cases "j = k") auto
    qed
    have one: "Q j = [tid] \<Longrightarrow> us @ vs = []" for j using queues_disjoint [OF t qs k, of j] x by (cases us) auto
    have cb: "cleanup_blocked tid s = cleanup_blocked_inner tid p (key_hash k) k (block_on tid 0 s)"
      using False p(2) look_key [OF t p(1)] by (simp add: cleanup_blocked_def Let_def block_on_def upd_thr_def)
    obtain s' where s': "cleanup_blocked_inner tid p (key_hash k) k (block_on tid 0 s) = Some s'" "ts_rep s' (Q(k := us @ vs))"
      "turnstile (thr s tid) = 0 \<or> us @ vs \<noteq> [] \<Longrightarrow> no_leak s \<Longrightarrow> no_leak s'"
      "turnstile (thr s tid) \<noteq> 0 \<Longrightarrow> us @ vs = [] \<Longrightarrow> loose s' (turnstile (thr s tid))" "\<And>t. prio (thr s' t) = prio (thr s t)"
      using cleanup_inner_step [OF rep p(1) x] by metis
    have "us @ vs \<noteq> []" if "\<forall>j. Q j \<noteq> [tid]" using that x by (cases us) auto
    then show ?thesis using that [of s', unfolded Q' cb] s' one by blast
  qed
qed

section \<open>Futex calls\<close>

lemma futex_wait_step:
  assumes "ts_rep s Q" "alloc_ok s" "tid \<noteq> TS_NIL" "ts_blocked_on (thr s tid) = 0" "length (Q (futex_key aspace addr)) < 65535"
    "futex_wait tid aspace addr expected s = (r, s')"
  shows "ts_rep s' (if r = Blocked then Q(futex_key aspace addr := Q (futex_key aspace addr) @ [tid]) else Q)"
    "r = Blocked \<Longrightarrow> umem s aspace addr = Some expected" "no_leak s \<Longrightarrow> no_leak s'"
    "r = Returned 1 \<longleftrightarrow> (\<exists>w. umem s aspace addr = Some w \<and> w \<noteq> expected)"
proof -
  let ?k = "futex_key aspace addr" and ?s = "emit (ClearWakeup tid) s"
  obtain q s1 where tf: "turnstile_for (key_hash ?k) ?k tid ?s = (q, s1)" by fastforce
  have "alloc_ok ?s" using assms(2) by simp
  then have b: "case q of None \<Rightarrow> ts_rep s1 Q \<and> (no_leak ?s \<longrightarrow> no_leak s1)
    | Some p \<Rightarrow> ts_rep (block_on tid p (ts_enqueue p tid s1)) (Q(?k := Q ?k @ [tid])) \<and>
        (no_leak ?s \<longrightarrow> no_leak (block_on tid p (ts_enqueue p tid s1)))"
    using block_step [where Q = Q and k = ?k, OF _ _ assms(3) _ assms(5) tf] assms(1,4) by simp
  show "ts_rep s' (if r = Blocked then Q(?k := Q ?k @ [tid]) else Q)"
    "r = Blocked \<Longrightarrow> umem s aspace addr = Some expected" "no_leak s \<Longrightarrow> no_leak s'"
    "r = Returned 1 \<longleftrightarrow> (\<exists>w. umem s aspace addr = Some w \<and> w \<noteq> expected)"
    using assms(1,6) tf b by (auto simp: futex_wait_def futex_key_hash Let_def split: if_splits option.splits prod.splits)
qed

lemma fill_slot_step:
  fixes tid :: u32
  assumes rep: "ts_part s Q" and p: "loose s p" and z: "turnstile (thr s tid) = 0"
  defines "s' \<equiv> upd_thr tid (\<lambda>t. t\<lparr>turnstile := p\<rparr>) s"
  shows "ts_part s' Q" "look s' = look s" "no_leak_but (Some p) s \<Longrightarrow> no_leak s'"
proof -
  have t: "trie_ok s" and qs: "queues_ok s Q" and ow: "owned_ok s" using rep by (simp_all add: ts_part_def)
  have fr: "slot_frame s s'" by (simp add: slot_frame_def s'_def upd_thr_def same_links_def)
  show lk: "look s' = look s" by (simp add: s'_def upd_thr_def look_def)
  have tr: "trie_ok s'" using t by (simp add: s'_def upd_thr_def trie_ok_def)
  have ts: "turnstile (thr s' u) = (if u = tid then p else turnstile (thr s u))" "ts_blocked_on (thr s' u) = ts_blocked_on (thr s u)" for u
    by (simp_all add: s'_def upd_thr_def)
  have al: "alive s' = alive s" by (simp add: s'_def upd_thr_def)
  have "queues_ok s' Q" using qs slot_frame_queued [OF fr] by (simp add: queues_ok_def lk al ts)
  moreover have "owned_ok s'" using ow p by (auto simp: owned_ok_def lk al ts loose_def)
  ultimately show "ts_part s' Q" using tr by (simp add: ts_part_def)
  show "no_leak s'" if nl: "no_leak_but (Some p) s"
    unfolding no_leak_def lk al
  proof (intro allI impI)
    fix b assume b: "alive s b"
    show "(\<exists>k. look s k = Some b) \<or> (\<exists>t. turnstile (thr s' t) = b \<and> b \<noteq> 0)"
    proof (cases "b = p")
      case True
      then show ?thesis using ts(1) [of tid] p by (auto simp: loose_def)
    next
      case False
      then consider k where "look s k = Some b" | u where "turnstile (thr s u) = b" "b \<noteq> 0" using nl b by (auto simp: no_leak_but_def)
      then show ?thesis
      proof cases
        case 2
        then have "u \<noteq> tid" using z by auto
        then show ?thesis using 2 ts(1) by metis
      qed blast
    qed
  qed
qed

lemma refill_step:
  fixes tid :: u32
  assumes rep: "ts_rep s Q" and ok: "alloc_ok s"
  defines "s' \<equiv> (if turnstile (thr s tid) = 0
    then (case alloc_turnstile s of (Some p, s1) \<Rightarrow> upd_thr tid (\<lambda>t. t\<lparr>turnstile := p\<rparr>) s1 | (None, s1) \<Rightarrow> s1) else s)"
  shows "ts_rep s' Q" "no_leak s \<Longrightarrow> no_leak s'" "\<And>t. prio (thr s' t) = prio (thr s t)"
proof -
  obtain r s1 where a: "alloc_turnstile s = (r, s1)" by fastforce
  note as = alloc_turnstile_step [OF repD(1) [OF rep] ok a]
  have nl: "no_leak_but r s1" if "no_leak s" using as(2,3) as(5) [OF that] unfolding no_leak_but_def by metis
  have "ts_rep s' Q \<and> (no_leak s \<longrightarrow> no_leak s')"
  proof (cases "turnstile (thr s tid) = 0")
    case z: True
    show ?thesis
    proof (cases r)
      case None
      then have "s' = s1" using z a by (simp add: s'_def)
      then show ?thesis using as(1,2) nl None repD(2) [OF rep] by (auto simp: ts_rep_def no_leak_but_None)
    next
      case (Some p)
      then have s': "s' = upd_thr tid (\<lambda>t. t\<lparr>turnstile := p\<rparr>) s1" using z a by (simp add: s'_def)
      have "loose s1 p" using as(4) [OF Some] as(2,3) by (simp add: loose_def)
      note fs = fill_slot_step [OF as(1) this, of tid, folded s']
      then show ?thesis using nl Some as(2,3) z repD(2) [OF rep] by (auto simp: ts_rep_def)
    qed
  qed (use rep in \<open>simp add: s'_def\<close>)
  then show "ts_rep s' Q" "no_leak s \<Longrightarrow> no_leak s'" by blast+
  show "prio (thr s' t) = prio (thr s t)" for t using as(3) a by (auto simp: s'_def upd_thr_def split: option.splits)
qed

lemma futex_wait_return_step:
  assumes rep: "ts_rep s Q" and ok: "alloc_ok s"
    and here: "ts_blocked_on (thr s tid) \<noteq> 0 \<Longrightarrow> tid \<in> set (Q (futex_key aspace addr))"
  obtains s' where "futex_wait_return tid aspace addr s = Some (0, s')" "ts_rep s' (\<lambda>k. filter (\<lambda>t. t \<noteq> tid) (Q k))"
    "turnstile (thr s tid) = 0 \<or> (\<forall>k. Q k \<noteq> [tid]) \<Longrightarrow> no_leak s \<Longrightarrow> no_leak s'" "\<And>t. prio (thr s' t) = prio (thr s t)"
proof -
  let ?k = "futex_key aspace addr" and ?b = "block_on tid 0 s" and ?a = "ts_blocked_on (thr s tid)"
  let ?in = "if ?a \<noteq> 0 then cleanup_blocked_inner tid ?a (futex_hash aspace addr) ?k ?b else Some ?b"
  have t: "trie_ok s" and qs: "queues_ok s Q" using repD(1) [OF rep] by (simp_all add: ts_part_def)
  obtain s1 where c: "cleanup_blocked tid s = Some s1" "ts_rep s1 (\<lambda>k. filter (\<lambda>t. t \<noteq> tid) (Q k))"
    "turnstile (thr s tid) = 0 \<or> (\<forall>k. Q k \<noteq> [tid]) \<Longrightarrow> no_leak s \<Longrightarrow> no_leak s1"
    "\<And>k. turnstile (thr s tid) \<noteq> 0 \<Longrightarrow> Q k = [tid] \<Longrightarrow> loose s1 (turnstile (thr s tid))"
    "\<And>t. prio (thr s1 t) = prio (thr s t)"
    by (rule cleanup_step [OF rep, of tid]) blast
  have in1: "?in = Some s1" and ok1: "alloc_ok s1"
  proof -
    have "?in = Some s1 \<and> alloc_ok s1"
    proof (cases "?a = 0")
      case True
      then have "s1 = ?b" using c(1) by (simp add: cleanup_blocked_def)
      then show ?thesis using True ok alloc_ok_cong [of ?b s] by (simp add: block_on_def upd_thr_def)
    next
      case False
      then have m: "tid \<in> set (Q ?k)" using here by blast
      then obtain p where p: "look s ?k = Some p" "?a = p" using in_queue_look [OF qs] by metis
      obtain us vs where x: "Q ?k = us @ tid # vs" using split_list [OF m] by blast
      have cb: "cleanup_blocked tid s = cleanup_blocked_inner tid p (key_hash ?k) ?k ?b"
        using False p(2) look_key [OF t p(1)] by (simp add: cleanup_blocked_def Let_def block_on_def upd_thr_def)
      obtain s2 where "cleanup_blocked_inner tid p (key_hash ?k) ?k ?b = Some s2" "alloc_ok s2 = alloc_ok s"
        using cleanup_inner_step [OF rep p(1) x] by metis
      then show ?thesis using c(1) cb ok False p(2) by (simp add: futex_key_hash)
    qed
    then show "?in = Some s1" "alloc_ok s1" by blast+
  qed
  note rf = refill_step [OF c(2) ok1, of tid]
  have "futex_wait_return tid aspace addr s = Some (0, if turnstile (thr s1 tid) = 0
      then (case alloc_turnstile s1 of (Some p, s2) \<Rightarrow> upd_thr tid (\<lambda>t. t\<lparr>turnstile := p\<rparr>) s2 | (None, s2) \<Rightarrow> s2) else s1)"
    unfolding futex_wait_return_def Let_def in1 by simp
  then show ?thesis using that rf c(3,5) by simp
qed

section \<open>Priority inheritance\<close>

lemma pi_fields_step:
  assumes rep: "ts_part s Q" and k: "look s k = Some p" and th: "thr s' = thr s" and fr: "links_frame p s s'"
    and f: "ts_head (mem s' p) = ts_head (mem s p)" "ts_tail (mem s' p) = ts_tail (mem s p)"
      "waiter_count (mem s' p) = waiter_count (mem s p)" "canary_tail (mem s' p) = canary_tail (mem s p)"
  shows "ts_part s' Q" "look s' = look s" "no_leak s' = no_leak s"
proof -
  have qs: "queues_ok s Q" using rep by (simp add: ts_part_def)
  have q: "queued s' p (Q k)" using queuesD(4) [OF qs k] by (simp add: queued_def th f)
  have bl: "ts_blocked_on (thr s' t) = (if t \<in> set (Q k) then p else if t \<in> set (Q k) then 0 else ts_blocked_on (thr s t))" for t
    using queuesD(5) [OF qs k, of t] th by simp
  have li: "same_links (thr s) (thr s') x" if "x \<notin> set (Q k)" "x \<notin> set (Q k)" for x using th by (simp add: same_links_def)
  show "ts_part s' Q" using queue_step(1) [OF rep k fr q li bl] by simp
  show "look s' = look s" "no_leak s' = no_leak s" by (rule queue_step [OF rep k fr q li bl]; simp)+
qed

lemma join_prio_step:
  assumes rep: "ts_part s Q" and k: "look s k = Some p" and t: "tid \<noteq> TS_NIL" "ts_blocked_on (thr s tid) = 0" and n: "length (Q k) < 65535"
  obtains s1 where "ts_enqueue_prio p tid s = Some s1" "ts_part (block_on tid p s1) (Q(k := by_prio s tid (Q k)))" "look (block_on tid p s1) = look s"
    "no_leak (block_on tid p s1) = no_leak s" "wq_frame p s s1"
proof -
  have qs: "queues_ok s Q" using rep by (simp add: ts_part_def)
  obtain s1 where s1: "ts_enqueue_prio p tid s = Some s1" "queued s1 p (by_prio s tid (Q k))" "wq_frame p s s1"
    "\<And>y. y \<notin> set (Q k) \<Longrightarrow> y \<noteq> tid \<Longrightarrow> same_links (thr s) (thr s1) y"
    using enqueue_prio_links [OF queuesD(4) [OF qs k] not_waiting [OF qs t(2)] t(1) n] by metis
  let ?s = "block_on tid p s1" and ?ys = "by_prio s tid (Q k)"
  have ys: "set ?ys = insert tid (set (Q k))"
    by (simp add: by_prio_def Let_def) (metis set_append takeWhile_dropWhile_id)
  have fr: "links_frame p s ?s" using block_on_frame [OF s1(3)] .
  have q: "queued ?s p ?ys" using s1(2) by (simp add: queued_block_on)
  have bl: "ts_blocked_on (thr ?s t) = (if t \<in> set ?ys then p else if t \<in> set (Q k) then 0 else ts_blocked_on (thr s t))" for t
    using s1(3) queuesD(5) [OF qs k, of t] by (auto simp: wq_frame_def block_on_thr ys)
  have li: "same_links (thr s) (thr ?s) x" if "x \<notin> set (Q k)" "x \<notin> set ?ys" for x
    using s1(4) that ys by (simp add: block_on_links)
  have fresh: "ts_blocked_on (thr s t) = 0" if "t \<in> set ?ys" "t \<notin> set (Q k)" for t using that ys \<open>ts_blocked_on (thr s tid) = 0\<close> by auto
  show ?thesis using that [OF s1(1)] queue_step [OF rep k fr q li bl fresh] s1(3) by blast
qed

lemma turnstile_for_rest:
  assumes "turnstile_for h k tid s = (r, s')"
  shows "prio (thr s' t) = prio (thr s t)" "umem s' = umem s" "events s' = events s" "ts_answers s = [] \<Longrightarrow> ts_answers s' = []"
  using assms
  by (auto simp: turnstile_for_def take_or_alloc_turnstile_def alloc_turnstile_def sys_insert_def init_turnstile_def free_turnstile_def
      record_ts_mut_def upd_ts_def upd_thr_def Let_def split: option.splits prod.splits bool.splits list.splits if_splits)

lemma by_prio_cong: "(\<And>t. prio (thr s t) = prio (thr s' t)) \<Longrightarrow> by_prio s tid xs = by_prio s' tid xs"
  by (simp add: by_prio_def)

lemma pi_enqueue_step:
  assumes rep: "ts_part s Q" and k: "look s k = Some p" and t: "tid \<noteq> TS_NIL" "ts_blocked_on (thr s tid) = 0" and n: "length (Q k) < 65535"
  obtains s3 where "ts_enqueue_prio p tid (upd_ts p (\<lambda>q. q\<lparr>owner_tid := own\<rparr>) s) = Some s3"
    "\<And>b f s5. s5 = block_on tid p (if b then upd_ts p (\<lambda>q. q\<lparr>max_waiter_prio := f\<rparr>) s3 else s3) \<Longrightarrow>
       ts_part s5 (Q(k := by_prio s tid (Q k))) \<and> look s5 = look s \<and> no_leak s5 = no_leak s \<and> umem s5 = umem s \<and> events s5 = events s \<and> ts_answers s5 = ts_answers s"
    "\<And>u. prio (thr s3 u) = prio (thr s u)"
proof -
  let ?o = "upd_ts p (\<lambda>q. q\<lparr>owner_tid := own\<rparr>) s" and ?Q = "Q(k := by_prio s tid (Q k))"
  have o: "thr ?o = thr s" "links_frame p s ?o" by (simp_all add: upd_ts_def links_frame_def key_of_def)
  note po = pi_fields_step [OF rep k o]
  have o3: "ts_part ?o Q" "look ?o = look s" "no_leak ?o = no_leak s" by (rule po; simp add: upd_ts_def)+
  have bp: "by_prio ?o tid (Q k) = by_prio s tid (Q k)" by (rule by_prio_cong) (simp add: o(1))
  have k': "look ?o k = Some p" "ts_blocked_on (thr ?o tid) = 0" using k t(2) o3(2) o(1) by simp_all
  obtain s3 where s3: "ts_enqueue_prio p tid ?o = Some s3" "ts_part (block_on tid p s3) ?Q" "look (block_on tid p s3) = look s"
    "no_leak (block_on tid p s3) = no_leak s" "wq_frame p ?o s3"
    using join_prio_step [OF o3(1) k'(1) t(1) k'(2) n] unfolding bp o3(2,3) by metis
  have e: "umem s3 = umem s" "events s3 = events s" "prio (thr s3 u) = prio (thr s u)" "ts_answers s3 = ts_answers s" for u
    using s3(5) by (simp_all add: wq_frame_def upd_ts_def)
  have "ts_part s5 ?Q \<and> look s5 = look s \<and> no_leak s5 = no_leak s \<and> umem s5 = umem s \<and> events s5 = events s \<and> ts_answers s5 = ts_answers s"
    if s5: "s5 = block_on tid p (if b then upd_ts p (\<lambda>q. q\<lparr>max_waiter_prio := f\<rparr>) s3 else s3)" for b f s5
  proof -
    have th: "thr s5 = thr (block_on tid p s3)" "links_frame p (block_on tid p s3) s5" and u: "umem s5 = umem s" "events s5 = events s" "ts_answers s5 = ts_answers s"
      using e by (simp_all add: s5 block_on_def upd_thr_def upd_ts_def links_frame_def key_of_def)
    have lk: "look (block_on tid p s3) k = Some p" using s3(3) k by simp
    have "ts_part s5 ?Q" "look s5 = look (block_on tid p s3)" "no_leak s5 = no_leak (block_on tid p s3)"
      by (rule pi_fields_step [OF s3(2) lk th]; simp add: s5 block_on_def upd_thr_def upd_ts_def)+
    then show ?thesis using s3(3,4) u by simp
  qed
  then show ?thesis using that s3(1) e(3) by blast
qed

lemma by_prio_set: "set (by_prio s tid xs) = insert tid (set xs)" "by_prio s tid xs \<noteq> []"
  by (simp_all add: by_prio_def Let_def) (metis set_append takeWhile_dropWhile_id)

lemma futex_wait_pi_step:
  assumes rep: "ts_rep s Q" and ok: "alloc_ok s" and t: "tid \<noteq> TS_NIL" "ts_blocked_on (thr s tid) = 0"
    and n: "length (Q (futex_key aspace addr)) < 65535"
  obtains r s' where "futex_wait_pi tid aspace addr own s = Some (r, s')"
    "ts_rep s' (if r = Blocked then Q(futex_key aspace addr := by_prio s tid (Q (futex_key aspace addr))) else Q)"
    "no_leak s \<Longrightarrow> no_leak s'"
    "r = Blocked \<Longrightarrow> \<exists>w. umem s aspace addr = Some w \<and> w AND PI_TID_MASK = own \<and> umem s' aspace addr = Some (w OR PI_WAITERS_BIT)"
    "r = Blocked \<Longrightarrow> own \<noteq> 0 \<Longrightarrow> last (events s') = BoostPriority own (prio (thr s tid))"
    "r = Returned 1 \<longleftrightarrow> (\<exists>w. umem s aspace addr = Some w \<and> w AND PI_TID_MASK \<noteq> own)"
    "\<And>t. prio (thr s' t) = prio (thr s t)" "ts_answers s = [] \<Longrightarrow> ts_answers s' = []"
    "\<And>w. Q (futex_key aspace addr) \<noteq> [] \<Longrightarrow> umem s aspace addr = Some w \<Longrightarrow> w AND PI_TID_MASK = own \<Longrightarrow> r = Blocked"
proof (cases "\<exists>w. umem s aspace addr = Some w \<and> w AND PI_TID_MASK = own")
  case False
  then obtain r where "futex_wait_pi tid aspace addr own s = Some (r, s)" "r \<noteq> Blocked"
    "r = Returned 1 \<longleftrightarrow> (\<exists>w. umem s aspace addr = Some w \<and> w AND PI_TID_MASK \<noteq> own)"
    by (cases "umem s aspace addr") (auto simp: futex_wait_pi_def Let_def)
  then show ?thesis using that [of r s] rep False by simp
next
  case True
  then obtain w where w: "umem s aspace addr = Some w" "w AND PI_TID_MASK = own" by blast
  let ?k = "futex_key aspace addr" and ?new = "w OR PI_WAITERS_BIT"
  let ?s1 = "if ?new \<noteq> w then copy_to_user aspace addr ?new s else s"
  let ?s = "emit (ClearWakeup tid) ?s1"
  have um: "umem ?s aspace addr = Some ?new" using w by (auto simp: copy_to_user_def)
  have same: "thr ?s = thr s" "mem ?s = mem s" "alive ?s = alive s" "wait_roots ?s = wait_roots s" "node_mem ?s = node_mem s"
    "ts_answers ?s = ts_answers s" by (simp_all add: copy_to_user_def)
  note rc = rep_cong [OF same(1-5)]
  have ok': "alloc_ok ?s" using ok alloc_ok_cong [OF same(3,6)] by simp
  have rep': "ts_part ?s Q" using rc(2) repD(1) [OF rep] by simp
  obtain r s2 where tf: "turnstile_for (key_hash ?k) ?k tid ?s = (r, s2)" by fastforce
  note f = turnstile_for_step [OF rep' ok' tf]
  note fr = turnstile_for_rest [OF tf]
  have prio2: "prio (thr s2 u) = prio (thr s u)" for u using fr(1) same(1) by simp
  show ?thesis
  proof (cases r)
    case None
    then have l2: "look s2 = look s" using f(4) rc(1) by simp
    have "ts_rep s2 Q" using f(1) repD(2) [OF rep] unfolding ts_rep_def l2 by blast
    moreover have "futex_wait_pi tid aspace addr own s = Some (Returned (- 1), s2)"
      using w tf None by (simp add: futex_wait_pi_def futex_key_hash Let_def)
    moreover have "Q ?k = []" using f(5) None rc(1) rep_queue [OF rep] by simp
    ultimately show ?thesis using that [of "Returned (- 1)" s2] f(2) rc(3) w prio2 fr(4) same(6) by simp
  next
    case (Some p)
    then have l2: "look s2 = (look s)(?k \<mapsto> p)" using f(4) rc(1) by simp
    have t2: "ts_blocked_on (thr s2 tid) = 0" using f(3) t(2) same(1) by simp
    obtain s3 where s3: "ts_enqueue_prio p tid (upd_ts p (\<lambda>q. q\<lparr>owner_tid := own\<rparr>) s2) = Some s3"
      and s5: "\<And>b f s5. s5 = block_on tid p (if b then upd_ts p (\<lambda>q. q\<lparr>max_waiter_prio := f\<rparr>) s3 else s3) \<Longrightarrow>
       ts_part s5 (Q(?k := by_prio s2 tid (Q ?k))) \<and> look s5 = look s2 \<and> no_leak s5 = no_leak s2 \<and> umem s5 = umem s2 \<and> events s5 = events s2 \<and> ts_answers s5 = ts_answers s2"
      and p3: "\<And>u. prio (thr s3 u) = prio (thr s2 u)"
      using pi_enqueue_step [OF f(1) _ t(1) t2 n] l2 by (metis fun_upd_same)
    let ?Q = "Q(?k := by_prio s tid (Q ?k))" and ?p = "prio (thr s tid)"
    let ?s5 = "block_on tid p (if ?p < max_waiter_prio (mem s3 p) then upd_ts p (\<lambda>q. q\<lparr>max_waiter_prio := ?p\<rparr>) s3 else s3)"
    have bp: "by_prio s2 tid (Q ?k) = by_prio s tid (Q ?k)" by (rule by_prio_cong) (rule prio2)
    have r5: "ts_part ?s5 ?Q" "look ?s5 = look s2" "no_leak ?s5 = no_leak s2" "umem ?s5 = umem s2"
      "ts_answers ?s5 = ts_answers s2" using s5 [OF refl] bp by simp_all
    have "?Q j \<noteq> []" if "look ?s5 j = Some q" for j q
      using that repD(2) [OF rep, of j] by_prio_set(2) l2 r5(2) by (auto split: if_splits)
    then have rp: "ts_rep ?s5 ?Q" using r5(1) unfolding ts_rep_def by blast
    let ?s6 = "if own \<noteq> 0 then emit (BoostPriority own ?p) ?s5 else ?s5"
    have "futex_wait_pi tid aspace addr own s = Some (Blocked, ?s6)"
      using w tf Some s3 p3 prio2 by (simp add: futex_wait_pi_def futex_key_hash Let_def)
    moreover have "ts_rep ?s6 ?Q" "no_leak s \<Longrightarrow> no_leak ?s6" using rp f(2) rc(3) r5(3) by simp_all
    moreover have "umem ?s6 aspace addr = Some ?new" using r5(4) fr(2) um by simp
    moreover have "prio (thr ?s6 u) = prio (thr s u)" for u using p3 prio2 by (simp add: block_on_thr upd_ts_def)
    moreover have "ts_answers ?s6 = []" if "ts_answers s = []" using r5(5) fr(4) same(6) that by simp
    ultimately show ?thesis using that [of Blocked ?s6] w by (auto simp: emit_def)
  qed
qed

lemma retire_rest: "events (retire h k p x s) = events s" "umem (retire h k p x s) = umem s" "prio (thr (retire h k p x s) t) = prio (thr s t)"
  by (simp_all add: retire_def give_back_def free_turnstile_def upd_thr_def sys_remove_def split: prod.splits)

definition pi_word :: "u32 \<Rightarrow> u32 list \<Rightarrow> u32" where
  "pi_word x rest = (x AND PI_TID_MASK) OR (if rest = [] then 0 else PI_WAITERS_BIT)"

definition pi_events :: "u32 \<Rightarrow> (u32 \<Rightarrow> u8) \<Rightarrow> u32 \<Rightarrow> u32 list \<Rightarrow> sched_event list" where
  "pi_events caller pr x rest =
     ResetPriority caller # (if rest = [] then [] else [BoostPriority x (pr (hd rest))]) @ [WakeThread x]"

lemma queued_hd: "queued s p (x # xs) \<Longrightarrow> ts_head (mem s p) = x"
  by (auto simp: queued_def)

lemma futex_wake_pi_step:
  assumes rep: "ts_rep s Q" and f: "futex_wake_pi caller aspace addr s = (r, s')"
  shows "case Q (futex_key aspace addr) of [] \<Rightarrow> r = 1 \<and> s' = s
    | x # xs \<Rightarrow> r = 0 \<and> ts_rep s' (Q(futex_key aspace addr := xs)) \<and> (no_leak s \<longrightarrow> no_leak s') \<and>
        (umem s aspace addr \<noteq> None \<longrightarrow> umem s' aspace addr = Some (pi_word x xs)) \<and>
        events s' = events s @ pi_events caller (\<lambda>t. prio (thr s t)) x xs \<and> (\<forall>t. prio (thr s' t) = prio (thr s t))"
proof (cases "look s (futex_key aspace addr)")
  case None
  then have "Q (futex_key aspace addr) = []" using rep_queue [OF rep] by simp
  then show ?thesis using f None by (simp add: futex_wake_pi_def futex_key_hash sys_lookup_look)
next
  case (Some p)
  let ?k = "futex_key aspace addr"
  obtain x xs where q: "Q ?k = x # xs" using repD(2) [OF rep Some] by (cases "Q ?k") auto
  obtain s1 where s1: "ts_dequeue_head p s = (Some x, s1)" "ts_part (block_on x 0 s1) (Q(?k := xs))" "look (block_on x 0 s1) = look s"
    "no_leak (block_on x 0 s1) = no_leak s" "waiter_count (mem (block_on x 0 s1) p) = 0 \<longleftrightarrow> xs = []" "links_frame p s (block_on x 0 s1)"
    using dequeue_step [OF repD(1) [OF rep] Some q] by blast
  let ?s2 = "block_on x 0 s1"
  let ?s3 = "upd_ts p (\<lambda>q. q\<lparr>owner_tid := x\<rparr>) (copy_to_user aspace addr (pi_word x xs) ?s2)"
  let ?s4 = "if xs \<noteq> [] then upd_ts p (\<lambda>q. q\<lparr>max_waiter_prio := prio (thr ?s3 (ts_head (mem ?s3 p)))\<rparr>) ?s3 else ?s3"
  let ?s5 = "emit (ResetPriority caller) ?s4"
  let ?s6 = "if xs \<noteq> [] then emit (BoostPriority x (max_waiter_prio (mem ?s5 p))) ?s5 else ?s5"
  have wc: "waiter_count (mem ?s2 p) > 0 \<longleftrightarrow> xs \<noteq> []" using s1(5) by (simp add: word_gt_0)
  have s': "r = 0" "s' = emit (WakeThread x) (retire (key_hash ?k) ?k p x ?s6)"
    using f Some s1(1) wc
    by (cases "xs = []"; simp add: futex_wake_pi_def futex_key_hash sys_lookup_look Let_def pi_word_def)+
  have k2: "look ?s2 ?k = Some p" using s1(3) Some by simp
  have th: "thr ?s6 = thr ?s2" "links_frame p ?s2 ?s6" by (simp_all add: upd_ts_def copy_to_user_def links_frame_def key_of_def)
  have r6: "ts_part ?s6 (Q(?k := xs))" "look ?s6 = look ?s2" "no_leak ?s6 = no_leak ?s2"
    by (rule pi_fields_step [OF s1(2) k2 th]; simp add: upd_ts_def copy_to_user_def)+
  have "waiter_count (mem ?s6 p) = 0 \<longleftrightarrow> xs = []" using s1(5) by (simp add: upd_ts_def copy_to_user_def)
  then have rt: "ts_rep s' (Q(?k := xs)) \<and> (no_leak s \<longrightarrow> no_leak s')"
    using retire_step [OF rep Some r6(1), of x] r6(2,3) s1(3,4) by (simp add: s')
  have ev2: "events ?s2 = events s" "umem ?s2 = umem s" using dequeue_events [OF s1(1)] by simp_all
  have pr2: "prio (thr ?s2 t) = prio (thr s t)" for t using s1(6) by (simp add: links_frame_def)
  have "umem s aspace addr \<noteq> None \<longrightarrow> umem s' aspace addr = Some (pi_word x xs)"
    using ev2(2) by (simp add: s' retire_rest copy_to_user_def upd_ts_def)
  moreover have "events s' = events s @ pi_events caller (\<lambda>t. prio (thr s t)) x xs"
  proof -
    have "queues_ok ?s2 (Q(?k := xs))" using s1(2) by (simp add: ts_part_def)
    then have "queued ?s2 p xs" using queuesD(4) [OF _ k2] by fastforce
    then have "xs \<noteq> [] \<Longrightarrow> ts_head (mem ?s2 p) = hd xs" using queued_hd [of ?s2 p "hd xs" "tl xs"] by simp
    then show ?thesis using ev2(1) pr2
      by (auto simp: s' retire_rest emit_def upd_ts_def copy_to_user_def pi_events_def)
  qed
  moreover have "prio (thr s' t) = prio (thr s t)" for t using pr2 by (simp add: s' retire_rest th(1))
  ultimately show ?thesis using q s'(1) rt by simp
qed

end
