(* ===== verification/TsHistory.thy ===== *)
theory TsHistory
  imports Turnstile
begin

text \<open>
  Histories of turnstile calls: the queues that the calls of all threads implement, what happens to the memory of the
  turnstiles, the order in which waiters are served, and the hand-over of a futex with priority inheritance.
\<close>

section \<open>Histories\<close>

text \<open>
  A history is a sequence of calls by any threads. \<open>spec_call\<close> says what a call with a given answer does to the queues:
  first in first out for ports and futexes, by priority for the futexes with priority inheritance.
\<close>

datatype ts_call =
    PortBlock u64 u8 u32 bool | PortWake u64 u8 | PortDequeue u64 u8 | PortWakeAll u64 u8
  | FutexWait u32 u64 u64 u32 | FutexReturn u32 u64 u64 | FutexWake u64 u64 u32
  | PiWait u32 u64 u64 u32 | PiWake u32 u64 u64 | Kill u32

datatype ts_ans = ABool bool | ATid "u32 option" | ANum u64 | AWait wait_result | ADone

fun exec_call :: "ts_call \<Rightarrow> TsSys \<Rightarrow> (ts_ans \<times> TsSys) option" where
  "exec_call (PortBlock pid kt tid cond) s = Some (apfst ABool (port_enqueue_with_check pid kt tid cond s))"
| "exec_call (PortWake pid kt) s = Some (apfst ATid (port_wake_one pid kt s))"
| "exec_call (PortDequeue pid kt) s = Some (apfst ATid (port_dequeue_one pid kt s))"
| "exec_call (PortWakeAll pid kt) s = map_option (apfst (\<lambda>n. ANum (ucast n))) (port_wake_all pid kt s)"
| "exec_call (FutexWait tid aspace addr expected) s = Some (apfst AWait (futex_wait tid aspace addr expected s))"
| "exec_call (FutexReturn tid aspace addr) s = map_option (apfst ANum) (futex_wait_return tid aspace addr s)"
| "exec_call (FutexWake aspace addr cnt) s = Some (apfst ANum (futex_wake aspace addr cnt s))"
| "exec_call (PiWait tid aspace addr own) s = map_option (apfst AWait) (futex_wait_pi tid aspace addr own s)"
| "exec_call (PiWake caller aspace addr) s = Some (apfst ANum (futex_wake_pi caller aspace addr s))"
| "exec_call (Kill tid) s = map_option (Pair ADone) (cleanup_blocked tid s)"

fun exec_calls :: "ts_call list \<Rightarrow> TsSys \<Rightarrow> (ts_ans list \<times> TsSys) option" where
  "exec_calls [] s = Some ([], s)"
| "exec_calls (c # cs) s =
     (case exec_call c s of
        None \<Rightarrow> None
      | Some (a, s1) \<Rightarrow> map_option (apfst ((#) a)) (exec_calls cs s1))"

text \<open>
  What the kernel guarantees of a call: only a running thread blocks, no queue outgrows its counter, the slab hands out
  fresh blocks, and a futex wait returns on the key it blocked on.
\<close>

definition may_block :: "wkey \<Rightarrow> u32 \<Rightarrow> TsSys \<Rightarrow> bool" where
  "may_block k tid s \<longleftrightarrow> alloc_ok s \<and> tid \<noteq> TS_NIL \<and> ts_blocked_on (thr s tid) = 0 \<and>
     (case sys_lookup (key_hash k) k s of None \<Rightarrow> True | Some p \<Rightarrow> unat (waiter_count (mem s p)) < 65535)"

fun call_ok :: "ts_call \<Rightarrow> TsSys \<Rightarrow> bool" where
  "call_ok (PortBlock pid kt tid cond) s \<longleftrightarrow> kt \<noteq> KEY_FUTEX \<and> may_block (port_key pid kt) tid s"
| "call_ok (PortWake pid kt) s \<longleftrightarrow> kt \<noteq> KEY_FUTEX"
| "call_ok (PortDequeue pid kt) s \<longleftrightarrow> kt \<noteq> KEY_FUTEX"
| "call_ok (PortWakeAll pid kt) s \<longleftrightarrow> kt \<noteq> KEY_FUTEX"
| "call_ok (FutexWait tid aspace addr expected) s \<longleftrightarrow> may_block (futex_key aspace addr) tid s"
| "call_ok (FutexReturn tid aspace addr) s \<longleftrightarrow>
     alloc_ok s \<and> (ts_blocked_on (thr s tid) \<noteq> 0 \<longrightarrow> key_of (mem s (ts_blocked_on (thr s tid))) = futex_key aspace addr)"
| "call_ok (PiWait tid aspace addr own) s \<longleftrightarrow> may_block (futex_key aspace addr) tid s"
| "call_ok c s \<longleftrightarrow> True"

fun calls_ok :: "ts_call list \<Rightarrow> TsSys \<Rightarrow> bool" where
  "calls_ok [] s \<longleftrightarrow> True"
| "calls_ok (c # cs) s \<longleftrightarrow> call_ok c s \<and> (case exec_call c s of None \<Rightarrow> True | Some (a, s1) \<Rightarrow> calls_ok cs s1)"

definition prio_insert :: "(u32 \<Rightarrow> u8) \<Rightarrow> u32 \<Rightarrow> u32 list \<Rightarrow> u32 list" where
  "prio_insert pr tid xs = takeWhile (\<lambda>x. pr x \<le> pr tid) xs @ tid # dropWhile (\<lambda>x. pr x \<le> pr tid) xs"

definition head_of :: "u32 list \<Rightarrow> u32 option" where
  "head_of xs = (case xs of [] \<Rightarrow> None | x # _ \<Rightarrow> Some x)"

fun spec_call :: "(u32 \<Rightarrow> u8) \<Rightarrow> ts_call \<Rightarrow> ts_ans \<Rightarrow> (wkey \<Rightarrow> u32 list) \<Rightarrow> (wkey \<Rightarrow> u32 list) option" where
  "spec_call pr (PortBlock pid kt tid cond) (ABool ok) Q =
     (if ok \<and> \<not> cond then None else Some (if ok then Q(port_key pid kt := Q (port_key pid kt) @ [tid]) else Q))"
| "spec_call pr (PortWake pid kt) (ATid r) Q =
     (if r = head_of (Q (port_key pid kt)) then Some (Q(port_key pid kt := tl (Q (port_key pid kt)))) else None)"
| "spec_call pr (PortDequeue pid kt) (ATid r) Q =
     (if r = head_of (Q (port_key pid kt)) then Some (Q(port_key pid kt := tl (Q (port_key pid kt)))) else None)"
| "spec_call pr (PortWakeAll pid kt) (ANum n) Q =
     (if n = ucast (of_nat (length (Q (port_key pid kt))) :: u32) then Some (Q(port_key pid kt := [])) else None)"
| "spec_call pr (FutexWait tid aspace addr expected) (AWait r) Q =
     Some (if r = Blocked then Q(futex_key aspace addr := Q (futex_key aspace addr) @ [tid]) else Q)"
| "spec_call pr (FutexReturn tid aspace addr) (ANum n) Q = (if n = 0 then Some (\<lambda>k. filter (\<lambda>t. t \<noteq> tid) (Q k)) else None)"
| "spec_call pr (FutexWake aspace addr cnt) (ANum n) Q =
     (if n = of_nat (min (unat cnt) (length (Q (futex_key aspace addr))))
      then Some (Q(futex_key aspace addr := drop (unat cnt) (Q (futex_key aspace addr)))) else None)"
| "spec_call pr (PiWait tid aspace addr own) (AWait r) Q =
     Some (if r = Blocked then Q(futex_key aspace addr := prio_insert pr tid (Q (futex_key aspace addr))) else Q)"
| "spec_call pr (PiWake caller aspace addr) (ANum n) Q =
     (if n = (if Q (futex_key aspace addr) = [] then 1 else 0)
      then Some (Q(futex_key aspace addr := tl (Q (futex_key aspace addr)))) else None)"
| "spec_call pr (Kill tid) ADone Q = Some (\<lambda>k. filter (\<lambda>t. t \<noteq> tid) (Q k))"
| "spec_call pr _ _ Q = None"

fun spec_calls :: "(u32 \<Rightarrow> u8) \<Rightarrow> ts_call list \<Rightarrow> ts_ans list \<Rightarrow> (wkey \<Rightarrow> u32 list) \<Rightarrow> (wkey \<Rightarrow> u32 list) option" where
  "spec_calls pr [] [] Q = Some Q"
| "spec_calls pr (c # cs) (a # as) Q = Option.bind (spec_call pr c a Q) (spec_calls pr cs as)"
| "spec_calls pr _ _ Q = None"

definition sim :: "(u32 \<Rightarrow> u8) \<Rightarrow> TsSys \<Rightarrow> (wkey \<Rightarrow> u32 list) \<Rightarrow> bool" where
  "sim pr s Q \<longleftrightarrow> ts_rep s Q \<and> (\<forall>t. prio (thr s t) = pr t)"

lemma port_block_prio: "prio (thr (snd (port_enqueue_with_check pid kt tid cond s)) t) = prio (thr s t)"
  using turnstile_for_rest(1) [of "port_key_hash pid kt" "port_key pid kt" tid "emit (ClearWakeup tid) s"] enqueue_frame
  by (auto simp: port_enqueue_with_check_def Let_def block_on_thr wq_frame_def split: option.splits prod.splits)

lemma futex_wait_prio: "prio (thr (snd (futex_wait tid aspace addr expected s)) t) = prio (thr s t)"
  using turnstile_for_rest(1) [of "futex_hash aspace addr" "futex_key aspace addr" tid "emit (ClearWakeup tid) s"] enqueue_frame
  by (auto simp: futex_wait_def Let_def block_on_thr wq_frame_def split: option.splits prod.splits)

lemma dequeue_prio: "ts_dequeue_head p s = (r, s1) \<Longrightarrow> prio (thr s1 t) = prio (thr s t)"
  using dequeue_frame [of p s r s1] by (simp add: wq_frame_def)

lemma port_wake_one_prio: "prio (thr (snd (port_wake_one pid kt s)) t) = prio (thr s t)"
  using dequeue_prio by (auto simp: port_wake_one_def Let_def retire_rest block_on_thr split: option.splits prod.splits)

lemma port_dequeue_one_prio: "prio (thr (snd (port_dequeue_one pid kt s)) t) = prio (thr s t)"
  using dequeue_prio by (auto simp: port_dequeue_one_def Let_def retire_rest block_on_thr split: option.splits prod.splits)

lemma give_back_prio: "prio (thr (give_back u p (sys_remove h k s)) t) = prio (thr s t)" "prio (thr (free_turnstile p (sys_remove h k s)) t) = prio (thr s t)"
  by (simp_all add: give_back_def upd_thr_def free_turnstile_def sys_remove_def split: prod.splits)

lemma futex_wake_loop_prio: "futex_wake_loop p n w lst s = (w', lst', s') \<Longrightarrow> prio (thr s' t) = prio (thr s t)"
proof (induction n arbitrary: w lst s)
  case (Suc n)
  show ?case
    using Suc.prems dequeue_prio Suc.IH by (auto simp: block_on_thr split: option.splits prod.splits if_splits)
qed simp

lemma futex_wake_prio: "prio (thr (snd (futex_wake aspace addr cnt s)) t) = prio (thr s t)"
  using futex_wake_loop_prio by (auto simp: futex_wake_def Let_def give_back_prio split: option.splits prod.splits)

lemma port_wake_all_prio:
  assumes "ts_rep s Q" "kt \<noteq> KEY_FUTEX" "port_wake_all pid kt s = Some (n, s')"
  shows "prio (thr s' t) = prio (thr s t)"
proof (cases "look s (port_key pid kt)")
  case None
  then show ?thesis using assms by (simp add: port_wake_all_def port_hash sys_lookup_look)
next
  case (Some p)
  let ?n = "Suc (length (Q (port_key pid kt)))"
  obtain w l s1 where f: "futex_wake_loop p ?n 0 TS_NIL s = (w, l, s1)" by (metis prod_cases3)
  then have "wake_all_loop p 0 TS_NIL s = Some (w, l, s1)" using wake_all_is_futex_loop [OF repD(1) [OF assms(1)] Some, of ?n] by simp
  then have "s' = (if l \<noteq> TS_NIL then give_back l p (sys_remove (key_hash (port_key pid kt)) (port_key pid kt) s1)
      else free_turnstile p (sys_remove (key_hash (port_key pid kt)) (port_key pid kt) s1))"
    using assms Some by (auto simp: port_wake_all_def port_hash sys_lookup_look Let_def)
  then show ?thesis using futex_wake_loop_prio [OF f] by (simp add: give_back_prio)
qed

lemma may_blockD:
  assumes "may_block k tid s" "ts_rep s Q"
  shows "alloc_ok s" "tid \<noteq> TS_NIL" "ts_blocked_on (thr s tid) = 0" "length (Q k) < 65535"
proof -
  show "alloc_ok s" "tid \<noteq> TS_NIL" "ts_blocked_on (thr s tid) = 0" using assms(1) by (simp_all add: may_block_def)
  have qs: "queues_ok s Q" using repD(1) [OF assms(2)] by (simp add: ts_part_def)
  show "length (Q k) < 65535"
    using assms(1) queuesD(1,4) [OF qs] by (cases "look s k") (auto simp: may_block_def sys_lookup_look queued_def)
qed

lemma returning_key:
  assumes rep: "ts_rep s Q" and ok: "call_ok (FutexReturn tid aspace addr) s" and b: "ts_blocked_on (thr s tid) \<noteq> 0"
  shows "tid \<in> set (Q (futex_key aspace addr))"
proof -
  have t: "trie_ok s" and qs: "queues_ok s Q" using repD(1) [OF rep] by (simp_all add: ts_part_def)
  obtain k where k: "tid \<in> set (Q k)" using queuesD(6) [OF qs b] by blast
  obtain p where "look s k = Some p" "ts_blocked_on (thr s tid) = p" using in_queue_look [OF qs k] by metis
  then have "k = futex_key aspace addr" using look_key(1) [OF t, of k p] ok b by simp
  then show ?thesis using k by simp
qed

lemma exec_call_refines:
  assumes sm: "sim pr s Q" and ok: "call_ok c s"
  shows "\<exists>a s' Q'. exec_call c s = Some (a, s') \<and> spec_call pr c a Q = Some Q' \<and> sim pr s' Q'"
proof -
  have rep: "ts_rep s Q" and pr: "\<And>t. prio (thr s t) = pr t" using sm by (simp_all add: sim_def)
  have prs: "(\<lambda>t. prio (thr s t)) = pr" using pr by blast
  show ?thesis
  proof (cases c)
    case (PortBlock pid kt tid cond)
    obtain b s' where e: "port_enqueue_with_check pid kt tid cond s = (b, s')" by fastforce
    have mb: "may_block (port_key pid kt) tid s" "kt \<noteq> KEY_FUTEX" using ok PortBlock by simp_all
    note st = port_enqueue_step [where Q = Q, OF rep may_blockD(1-3) [OF mb(1) rep] mb(2) may_blockD(4) [OF mb(1) rep] e]
    have "prio (thr s' t) = pr t" for t using port_block_prio [of pid kt tid cond s t] e pr by simp
    then show ?thesis using PortBlock e st(1,2) by (auto simp: sim_def)
  next
    case (PortWake pid kt)
    obtain r s' where e: "port_wake_one pid kt s = (r, s')" by fastforce
    have "kt \<noteq> KEY_FUTEX" using ok PortWake by simp
    note st = port_wake_one_step [where Q = Q, OF rep this e]
    have "prio (thr s' t) = pr t" for t using port_wake_one_prio [of pid kt s t] e pr by simp
    then show ?thesis using PortWake e st(1,2) by (simp add: sim_def head_of_def)
  next
    case (PortDequeue pid kt)
    obtain r s' where e: "port_dequeue_one pid kt s = (r, s')" by fastforce
    have "kt \<noteq> KEY_FUTEX" using ok PortDequeue by simp
    note st = port_dequeue_one_step [where Q = Q, OF rep this e]
    have "prio (thr s' t) = pr t" for t using port_dequeue_one_prio [of pid kt s t] e pr by simp
    then show ?thesis using PortDequeue e st(1,2) by (simp add: sim_def head_of_def)
  next
    case (PortWakeAll pid kt)
    have kt: "kt \<noteq> KEY_FUTEX" using ok PortWakeAll by simp
    then obtain s' where e: "port_wake_all pid kt s = Some (of_nat (length (Q (port_key pid kt))), s')" "ts_rep s' (Q(port_key pid kt := []))"
      using port_wake_all_step [OF rep] by blast
    have "prio (thr s' t) = pr t" for t using port_wake_all_prio [OF rep kt e(1)] pr by simp
    then show ?thesis using PortWakeAll e by (simp add: sim_def)
  next
    case (FutexWait tid aspace addr expected)
    obtain r s' where e: "futex_wait tid aspace addr expected s = (r, s')" by fastforce
    have mb: "may_block (futex_key aspace addr) tid s" using ok FutexWait by simp
    note st = futex_wait_step [where Q = Q, OF rep may_blockD [OF mb rep] e]
    have "prio (thr s' t) = pr t" for t using futex_wait_prio [of tid aspace addr expected s t] e pr by simp
    then show ?thesis using FutexWait e st(1) by (auto simp: sim_def)
  next
    case (FutexReturn tid aspace addr)
    have al: "alloc_ok s" using ok FutexReturn by simp
    have here: "tid \<in> set (Q (futex_key aspace addr))" if "ts_blocked_on (thr s tid) \<noteq> 0"
      using returning_key [OF rep _ that] ok FutexReturn by simp
    show ?thesis
    proof (rule futex_wait_return_step [OF rep al here])
      fix s' assume "futex_wait_return tid aspace addr s = Some (0, s')" "ts_rep s' (\<lambda>k. filter (\<lambda>t. t \<noteq> tid) (Q k))"
        "\<And>t. prio (thr s' t) = prio (thr s t)"
      then show ?thesis using FutexReturn pr by (simp add: sim_def)
    qed
  next
    case (FutexWake aspace addr cnt)
    obtain r s' where e: "futex_wake aspace addr cnt s = (r, s')" by fastforce
    note st = futex_wake_step [where Q = Q, OF rep e]
    have "prio (thr s' t) = pr t" for t using futex_wake_prio [of aspace addr cnt s t] e pr by simp
    then show ?thesis using FutexWake e st(1,2) by (simp add: sim_def)
  next
    case (PiWait tid aspace addr own)
    have mb: "may_block (futex_key aspace addr) tid s" using ok PiWait by simp
    let ?k = "futex_key aspace addr"
    have bp: "by_prio s tid xs = prio_insert pr tid xs" for xs by (simp add: by_prio_def prio_insert_def pr Let_def)
    show ?thesis
    proof (rule futex_wait_pi_step [where Q = Q and own = own, OF rep may_blockD [OF mb rep]])
      fix r s' assume "futex_wait_pi tid aspace addr own s = Some (r, s')"
        "ts_rep s' (if r = Blocked then Q(?k := by_prio s tid (Q ?k)) else Q)" "\<And>t. prio (thr s' t) = prio (thr s t)"
      then show ?thesis using PiWait pr by (auto simp: sim_def bp)
    qed
  next
    case (PiWake caller aspace addr)
    obtain r s' where e: "futex_wake_pi caller aspace addr s = (r, s')" by fastforce
    note st = futex_wake_pi_step [where Q = Q, OF rep e]
    show ?thesis
    proof (cases "Q (futex_key aspace addr)")
      case Nil
      then have "r = 1" "s' = s" "Q(futex_key aspace addr := []) = Q" using st by (auto simp: fun_upd_idem)
      then show ?thesis using PiWake e Nil sm by simp
    next
      case (Cons x xs)
      then show ?thesis using PiWake e st pr by (simp add: sim_def)
    qed
  next
    case (Kill tid)
    show ?thesis
    proof (rule cleanup_step [OF rep, of tid])
      fix s' assume "cleanup_blocked tid s = Some s'" "ts_rep s' (\<lambda>k. filter (\<lambda>t. t \<noteq> tid) (Q k))"
        "\<And>t. prio (thr s' t) = prio (thr s t)"
      then show ?thesis using Kill pr by (simp add: sim_def)
    qed
  qed
qed

lemma exec_calls_refines:
  "sim pr s Q \<Longrightarrow> calls_ok cs s \<Longrightarrow> \<exists>as s' Q'. exec_calls cs s = Some (as, s') \<and> spec_calls pr cs as Q = Some Q' \<and> sim pr s' Q'"
proof (induction cs arbitrary: s Q)
  case (Cons c cs)
  obtain a s1 Q1 where c: "exec_call c s = Some (a, s1)" "spec_call pr c a Q = Some Q1" "sim pr s1 Q1"
    using exec_call_refines [OF Cons.prems(1), of c] Cons.prems(2) by auto
  moreover obtain as s' Q' where "exec_calls cs s1 = Some (as, s')" "spec_calls pr cs as Q1 = Some Q'" "sim pr s' Q'"
    using Cons.IH [OF c(3)] Cons.prems(2) c(1) by auto
  ultimately show ?case by (intro exI [of _ "a # as"]) auto
qed simp

section \<open>Memory over a history\<close>

text \<open>Calls that may not lose a turnstile: all but the clean-up of a blocked thread that has kept one of its own.\<close>

fun keeps_blocks :: "ts_call \<Rightarrow> TsSys \<Rightarrow> bool" where
  "keeps_blocks (Kill tid) s \<longleftrightarrow> turnstile (thr s tid) = 0 \<or> ts_blocked_on (thr s tid) = 0"
| "keeps_blocks (FutexReturn tid aspace addr) s \<longleftrightarrow> turnstile (thr s tid) = 0 \<or> ts_blocked_on (thr s tid) = 0"
| "keeps_blocks c s \<longleftrightarrow> True"

fun all_keep_blocks :: "ts_call list \<Rightarrow> TsSys \<Rightarrow> bool" where
  "all_keep_blocks [] s \<longleftrightarrow> True"
| "all_keep_blocks (c # cs) s \<longleftrightarrow> keeps_blocks c s \<and> (case exec_call c s of None \<Rightarrow> True | Some (a, s1) \<Rightarrow> all_keep_blocks cs s1)"

lemma not_alone:
  assumes "ts_rep s Q" "turnstile (thr s tid) = 0 \<or> ts_blocked_on (thr s tid) = 0"
  shows "turnstile (thr s tid) = 0 \<or> (\<forall>k. Q k \<noteq> [tid])"
proof (cases "ts_blocked_on (thr s tid) = 0")
  case True
  have "queues_ok s Q" using repD(1) [OF assms(1)] by (simp add: ts_part_def)
  then have "tid \<notin> set (Q k)" for k using not_waiting True by blast
  then show ?thesis by (metis list.set_intros(1))
qed (use assms(2) in simp)

lemma exec_call_no_leak:
  assumes rep: "ts_rep s Q" and ok: "call_ok c s" and kb: "keeps_blocks c s" and nl: "no_leak s" and e: "exec_call c s = Some (a, s')"
  shows "no_leak s'"
proof (cases c)
  case (PortBlock pid kt tid cond)
  obtain b where e: "port_enqueue_with_check pid kt tid cond s = (b, s')" using e PortBlock by (auto simp: apfst_def map_prod_def split: prod.splits)
  have mb: "may_block (port_key pid kt) tid s" "kt \<noteq> KEY_FUTEX" using ok PortBlock by simp_all
  then show ?thesis using port_enqueue_step(3) [where Q = Q, OF rep may_blockD(1-3) [OF mb(1) rep] mb(2) may_blockD(4) [OF mb(1) rep] e] nl by blast
next
  case (PortWake pid kt)
  then obtain r where "port_wake_one pid kt s = (r, s')" "kt \<noteq> KEY_FUTEX" using e ok by (auto simp: apfst_def map_prod_def split: prod.splits)
  then show ?thesis using port_wake_one_step(3) [where Q = Q, OF rep] nl by blast
next
  case (PortDequeue pid kt)
  then obtain r where "port_dequeue_one pid kt s = (r, s')" "kt \<noteq> KEY_FUTEX" using e ok by (auto simp: apfst_def map_prod_def split: prod.splits)
  then show ?thesis using port_dequeue_one_step(3) [where Q = Q, OF rep] nl by blast
next
  case (PortWakeAll pid kt)
  then show ?thesis using port_wake_all_step [OF rep, of kt pid] e ok nl by auto
next
  case (FutexWait tid aspace addr expected)
  then obtain r where r: "futex_wait tid aspace addr expected s = (r, s')" using e by (auto simp: apfst_def map_prod_def split: prod.splits)
  have mb: "may_block (futex_key aspace addr) tid s" using ok FutexWait by simp
  show ?thesis using futex_wait_step(3) [where Q = Q, OF rep may_blockD [OF mb rep] r] nl by blast
next
  case (FutexReturn tid aspace addr)
  have al: "alloc_ok s" using ok FutexReturn by simp
  have here: "tid \<in> set (Q (futex_key aspace addr))" if "ts_blocked_on (thr s tid) \<noteq> 0"
    using returning_key [OF rep _ that] ok FutexReturn by simp
  show ?thesis
  proof (rule futex_wait_return_step [OF rep al here])
    fix s1 assume "futex_wait_return tid aspace addr s = Some (0, s1)"
      "turnstile (thr s tid) = 0 \<or> (\<forall>k. Q k \<noteq> [tid]) \<Longrightarrow> no_leak s \<Longrightarrow> no_leak s1"
    then show ?thesis using not_alone [OF rep, of tid] kb FutexReturn nl e by simp
  qed
next
  case (FutexWake aspace addr cnt)
  then obtain r where "futex_wake aspace addr cnt s = (r, s')" using e by (auto simp: apfst_def map_prod_def split: prod.splits)
  then show ?thesis using futex_wake_step(3) [where Q = Q, OF rep] nl by blast
next
  case (PiWait tid aspace addr own)
  have mb: "may_block (futex_key aspace addr) tid s" using ok PiWait by simp
  show ?thesis
  proof (rule futex_wait_pi_step [where Q = Q and own = own, OF rep may_blockD [OF mb rep]])
    fix r s1 assume "futex_wait_pi tid aspace addr own s = Some (r, s1)" "no_leak s \<Longrightarrow> no_leak s1"
    then show ?thesis using PiWait e nl by simp
  qed
next
  case (PiWake caller aspace addr)
  then obtain r where "futex_wake_pi caller aspace addr s = (r, s')" using e by (auto simp: apfst_def map_prod_def split: prod.splits)
  from futex_wake_pi_step [where Q = Q, OF rep this] show ?thesis using nl by (cases "Q (futex_key aspace addr)") auto
next
  case (Kill tid)
  show ?thesis
  proof (rule cleanup_step [OF rep, of tid])
    fix s1 assume "cleanup_blocked tid s = Some s1" "turnstile (thr s tid) = 0 \<or> (\<forall>k. Q k \<noteq> [tid]) \<Longrightarrow> no_leak s \<Longrightarrow> no_leak s1"
    then show ?thesis using not_alone [OF rep, of tid] kb Kill nl e by simp
  qed
qed

lemma exec_calls_no_leak:
  "sim pr s Q \<Longrightarrow> calls_ok cs s \<Longrightarrow> all_keep_blocks cs s \<Longrightarrow> no_leak s \<Longrightarrow> exec_calls cs s = Some (as, s') \<Longrightarrow> no_leak s'"
proof (induction cs arbitrary: s Q as)
  case (Cons c cs)
  obtain a s1 Q1 where c: "exec_call c s = Some (a, s1)" "sim pr s1 Q1" using exec_call_refines [OF Cons.prems(1), of c] Cons.prems(2) by auto
  moreover have "no_leak s1" using exec_call_no_leak [of s Q c a s1] Cons.prems c(1) by (simp add: sim_def)
  ultimately show ?case using Cons.IH [OF c(2)] Cons.prems by auto
qed simp

text \<open>At the start no thread waits; a thread may have been given a turnstile when it was created.\<close>

definition slot_of :: "(u32 \<times> nat) list \<Rightarrow> u32 \<Rightarrow> nat" where
  "slot_of slots t = (case map_of slots t of Some a \<Rightarrow> a | None \<Rightarrow> 0)"

definition ts_boot :: "(u32 \<Rightarrow> u8) \<Rightarrow> (u32 \<times> nat) list \<Rightarrow> nat option list \<Rightarrow> bool list \<Rightarrow> (u64 \<Rightarrow> u64 \<Rightarrow> u32 option) \<Rightarrow> TsSys" where
  "ts_boot pr slots answers nodes user =
     \<lparr>thr = (\<lambda>t. \<lparr>ts_next = TS_NIL, ts_prev = TS_NIL, ts_blocked_on = 0, turnstile = slot_of slots t, prio = pr t\<rparr>),
      mem = (\<lambda>_. blank_ts), alive = (\<lambda>a. a \<in> set (map snd slots)), wait_roots = roots_new,
      node_mem = \<lparr>node_answers = nodes, node_live = 0\<rparr>, ts_answers = answers, inv_fails = 0, double_enq = 0, deq_hamt_miss = 0,
      deq_ts_empty_ok = 0, deq_ts_empty_bug = 0, ts_trace = replicate TS_TRACE_LEN \<lparr>tr_seq = 0, tr_op_tid = 0, tr_ts_ptr = 0, tr_head_tail = 0, tr_wc = 0\<rparr>,
      ts_trace_head = 0, cpu_id = 0, events = [], umem = user\<rparr>"

definition own_slots :: "(u32 \<times> nat) list \<Rightarrow> bool" where
  "own_slots slots \<longleftrightarrow> distinct (map fst slots) \<and> distinct (map snd slots) \<and> 0 \<notin> set (map snd slots)"

lemma slot_of_in: "slot_of slots t \<noteq> 0 \<Longrightarrow> (t, slot_of slots t) \<in> set slots"
  by (auto simp: slot_of_def map_of_SomeD split: option.splits)

lemma slot_of_eq: "own_slots slots \<Longrightarrow> (t, a) \<in> set slots \<Longrightarrow> slot_of slots t = a"
  by (simp add: slot_of_def own_slots_def)

lemma slot_of_inj:
  assumes "own_slots slots" "slot_of slots t = slot_of slots u" "slot_of slots t \<noteq> 0"
  shows "t = u"
proof -
  have "(t, slot_of slots t) \<in> set slots" "(u, slot_of slots t) \<in> set slots" using slot_of_in assms(2,3) by metis+
  moreover have "inj_on snd (set slots)" using assms(1) by (simp add: own_slots_def distinct_map)
  ultimately show ?thesis using inj_onD [of snd "set slots" "(t, slot_of slots t)" "(u, slot_of slots t)"] by simp
qed

lemma ts_boot_ok:
  assumes ow: "own_slots slots"
  shows "sim pr (ts_boot pr slots answers nodes user) (\<lambda>_. [])" "no_leak (ts_boot pr slots answers nodes user)"
proof -
  let ?s = "ts_boot pr slots answers nodes user"
  have lk: "look ?s = Map.empty" and tr: "trie_ok ?s"
    using index_new_ok [of "mem ?s" nodes] by (simp_all add: look_def trie_ok_def index_map_def index_ok_def index_new_def ts_boot_def)
  have ts: "turnstile (thr ?s t) = slot_of slots t" "ts_blocked_on (thr ?s t) = 0" "alive ?s a = (a \<in> snd ` set slots)" "prio (thr ?s t) = pr t" for t a
    by (simp_all add: ts_boot_def)
  have "queues_ok ?s (\<lambda>_. [])" by (simp add: queues_ok_def lk ts)
  moreover have "owned_ok ?s" using slot_of_in [of slots] slot_of_inj [OF ow] by (force simp: owned_ok_def lk ts)
  ultimately show "sim pr ?s (\<lambda>_. [])" using tr by (simp add: sim_def ts_rep_def ts_part_def lk ts)
  show "no_leak ?s"
    unfolding no_leak_def lk ts
  proof (intro allI impI disjI2)
    fix a assume "a \<in> snd ` set slots"
    then obtain t where "(t, a) \<in> set slots" by auto
    then show "\<exists>t. slot_of slots t = a \<and> a \<noteq> 0" using slot_of_eq [OF ow] ow by (force simp: own_slots_def)
  qed
qed

section \<open>Serving waiters in order\<close>

text \<open>
  The contract that the ports rely on: blocking appends to the queue of a key or is refused, waking takes its head. In
  every history of the two, what has been served and then what still waits is what waited at first and then what joined.
\<close>

datatype ('k, 't) room_op = Join 'k 't | Serve 'k

definition at_key :: "'k \<Rightarrow> ('k \<times> 't) list \<Rightarrow> 't list" where
  "at_key k ps = map snd (filter (\<lambda>p. fst p = k) ps)"

lemma at_key_simps [simp]: "at_key k [] = []" "at_key k ((j, t) # ps) = (if j = k then t # at_key k ps else at_key k ps)"
  by (simp_all add: at_key_def)

locale waiting_room =
  fixes rep :: "'s \<Rightarrow> ('k \<Rightarrow> 't list) \<Rightarrow> bool"
    and is_key :: "'k \<Rightarrow> bool"
    and may_join :: "'k \<Rightarrow> 't \<Rightarrow> 's \<Rightarrow> bool"
    and join :: "'k \<Rightarrow> 't \<Rightarrow> 's \<Rightarrow> bool \<times> 's"
    and leave :: "'k \<Rightarrow> 's \<Rightarrow> 't option \<times> 's"
  assumes join_law: "rep s Q \<Longrightarrow> is_key k \<Longrightarrow> may_join k t s \<Longrightarrow> join k t s = (ok, s') \<Longrightarrow> rep s' (if ok then Q(k := Q k @ [t]) else Q)"
    and leave_law: "rep s Q \<Longrightarrow> is_key k \<Longrightarrow> leave k s = (r, s') \<Longrightarrow>
      r = (case Q k of [] \<Rightarrow> None | x # xs \<Rightarrow> Some x) \<and> rep s' (Q(k := tl (Q k)))"
begin

text \<open>The threads that joined and the threads that were served, each with its key, and the state.\<close>

fun day :: "('k, 't) room_op list \<Rightarrow> 's \<Rightarrow> ('k \<times> 't) list \<times> ('k \<times> 't) list \<times> 's" where
  "day [] s = ([], [], s)"
| "day (Join k t # ops) s =
     (case join k t s of (ok, s1) \<Rightarrow> case day ops s1 of (ins, outs, s2) \<Rightarrow> (if ok then (k, t) # ins else ins, outs, s2))"
| "day (Serve k # ops) s =
     (case leave k s of (r, s1) \<Rightarrow> case day ops s1 of (ins, outs, s2) \<Rightarrow> (ins, case r of Some t \<Rightarrow> (k, t) # outs | None \<Rightarrow> outs, s2))"

fun day_ok :: "('k, 't) room_op list \<Rightarrow> 's \<Rightarrow> bool" where
  "day_ok [] s \<longleftrightarrow> True"
| "day_ok (Join k t # ops) s \<longleftrightarrow> is_key k \<and> may_join k t s \<and> day_ok ops (snd (join k t s))"
| "day_ok (Serve k # ops) s \<longleftrightarrow> is_key k \<and> day_ok ops (snd (leave k s))"

lemma first_in_first_out:
  "rep s Q \<Longrightarrow> day_ok ops s \<Longrightarrow> day ops s = (ins, outs, s') \<Longrightarrow> \<exists>Q'. rep s' Q' \<and> (\<forall>k. at_key k outs @ Q' k = Q k @ at_key k ins)"
proof (induction ops arbitrary: s Q ins outs s')
  case Nil
  then show ?case by auto
next
  case (Cons p ops)
  show ?case
  proof (cases p)
    case (Join j t)
    obtain ok s1 where j: "join j t s = (ok, s1)" by fastforce
    obtain i2 o2 s2 where d: "day ops s1 = (i2, o2, s2)" by (metis prod_cases3)
    have "rep s1 (if ok then Q(j := Q j @ [t]) else Q)" using join_law Cons.prems(1,2) Join j by simp
    moreover have "day_ok ops s1" using Cons.prems(2) Join j by simp
    ultimately obtain Q' where q: "rep s2 Q'" "\<And>k. at_key k o2 @ Q' k = (if ok then Q(j := Q j @ [t]) else Q) k @ at_key k i2" using Cons.IH [OF _ _ d] by blast
    have "at_key k outs @ Q' k = Q k @ at_key k ins" for k using q(2) [of k] Cons.prems(3) Join j d by (auto split: if_splits)
    then show ?thesis using q(1) Cons.prems(3) Join j d by auto
  next
    case (Serve j)
    obtain r s1 where j: "leave j s = (r, s1)" by fastforce
    obtain i2 o2 s2 where d: "day ops s1 = (i2, o2, s2)" by (metis prod_cases3)
    have l: "r = (case Q j of [] \<Rightarrow> None | x # xs \<Rightarrow> Some x)" "rep s1 (Q(j := tl (Q j)))" using leave_law [OF Cons.prems(1) _ j] Cons.prems(2) Serve by simp_all
    moreover have "day_ok ops s1" using Cons.prems(2) Serve j by simp
    ultimately obtain Q' where q: "rep s2 Q'" "\<And>k. at_key k o2 @ Q' k = (Q(j := tl (Q j))) k @ at_key k i2" using Cons.IH [OF _ _ d] by blast
    have "at_key k outs @ Q' k = Q k @ at_key k ins" for k using q(2) [of k] Cons.prems(3) Serve j d l(1) by (cases "Q j") (auto split: if_splits)
    then show ?thesis using q(1) Cons.prems(3) Serve j d by auto
  qed
qed

lemma served_in_time:
  assumes "rep s Q" "day_ok ops s" "day ops s = (ins, outs, s')" "n < length (Q k)" "n < length (at_key k outs)"
  shows "at_key k outs ! n = Q k ! n"
proof -
  obtain Q' where "at_key k outs @ Q' k = Q k @ at_key k ins" using first_in_first_out [OF assms(1-3)] by blast
  then show ?thesis using assms(4,5) by (metis nth_append)
qed

end

definition is_port_key :: "wkey \<Rightarrow> bool" where
  "is_port_key k = (case k of WKey kt aspace v \<Rightarrow> kt \<noteq> KEY_FUTEX \<and> aspace = 0)"

definition port_join :: "wkey \<Rightarrow> u32 \<Rightarrow> TsSys \<Rightarrow> bool \<times> TsSys" where
  "port_join k tid s = (case k of WKey kt aspace v \<Rightarrow> port_enqueue_with_check v kt tid True s)"

definition port_wake :: "wkey \<Rightarrow> TsSys \<Rightarrow> u32 option \<times> TsSys" where
  "port_wake k s = (case k of WKey kt aspace v \<Rightarrow> port_wake_one v kt s)"

definition port_take :: "wkey \<Rightarrow> TsSys \<Rightarrow> u32 option \<times> TsSys" where
  "port_take k s = (case k of WKey kt aspace v \<Rightarrow> port_dequeue_one v kt s)"

lemma port_join_law:
  assumes "ts_rep s Q" "is_port_key k" "may_block k t s" "port_join k t s = (ok, s')"
  shows "ts_rep s' (if ok then Q(k := Q k @ [t]) else Q)"
proof -
  obtain kt v where k: "k = port_key v kt" "kt \<noteq> KEY_FUTEX" using assms(2) by (cases k) (auto simp: is_port_key_def)
  have "length (Q (port_key v kt)) < 65535" "port_enqueue_with_check v kt t True s = (ok, s')"
    using may_blockD(4) [OF assms(3,1)] assms(4) k(1) by (simp_all add: port_join_def)
  from port_enqueue_step(1) [where Q = Q, OF assms(1) may_blockD(1-3) [OF assms(3,1)] k(2) this]
  show ?thesis unfolding k(1) .
qed

interpretation wake: waiting_room ts_rep is_port_key may_block port_join port_wake
proof
  show "ts_rep s' (if ok then Q(k := Q k @ [t]) else Q)"
    if "ts_rep s Q" "is_port_key k" "may_block k t s" "port_join k t s = (ok, s')" for s Q k t ok s' using port_join_law that by blast
  show "r = (case Q k of [] \<Rightarrow> None | x # xs \<Rightarrow> Some x) \<and> ts_rep s' (Q(k := tl (Q k)))"
    if h: "ts_rep s Q" "is_port_key k" "port_wake k s = (r, s')" for s Q k r s'
    using port_wake_one_step [where Q = Q, OF h(1)] h(2,3) by (auto simp: is_port_key_def port_wake_def split: wkey.splits)
qed

interpretation take: waiting_room ts_rep is_port_key may_block port_join port_take
proof
  show "ts_rep s' (if ok then Q(k := Q k @ [t]) else Q)"
    if "ts_rep s Q" "is_port_key k" "may_block k t s" "port_join k t s = (ok, s')" for s Q k t ok s' using port_join_law that by blast
  show "r = (case Q k of [] \<Rightarrow> None | x # xs \<Rightarrow> Some x) \<and> ts_rep s' (Q(k := tl (Q k)))"
    if h: "ts_rep s Q" "is_port_key k" "port_take k s = (r, s')" for s Q k r s'
    using port_dequeue_one_step(1,2) [where Q = Q, OF h(1)] h(2,3) by (auto simp: is_port_key_def port_take_def split: wkey.splits)
qed

section \<open>Priority inheritance over a history\<close>

lemma prio_insert_sorted: "sorted (map pr xs) \<Longrightarrow> sorted (map pr (prio_insert pr t xs))"
proof (induction xs)
  case (Cons x xs)
  then show ?case by (cases "pr x \<le> pr t") (auto simp: prio_insert_def dest: set_takeWhileD set_dropWhileD)
qed (simp add: prio_insert_def)

lemma sorted_drop: "sorted (map f xs) \<Longrightarrow> sorted (map f (drop n xs))"
  by (simp add: drop_map [symmetric] sorted_wrt_drop)

lemma sorted_tl_map: "sorted (map f xs) \<Longrightarrow> sorted (map f (tl xs))"
  by (cases xs) auto

lemma sorted_filter_map: "sorted (map f xs) \<Longrightarrow> sorted (map f (filter P xs))"
  by (induction xs) auto

fun plain_wait_on :: "u64 \<Rightarrow> u64 \<Rightarrow> ts_call \<Rightarrow> bool" where
  "plain_wait_on aspace addr (FutexWait tid as ad e) = (as = aspace \<and> ad = addr)"
| "plain_wait_on aspace addr (PortBlock pid kt tid cond) = (kt = KEY_FUTEX)"
| "plain_wait_on aspace addr c = False"

lemma spec_call_sorted:
  assumes "spec_call pr c a Q = Some Q'" "\<not> plain_wait_on aspace addr c" "sorted (map pr (Q (futex_key aspace addr)))"
  shows "sorted (map pr (Q' (futex_key aspace addr)))"
  using assms
  by (cases c; cases a)
    (auto simp: prio_insert_sorted sorted_drop sorted_tl_map sorted_filter_map KEY_FUTEX_def split: if_splits)

lemma spec_calls_sorted:
  "spec_calls pr cs as Q = Some Q' \<Longrightarrow> \<forall>c\<in>set cs. \<not> plain_wait_on aspace addr c \<Longrightarrow> sorted (map pr (Q (futex_key aspace addr))) \<Longrightarrow>
   sorted (map pr (Q' (futex_key aspace addr)))"
proof (induction pr cs as Q rule: spec_calls.induct)
  case (2 pr c cs a as Q)
  then obtain Q1 where "spec_call pr c a Q = Some Q1" "spec_calls pr cs as Q1 = Some Q'" by (auto simp: bind_eq_Some_conv)
  then show ?case using 2 spec_call_sorted by (metis list.set_intros(1,2))
qed auto

section \<open>An example\<close>

text \<open>
  Threads 1 and 2, each with a turnstile, block on a port in this order; the first lends its turnstile. When 1 is woken
  the turnstile stays with 2, which still has its own.
\<close>

lemma may_blockI:
  assumes "ts_rep s Q" "alloc_ok s" "tid \<noteq> TS_NIL" "\<And>j. tid \<notin> set (Q j)" "length (Q k) < 65535"
  shows "may_block k tid s"
proof -
  have qs: "queues_ok s Q" using repD(1) [OF assms(1)] by (simp add: ts_part_def)
  have "ts_blocked_on (thr s tid) = 0" using queuesD(6) [OF qs, of tid] assms(4) by blast
  moreover have "unat (waiter_count (mem s p)) < 65535" if "look s k = Some p" for p
    using queuesD(4) [OF qs that] assms(5) by (simp add: queued_def)
  ultimately show ?thesis using assms(2,3) by (auto simp: may_block_def sys_lookup_look split: option.splits)
qed

lemma port_block_rest:
  assumes "port_enqueue_with_check pid kt tid cond s = (ok, s')"
  shows "ts_answers s = [] \<Longrightarrow> ts_answers s' = []" "t \<noteq> tid \<Longrightarrow> turnstile (thr s' t) = turnstile (thr s t)"
  using assms enqueue_frame
  by (auto simp: port_enqueue_with_check_def turnstile_for_def take_or_alloc_turnstile_def alloc_turnstile_def sys_insert_def init_turnstile_def
      free_turnstile_def record_ts_mut_def upd_ts_def upd_thr_def block_on_def wq_frame_def Let_def
      split: option.splits prod.splits bool.splits list.splits if_splits)

lemma port_block_joins:
  assumes "ts_rep s Q" "kt \<noteq> KEY_FUTEX" "Q (port_key pid kt) \<noteq> []" "port_enqueue_with_check pid kt tid True s = (ok, s')"
  shows "ok" "turnstile (thr s' t) = turnstile (thr s t)"
proof -
  obtain p where p: "look s (port_key pid kt) = Some p" using rep_queue [OF assms(1), of "port_key pid kt"] assms(3) by (cases "look s (port_key pid kt)") auto
  have "sys_lookup (port_key_hash pid kt) (port_key pid kt) (emit (ClearWakeup tid) s) = Some p"
    using p assms(2) by (simp add: port_hash sys_lookup_look)
  then have "ok \<and> s' = block_on tid p (ts_enqueue p tid (emit (ClearWakeup tid) s))"
    using assms(4) by (auto simp: port_enqueue_with_check_def turnstile_for_def Let_def)
  then show "ok" "turnstile (thr s' t) = turnstile (thr s t)"
    using enqueue_frame [of p "emit (ClearWakeup tid) s" tid] by (simp_all add: block_on_thr wq_frame_def)
qed

lemma port_wake_one_slots:
  assumes rep: "ts_rep s Q" and kt: "kt \<noteq> KEY_FUTEX" and q: "Q (port_key pid kt) = x # y # ys" and w: "port_wake_one pid kt s = (r, s')"
  shows "turnstile (thr s' t) = turnstile (thr s t)"
proof -
  let ?k = "port_key pid kt"
  obtain p where p: "look s ?k = Some p" using rep_queue [OF rep, of ?k] q by (cases "look s ?k") auto
  obtain s1 where s1: "ts_dequeue_head p s = (Some x, s1)" "waiter_count (mem (block_on x 0 s1) p) = 0 \<longleftrightarrow> y # ys = []" "links_frame p s (block_on x 0 s1)"
    using dequeue_step [OF repD(1) [OF rep] p q] by blast
  have "s' = emit (WakeThread x) (block_on x 0 s1)"
    using w p kt s1(1,2) by (simp add: port_wake_one_def port_hash sys_lookup_look retire_def Let_def)
  then show ?thesis using s1(3) by (simp add: links_frame_def)
qed

definition two_slots :: "(u32 \<times> nat) list" where "two_slots = [(1, 64), (2, 128)]"

definition start :: TsSys where "start = ts_boot (\<lambda>_. 0) two_slots [] [] (\<lambda>_ _. Some 0)"

lemma two_slots_own: "own_slots two_slots"
  by (simp add: own_slots_def two_slots_def)

lemma start_sim: "sim (\<lambda>_. 0) start (\<lambda>_. [])" "no_leak start" "ts_answers start = []" "turnstile (thr start 2) = 128"
  using ts_boot_ok [OF two_slots_own] by (simp_all add: start_def) (simp_all add: ts_boot_def slot_of_def two_slots_def)

lemma alloc_ok_none: "ts_answers s = [] \<Longrightarrow> alloc_ok s"
  by (simp add: alloc_ok_def)

text \<open>The first thread to block lends its turnstile: no node is needed to insert it into the empty trie.\<close>

lemma first_turnstile_for:
  assumes "wait_roots s = roots_new" "turnstile (thr s tid) \<noteq> 0"
  shows "fst (turnstile_for h k tid s) = Some (turnstile (thr s tid))"
proof -
  have r: "roots_new ! bucket_index h = replicate HAMT_WIDTH HNull" "replicate HAMT_WIDTH HNull ! nibble_at h 0 = HNull"
    by (simp_all add: roots_new_def NUM_BUCKETS_def HAMT_WIDTH_def)
  have "sys_lookup h k s = None" using assms(1) r by (simp add: sys_lookup_def hamt_lookup_def lookup_slot.simps)
  moreover have "fst (wait_insert m roots_new h p nm)" for m p nm by (simp add: wait_insert_def hamt_insert_def r insert_slot.simps Let_def)
  then have "fst (sys_insert h p s')" if "wait_roots s' = roots_new" for p s'
    using that by (simp add: sys_insert_def split: prod.splits) (metis fst_conv)
  then have "fst (sys_insert h p (init_turnstile p k h (upd_thr tid (\<lambda>t. t\<lparr>turnstile := 0\<rparr>) s)))" for p using assms(1) by (simp add: upd_thr_def)
  ultimately show ?thesis
    using assms(2) by (auto simp: turnstile_for_def take_or_alloc_turnstile_def Let_def split: prod.splits bool.splits) (metis fst_conv)
qed

lemma first_blocks: "fst (port_enqueue_with_check 7 1 1 True start)"
proof -
  have "fst (turnstile_for h k 1 (emit e start)) = Some 64" for h k e
    using first_turnstile_for [of "emit e start" 1] by (simp add: start_def ts_boot_def slot_of_def two_slots_def)
  then show ?thesis by (auto simp: port_enqueue_with_check_def Let_def split: prod.splits option.splits) (metis fst_conv option.simps(3))
qed

lemma KEY_1 [simp]: "(1::u8) \<noteq> KEY_FUTEX"
  by (simp add: KEY_FUTEX_def)

lemma TS_NIL_12 [simp]: "(1::u32) \<noteq> TS_NIL" "(2::u32) \<noteq> TS_NIL"
  by (simp_all add: TS_NIL_def)

lemma two_block:
  obtains s1 s2 s3 where "port_enqueue_with_check 7 1 1 True start = (True, s1)" "port_enqueue_with_check 7 1 2 True s1 = (True, s2)"
    "port_wake_one 7 1 s2 = (Some 1, s3)" "may_block (port_key 7 1) 1 start" "may_block (port_key 7 1) 2 s1"
    "ts_rep s3 (\<lambda>k. if k = port_key 7 1 then [2] else [])" "turnstile (thr s3 2) = 128" "no_leak s3"
proof -
  let ?k = "port_key 7 1"
  have r0: "ts_rep start (\<lambda>_. [])" using start_sim(1) by (simp add: sim_def)
  have m0: "may_block ?k 1 start" using may_blockI [OF r0 alloc_ok_none [OF start_sim(3)]] by simp
  obtain s1 where e1: "port_enqueue_with_check 7 1 1 True start = (True, s1)" using first_blocks by (cases "port_enqueue_with_check 7 1 1 True start") auto
  define Q1 :: "wkey \<Rightarrow> u32 list" where "Q1 = (\<lambda>k. if k = ?k then [1] else [])"
  define Q2 :: "wkey \<Rightarrow> u32 list" where "Q2 = (\<lambda>k. if k = ?k then [1, 2] else [])"
  define Q3 :: "wkey \<Rightarrow> u32 list" where "Q3 = (\<lambda>k. if k = ?k then [2] else [])"
  have Q: "(\<lambda>_. [])(?k := [] @ [1]) = Q1" "Q1(?k := Q1 ?k @ [2]) = Q2" "Q2(?k := tl (Q2 ?k)) = Q3"
    by (auto simp: Q1_def Q2_def Q3_def)
  note p1 = port_enqueue_step [OF r0 may_blockD(1-3) [OF m0 r0] KEY_1 may_blockD(4) [OF m0 r0] e1]
  have r1: "ts_rep s1 Q1" "no_leak s1" using p1(1) Q(1) p1(3) start_sim(2) by auto
  have m1: "may_block ?k 2 s1"
    using may_blockI [OF r1(1) alloc_ok_none [OF port_block_rest(1) [OF e1 start_sim(3)]]] by (auto simp: Q1_def)
  obtain ok s2 where e2: "port_enqueue_with_check 7 1 2 True s1 = (ok, s2)" by fastforce
  have "Q1 ?k \<noteq> []" by (simp add: Q1_def)
  note j = port_block_joins [OF r1(1) KEY_1 this e2]
  note p2 = port_enqueue_step [OF r1(1) may_blockD(1-3) [OF m1 r1(1)] KEY_1 may_blockD(4) [OF m1 r1(1)] e2]
  have r2: "ts_rep s2 Q2" "no_leak s2" using p2(1,3) r1(2) j(1) Q(2) by auto
  obtain r s3 where e3: "port_wake_one 7 1 s2 = (r, s3)" by fastforce
  note p3 = port_wake_one_step [OF r2(1) KEY_1 e3]
  have r3: "ts_rep s3 Q3" "r = Some 1" "no_leak s3" using p3 r2(2) Q(3) by (auto simp: Q2_def)
  have "Q2 ?k = 1 # 2 # []" by (simp add: Q2_def)
  then have "turnstile (thr s3 2) = 128"
    using port_wake_one_slots [OF r2(1) KEY_1 _ e3] j(2) port_block_rest(2) [OF e1, of 2] start_sim(4) by simp
  moreover have "port_enqueue_with_check 7 1 2 True s1 = (True, s2)" "port_wake_one 7 1 s2 = (Some 1, s3)" using e2 e3 j(1) r3(2) by simp_all
  ultimately show ?thesis using that [OF e1] m0 m1 r3(1,3) unfolding Q3_def by blast
qed

definition two_calls :: "ts_call list" where
  "two_calls = [PortBlock 7 1 1 True, PortBlock 7 1 2 True, PortWake 7 1]"

lemma two_calls_run:
  obtains s where "exec_calls two_calls start = Some ([ABool True, ABool True, ATid (Some 1)], s)" "calls_ok two_calls start"
    "all_keep_blocks two_calls start" "ts_rep s (\<lambda>k. if k = port_key 7 1 then [2] else [])" "turnstile (thr s 2) = 128" "no_leak s"
proof (rule two_block)
  fix s1 s2 s3 assume h: "port_enqueue_with_check 7 1 1 True start = (True, s1)" "port_enqueue_with_check 7 1 2 True s1 = (True, s2)"
    "port_wake_one 7 1 s2 = (Some 1, s3)" "may_block (port_key 7 1) 1 start" "may_block (port_key 7 1) 2 s1"
    "ts_rep s3 (\<lambda>k. if k = port_key 7 1 then [2] else [])" "turnstile (thr s3 2) = 128" "no_leak s3"
  show ?thesis by (rule that [of s3]) (use h in \<open>simp_all add: two_calls_def\<close>)
qed

section \<open>Properties\<close>



text \<open>C20 No turnstile is lost or shared over a history. If no blocked thread with a turnstile of its own is cleaned up, then after
  any history every live turnstile is in the trie under one key or kept by one thread, every turnstile in the trie or kept
  by a thread is live, and no turnstile is in two places.\<close>

theorem turnstile_history_memory:
  assumes "own_slots slots" "calls_ok cs (ts_boot pr slots answers nodes user)" "all_keep_blocks cs (ts_boot pr slots answers nodes user)"
    "exec_calls cs (ts_boot pr slots answers nodes user) = Some (as, s)"
  shows "(\<forall>a. alive s a \<longleftrightarrow> (\<exists>k. look s k = Some a) \<or> (\<exists>t. turnstile (thr s t) = a \<and> a \<noteq> 0)) \<and>
    (\<forall>t k. turnstile (thr s t) \<noteq> 0 \<longrightarrow> look s k \<noteq> Some (turnstile (thr s t))) \<and>
    (\<forall>t u. turnstile (thr s t) = turnstile (thr s u) \<longrightarrow> turnstile (thr s t) \<noteq> 0 \<longrightarrow> t = u) \<and>
    (\<forall>j k a. look s j = Some a \<longrightarrow> look s k = Some a \<longrightarrow> j = k)"
proof -
  note b = ts_boot_ok [OF assms(1), of pr answers nodes user]
  obtain Q where rep: "ts_rep s Q" using exec_calls_refines [OF b(1) assms(2)] assms(4) by (auto simp: sim_def)
  have nl: "no_leak s" using exec_calls_no_leak [OF b(1) assms(2,3) b(2) assms(4)] .
  have t: "trie_ok s" and qs: "queues_ok s Q" and ow: "owned_ok s" using repD(1) [OF rep] by (simp_all add: ts_part_def)
  have "alive s a \<longleftrightarrow> (\<exists>k. look s k = Some a) \<or> (\<exists>t. turnstile (thr s t) = a \<and> a \<noteq> 0)" for a
    using nl queuesD(3) [OF qs] ow by (auto simp: no_leak_def owned_ok_def)
  then show ?thesis using ow look_inj [OF t] by (auto simp: owned_ok_def)
qed

theorem turnstile_history_memory_witness:
  "\<exists>as s. exec_calls two_calls start = Some (as, s) \<and> (\<forall>a. alive s a \<longleftrightarrow> (\<exists>k. look s k = Some a) \<or> (\<exists>t. turnstile (thr s t) = a \<and> a \<noteq> 0))"
proof (rule two_calls_run)
  fix s assume h: "exec_calls two_calls start = Some ([ABool True, ABool True, ATid (Some 1)], s)" "calls_ok two_calls start"
    "all_keep_blocks two_calls start"
  then show ?thesis using turnstile_history_memory [OF two_slots_own h(2,3,1) [unfolded start_def]] by (auto simp: start_def)
qed

text \<open>C37 A killed thread can lose its turnstile. When a blocked thread that still has a turnstile of its own is the last on a
  queue, the clean-up stores the queue's turnstile over it: the thread's own turnstile stays allocated, in no trie
  slot and with no thread, and is never freed. The witness reaches such a state with two threads on one port.\<close>

theorem cleanup_loses_turnstile:
  assumes "ts_rep s Q" "Q k = [tid]" "turnstile (thr s tid) \<noteq> 0"
  shows "\<exists>s'. cleanup_blocked tid s = Some s' \<and> alive s' (turnstile (thr s tid)) \<and>
    (\<forall>j. look s' j \<noteq> Some (turnstile (thr s tid))) \<and> (\<forall>t. turnstile (thr s' t) \<noteq> turnstile (thr s tid))"
proof (rule cleanup_step [OF assms(1), of tid])
  fix s' assume "cleanup_blocked tid s = Some s'"
    "\<And>k. turnstile (thr s tid) \<noteq> 0 \<Longrightarrow> Q k = [tid] \<Longrightarrow> loose s' (turnstile (thr s tid))"
  then show ?thesis using assms(2,3) by (auto simp: loose_def)
qed

theorem cleanup_loses_turnstile_witness:
  "\<exists>as s s'. exec_calls two_calls start = Some (as, s) \<and> cleanup_blocked 2 s = Some s' \<and> alive s' 128 \<and>
     (\<forall>j. look s' j \<noteq> Some 128) \<and> (\<forall>t. turnstile (thr s' t) \<noteq> 128)"
proof (rule two_calls_run)
  fix s assume h: "exec_calls two_calls start = Some ([ABool True, ABool True, ATid (Some 1)], s)"
    "ts_rep s (\<lambda>k. if k = port_key 7 1 then [2] else [])" "turnstile (thr s 2) = 128"
  then show ?thesis using cleanup_loses_turnstile [OF h(2), of "port_key 7 1" 2] by auto
qed

text \<open>C21 Waiters on ports are served in the order in which they came. In any history of blocking and waking from the start of
  the system, for every key the threads that were woken, and after them those that still wait, are the threads that
  blocked, in the same order.\<close>

theorem port_waiters_fifo:
  assumes "own_slots slots" "wake.day_ok ops (ts_boot pr slots answers nodes user)" "wake.day ops (ts_boot pr slots answers nodes user) = (ins, outs, s)"
  shows "\<exists>Q. ts_rep s Q \<and> (\<forall>k. at_key k outs @ Q k = at_key k ins)"
proof -
  have "ts_rep (ts_boot pr slots answers nodes user) (\<lambda>_. [])" using ts_boot_ok(1) [OF assms(1)] by (simp add: sim_def)
  from wake.first_in_first_out [OF this assms(2,3)] show ?thesis by simp
qed

theorem port_waiters_fifo_witness:
  "\<exists>s Q. wake.day [Join (WKey 1 0 7) 1, Join (WKey 1 0 7) 2, Serve (WKey 1 0 7)] start =
       ([(WKey 1 0 7, 1), (WKey 1 0 7, 2)], [(WKey 1 0 7, 1)], s) \<and> ts_rep s Q \<and> Q (WKey 1 0 7) = [2]"
proof (rule two_block)
  let ?ops = "[Join (WKey 1 0 7) 1, Join (WKey 1 0 7) 2, Serve (WKey 1 0 7)]"
  fix s1 s2 s3 assume h: "port_enqueue_with_check 7 1 1 True start = (True, s1)" "port_enqueue_with_check 7 1 2 True s1 = (True, s2)"
    "port_wake_one 7 1 s2 = (Some 1, s3)" "may_block (port_key 7 1) 1 start" "may_block (port_key 7 1) 2 s1"
  have d: "wake.day ?ops start = ([(WKey 1 0 7, 1), (WKey 1 0 7, 2)], [(WKey 1 0 7, 1)], s3)" "wake.day_ok ?ops start"
    using h by (simp_all add: port_join_def port_wake_def is_port_key_def)
  obtain Q where Q: "ts_rep s3 Q" "\<forall>k. at_key k [(WKey 1 0 7, 1)] @ Q k = at_key k [(WKey 1 0 7, 1), (WKey 1 0 7, 2)]"
    using port_waiters_fifo [OF two_slots_own d(2,1) [unfolded start_def]] by blast
  then have "Q (WKey 1 0 7) = [2]" using spec [OF Q(2), of "WKey 1 0 7"] by simp
  then show ?thesis using d(1) Q(1) by blast
qed


definition start_pi :: TsSys where
  "start_pi = ts_boot (\<lambda>t. if t = 1 then 5 else 3) two_slots [] [] (\<lambda>_ _. Some 0)"

lemma start_pi_sim: "sim (\<lambda>t. if t = 1 then 5 else 3) start_pi (\<lambda>_. [])" "ts_answers start_pi = []" "umem start_pi = (\<lambda>_ _. Some 0)"
  using ts_boot_ok [OF two_slots_own] by (simp_all add: start_pi_def) (simp_all add: ts_boot_def)

lemma first_pi_blocks: "futex_wait_pi 1 1 64 0 start_pi = Some (r, s) \<Longrightarrow> r = Blocked"
proof -
  assume a: "futex_wait_pi 1 1 64 0 start_pi = Some (r, s)"
  have "fst (turnstile_for h k 1 (emit e (copy_to_user as ad w start_pi))) = Some 64" for h k e as ad w
    using first_turnstile_for [of "emit e (copy_to_user as ad w start_pi)" 1]
    by (simp add: start_pi_def ts_boot_def slot_of_def two_slots_def copy_to_user_def)
  then obtain s2 where "turnstile_for (futex_hash 1 64) (futex_key 1 64) 1 (emit (ClearWakeup 1) (copy_to_user 1 64 PI_WAITERS_BIT start_pi)) = (Some 64, s2)"
    by (metis prod.collapse)
  then show "r = Blocked"
    using a by (auto simp: futex_wait_pi_def start_pi_sim(3) Let_def PI_WAITERS_BIT_def split: option.splits)
qed

lemma pi_two_wait:
  obtains s1 s2 where "futex_wait_pi 1 1 64 0 start_pi = Some (Blocked, s1)" "futex_wait_pi 2 1 64 0 s1 = Some (Blocked, s2)"
    "may_block (futex_key 1 64) 1 start_pi" "may_block (futex_key 1 64) 2 s1"
proof -
  let ?k = "futex_key 1 64"
  have r0: "ts_rep start_pi (\<lambda>_. [])" using start_pi_sim(1) by (simp add: sim_def)
  have m0: "may_block ?k 1 start_pi" using may_blockI [OF r0 alloc_ok_none [OF start_pi_sim(2)]] by simp
  define Q1 :: "wkey \<Rightarrow> u32 list" where "Q1 = (\<lambda>k. if k = ?k then [1] else [])"
  have Q1: "(\<lambda>_. [])(?k := by_prio start_pi 1 []) = Q1" by (auto simp: Q1_def by_prio_def)
  show ?thesis
  proof (rule futex_wait_pi_step [where own = 0, OF r0 may_blockD [OF m0 r0]])
    fix r s1 assume h: "futex_wait_pi 1 1 64 0 start_pi = Some (r, s1)" "ts_rep s1 (if r = Blocked then (\<lambda>_. [])(?k := by_prio start_pi 1 []) else (\<lambda>_. []))"
      "r = Blocked \<Longrightarrow> \<exists>w. umem start_pi 1 64 = Some w \<and> w AND PI_TID_MASK = 0 \<and> umem s1 1 64 = Some (w OR PI_WAITERS_BIT)"
      "ts_answers start_pi = [] \<Longrightarrow> ts_answers s1 = []"
    have b: "r = Blocked" using first_pi_blocks [OF h(1)] .
    then have r1: "ts_rep s1 Q1" using h(2) Q1 by simp
    have m1: "may_block ?k 2 s1" using may_blockI [OF r1 alloc_ok_none] h(4) start_pi_sim(2) by (auto simp: Q1_def)
    have w: "umem s1 1 64 = Some (0 OR PI_WAITERS_BIT)" "(0 OR PI_WAITERS_BIT) AND PI_TID_MASK = 0" "Q1 ?k \<noteq> []"
      using h(3) b start_pi_sim(3) by (simp_all add: Q1_def PI_WAITERS_BIT_def PI_TID_MASK_def)
    show ?thesis
    proof (rule futex_wait_pi_step [where own = 0, OF r1 may_blockD [OF m1 r1]])
      fix r2 s2 assume "futex_wait_pi 2 1 64 0 s1 = Some (r2, s2)"
        "\<And>w. Q1 ?k \<noteq> [] \<Longrightarrow> umem s1 1 64 = Some w \<Longrightarrow> w AND PI_TID_MASK = 0 \<Longrightarrow> r2 = Blocked"
      then show ?thesis using that h(1) b w m0 m1 by blast
    qed
  qed
qed


text \<open>The self check of a turnstile raises a false alarm on long queues. On a turnstile whose list, counter and canary agree,
  the check counts a failure exactly if more than 64 threads wait, because its walk stops after 64 links. The witness is a
  correct queue of 65 threads.\<close>

theorem self_check_false_alarm:
  assumes "queued s p xs"
  shows "inv_fails (check_invariant p s) = (if length xs \<le> 64 then inv_fails s else inv_fails s + 1)"
  using check_invariant_queued [OF assms] by (simp add: MAX_WALK_def)

definition long_queue :: TsSys where
  "long_queue = start\<lparr>
     thr := (\<lambda>t. \<lparr>ts_next = (if t < 65 then t + 1 else TS_NIL), ts_prev = t - 1, ts_blocked_on = 64, turnstile = 0, prio = 0\<rparr>),
     mem := (\<lambda>_. (init_ts (WKey 1 0 7) 0 blank_ts)\<lparr>ts_head := 1, ts_tail := 65, waiter_count := 65\<rparr>)\<rparr>"

lemma long_queue_ok: "queued long_queue 64 (map of_nat [1..<66])"
  by (simp add: queued_def long_queue_def upt_rec init_ts_def TS_NIL_def)

theorem self_check_false_alarm_witness:
  "queued long_queue 64 (map of_nat [1..<66]) \<and> inv_fails (check_invariant 64 long_queue) = inv_fails long_queue + 1"
  using self_check_false_alarm [OF long_queue_ok] long_queue_ok by simp

end
