(* ===== verification/PortState.thy ===== *)
theory PortState
  imports PortId Art Mpsc TsHistory
begin

text \<open>
  The port table of \<open>ipc/port.rs\<close>: port identifiers, the port structure, its allocation and deferred release, creation
  and destruction through the index of \<open>Art\<close>, and the queries and setters. A port's address is the value that the index
  stores. The slab answers are lists, one for each kind of block; the queue of a port is part of its structure, because no
  other port refers to it, and the numbers of live queues are counted.

  A call is one step: the table is changed under its write lock, and the model does not interleave the reads of a
  call with other calls. The calls into the scheduler and the system-call layer are recorded in order.
\<close>

section \<open>State\<close>

definition PORT_ALIVE :: u32 where "PORT_ALIVE = 1"

definition NONE32 :: u32 where "NONE32 = - 1"

record Port =
  port_id :: u64
  mpsc :: "Message MpscQueue option"
  kernel_handler :: nat
  kernel_user_data :: nat
  port_set_id :: u32
  creator_task :: u32
  recv_holder :: u32
  flags :: u32
  diag_wake_calls :: u64
  diag_wake_no_parker :: u64
  diag_wake_inject_ok :: u64
  diag_wake_reenq :: u64

record PortSet =
  set_id :: u32
  active :: bool
  ports :: "u64 list option"
  ports_cap :: nat
  port_count :: nat
  waiter :: "u32 option"

text \<open>
  The calls that leave the component: a kernel handler with the port, its datum and the message; the delivery of a message
  to a parked thread; and the calls that park, wake and prepare threads.
\<close>

datatype ipc_event =
    HandlerCall nat u64 nat Message
  | Deliver u32 Message
  | WakeParked u32
  | PreSaveFrame u32
  | ParkCurrent u32 u64
  | ParkReset u32
  | BlockSend u32 u64
  | BlockRecv u32 u64
  | BlockSet u32 u32
  | BoostFromSender u32
  | GracePeriod

record PortSys =
  port_art :: "Art \<times> ArtMem"
  port_mem :: "u64 \<Rightarrow> Port"
  port_live :: "u64 \<Rightarrow> bool"
  queue_live :: "bool \<Rightarrow> int"
  next_port_id :: u64
  port_answers :: "u64 option list"
  queue_answers :: "bool list"
  page_answers :: "bool list"
  deferred :: "u64 list"
  tsys :: TsSys
  sets :: "PortSet list"
  set_answers :: "bool list"
  set_pages :: int
  ipc_sends :: u64
  ipc_recvs :: u64
  ipc_log :: "ipc_event list"

definition log_ipc :: "ipc_event \<Rightarrow> PortSys \<Rightarrow> PortSys" where
  "log_ipc e s = s\<lparr>ipc_log := ipc_log s @ [e]\<rparr>"

definition upd_port :: "u64 \<Rightarrow> (Port \<Rightarrow> Port) \<Rightarrow> PortSys \<Rightarrow> PortSys" where
  "upd_port a f s = s\<lparr>port_mem := (port_mem s)(a := f (port_mem s a))\<rparr>"

definition is_kernel_held :: "Port \<Rightarrow> bool" where
  "is_kernel_held p = (kernel_handler p \<noteq> 0)"

definition is_alive :: "Port \<Rightarrow> bool" where
  "is_alive p = (flags p AND PORT_ALIVE \<noteq> 0)"

definition port_queue_capacity :: "Port \<Rightarrow> nat" where
  "port_queue_capacity p = (case mpsc p of Some q \<Rightarrow> unat (q_capacity q) | None \<Rightarrow> 0)"

section \<open>Allocation\<close>

definition empty_message :: Message where
  "empty_message = \<lparr>msg_tag = 0, msg_data = replicate 6 0\<rparr>"

definition alloc_mpsc_queue :: "PortSys \<Rightarrow> Message MpscQueue option \<times> PortSys" where
  "alloc_mpsc_queue s =
     (case queue_answers s of
        True # as \<Rightarrow> (Some (new_queue PORT_QUEUE_SLAB_SIZE False empty_message),
                       s\<lparr>queue_answers := as, queue_live := (queue_live s)(False := queue_live s False + 1)\<rparr>)
      | False # as \<Rightarrow> (None, s\<lparr>queue_answers := as\<rparr>)
      | [] \<Rightarrow> (None, s))"

definition alloc_mpsc_page_queue :: "nat \<Rightarrow> PortSys \<Rightarrow> Message MpscQueue option \<times> PortSys" where
  "alloc_mpsc_page_queue page_size s =
     (case page_answers s of
        True # as \<Rightarrow> (Some (new_queue page_size True empty_message),
                       s\<lparr>page_answers := as, queue_live := (queue_live s)(True := queue_live s True + 1)\<rparr>)
      | False # as \<Rightarrow> (None, s\<lparr>page_answers := as\<rparr>)
      | [] \<Rightarrow> (None, s))"

definition free_mpsc_queue :: "Message MpscQueue \<Rightarrow> PortSys \<Rightarrow> PortSys" where
  "free_mpsc_queue q s = s\<lparr>queue_live := (queue_live s)(page_backed q := queue_live s (page_backed q) - 1)\<rparr>"

definition free_block :: "u64 \<Rightarrow> PortSys \<Rightarrow> PortSys" where
  "free_block a s = s\<lparr>port_live := (port_live s)(a := False)\<rparr>"

definition new_port :: "u64 \<Rightarrow> Message MpscQueue option \<Rightarrow> Port" where
  "new_port i q =
     \<lparr>port_id = i, mpsc = q, kernel_handler = 0, kernel_user_data = 0, port_set_id = NONE32, creator_task = 0,
      recv_holder = NONE32, flags = PORT_ALIVE, diag_wake_calls = 0, diag_wake_no_parker = 0, diag_wake_inject_ok = 0,
      diag_wake_reenq = 0\<rparr>"

definition slab_port :: "PortSys \<Rightarrow> u64 option \<times> PortSys" where
  "slab_port s =
     (case port_answers s of
        Some a # as \<Rightarrow> (Some a, s\<lparr>port_answers := as, port_live := (port_live s)(a := True)\<rparr>)
      | None # as \<Rightarrow> (None, s\<lparr>port_answers := as\<rparr>)
      | [] \<Rightarrow> (None, s))"

definition alloc_port :: "u64 \<Rightarrow> bool \<Rightarrow> PortSys \<Rightarrow> u64 option \<times> PortSys" where
  "alloc_port i with_queue s =
     (case slab_port s of
        (None, s1) \<Rightarrow> (None, s1)
      | (Some a, s1) \<Rightarrow>
          if with_queue
          then (case alloc_mpsc_queue s1 of
                  (Some q, s2) \<Rightarrow> (Some a, upd_port a (\<lambda>_. new_port i (Some q)) s2)
                | (None, s2) \<Rightarrow> (None, free_block a s2))
          else (Some a, upd_port a (\<lambda>_. new_port i None) s1))"

definition free_port :: "u64 \<Rightarrow> PortSys \<Rightarrow> PortSys" where
  "free_port a s =
     free_block a (case mpsc (port_mem s a) of Some q \<Rightarrow> free_mpsc_queue q s | None \<Rightarrow> s)"

section \<open>The table\<close>

definition table_lookup :: "PortSys \<Rightarrow> u64 \<Rightarrow> u64 option" where
  "table_lookup s local = art_lookup (fst (port_art s)) local"

definition table_insert :: "u64 \<Rightarrow> u64 \<Rightarrow> PortSys \<Rightarrow> bool \<times> PortSys" where
  "table_insert local a s = (case art_insert local a (port_art s) of (ok, t) \<Rightarrow> (ok, s\<lparr>port_art := t\<rparr>))"

definition table_remove :: "u64 \<Rightarrow> PortSys \<Rightarrow> u64 option \<times> PortSys" where
  "table_remove local s = (case art_remove local (port_art s) of (r, t) \<Rightarrow> (r, s\<lparr>port_art := t\<rparr>))"

definition port_ref :: "PortSys \<Rightarrow> u64 \<Rightarrow> u64 option" where
  "port_ref s i =
     (case table_lookup s (port_local i) of
        None \<Rightarrow> None
      | Some a \<Rightarrow> if is_alive (port_mem s a) then Some a else None)"

datatype PortRefDiag = RefFound | NotInArt LookupOutcome | NotAlive u32 bool

definition port_ref_diag :: "PortSys \<Rightarrow> u64 \<Rightarrow> PortRefDiag" where
  "port_ref_diag s i =
     (let local = port_local i; outcome = lookup_diag (fst (port_art s)) local
      in case outcome of
           Found _ \<Rightarrow>
             (case table_lookup s local of
                Some a \<Rightarrow>
                  let p = port_mem s a
                  in if flags p AND PORT_ALIVE \<noteq> 0 then RefFound else NotAlive (flags p) (kernel_handler p \<noteq> 0)
              | None \<Rightarrow> NotInArt outcome)
         | _ \<Rightarrow> NotInArt outcome)"

definition register :: "u64 \<Rightarrow> u64 \<Rightarrow> u64 \<Rightarrow> PortSys \<Rightarrow> u64 option \<times> PortSys" where
  "register local i a s =
     (case table_insert local a s of
        (True, s1) \<Rightarrow> (Some i, s1)
      | (False, s1) \<Rightarrow> (None, free_port a s1))"

definition create :: "u32 \<Rightarrow> PortSys \<Rightarrow> u64 option \<times> PortSys" where
  "create creator s =
     (let local = next_port_id s; i = make_port_id 0 local
      in case alloc_port i True (s\<lparr>next_port_id := local + 1\<rparr>) of
           (None, s1) \<Rightarrow> (None, s1)
         | (Some a, s1) \<Rightarrow> register local i a (upd_port a (\<lambda>p. p\<lparr>creator_task := creator\<rparr>) s1))"

definition create_kernel_port :: "nat \<Rightarrow> nat \<Rightarrow> PortSys \<Rightarrow> u64 option \<times> PortSys" where
  "create_kernel_port handler user_data s =
     (let local = next_port_id s; i = make_port_id 0 local
      in case alloc_port i False (s\<lparr>next_port_id := local + 1\<rparr>) of
           (None, s1) \<Rightarrow> (None, s1)
         | (Some a, s1) \<Rightarrow>
             register local i a
               (upd_port a (\<lambda>p. p\<lparr>creator_task := 0, kernel_handler := handler, kernel_user_data := user_data\<rparr>) s1))"

definition wake_all :: "u64 \<Rightarrow> u8 \<Rightarrow> PortSys \<Rightarrow> PortSys option" where
  "wake_all i kt s = map_option (\<lambda>(n, t). s\<lparr>tsys := t\<rparr>) (port_wake_all i kt (tsys s))"

definition destroy :: "u64 \<Rightarrow> PortSys \<Rightarrow> PortSys option" where
  "destroy i s =
     (case table_remove (port_local i) s of
        (None, s1) \<Rightarrow> Some s1
      | (Some a, s1) \<Rightarrow>
          (case wake_all i KEY_PORT_RECV (upd_port a (\<lambda>p. p\<lparr>flags := 0\<rparr>) s1) of
             None \<Rightarrow> None
           | Some s2 \<Rightarrow>
               (case wake_all i KEY_PORT_RECV_PARK s2 of
                  None \<Rightarrow> None
                | Some s3 \<Rightarrow>
                    (case wake_all i KEY_PORT_SEND s3 of
                       None \<Rightarrow> None
                     | Some s4 \<Rightarrow> Some (s4\<lparr>deferred := deferred s4 @ [a]\<rparr>)))))"

text \<open>The end of a grace period: the oldest deferred port is freed.\<close>

definition reclaim :: "PortSys \<Rightarrow> PortSys" where
  "reclaim s = (case deferred s of [] \<Rightarrow> s | a # as \<Rightarrow> free_port a (s\<lparr>deferred := as\<rparr>))"

section \<open>Queries and setters\<close>

definition port_creator :: "PortSys \<Rightarrow> u64 \<Rightarrow> u32 option" where
  "port_creator s i = map_option (\<lambda>a. creator_task (port_mem s a)) (port_ref s i)"

definition port_kernel_data :: "PortSys \<Rightarrow> u64 \<Rightarrow> nat option" where
  "port_kernel_data s i =
     (case port_ref s i of
        None \<Rightarrow> None
      | Some a \<Rightarrow> if is_kernel_held (port_mem s a) then Some (kernel_user_data (port_mem s a)) else None)"

definition port_active :: "PortSys \<Rightarrow> u64 \<Rightarrow> bool" where
  "port_active s i = (port_ref s i \<noteq> None)"

definition port_active_local :: "PortSys \<Rightarrow> u64 \<Rightarrow> bool" where
  "port_active_local s local = (case table_lookup s local of Some a \<Rightarrow> is_alive (port_mem s a) | None \<Rightarrow> False)"

definition has_kernel_handler :: "PortSys \<Rightarrow> u64 \<Rightarrow> bool" where
  "has_kernel_handler s i = (case port_ref s i of Some a \<Rightarrow> is_kernel_held (port_mem s a) | None \<Rightarrow> False)"

definition port_recv_holder :: "PortSys \<Rightarrow> u64 \<Rightarrow> u32" where
  "port_recv_holder s i = (case port_ref s i of Some a \<Rightarrow> recv_holder (port_mem s a) | None \<Rightarrow> NONE32)"

definition queue_capacity :: "PortSys \<Rightarrow> u64 \<Rightarrow> nat" where
  "queue_capacity s i = (case port_ref s i of Some a \<Rightarrow> port_queue_capacity (port_mem s a) | None \<Rightarrow> 0)"

definition with_port :: "(Port \<Rightarrow> Port) \<Rightarrow> u64 \<Rightarrow> PortSys \<Rightarrow> PortSys" where
  "with_port f i s = (case port_ref s i of Some a \<Rightarrow> upd_port a f s | None \<Rightarrow> s)"

definition set_port_set :: "u64 \<Rightarrow> u32 \<Rightarrow> PortSys \<Rightarrow> PortSys" where
  "set_port_set i sid s = with_port (\<lambda>p. p\<lparr>port_set_id := sid\<rparr>) i s"

definition set_port_recv_holder :: "u64 \<Rightarrow> u32 \<Rightarrow> PortSys \<Rightarrow> PortSys" where
  "set_port_recv_holder i task s = with_port (\<lambda>p. p\<lparr>recv_holder := task\<rparr>) i s"


section \<open>The invariant of the table\<close>

definition owns :: "PortSys \<Rightarrow> bool \<Rightarrow> u64 set" where
  "owns s b = {a. port_live s a \<and> (\<exists>q. mpsc (port_mem s a) = Some q \<and> page_backed q = b)}"

definition blocks_ok :: "PortSys \<Rightarrow> bool" where
  "blocks_ok s \<longleftrightarrow> distinct (deferred s) \<and> (\<forall>a\<in>set (deferred s). port_live s a) \<and>
     (\<forall>a. port_live s a \<longrightarrow> a \<in> set (deferred s) \<or> (\<exists>l. table_lookup s l = Some a)) \<and>
     finite {a. port_live s a} \<and> (\<forall>b. queue_live s b = int (card (owns s b)))"

definition table_ok :: "PortSys \<Rightarrow> bool" where
  "table_ok s \<longleftrightarrow> counted_inv (port_art s) \<and> next_port_id s \<le> 2 ^ 44 \<and>
     (\<forall>l a. table_lookup s l = Some a \<longrightarrow> l < next_port_id s \<and> port_live s a \<and> is_alive (port_mem s a) \<and> port_id (port_mem s a) = l \<and>
        a \<notin> set (deferred s))"

definition port_inv :: "PortSys \<Rightarrow> bool" where
  "port_inv s \<longleftrightarrow> table_ok s \<and> blocks_ok s \<and> (\<exists>Q. ts_rep (tsys s) Q)"

lemma table_okD:
  assumes "table_ok s" "table_lookup s l = Some a"
  shows "l < next_port_id s" "port_live s a" "is_alive (port_mem s a)" "port_id (port_mem s a) = l" "a \<notin> set (deferred s)"
  using assms unfolding table_ok_def by blast+

lemma port_ref_lookup: "table_ok s \<Longrightarrow> port_ref s i = table_lookup s (port_local i)"
  by (auto simp: port_ref_def dest: table_okD(3) split: option.splits)

lemma owns_finite: "blocks_ok s \<Longrightarrow> finite (owns s b)"
  unfolding blocks_ok_def owns_def by (auto intro: rev_finite_subset)

text \<open>The state but for the answers of the allocators, which the invariant does not mention.\<close>

definition same_table :: "PortSys \<Rightarrow> PortSys \<Rightarrow> bool" where
  "same_table s s' \<longleftrightarrow> table_lookup s' = table_lookup s \<and> (counted_inv (port_art s) \<longrightarrow> counted_inv (port_art s')) \<and> deferred s' = deferred s \<and> tsys s' = tsys s \<and> port_live s' = port_live s \<and>
     queue_live s' = queue_live s \<and> (\<forall>a. port_live s a \<longrightarrow> port_mem s' a = port_mem s a)"

lemma same_table_lookup: "same_table s s' \<Longrightarrow> table_lookup s' = table_lookup s"
  by (simp add: same_table_def)

lemma same_table_inv:
  assumes "same_table s s'" "port_inv s" "next_port_id s \<le> next_port_id s'" "next_port_id s' \<le> 2 ^ 44"
  shows "port_inv s'"
proof -
  have "owns s' = owns s" using assms(1) by (auto simp: owns_def same_table_def fun_eq_iff)
  moreover have "table_ok s" using assms(2) by (simp add: port_inv_def)
  then have "table_ok s'"
    using assms(1,3,4) same_table_lookup [OF assms(1)] table_okD [of s] unfolding table_ok_def same_table_def
    by (metis order_less_le_trans)
  ultimately show ?thesis
    using assms(1,2) same_table_lookup [OF assms(1)] unfolding port_inv_def blocks_ok_def same_table_def by simp
qed

section \<open>Creating\<close>

definition fresh_block :: "PortSys \<Rightarrow> bool" where
  "fresh_block s = (case port_answers s of Some a # _ \<Rightarrow> \<not> port_live s a | _ \<Rightarrow> True)"

definition fresh_queue :: "bool \<Rightarrow> Message MpscQueue option" where
  "fresh_queue wq = (if wq then Some (new_queue PORT_QUEUE_SLAB_SIZE False empty_message) else None)"

lemma fresh_queue_slab: "fresh_queue wq = Some q \<Longrightarrow> \<not> page_backed q"
  by (auto simp: fresh_queue_def new_queue_def Let_def split: if_splits)

lemma alloc_port_step:
  assumes "fresh_block s" "alloc_port i wq s = (r, s1)"
  shows "next_port_id s1 = next_port_id s" "port_art s1 = port_art s" "deferred s1 = deferred s" "tsys s1 = tsys s"
    "case r of
       None \<Rightarrow> same_table s s1
     | Some a \<Rightarrow> \<not> port_live s a \<and> port_live s1 = (port_live s)(a := True) \<and>
         (\<exists>q. port_mem s1 = (port_mem s)(a := new_port i q) \<and> q = fresh_queue wq \<and>
           queue_live s1 = (if wq then (queue_live s)(False := queue_live s False + 1) else queue_live s))"
proof -
  show "next_port_id s1 = next_port_id s" "port_art s1 = port_art s" "deferred s1 = deferred s" "tsys s1 = tsys s"
    "case r of
       None \<Rightarrow> same_table s s1
     | Some a \<Rightarrow> \<not> port_live s a \<and> port_live s1 = (port_live s)(a := True) \<and>
         (\<exists>q. port_mem s1 = (port_mem s)(a := new_port i q) \<and> q = fresh_queue wq \<and>
           queue_live s1 = (if wq then (queue_live s)(False := queue_live s False + 1) else queue_live s))"
    using assms
    by (auto simp: alloc_port_def slab_port_def alloc_mpsc_queue_def fresh_block_def same_table_def free_block_def upd_port_def table_lookup_def fresh_queue_def fun_eq_iff
        split: option.splits list.splits bool.splits if_splits prod.splits)
qed

text \<open>What the two ways of creating a port share: the caller fills in some fields between the allocation and the insertion.\<close>

definition create_with :: "bool \<Rightarrow> (Port \<Rightarrow> Port) \<Rightarrow> PortSys \<Rightarrow> u64 option \<times> PortSys" where
  "create_with wq f s =
     (let local = next_port_id s; i = make_port_id 0 local
      in case alloc_port i wq (s\<lparr>next_port_id := local + 1\<rparr>) of
           (None, s1) \<Rightarrow> (None, s1)
         | (Some a, s1) \<Rightarrow> register local i a (upd_port a f s1))"

lemma create_as: "create c s = create_with True (\<lambda>p. p\<lparr>creator_task := c\<rparr>) s"
  by (simp add: create_def create_with_def)

lemma create_kernel_as:
  "create_kernel_port h d s = create_with False (\<lambda>p. p\<lparr>creator_task := 0, kernel_handler := h, kernel_user_data := d\<rparr>) s"
  by (simp add: create_kernel_port_def create_with_def)

definition fills :: "(Port \<Rightarrow> Port) \<Rightarrow> bool" where
  "fills f \<longleftrightarrow> (\<forall>p. mpsc (f p) = mpsc p \<and> port_id (f p) = port_id p \<and> flags (f p) = flags p)"


definition room_for_port :: "PortSys \<Rightarrow> bool" where
  "room_for_port s \<longleftrightarrow> next_port_id s < 2 ^ 44 \<and> spare (art_root (fst (port_art s))) \<and> fresh_block s"

lemma small_key: "(l :: u64) < 2 ^ 44 \<Longrightarrow> l < 2 ^ 48"
  by (simp add: word_less_nat_alt)

lemma table_insert_step:
  assumes "counted_inv (port_art s)" "l < 2 ^ 48" "spare (art_root (fst (port_art s)))" "table_insert l a s = (ok, s')"
  shows "counted_inv (port_art s')" "table_lookup s' = (if ok then (table_lookup s)(l \<mapsto> a) else table_lookup s)"
    "\<exists>t. s' = s\<lparr>port_art := t\<rparr>"
proof -
  obtain t where t: "art_insert l a (port_art s) = (ok, t)" "s' = s\<lparr>port_art := t\<rparr>"
    using assms(4) by (auto simp: table_insert_def split: prod.splits)
  have "insertable l a (port_art s)" using assms(2,3) by (simp add: insertable_def)
  from pm.ins_map [OF assms(1) this t(1)] t(2)
  show "counted_inv (port_art s')" "table_lookup s' = (if ok then (table_lookup s)(l \<mapsto> a) else table_lookup s)"
    by (auto simp: bindings_def table_lookup_def fun_eq_iff)
  show "\<exists>t. s' = s\<lparr>port_art := t\<rparr>" using t(2) by blast
qed

lemma table_remove_step:
  assumes "counted_inv (port_art s)" "table_remove l s = (r, s')"
  shows "counted_inv (port_art s')" "r = table_lookup s l" "table_lookup s' = (table_lookup s)(l := None)" "\<exists>t. s' = s\<lparr>port_art := t\<rparr>"
proof -
  obtain t where t: "art_remove l (port_art s) = (r, t)" "s' = s\<lparr>port_art := t\<rparr>"
    using assms(2) by (auto simp: table_remove_def split: prod.splits)
  from pm.del_map [OF assms(1) t(1)] t(2)
  show "counted_inv (port_art s')" "r = table_lookup s l" "table_lookup s' = (table_lookup s)(l := None)"
    by (auto simp: bindings_def table_lookup_def fun_eq_iff)
  show "\<exists>t. s' = s\<lparr>port_art := t\<rparr>" using t(2) by blast
qed

lemma owns_new:
  assumes "\<not> port_live s a" "port_live s' = (port_live s)(a := True)" "port_mem s' = (port_mem s)(a := p)"
  shows "owns s' b = (case mpsc p of Some q \<Rightarrow> if page_backed q = b then insert a (owns s b) else owns s b | None \<Rightarrow> owns s b)"
  using assms by (auto simp: owns_def split: option.splits)

lemma new_block_inv:
  assumes inv: "port_inv s" and a: "\<not> port_live s a" and i: "next_port_id s < 2 ^ 44"
    and s': "port_live s' = (port_live s)(a := True)" "port_mem s' = (port_mem s)(a := p)"
      "queue_live s' = (case mpsc p of Some q \<Rightarrow> (queue_live s)(page_backed q := queue_live s (page_backed q) + 1) | None \<Rightarrow> queue_live s)"
      "counted_inv (port_art s')" "table_lookup s' = (table_lookup s)(next_port_id s \<mapsto> a)" "next_port_id s' = next_port_id s + 1"
      "deferred s' = deferred s" "tsys s' = tsys s"
    and p: "port_id p = next_port_id s" "is_alive p"
  shows "port_inv s'"
proof -
  have t: "table_ok s" and b: "blocks_ok s" using inv by (simp_all add: port_inv_def)
  have up: "next_port_id s < next_port_id s'" "next_port_id s' \<le> 2 ^ 44"
    using i s'(6) by (simp_all add: word_less_nat_alt word_le_nat_alt unat_word_ariths unat_44)
  have new: "table_lookup s (next_port_id s) = None"
    using table_okD(1) [OF t, of "next_port_id s"] by (cases "table_lookup s (next_port_id s)") auto
  have def: "a \<notin> set (deferred s)" using a b by (auto simp: blocks_ok_def)
  have "l < next_port_id s' \<and> port_live s' c \<and> is_alive (port_mem s' c) \<and> port_id (port_mem s' c) = l \<and> c \<notin> set (deferred s')"
    if c: "table_lookup s' l = Some c" for l c
  proof (cases "l = next_port_id s")
    case True
    then show ?thesis using c s' p up def by simp
  next
    case False
    then have "table_lookup s l = Some c" using c s'(5) by simp
    from table_okD [OF t this] show ?thesis using a s' up by auto
  qed
  then have "table_ok s'" using s'(4) up(2) by (auto simp: table_ok_def)
  moreover have "blocks_ok s'"
  proof -
    have "card (owns s' b') = (case mpsc p of Some q \<Rightarrow> if page_backed q = b' then Suc (card (owns s b')) else card (owns s b') | None \<Rightarrow> card (owns s b'))" for b'
      unfolding owns_new [OF a s'(1,2)] using owns_finite [OF b, of b'] a by (auto simp: owns_def split: option.splits)
    moreover have "{c. port_live s' c} = insert a {c. port_live s c}" using s'(1) by auto
    moreover have "c \<in> set (deferred s') \<or> (\<exists>l. table_lookup s' l = Some c)" if "port_live s' c" for c
    proof (cases "c = a")
      case True
      then show ?thesis using s'(5) by auto
    next
      case False
      then have "c \<in> set (deferred s) \<or> (\<exists>l. table_lookup s l = Some c)" using that b s'(1) by (auto simp: blocks_ok_def)
      then show ?thesis using s'(5,7) new by (metis fun_upd_other option.distinct(1))
    qed
    ultimately show ?thesis using b s' unfolding blocks_ok_def by (auto split: option.splits)
  qed
  ultimately show ?thesis using inv s'(8) by (simp add: port_inv_def)
qed


lemma free_port_frame:
  "table_lookup (free_port a s) = table_lookup s" "port_art (free_port a s) = port_art s" "port_mem (free_port a s) = port_mem s"
  "deferred (free_port a s) = deferred s" "tsys (free_port a s) = tsys s" "next_port_id (free_port a s) = next_port_id s"
  "port_live (free_port a s) = (port_live s)(a := False)"
  "queue_live (free_port a s) =
     (case mpsc (port_mem s a) of Some q \<Rightarrow> (queue_live s)(page_backed q := queue_live s (page_backed q) - 1) | None \<Rightarrow> queue_live s)"
  by (auto simp: free_port_def free_block_def free_mpsc_queue_def table_lookup_def fun_eq_iff split: option.splits)

lemma create_with_step:
  assumes inv: "port_inv s" and room: "room_for_port s" and f: "fills f" and c: "create_with wq f s = (r, s')"
  shows "port_inv s' \<and> next_port_id s' = next_port_id s + 1 \<and> tsys s' = tsys s \<and>
    (case r of
       None \<Rightarrow> same_table s s'
     | Some i \<Rightarrow> i = next_port_id s \<and> (\<exists>a. \<not> port_live s a \<and> table_lookup s' = (table_lookup s)(i \<mapsto> a) \<and>
         port_mem s' = (port_mem s)(a := f (new_port i (fresh_queue wq)))))"
proof -
  let ?l = "next_port_id s"
  define s0 where "s0 = s\<lparr>next_port_id := ?l + 1\<rparr>"
  have l: "?l < 2 ^ 44" "?l < 2 ^ 48" "make_port_id 0 ?l = ?l" and fr: "fresh_block s0" and sp: "spare (art_root (fst (port_art s)))"
    using room small_key make_port_id_small by (auto simp: room_for_port_def s0_def fresh_block_def split: list.splits option.splits)
  have up: "?l \<le> ?l + 1" "?l + 1 \<le> 2 ^ 44" using l(1) by (simp_all add: word_less_nat_alt word_le_nat_alt unat_word_ariths unat_44)
  have s0: "table_lookup s0 = table_lookup s" "port_art s0 = port_art s" "port_mem s0 = port_mem s" "deferred s0 = deferred s" "tsys s0 = tsys s"
    "port_live s0 = port_live s" "queue_live s0 = queue_live s" "next_port_id s0 = ?l + 1" by (simp_all add: s0_def table_lookup_def fun_eq_iff)
  have ci: "counted_inv (port_art s)" using inv by (simp add: port_inv_def table_ok_def)
  obtain ro s1 where al: "alloc_port ?l wq s0 = (ro, s1)" by fastforce
  note st = alloc_port_step [OF fr al]
  show ?thesis
  proof (cases ro)
    case None
    then have "r = None" "s' = s1" using c al l(3) by (simp_all add: create_with_def Let_def s0_def)
    moreover have sm: "same_table s s1" using st(5) None s0 by (simp add: same_table_def)
    moreover have "port_inv s1" by (rule same_table_inv [OF sm inv]) (use st(1) s0(8) up in simp_all)
    ultimately show ?thesis using st(1,4) s0(5,8) by simp
  next
    case (Some a)
    have "\<not> port_live s a \<and> port_live s1 = (port_live s)(a := True) \<and>
         (\<exists>q. port_mem s1 = (port_mem s)(a := new_port ?l q) \<and> q = fresh_queue wq \<and>
           queue_live s1 = (if wq then (queue_live s)(False := queue_live s False + 1) else queue_live s))"
      using st(5) unfolding Some option.case s0(3,6,7) .
    then obtain q where q: "\<not> port_live s a" "port_live s1 = (port_live s)(a := True)" "port_mem s1 = (port_mem s)(a := new_port ?l q)"
      "q = fresh_queue wq"
      "queue_live s1 = (if wq then (queue_live s)(False := queue_live s False + 1) else queue_live s)"
      by blast
    define s2 where "s2 = upd_port a f s1"
    have s2: "port_art s2 = port_art s" "table_lookup s2 = table_lookup s" "port_mem s2 = (port_mem s)(a := f (new_port ?l q))" "deferred s2 = deferred s"
      "tsys s2 = tsys s" "port_live s2 = (port_live s)(a := True)" "queue_live s2 = queue_live s1" "next_port_id s2 = ?l + 1"
      using st(1-4) s0 q(2,3) by (simp_all add: s2_def upd_port_def table_lookup_def fun_eq_iff)
    obtain ok s3 where ti: "table_insert ?l a s2 = (ok, s3)" by fastforce
    have "counted_inv (port_art s2)" "spare (art_root (fst (port_art s2)))" using ci sp s2(1) by simp_all
    note ins = table_insert_step [OF this(1) l(2) this(2) ti]
    obtain t where s3: "s3 = s2\<lparr>port_art := t\<rparr>" using ins(3) by blast
    have mq: "mpsc (f (new_port ?l q)) = q" "port_id (f (new_port ?l q)) = ?l" "is_alive (f (new_port ?l q))"
      using f by (simp_all add: fills_def new_port_def is_alive_def PORT_ALIVE_def)
    have ql: "queue_live s3 = (case q of Some q' \<Rightarrow> (queue_live s)(page_backed q' := queue_live s (page_backed q') + 1) | None \<Rightarrow> queue_live s)"
      using q(4,5) s2(7) s3 fresh_queue_slab [of wq] by (auto simp: fresh_queue_def)
    have cr: "create_with wq f s = register ?l ?l a s2" using al Some l(3) by (simp add: create_with_def Let_def s0_def s2_def)
    show ?thesis
    proof (cases ok)
      case True
      then have r: "r = Some ?l" "s' = s3" using c cr ti by (simp_all add: register_def)
      have lk: "table_lookup s3 = (table_lookup s)(?l \<mapsto> a)" using ins(2) True s2(2) by simp
      have "port_inv s3"
        by (rule new_block_inv [OF inv q(1) l(1), where p = "f (new_port ?l q)"]) (use s2 s3 ins(1) lk ql mq in auto)
      then show ?thesis using r lk q(1,4) s2 s3 by auto
    next
      case False
      then have r: "r = None" "s' = free_port a s3" using c cr ti by (simp_all add: register_def)
      have "queue_live s' = queue_live s" using r(2) ql s2(3) s3 mq(1) by (cases q) (auto simp: free_port_frame)
      moreover have "(port_live s)(a := False) = port_live s" using q(1) by (simp add: fun_upd_idem)
      ultimately have sm: "same_table s s'"
        using r(2) ins(1,2) False s2 s3 q(1) by (auto simp: same_table_def free_port_frame)
      have n: "next_port_id s' = ?l + 1" "tsys s' = tsys s" using r(2) s2 s3 by (simp_all add: free_port_frame)
      have "port_inv s'" by (rule same_table_inv [OF sm inv]) (use n up in simp_all)
      then show ?thesis using r(1) sm n by simp
    qed
  qed
qed


section \<open>Destroying\<close>

lemma wake_all_step:
  assumes "ts_rep (tsys s) Q" "kt \<noteq> KEY_FUTEX"
  shows "\<exists>t. wake_all i kt s = Some (s\<lparr>tsys := t\<rparr>) \<and> ts_rep t (Q(port_key i kt := []))"
  using port_wake_all_step [OF assms, of i] by (auto simp: wake_all_def)

lemma key_types [simp]: "KEY_PORT_RECV \<noteq> KEY_FUTEX" "KEY_PORT_SEND \<noteq> KEY_FUTEX" "KEY_PORT_RECV_PARK \<noteq> KEY_FUTEX"
  "KEY_PORT_RECV \<noteq> KEY_PORT_SEND" "KEY_PORT_RECV \<noteq> KEY_PORT_RECV_PARK" "KEY_PORT_SEND \<noteq> KEY_PORT_RECV_PARK"
  "KEY_PORT_SEND \<noteq> KEY_PORT_RECV" "KEY_PORT_RECV_PARK \<noteq> KEY_PORT_RECV" "KEY_PORT_RECV_PARK \<noteq> KEY_PORT_SEND"
  by (simp_all add: KEY_PORT_RECV_def KEY_PORT_SEND_def KEY_PORT_RECV_PARK_def KEY_FUTEX_def)

definition no_waiters :: "u64 \<Rightarrow> (wkey \<Rightarrow> u32 list) \<Rightarrow> wkey \<Rightarrow> u32 list" where
  "no_waiters i Q = Q(port_key i KEY_PORT_RECV := [], port_key i KEY_PORT_RECV_PARK := [], port_key i KEY_PORT_SEND := [])"

lemma destroy_step:
  assumes inv: "port_inv s" and Q: "ts_rep (tsys s) Q"
  shows "\<exists>s'. destroy i s = Some s' \<and> port_inv s' \<and> next_port_id s' = next_port_id s \<and>
    table_lookup s' = (table_lookup s)(port_local i := None) \<and> (\<forall>a. port_ref s i \<noteq> Some a \<longrightarrow> port_mem s' a = port_mem s a) \<and>
    ts_rep (tsys s') (if port_active s i then no_waiters i Q else Q)"
proof -
  have t: "table_ok s" and b: "blocks_ok s" using inv by (simp_all add: port_inv_def)
  have ci: "counted_inv (port_art s)" using t by (simp add: table_ok_def)
  obtain r s1 where tr: "table_remove (port_local i) s = (r, s1)" by fastforce
  note rm = table_remove_step [OF ci tr]
  obtain tree where s1: "s1 = s\<lparr>port_art := tree\<rparr>" using rm(4) by blast
  have act: "port_active s i \<longleftrightarrow> r \<noteq> None" "port_ref s i = r" using rm(2) port_ref_lookup [OF t, of i] by (simp_all add: port_active_def)
  show ?thesis
  proof (cases r)
    case None
    have lk: "table_lookup s1 = table_lookup s" using rm(2,3) None by (simp add: fun_upd_idem)
    have sm: "same_table s s1" using lk rm(1) s1 by (simp add: same_table_def)
    have "port_inv s1" by (rule same_table_inv [OF sm inv]) (use s1 t in \<open>simp_all add: table_ok_def\<close>)
    moreover have "destroy i s = Some s1" using tr None by (simp add: destroy_def)
    ultimately show ?thesis using None act Q rm(3) s1 by auto
  next
    case (Some a)
    define s2 where "s2 = upd_port a (\<lambda>p. p\<lparr>flags := 0\<rparr>) s1"
    have "ts_rep (tsys s2) Q" using Q s1 by (simp add: s2_def upd_port_def)
    then obtain t1 where t1: "wake_all i KEY_PORT_RECV s2 = Some (s2\<lparr>tsys := t1\<rparr>)" "ts_rep t1 (Q(port_key i KEY_PORT_RECV := []))"
      using wake_all_step [of s2 Q KEY_PORT_RECV i] by auto
    then obtain t2 where t2: "wake_all i KEY_PORT_RECV_PARK (s2\<lparr>tsys := t1\<rparr>) = Some (s2\<lparr>tsys := t2\<rparr>)"
      "ts_rep t2 (Q(port_key i KEY_PORT_RECV := [], port_key i KEY_PORT_RECV_PARK := []))"
      using wake_all_step [of "s2\<lparr>tsys := t1\<rparr>" _ KEY_PORT_RECV_PARK i] by auto
    then obtain t3 where t3: "wake_all i KEY_PORT_SEND (s2\<lparr>tsys := t2\<rparr>) = Some (s2\<lparr>tsys := t3\<rparr>)" "ts_rep t3 (no_waiters i Q)"
      using wake_all_step [of "s2\<lparr>tsys := t2\<rparr>" _ KEY_PORT_SEND i] by (auto simp: no_waiters_def)
    define s' where "s' = s2\<lparr>tsys := t3, deferred := deferred s @ [a]\<rparr>"
    have d: "destroy i s = Some s'" using tr Some t1(1) t2(1) t3(1) s1 by (simp add: destroy_def s'_def s2_def upd_port_def)
    have la: "table_lookup s (port_local i) = Some a" using rm(2) Some by simp
    note pa = table_okD [OF t la]
    have f: "port_art s' = tree" "port_live s' = port_live s" "queue_live s' = queue_live s" "next_port_id s' = next_port_id s" "tsys s' = t3"
      "deferred s' = deferred s @ [a]" "port_mem s' = (port_mem s)(a := (port_mem s a)\<lparr>flags := 0\<rparr>)"
      using s1 by (simp_all add: s'_def s2_def upd_port_def)
    have lk: "table_lookup s' = (table_lookup s)(port_local i := None)" using rm(3) s1 f(1) by (simp add: table_lookup_def fun_eq_iff)
    have "l < next_port_id s' \<and> port_live s' c \<and> is_alive (port_mem s' c) \<and> port_id (port_mem s' c) = l \<and> c \<notin> set (deferred s')"
      if c: "table_lookup s' l = Some c" for l c
    proof -
      have l: "l \<noteq> port_local i" "table_lookup s l = Some c" using c lk by (auto split: if_splits)
      then show ?thesis using table_okD [OF t l(2)] pa(4) f by auto
    qed
    then have tok: "table_ok s'" using t rm(1) s1 f(1,4) by (auto simp: table_ok_def)
    have "owns s' = owns s" using f(2,7) by (auto simp: owns_def fun_eq_iff)
    moreover have "c \<in> set (deferred s') \<or> (\<exists>l. table_lookup s' l = Some c)" if "port_live s' c" for c
    proof (cases "c = a")
      case False
      have "c \<in> set (deferred s) \<or> (\<exists>l. table_lookup s l = Some c)" using that b f(2) by (simp add: blocks_ok_def)
      then show ?thesis using False la f(6) lk by (metis Un_iff fun_upd_other option.inject set_append)
    qed (use f(6) in simp)
    ultimately have "blocks_ok s'" using b f(2,3,6) pa(2,5) unfolding blocks_ok_def by simp
    with tok show ?thesis using d lk f t3(2) act Some by (auto simp: port_inv_def)
  qed
qed

lemma reclaim_step:
  assumes inv: "port_inv s"
  shows "port_inv (reclaim s) \<and> next_port_id (reclaim s) = next_port_id s \<and> table_lookup (reclaim s) = table_lookup s \<and>
    port_mem (reclaim s) = port_mem s \<and> tsys (reclaim s) = tsys s"
proof (cases "deferred s")
  case Nil
  then show ?thesis using inv by (simp add: reclaim_def)
next
  case (Cons a as)
  have t: "table_ok s" and b: "blocks_ok s" using inv by (simp_all add: port_inv_def)
  define s' where "s' = reclaim s"
  have f: "port_art s' = port_art s" "table_lookup s' = table_lookup s" "next_port_id s' = next_port_id s" "tsys s' = tsys s"
    "deferred s' = as" "port_mem s' = port_mem s" "port_live s' = (port_live s)(a := False)"
    "queue_live s' = (case mpsc (port_mem s a) of Some q \<Rightarrow> (queue_live s)(page_backed q := queue_live s (page_backed q) - 1) | None \<Rightarrow> queue_live s)"
    using Cons by (simp_all add: s'_def reclaim_def free_port_frame table_lookup_def fun_eq_iff split: option.splits)
  have "table_ok s'" using t f Cons unfolding table_ok_def by auto
  moreover have o: "owns s' c = owns s c - {a}" for c using f(6,7) by (auto simp: owns_def)
  have "int (card (owns s' c)) = queue_live s' c" for c
  proof -
    have live: "port_live s a" using b Cons by (simp add: blocks_ok_def)
    have "int (card (owns s c - {a})) = int (card (owns s c)) - (if a \<in> owns s c then 1 else 0)"
      using card_Suc_Diff1 [OF owns_finite [OF b, of c], of a] by auto
    moreover have "queue_live s c = int (card (owns s c))" using b by (simp add: blocks_ok_def)
    ultimately show ?thesis using f(8) live unfolding o by (auto simp: owns_def split: option.splits)
  qed
  then have "blocks_ok s'" using b f Cons unfolding blocks_ok_def by (auto intro: rev_finite_subset)
  ultimately show ?thesis using inv f by (simp add: port_inv_def s'_def)
qed


section \<open>Histories of the table\<close>

datatype table_op = Create u32 | CreateKernel nat nat | Destroy u64 | Reclaim

fun table_step :: "table_op \<Rightarrow> PortSys \<Rightarrow> (u64 option \<times> PortSys) option" where
  "table_step (Create c) s = Some (create c s)"
| "table_step (CreateKernel h d) s = Some (create_kernel_port h d s)"
| "table_step (Destroy i) s = map_option (Pair None) (destroy i s)"
| "table_step Reclaim s = Some (None, reclaim s)"

fun table_run :: "table_op list \<Rightarrow> PortSys \<Rightarrow> (u64 option list \<times> PortSys) option" where
  "table_run [] s = Some ([], s)"
| "table_run (op # ops) s =
     (case table_step op s of
        None \<Rightarrow> None
      | Some (r, s1) \<Rightarrow> map_option (apfst ((#) r)) (table_run ops s1))"

text \<open>What the kernel guarantees of a creation: identifiers are left, the slab hands out a free block, and the index is not
  at the limit of a large node.\<close>

fun op_room :: "table_op \<Rightarrow> PortSys \<Rightarrow> bool" where
  "op_room (Create c) s = room_for_port s"
| "op_room (CreateKernel h d) s = room_for_port s"
| "op_room _ s = True"

fun ops_room :: "table_op list \<Rightarrow> PortSys \<Rightarrow> bool" where
  "ops_room [] s = True"
| "ops_room (op # ops) s = (op_room op s \<and> (case table_step op s of None \<Rightarrow> True | Some (r, s1) \<Rightarrow> ops_room ops s1))"

text \<open>The table as a map from identifiers to who created the port and which handler and datum it has.\<close>

type_synonym port_info = "u32 \<times> nat \<times> nat"

definition port_view :: "PortSys \<Rightarrow> u64 \<Rightarrow> port_info option" where
  "port_view s i =
     map_option (\<lambda>a. (creator_task (port_mem s a), kernel_handler (port_mem s a), kernel_user_data (port_mem s a))) (port_ref s i)"

fun spec_table :: "table_op \<Rightarrow> u64 option \<Rightarrow> (u64 \<Rightarrow> port_info option) \<Rightarrow> u64 \<Rightarrow> port_info option" where
  "spec_table (Create c) (Some i) T = T(i \<mapsto> (c, 0, 0))"
| "spec_table (CreateKernel h d) (Some i) T = T(i \<mapsto> (0, h, d))"
| "spec_table (Destroy i) r T = T(port_local i := None)"
| "spec_table op r T = T"

fun spec_tables :: "table_op list \<Rightarrow> u64 option list \<Rightarrow> (u64 \<Rightarrow> port_info option) \<Rightarrow> u64 \<Rightarrow> port_info option" where
  "spec_tables (op # ops) (r # rs) T = spec_tables ops rs (spec_table op r T)"
| "spec_tables _ _ T = T"

definition shows_table :: "PortSys \<Rightarrow> (u64 \<Rightarrow> port_info option) \<Rightarrow> bool" where
  "shows_table s T \<longleftrightarrow> (\<forall>l. T l = map_option (\<lambda>a. (creator_task (port_mem s a), kernel_handler (port_mem s a), kernel_user_data (port_mem s a))) (table_lookup s l))"

lemma shows_view: "port_inv s \<Longrightarrow> shows_table s T \<Longrightarrow> port_view s i = T (port_local i)"
  using port_ref_lookup [of s i] by (simp add: port_inv_def shows_table_def port_view_def)

lemma lookup_inj:
  assumes "port_inv s" "table_lookup s l = Some a" "table_lookup s m = Some a"
  shows "l = m"
  using assms table_okD(4) [of s] by (metis port_inv_def)

definition port_info_of :: "Port \<Rightarrow> port_info" where
  "port_info_of p = (creator_task p, kernel_handler p, kernel_user_data p)"

lemma shows_table_info: "shows_table s T \<longleftrightarrow> (\<forall>l. T l = map_option (\<lambda>a. port_info_of (port_mem s a)) (table_lookup s l))"
  by (simp add: shows_table_def port_info_of_def)

lemma shows_cong:
  assumes "shows_table s T" "table_lookup s' = table_lookup s" "\<And>l a. table_lookup s l = Some a \<Longrightarrow> port_info_of (port_mem s' a) = port_info_of (port_mem s a)"
  shows "shows_table s' T"
  unfolding shows_table_info
proof
  fix l show "T l = map_option (\<lambda>a. port_info_of (port_mem s' a)) (table_lookup s' l)"
    using assms unfolding shows_table_info by (cases "table_lookup s l") auto
qed

lemma create_with_shows:
  assumes inv: "port_inv s" and T: "shows_table s T" and room: "room_for_port s" and f: "fills f" and c: "create_with wq f s = (r, s')"
    and g: "\<And>i q. port_info_of (f (new_port i q)) = g"
  shows "shows_table s' (case r of None \<Rightarrow> T | Some i \<Rightarrow> T(i \<mapsto> g))"
proof (cases r)
  case None
  then have sm: "same_table s s'" using create_with_step [OF inv room f c] by simp
  have "port_mem s' a = port_mem s a" if "table_lookup s l = Some a" for l a
    using sm that inv table_okD(2) [of s l a] by (simp add: same_table_def port_inv_def)
  then show ?thesis using shows_cong [OF T same_table_lookup [OF sm]] None by simp
next
  case (Some i)
  then obtain a where a: "\<not> port_live s a" "table_lookup s' = (table_lookup s)(i \<mapsto> a)" "port_mem s' = (port_mem s)(a := f (new_port i (fresh_queue wq)))"
    using create_with_step [OF inv room f c] by auto
  have m: "port_mem s' b = port_mem s b" if "table_lookup s l = Some b" for l b
    using a(1,3) that inv table_okD(2) [of s l b] by (auto simp: port_inv_def)
  have "(T(i \<mapsto> g)) l = map_option (\<lambda>a. port_info_of (port_mem s' a)) (table_lookup s' l)" for l
    using T m [of l] a(2,3) g unfolding shows_table_info by (cases "table_lookup s l") auto
  then show ?thesis using Some by (simp add: shows_table_info)
qed

lemma table_step_refines:
  assumes inv: "port_inv s" and T: "shows_table s T" and room: "op_room op s"
  shows "\<exists>r s'. table_step op s = Some (r, s') \<and> port_inv s' \<and> shows_table s' (spec_table op r T) \<and> next_port_id s \<le> next_port_id s' \<and>
    (\<forall>i. r = Some i \<longrightarrow> i = next_port_id s \<and> i < next_port_id s')"
proof -
  have up: "next_port_id s < next_port_id s + 1" if "room_for_port s"
    using that by (auto simp: room_for_port_def word_less_nat_alt unat_word_ariths)
  have made: "port_inv s' \<and> shows_table s' (case r of None \<Rightarrow> T | Some i \<Rightarrow> T(i \<mapsto> g)) \<and> next_port_id s \<le> next_port_id s' \<and>
      (\<forall>i. r = Some i \<longrightarrow> i = next_port_id s \<and> i < next_port_id s')"
    if "room_for_port s" "fills f" "create_with wq f s = (r, s')" "\<And>i q. port_info_of (f (new_port i q)) = g" for f wq r s' g
    using create_with_step [OF inv that(1-3)] create_with_shows [OF inv T that] up [OF that(1)] by (auto split: option.splits)
  show ?thesis
  proof (cases op)
    case (Create c)
    obtain r s' where c: "create_with True (\<lambda>p. p\<lparr>creator_task := c\<rparr>) s = (r, s')" by fastforce
    have "fills (\<lambda>p. p\<lparr>creator_task := c\<rparr>)" "\<And>i q. port_info_of ((new_port i q)\<lparr>creator_task := c\<rparr>) = (c, 0, 0)"
      by (simp_all add: fills_def port_info_of_def new_port_def)
    from made [OF _ this(1) c this(2)] show ?thesis using Create room c by (cases r) (auto simp: create_as)
  next
    case (CreateKernel h d)
    let ?f = "\<lambda>p. p\<lparr>creator_task := 0, kernel_handler := h, kernel_user_data := d\<rparr> :: Port"
    obtain r s' where c: "create_with False ?f s = (r, s')" by fastforce
    have "fills ?f" "\<And>i q. port_info_of (?f (new_port i q)) = (0, h, d)" by (simp_all add: fills_def port_info_of_def new_port_def)
    from made [OF _ this(1) c this(2)] show ?thesis using CreateKernel room c by (cases r) (auto simp: create_kernel_as)
  next
    case (Destroy i)
    obtain Q where Q: "ts_rep (tsys s) Q" using inv by (auto simp: port_inv_def)
    obtain s' where d: "destroy i s = Some s'" "port_inv s'" "next_port_id s' = next_port_id s"
      "table_lookup s' = (table_lookup s)(port_local i := None)" "\<And>a. port_ref s i \<noteq> Some a \<Longrightarrow> port_mem s' a = port_mem s a"
      using destroy_step [OF inv Q, of i] by blast
    have "port_mem s' a = port_mem s a" if "table_lookup s l = Some a" "l \<noteq> port_local i" for l a
      using d(5) [of a] port_ref_lookup [of s i] inv lookup_inj [OF inv that(1), of "port_local i"] that(2) by (auto simp: port_inv_def)
    then have "(T(port_local i := None)) l = map_option (\<lambda>a. port_info_of (port_mem s' a)) (table_lookup s' l)" for l
      using T d(4) unfolding shows_table_info by (cases "table_lookup s l") auto
    then show ?thesis using Destroy d by (simp add: shows_table_info)
  next
    case Reclaim
    then show ?thesis using reclaim_step [OF inv] T by (auto simp: shows_table_info)
  qed
qed

fun granted :: "u64 option list \<Rightarrow> u64 list" where
  "granted [] = []"
| "granted (None # rs) = granted rs"
| "granted (Some i # rs) = i # granted rs"

lemma table_run_refines:
  assumes "port_inv s" "shows_table s T" "ops_room ops s"
  shows "\<exists>rs s'. table_run ops s = Some (rs, s') \<and> port_inv s' \<and> shows_table s' (spec_tables ops rs T) \<and>
    sorted_wrt (<) (granted rs) \<and> (\<forall>i\<in>set (granted rs). next_port_id s \<le> i)"
  using assms
proof (induction ops arbitrary: s T)
  case (Cons op ops)
  obtain r s1 where s1: "table_step op s = Some (r, s1)" "port_inv s1" "shows_table s1 (spec_table op r T)" "next_port_id s \<le> next_port_id s1"
    "\<And>i. r = Some i \<Longrightarrow> i = next_port_id s \<and> i < next_port_id s1"
    using table_step_refines [OF Cons.prems(1,2), of op] Cons.prems(3) by auto
  have "ops_room ops s1" using Cons.prems(3) s1(1) by simp
  then obtain rs s' where rs: "table_run ops s1 = Some (rs, s')" "port_inv s'" "shows_table s' (spec_tables ops rs (spec_table op r T))"
    "sorted_wrt (<) (granted rs)" "\<forall>i\<in>set (granted rs). next_port_id s1 \<le> i"
    using Cons.IH [OF s1(2,3)] by blast
  then show ?case using s1(1,4,5) by (cases r) (auto intro: order_less_le_trans order_trans)
qed simp

definition port_boot :: "TsSys \<Rightarrow> bool list \<Rightarrow> u64 option list \<Rightarrow> bool list \<Rightarrow> PortSys" where
  "port_boot ts os blocks queues =
     \<lparr>port_art = (new_art, empty_mem os), port_mem = (\<lambda>_. new_port 0 None), port_live = (\<lambda>_. False), queue_live = (\<lambda>_. 0),
      next_port_id = 0, port_answers = blocks, queue_answers = queues, page_answers = [], deferred = [], tsys = ts, sets = [],
      set_answers = [], set_pages = 0, ipc_sends = 0, ipc_recvs = 0, ipc_log = []\<rparr>"

lemma port_boot_inv:
  assumes "ts_rep ts Q"
  shows "port_inv (port_boot ts os blocks queues)" "shows_table (port_boot ts os blocks queues) Map.empty"
proof -
  have "table_lookup (port_boot ts os blocks queues) l = None" for l
    using new_art_inv(2) [of os] by (simp add: table_lookup_def port_boot_def bindings_def)
  then show "port_inv (port_boot ts os blocks queues)" "shows_table (port_boot ts os blocks queues) Map.empty"
    using assms new_art_inv(1) [of os]
    by (auto simp: port_inv_def table_ok_def blocks_ok_def owns_def shows_table_def port_boot_def)
qed

section \<open>Properties\<close>



definition table_sample :: "table_op list" where
  "table_sample = [Create 4, CreateKernel 5 6, Destroy 0, Reclaim, Create 7]"


end
