(* ===== verification/PortIpc.thy ===== *)
theory PortIpc
  imports PortState
begin

text \<open>
  Sending and receiving through a port, \<open>ipc/port.rs\<close>: the queue, the parked and the blocked receivers, the blocked senders
  and the port set that a send notifies, in the order in which the code touches them. Kernel handlers are code of other
  components: a call of one is recorded, and its reply is a parameter where it is used. Calls that block are cut where the
  thread stops running: a blocking send or receive is a sequence of rounds. Trace points are left out.
\<close>

section \<open>Pieces\<close>

definition set_queue :: "u64 \<Rightarrow> Message MpscQueue \<Rightarrow> PortSys \<Rightarrow> PortSys" where
  "set_queue a q s = upd_port a (\<lambda>p. p\<lparr>mpsc := Some q\<rparr>) s"

definition queue_recv :: "u64 \<Rightarrow> PortSys \<Rightarrow> Message option \<times> PortSys" where
  "queue_recv a s =
     (case mpsc (port_mem s a) of
        None \<Rightarrow> (None, s)
      | Some q \<Rightarrow> (case mpsc_recv q of (r, q') \<Rightarrow> (r, set_queue a q' s)))"

definition wake_one :: "u64 \<Rightarrow> u8 \<Rightarrow> PortSys \<Rightarrow> PortSys" where
  "wake_one i kt s = s\<lparr>tsys := snd (port_wake_one i kt (tsys s))\<rparr>"

definition queue_is :: "(Message MpscQueue \<Rightarrow> bool) \<Rightarrow> u64 \<Rightarrow> PortSys \<Rightarrow> bool" where
  "queue_is P i s =
     (case port_ref s i of
        Some a \<Rightarrow> (case mpsc (port_mem s a) of Some q \<Rightarrow> P q | None \<Rightarrow> False)
      | None \<Rightarrow> False)"

definition call_handler :: "u64 \<Rightarrow> u64 \<Rightarrow> Message \<Rightarrow> PortSys \<Rightarrow> PortSys" where
  "call_handler i a msg s = log_ipc (HandlerCall (kernel_handler (port_mem s a)) i (kernel_user_data (port_mem s a)) msg) s"

definition wake_set_waiter :: "u32 \<Rightarrow> PortSys \<Rightarrow> PortSys" where
  "wake_set_waiter sid s =
     (if unat sid < length (sets s)
      then let ps = sets s ! unat sid;
               s1 = s\<lparr>sets := (sets s)[unat sid := ps\<lparr>waiter := None\<rparr>]\<rparr>
           in (case waiter ps of Some tid \<Rightarrow> s1\<lparr>tsys := emit (WakeThread tid) (tsys s1)\<rparr> | None \<Rightarrow> s1)
      else s)"

definition notify_set :: "u64 \<Rightarrow> PortSys \<Rightarrow> PortSys" where
  "notify_set a s = (let sid = port_set_id (port_mem s a) in if sid \<noteq> NONE32 then wake_set_waiter sid s else s)"

section \<open>Sending\<close>

definition inject_into :: "u64 \<Rightarrow> u32 \<Rightarrow> PortSys \<Rightarrow> bool \<times> PortSys" where
  "inject_into i tid s =
     (case port_ref s i of
        None \<Rightarrow> (False, s)
      | Some a \<Rightarrow>
          (case queue_recv a s of
             (Some msg, s1) \<Rightarrow> (True, wake_one i KEY_PORT_SEND (log_ipc (Deliver tid msg) s1))
           | (None, s1) \<Rightarrow> (False, s1)))"

definition wake_recv_waiter :: "u64 \<Rightarrow> PortSys \<Rightarrow> PortSys" where
  "wake_recv_waiter i s =
     (let s0 = with_port (\<lambda>p. p\<lparr>diag_wake_calls := diag_wake_calls p + 1\<rparr>) i s
      in case port_dequeue_one i KEY_PORT_RECV_PARK (tsys s0) of
           (Some tid, t) \<Rightarrow>
             (case inject_into i tid (s0\<lparr>tsys := t\<rparr>) of
                (True, s1) \<Rightarrow>
                  log_ipc (WakeParked tid) (with_port (\<lambda>p. p\<lparr>diag_wake_inject_ok := diag_wake_inject_ok p + 1\<rparr>) i s1)
              | (False, s1) \<Rightarrow>
                  let s2 = with_port (\<lambda>p. p\<lparr>diag_wake_reenq := diag_wake_reenq p + 1\<rparr>) i s1
                  in s2\<lparr>tsys := port_enqueue_raw i KEY_PORT_RECV_PARK tid (tsys s2)\<rparr>)
         | (None, t) \<Rightarrow>
             wake_one i KEY_PORT_RECV
               (with_port (\<lambda>p. p\<lparr>diag_wake_no_parker := diag_wake_no_parker p + 1\<rparr>) i (s0\<lparr>tsys := t\<rparr>)))"

definition do_send :: "u64 \<Rightarrow> Message \<Rightarrow> PortSys \<Rightarrow> bool \<times> PortSys" where
  "do_send a msg s =
     (case mpsc (port_mem s a) of
        None \<Rightarrow> (False, s)
      | Some q \<Rightarrow>
          (case mpsc_send msg q of
             (False, q') \<Rightarrow> (False, s)
           | (True, q') \<Rightarrow> (True, notify_set a (wake_recv_waiter (port_id (port_mem s a)) (set_queue a q' s)))))"

definition send_nb :: "u64 \<Rightarrow> Message \<Rightarrow> PortSys \<Rightarrow> (Message + unit) \<times> PortSys" where
  "send_nb i msg s =
     (case port_ref s i of
        None \<Rightarrow> (Inl msg, s)
      | Some a \<Rightarrow>
          if is_kernel_held (port_mem s a) then (Inr (), call_handler i a msg s)
          else (case do_send a msg s of (True, s1) \<Rightarrow> (Inr (), s1) | (False, s1) \<Rightarrow> (Inl msg, s1)))"

definition send_from_kernel :: "u64 \<Rightarrow> Message \<Rightarrow> PortSys \<Rightarrow> bool \<times> PortSys" where
  "send_from_kernel i msg s =
     (case port_ref s i of
        None \<Rightarrow> (False, s)
      | Some a \<Rightarrow> if is_kernel_held (port_mem s a) then (True, call_handler i a msg s) else do_send a msg s)"

definition try_send :: "u64 \<Rightarrow> Message \<Rightarrow> PortSys \<Rightarrow> bool \<times> PortSys" where
  "try_send i msg s =
     (case port_ref s i of
        None \<Rightarrow> (False, s)
      | Some a \<Rightarrow> if is_kernel_held (port_mem s a) then (True, call_handler i a msg s) else do_send a msg s)"

text \<open>The blocking send: the part before the loop, and one turn of the loop, which returns, blocks or turns again.\<close>

datatype 'a turn = Return 'a | Block | Again

definition send_entry :: "u64 \<Rightarrow> Message \<Rightarrow> PortSys \<Rightarrow> bool turn \<times> PortSys" where
  "send_entry i msg s =
     (let s1 = s\<lparr>ipc_sends := ipc_sends s + 1\<rparr>
      in case port_ref s1 i of
           None \<Rightarrow> (Return False, s1)
         | Some a \<Rightarrow> if is_kernel_held (port_mem s1 a) then (Return True, call_handler i a msg s1) else (Again, s1))"

definition send_turn :: "u64 \<Rightarrow> u32 \<Rightarrow> bool \<Rightarrow> Message \<Rightarrow> PortSys \<Rightarrow> bool turn \<times> PortSys" where
  "send_turn i tid killed msg s =
     (case port_ref s i of
        None \<Rightarrow> (Return False, s)
      | Some a \<Rightarrow>
          (case do_send a msg s of
             (True, s1) \<Rightarrow> (Return True, s1)
           | (False, s1) \<Rightarrow>
               if killed then (Return False, s1)
               else (case port_enqueue_with_check i KEY_PORT_SEND tid (queue_is is_full i s1) (tsys s1) of
                       (True, t) \<Rightarrow> (Block, log_ipc (BlockSend tid i) (s1\<lparr>tsys := t\<rparr>))
                     | (False, t) \<Rightarrow> (Again, s1\<lparr>tsys := t\<rparr>))))"

datatype SendDirectResult = Queued | DirectTransfer u32 | Full | SendError

definition send_direct :: "u64 \<Rightarrow> Message \<Rightarrow> PortSys \<Rightarrow> SendDirectResult \<times> PortSys" where
  "send_direct i msg s =
     (let s0 = s\<lparr>ipc_sends := ipc_sends s + 1\<rparr>
      in case port_ref s0 i of
           None \<Rightarrow> (SendError, s0)
         | Some a \<Rightarrow>
             if is_kernel_held (port_mem s0 a) then (Queued, call_handler i a msg s0)
             else (case port_dequeue_one i KEY_PORT_RECV_PARK (tsys s0) of
                     (Some tid, t) \<Rightarrow> (DirectTransfer tid, wake_one i KEY_PORT_RECV (s0\<lparr>tsys := t\<rparr>))
                   | (None, t) \<Rightarrow>
                       let s1 = s0\<lparr>tsys := t\<rparr>
                       in (case mpsc (port_mem s1 a) of
                             None \<Rightarrow> (SendError, s1)
                           | Some q \<Rightarrow>
                               (case mpsc_send msg q of
                                  (True, q') \<Rightarrow> (Queued, notify_set a (wake_recv_waiter i (set_queue a q' s1)))
                                | (False, q') \<Rightarrow> (Full, s1)))))"

section \<open>Receiving\<close>

definition recv_nb :: "u64 \<Rightarrow> PortSys \<Rightarrow> Message option \<times> PortSys" where
  "recv_nb i s =
     (case port_ref s i of
        None \<Rightarrow> (None, s)
      | Some a \<Rightarrow>
          if is_kernel_held (port_mem s a) then (None, s)
          else (case queue_recv a s of
                  (Some msg, s1) \<Rightarrow>
                    let s2 = wake_one i KEY_PORT_SEND s1 in (Some msg, s2\<lparr>ipc_recvs := ipc_recvs s2 + 1\<rparr>)
                | (None, s1) \<Rightarrow> (None, s1)))"

definition recv_entry :: "u32 \<Rightarrow> PortSys \<Rightarrow> PortSys" where
  "recv_entry tid s = s\<lparr>tsys := emit (ResetPriority tid) (tsys s)\<rparr>"

definition recv_turn :: "u64 \<Rightarrow> u32 \<Rightarrow> bool \<Rightarrow> PortSys \<Rightarrow> Message option turn \<times> PortSys" where
  "recv_turn i tid killed s =
     (case port_ref s i of
        None \<Rightarrow> (Return None, s)
      | Some a \<Rightarrow>
          if is_kernel_held (port_mem s a) \<or> mpsc (port_mem s a) = None then (Return None, s)
          else (case queue_recv a s of
                  (Some msg, s1) \<Rightarrow> (Return (Some msg), wake_one i KEY_PORT_SEND s1)
                | (None, s1) \<Rightarrow>
                    if killed then (Return None, s1)
                    else (case port_enqueue_with_check i KEY_PORT_RECV tid (queue_is is_empty i s1) (tsys s1) of
                            (True, t) \<Rightarrow> (Block, log_ipc (BlockRecv tid i) (s1\<lparr>tsys := t\<rparr>))
                          | (False, t) \<Rightarrow> (Again, s1\<lparr>tsys := t\<rparr>))))"

definition port_queue_info :: "u64 \<Rightarrow> PortSys \<Rightarrow> (nat \<times> u32) option" where
  "port_queue_info i s =
     (case port_ref s i of
        None \<Rightarrow> None
      | Some a \<Rightarrow> map_option (\<lambda>q. (pending_count q, q_capacity q)) (mpsc (port_mem s a)))"

definition received :: "u64 \<Rightarrow> PortSys \<Rightarrow> PortSys" where
  "received i s = (let s1 = wake_one i KEY_PORT_SEND s in s1\<lparr>ipc_recvs := ipc_recvs s1 + 1\<rparr>)"

text \<open>The result \<open>None\<close> inside the pair is the code's \<open>Err\<close>; no result at all means that the call does not return.\<close>

partial_function (option) recv_or_park :: "u64 \<Rightarrow> u32 \<Rightarrow> PortSys \<Rightarrow> (Message option \<times> PortSys) option" where
  "recv_or_park i tid s =
     (let s0 = recv_entry tid s
      in case port_ref s0 i of
           None \<Rightarrow> Some (None, s0)
         | Some a \<Rightarrow>
             if is_kernel_held (port_mem s0 a) \<or> mpsc (port_mem s0 a) = None then Some (None, s0)
             else (case queue_recv a s0 of
                     (Some msg, s1) \<Rightarrow> Some (Some msg, received i s1)
                   | (None, s1) \<Rightarrow>
                       let s2 = log_ipc (PreSaveFrame tid) s1
                       in case port_enqueue_with_check i KEY_PORT_RECV_PARK tid (queue_is is_empty i s2) (tsys s2) of
                            (enqueued, t) \<Rightarrow>
                              if enqueued then Some (None, log_ipc (ParkCurrent tid i) (s2\<lparr>tsys := t\<rparr>))
                              else (case queue_recv a (log_ipc (ParkReset tid) (s2\<lparr>tsys := t\<rparr>)) of
                                      (Some msg, s3) \<Rightarrow> Some (Some msg, received i s3)
                                    | (None, s3) \<Rightarrow> recv_or_park i tid s3)))"

declare recv_or_park.simps [code]

section \<open>Kernel ports and resizing\<close>

definition call_kernel_handler :: "(nat \<Rightarrow> u64 \<Rightarrow> nat \<Rightarrow> Message \<Rightarrow> Message) \<Rightarrow> u64 \<Rightarrow> Message \<Rightarrow> PortSys \<Rightarrow> Message option \<times> PortSys" where
  "call_kernel_handler reply i msg s =
     (case port_ref s i of
        None \<Rightarrow> (None, s)
      | Some a \<Rightarrow>
          if \<not> is_kernel_held (port_mem s a) then (None, s)
          else (Some (reply (kernel_handler (port_mem s a)) i (kernel_user_data (port_mem s a)) msg), call_handler i a msg s))"

partial_function (option) drain :: "'m MpscQueue \<Rightarrow> 'm MpscQueue \<Rightarrow> ('m MpscQueue \<times> 'm MpscQueue) option" where
  "drain old new =
     (case mpsc_recv old of
        (None, old') \<Rightarrow> Some (old', new)
      | (Some msg, old') \<Rightarrow> drain old' (snd (mpsc_send msg new)))"

declare drain.simps [code]

definition resize :: "nat \<Rightarrow> u64 \<Rightarrow> nat \<Rightarrow> PortSys \<Rightarrow> (bool \<times> PortSys) option" where
  "resize page_size i new_capacity s =
     (if new_capacity > unat (mpsc_capacity_for_size page_size) then Some (False, s)
      else case table_lookup s (port_local i) of
             None \<Rightarrow> Some (False, s)
           | Some a \<Rightarrow>
               let p = port_mem s a
               in if \<not> is_alive p \<or> is_kernel_held p then Some (False, s)
                  else if (case mpsc p of Some q \<Rightarrow> page_backed q \<and> unat (q_capacity q) \<ge> new_capacity | None \<Rightarrow> False) then Some (True, s)
                  else case alloc_mpsc_page_queue page_size s of
                         (None, s1) \<Rightarrow> Some (False, s1)
                       | (Some nq, s1) \<Rightarrow>
                           let s2 = set_queue a nq s1
                           in (case mpsc p of
                                 None \<Rightarrow> Some (True, s2)
                               | Some old \<Rightarrow>
                                   (case drain old nq of
                                      None \<Rightarrow> None
                                    | Some (old', nq') \<Rightarrow>
                                        Some (True, free_mpsc_queue old' (set_queue a nq' (log_ipc GracePeriod s2))))))"


section \<open>A live port and its waiters\<close>

text \<open>
  \<open>chan i a q Q s\<close>: identifier \<open>i\<close> is the live port at \<open>a\<close>, it belongs to no kernel handler, its queue is \<open>q\<close>, which nobody
  is writing to, and the turnstiles hold the wait queues \<open>Q\<close>.
\<close>

definition chan :: "u64 \<Rightarrow> u64 \<Rightarrow> Message MpscQueue \<Rightarrow> (wkey \<Rightarrow> u32 list) \<Rightarrow> PortSys \<Rightarrow> bool" where
  "chan i a q Q s \<longleftrightarrow> table_lookup s (port_local i) = Some a \<and> port_id (port_mem s a) = i \<and> is_alive (port_mem s a) \<and>
     kernel_handler (port_mem s a) = 0 \<and> mpsc (port_mem s a) = Some q \<and> quiet q \<and> ts_rep (tsys s) Q"

abbreviation parked :: "u64 \<Rightarrow> (wkey \<Rightarrow> u32 list) \<Rightarrow> u32 list" where
  "parked i Q \<equiv> Q (port_key i KEY_PORT_RECV_PARK)"

fun deliveries :: "ipc_event list \<Rightarrow> Message list" where
  "deliveries [] = []"
| "deliveries (Deliver t m # es) = m # deliveries es"
| "deliveries (_ # es) = deliveries es"

lemma deliveries_append [simp]: "deliveries (es @ fs) = deliveries es @ deliveries fs"
  by (induction es rule: deliveries.induct) auto

abbreviation delivered :: "PortSys \<Rightarrow> Message list" where
  "delivered s \<equiv> deliveries (ipc_log s)"

lemma chanD:
  assumes "chan i a q Q s"
  shows "port_ref s i = Some a" "\<not> is_kernel_held (port_mem s a)" "mpsc (port_mem s a) = Some q" "quiet q" "ts_rep (tsys s) Q"
    "port_id (port_mem s a) = i" "table_lookup s (port_local i) = Some a" "is_alive (port_mem s a)"
  using assms by (simp_all add: chan_def port_ref_def is_kernel_held_def)

lemma table_lookup_frame [simp]:
  "table_lookup (s\<lparr>tsys := t\<rparr>) = table_lookup s" "table_lookup (s\<lparr>sets := ss\<rparr>) = table_lookup s" "table_lookup (s\<lparr>ipc_sends := n\<rparr>) = table_lookup s"
  "table_lookup (s\<lparr>ipc_recvs := n\<rparr>) = table_lookup s" "table_lookup (s\<lparr>port_mem := pm\<rparr>) = table_lookup s" "table_lookup (s\<lparr>ipc_log := l\<rparr>) = table_lookup s"
  "table_lookup (s\<lparr>queue_live := ql\<rparr>) = table_lookup s" "table_lookup (s\<lparr>page_answers := pa\<rparr>) = table_lookup s"
  by (simp_all add: table_lookup_def fun_eq_iff)

lemma chan_frame [simp]:
  "chan i a q Q (log_ipc e s) = chan i a q Q s" "chan i a q Q (s\<lparr>ipc_sends := n\<rparr>) = chan i a q Q s" "chan i a q Q (s\<lparr>ipc_recvs := n\<rparr>) = chan i a q Q s"
  "chan i a q Q (s\<lparr>sets := ss\<rparr>) = chan i a q Q s" "chan i a q Q (s\<lparr>queue_live := ql\<rparr>) = chan i a q Q s" "chan i a q Q (s\<lparr>page_answers := pa\<rparr>) = chan i a q Q s"
  by (simp_all add: chan_def log_ipc_def)

lemma chan_tsys: "chan i a q Q s \<Longrightarrow> ts_rep t Q' \<Longrightarrow> chan i a q Q' (s\<lparr>tsys := t\<rparr>)"
  by (simp add: chan_def)

lemma chan_set_queue: "chan i a q Q s \<Longrightarrow> quiet q' \<Longrightarrow> chan i a q' Q (set_queue a q' s)"
  by (simp add: chan_def set_queue_def upd_port_def is_alive_def)

lemma log_frame [simp]:
  "ipc_log (set_queue a q s) = ipc_log s" "ipc_log (wake_one i kt s) = ipc_log s" "tsys (set_queue a q s) = tsys s" "tsys (log_ipc e s) = tsys s"
  "ipc_log (with_port f i s) = ipc_log s" "tsys (with_port f i s) = tsys s" "ipc_log (log_ipc e s) = ipc_log s @ [e]" "ipc_log (recv_entry tid s) = ipc_log s"
  by (simp_all add: set_queue_def upd_port_def wake_one_def log_ipc_def with_port_def recv_entry_def split: option.splits)

definition harmless :: "(Port \<Rightarrow> Port) \<Rightarrow> bool" where
  "harmless f \<longleftrightarrow> (\<forall>p. port_id (f p) = port_id p \<and> flags (f p) = flags p \<and> kernel_handler (f p) = kernel_handler p \<and> mpsc (f p) = mpsc p)"

lemma chan_with_port: "chan i a q Q s \<Longrightarrow> harmless f \<Longrightarrow> chan i a q Q (with_port f i s)"
  using chanD(1) [of i a q Q s] by (simp add: chan_def with_port_def upd_port_def harmless_def is_alive_def)

lemma harmless_diag:
  "harmless (\<lambda>p. p\<lparr>diag_wake_calls := diag_wake_calls p + 1\<rparr>)" "harmless (\<lambda>p. p\<lparr>diag_wake_inject_ok := diag_wake_inject_ok p + 1\<rparr>)"
  "harmless (\<lambda>p. p\<lparr>diag_wake_no_parker := diag_wake_no_parker p + 1\<rparr>)"
  by (simp_all add: harmless_def)

lemma chan_wake_one:
  assumes "chan i a q Q s" "kt \<noteq> KEY_FUTEX"
  shows "chan i a q (Q(port_key i kt := tl (Q (port_key i kt)))) (wake_one i kt s)"
  using chan_tsys [OF assms(1)] port_wake_one_step(2) [OF chanD(5) [OF assms(1)] assms(2)] by (metis prod.collapse wake_one_def)

lemma chan_emit: "chan i a q Q s \<Longrightarrow> chan i a q Q (s\<lparr>tsys := emit e (tsys s)\<rparr>)"
  by (rule chan_tsys) (simp_all add: chanD(5))

lemma chan_notify: "chan i a q Q s \<Longrightarrow> chan i a q Q (notify_set b s)"
  using chan_emit [of i a q Q "s\<lparr>sets := ss\<rparr>" for ss]
  by (auto simp: notify_set_def wake_set_waiter_def Let_def split: option.splits)

lemma notify_log [simp]: "ipc_log (notify_set b s) = ipc_log s"
  by (simp add: notify_set_def wake_set_waiter_def Let_def split: option.splits)

section \<open>Steps of a live port\<close>

lemma queue_recv_step:
  assumes "chan i a q Q s" "queue_recv a s = (r, s')"
  shows "\<exists>q'. chan i a q' Q s' \<and> r = (case contents q of [] \<Rightarrow> None | m # ms \<Rightarrow> Some m) \<and> contents q' = tl (contents q) \<and>
    q_capacity q' = q_capacity q \<and> ipc_log s' = ipc_log s \<and> tsys s' = tsys s"
proof -
  obtain q' where q': "mpsc_recv q = (r, q')" "s' = set_queue a q' s"
    using assms chanD(3) [OF assms(1)] by (auto simp: queue_recv_def split: prod.splits)
  show ?thesis using mpsc_recv_quiet [OF chanD(4) [OF assms(1)] q'(1)] chan_set_queue [OF assms(1)] q'(2) by auto
qed

lemma wake_recv_waiter_step:
  assumes c: "chan i a q Q s" and m: "contents q = m # ms"
  shows "\<exists>q' Q'. chan i a q' Q' (wake_recv_waiter i s) \<and> parked i Q' = tl (parked i Q) \<and> q_capacity q' = q_capacity q \<and>
    (if parked i Q = [] then contents q' = contents q \<and> delivered (wake_recv_waiter i s) = delivered s
     else contents q' = ms \<and> delivered (wake_recv_waiter i s) = delivered s @ [m])"
proof -
  define s0 where "s0 = with_port (\<lambda>p. p\<lparr>diag_wake_calls := diag_wake_calls p + 1\<rparr>) i s"
  have c0: "chan i a q Q s0" "ipc_log s0 = ipc_log s" unfolding s0_def using chan_with_port [OF c harmless_diag(1)] by simp_all
  let ?k = "port_key i KEY_PORT_RECV_PARK"
  obtain r t where d: "port_dequeue_one i KEY_PORT_RECV_PARK (tsys s0) = (r, t)" by fastforce
  note ds = port_dequeue_one_step [OF chanD(5) [OF c0(1)] key_types(3) d]
  define s1 where "s1 = s0\<lparr>tsys := t\<rparr>"
  have c1: "chan i a q (Q(?k := tl (parked i Q))) s1" unfolding s1_def by (rule chan_tsys [OF c0(1) ds(2)])
  show ?thesis
  proof (cases "parked i Q")
    case Nil
    have r: "wake_recv_waiter i s = wake_one i KEY_PORT_RECV (with_port (\<lambda>p. p\<lparr>diag_wake_no_parker := diag_wake_no_parker p + 1\<rparr>) i s1)"
      using d ds(1) Nil by (simp add: wake_recv_waiter_def s0_def [symmetric] s1_def Let_def)
    show ?thesis
      using chan_wake_one [OF chan_with_port [OF c1 harmless_diag(3)] key_types(1)] Nil c0(2) unfolding r by (force simp: s1_def)
  next
    case (Cons x xs)
    obtain ro s2 where qr: "queue_recv a s1 = (ro, s2)" by fastforce
    obtain q' where q': "chan i a q' (Q(?k := tl (parked i Q))) s2" "ro = Some m" "contents q' = ms" "q_capacity q' = q_capacity q" "ipc_log s2 = ipc_log s1"
      using queue_recv_step [OF c1 qr] m by auto
    have r: "wake_recv_waiter i s = log_ipc (WakeParked x) (with_port (\<lambda>p. p\<lparr>diag_wake_inject_ok := diag_wake_inject_ok p + 1\<rparr>) i
        (wake_one i KEY_PORT_SEND (log_ipc (Deliver x m) s2)))"
      using d ds(1) Cons chanD(1) [OF c1] qr q'(2)
      by (simp add: wake_recv_waiter_def inject_into_def s0_def [symmetric] s1_def [symmetric] Let_def)
    have "chan i a q' (Q(?k := tl (parked i Q))) (log_ipc (Deliver x m) s2)" using q'(1) by simp
    from chan_with_port [OF chan_wake_one [OF this key_types(2)] harmless_diag(2)]
    show ?thesis using Cons q'(3-5) c0(2) unfolding r by (force simp: s1_def)
  qed
qed

definition settled :: "u64 \<Rightarrow> (wkey \<Rightarrow> u32 list) \<Rightarrow> Message MpscQueue \<Rightarrow> bool" where
  "settled i Q q \<longleftrightarrow> (parked i Q \<noteq> [] \<longrightarrow> contents q = [])"

text \<open>
  What a call does to a live port: it stays live, the messages that were queued, followed by those that the call accepted, are
  those it delivered to parked threads or returned, followed by those queued afterwards, and whenever a thread is parked
  the queue is empty.
\<close>

definition carries :: "u64 \<Rightarrow> u64 \<Rightarrow> Message MpscQueue \<Rightarrow> PortSys \<Rightarrow> Message list \<Rightarrow> Message list \<Rightarrow> PortSys \<Rightarrow> bool" where
  "carries i a q s sent returned s' \<longleftrightarrow>
     (\<exists>q' Q' injected. chan i a q' Q' s' \<and> settled i Q' q' \<and> delivered s' = delivered s @ injected \<and>
        contents q @ sent = injected @ returned @ contents q')"

lemma carries_none:
  assumes "chan i a q Q s'" "settled i Q q" "delivered s' = delivered s"
  shows "carries i a q s [] [] s'"
  unfolding carries_def using assms by (intro exI [of _ q] exI [of _ Q] exI [of _ "[]"]) simp

lemma queued_send_step:
  assumes c: "chan i a q Q s" and st: "settled i Q q" and sd: "mpsc_send m q = (True, q')"
  shows "carries i a q s [m] [] (notify_set a (wake_recv_waiter i (set_queue a q' s)))"
proof -
  note ms = mpsc_send_quiet [OF chanD(4) [OF c] sd]
  have c1: "chan i a q' Q (set_queue a q' s)" by (rule chan_set_queue [OF c ms(1)])
  have "contents q' \<noteq> []" using ms(3) by simp
  then obtain x xs where x: "contents q' = x # xs" by (meson neq_Nil_conv)
  obtain q2 Q2 where w: "chan i a q2 Q2 (wake_recv_waiter i (set_queue a q' s))" "parked i Q2 = tl (parked i Q)"
    "if parked i Q = [] then contents q2 = contents q' \<and> delivered (wake_recv_waiter i (set_queue a q' s)) = delivered (set_queue a q' s)
     else contents q2 = xs \<and> delivered (wake_recv_waiter i (set_queue a q' s)) = delivered (set_queue a q' s) @ [x]"
    using wake_recv_waiter_step [OF c1 x] by blast
  have cs: "contents q @ [m] = x # xs" using ms(3) x by simp
  show ?thesis
  proof (cases "parked i Q")
    case Nil
    then show ?thesis unfolding carries_def settled_def using w cs x chan_notify [OF w(1), of a] by (intro exI [of _ q2] exI [of _ Q2] exI [of _ "[]"]) simp
  next
    case (Cons y ys)
    then have "contents q = []" using st by (simp add: settled_def)
    then show ?thesis unfolding carries_def settled_def using w cs Cons chan_notify [OF w(1), of a]
      by (intro exI [of _ q2] exI [of _ Q2] exI [of _ "[m]"]) simp
  qed
qed

lemma do_send_step:
  assumes c: "chan i a q Q s" and st: "settled i Q q" and sd: "do_send a m s = (ok, s')"
  shows "ok \<longleftrightarrow> length (contents q) < unat (q_capacity q)" "\<not> ok \<Longrightarrow> s' = s" "carries i a q s (if ok then [m] else []) [] s'"
proof -
  obtain ok' q' where ms: "mpsc_send m q = (ok', q')" by fastforce
  have r: "ok = ok'" "s' = (if ok' then notify_set a (wake_recv_waiter i (set_queue a q' s)) else s)"
    using sd ms chanD(3,6) [OF c] by (auto simp: do_send_def split: bool.splits if_splits)
  show "ok \<longleftrightarrow> length (contents q) < unat (q_capacity q)" using mpsc_send_quiet(2) [OF chanD(4) [OF c] ms] r(1) by simp
  show "\<not> ok \<Longrightarrow> s' = s" using r by simp
  show "carries i a q s (if ok then [m] else []) [] s'"
    using r queued_send_step [OF c st] ms carries_none [OF c st] by (cases ok') simp_all
qed

lemma send_direct_step:
  assumes c: "chan i a q Q s" and st: "settled i Q q" and sd: "send_direct i m s = (r, s')"
  shows "case r of
      Queued \<Rightarrow> parked i Q = [] \<and> carries i a q s [m] [] s'
    | DirectTransfer tid \<Rightarrow> parked i Q \<noteq> [] \<and> tid = hd (parked i Q) \<and> carries i a q s [m] [m] s'
    | Full \<Rightarrow> parked i Q = [] \<and> length (contents q) = unat (q_capacity q) \<and> carries i a q s [] [] s'
    | SendError \<Rightarrow> False"
proof -
  define s0 where "s0 = s\<lparr>ipc_sends := ipc_sends s + 1\<rparr>"
  have c0: "chan i a q Q s0" "delivered s0 = delivered s" using c by (simp_all add: s0_def)
  let ?k = "port_key i KEY_PORT_RECV_PARK"
  obtain w t where d: "port_dequeue_one i KEY_PORT_RECV_PARK (tsys s0) = (w, t)" by fastforce
  note ds = port_dequeue_one_step [OF chanD(5) [OF c0(1)] key_types(3) d]
  define s1 where "s1 = s0\<lparr>tsys := t\<rparr>"
  have c1: "chan i a q (Q(?k := tl (parked i Q))) s1" "delivered s1 = delivered s"
    unfolding s1_def using chan_tsys [OF c0(1) ds(2)] c0(2) by simp_all
  note e = chanD(1,2) [OF c0(1)] s0_def [symmetric] s1_def [symmetric]
  show ?thesis
  proof (cases "parked i Q")
    case Nil
    obtain ok q' where ms: "mpsc_send m q = (ok, q')" by fastforce
    have Q1: "Q(?k := tl (parked i Q)) = Q" using Nil by (simp add: fun_upd_idem)
    have r: "r = (if ok then Queued else Full)" "s' = (if ok then notify_set a (wake_recv_waiter i (set_queue a q' s1)) else s1)"
      using sd d ds(1) Nil e ms chanD(3) [OF c1(1)] by (auto simp: send_direct_def Let_def split: bool.splits if_splits)
    note mq = mpsc_send_quiet(2) [OF chanD(4) [OF c] ms]
    have cap: "length (contents q) \<le> unat (q_capacity q)" by (rule quietD(2) [OF chanD(4) [OF c]])
    have "carries i a q s1 sent [] z = carries i a q s sent [] z" for sent z by (simp add: carries_def c1(2))
    then show ?thesis
      using r Nil mq cap queued_send_step [OF c1(1) [unfolded Q1] st] ms carries_none [OF c1(1) [unfolded Q1] st c1(2)] by (cases ok) auto
  next
    case (Cons x xs)
    have em: "contents q = []" using Cons st by (simp add: settled_def)
    have r: "r = DirectTransfer x" "s' = wake_one i KEY_PORT_RECV s1"
      using sd d ds(1) Cons e by (simp_all add: send_direct_def Let_def)
    have "carries i a q s [m] [m] s'"
      unfolding carries_def settled_def r(2)
      using chan_wake_one [OF c1(1) key_types(1)] em c1(2)
      by (intro exI [of _ q] exI [of _ "(Q(?k := tl (parked i Q)))(port_key i KEY_PORT_RECV := tl ((Q(?k := tl (parked i Q))) (port_key i KEY_PORT_RECV)))"]
          exI [of _ "[]"]) simp
    then show ?thesis using r Cons by simp
  qed
qed

abbreviation msgs_of :: "Message option \<Rightarrow> Message list" where
  "msgs_of r \<equiv> (case r of Some m \<Rightarrow> [m] | None \<Rightarrow> [])"

lemma taken_step:
  assumes c: "chan i a q Q s" and st: "settled i Q q" and m: "queue_recv a s = (Some m, s1)"
  shows "carries i a q s [] [m] (wake_one i KEY_PORT_SEND s1)"
proof -
  obtain q' where q': "chan i a q' Q s1" "contents q = m # contents q'" "ipc_log s1 = ipc_log s"
    using queue_recv_step [OF c m] by (cases "contents q") auto
  have "parked i Q = []" using q'(2) st by (auto simp: settled_def)
  then show ?thesis
    unfolding carries_def settled_def using q' chan_wake_one [OF q'(1) key_types(2)]
    by (intro exI [of _ q'] exI [of _ "Q(port_key i KEY_PORT_SEND := tl (Q (port_key i KEY_PORT_SEND)))"] exI [of _ "[]"]) simp
qed

lemma nothing_taken:
  assumes c: "chan i a q Q s" and n: "queue_recv a s = (None, s1)"
  shows "contents q = []" "chan i a q Q s1" "ipc_log s1 = ipc_log s" "tsys s1 = tsys s"
proof -
  obtain q' where q': "mpsc_recv q = (None, q')" "s1 = set_queue a q' s"
    using n chanD(3) [OF c] by (auto simp: queue_recv_def split: prod.splits)
  have "q' = q" using q'(1) by (auto simp: mpsc_recv_def Let_def split: if_splits)
  then show "contents q = []" "chan i a q Q s1" "ipc_log s1 = ipc_log s" "tsys s1 = tsys s"
    using q' chan_set_queue [OF c chanD(4) [OF c]] mpsc_recv_quiet(2) [OF chanD(4) [OF c] q'(1)] by (auto split: list.splits)
qed

lemma carries_counted [simp]: "carries i a q s sent ret (s'\<lparr>ipc_recvs := n\<rparr>) = carries i a q s sent ret s'"
  by (simp add: carries_def)

lemma recv_nb_step:
  assumes c: "chan i a q Q s" and st: "settled i Q q" and r: "recv_nb i s = (r, s')"
  shows "r = (case contents q of [] \<Rightarrow> None | m # ms \<Rightarrow> Some m)" "carries i a q s [] (msgs_of r) s'"
proof -
  obtain ro s1 where qr: "queue_recv a s = (ro, s1)" by fastforce
  have "r = ro" using r qr chanD(1,2) [OF c] by (auto simp: recv_nb_def Let_def split: option.splits)
  then show "r = (case contents q of [] \<Rightarrow> None | m # ms \<Rightarrow> Some m)" using queue_recv_step [OF c qr] by auto
  show "carries i a q s [] (msgs_of r) s'"
  proof (cases ro)
    case None
    then show ?thesis using r qr chanD(1,2) [OF c] nothing_taken [OF c] st carries_none [of i a q Q s1 s] by (auto simp: recv_nb_def)
  next
    case (Some m)
    then show ?thesis using r qr chanD(1,2) [OF c] taken_step [OF c st] by (auto simp: recv_nb_def Let_def)
  qed
qed

lemma queue_is_chan: "chan i a q Q s \<Longrightarrow> queue_is P i s = P q"
  using chanD(1,3) [of i a q Q s] by (simp add: queue_is_def)

definition ready_to_block :: "u64 \<Rightarrow> u8 \<Rightarrow> u32 \<Rightarrow> PortSys \<Rightarrow> bool" where
  "ready_to_block i kt tid s = may_block (port_key i kt) tid (tsys s)"

lemma enqueue_step:
  assumes c: "chan i a q Q s" and b: "ready_to_block i kt tid s" and kt: "kt \<noteq> KEY_FUTEX"
    and e: "port_enqueue_with_check i kt tid cond (tsys s) = (ok, t)"
  shows "chan i a q (if ok then Q(port_key i kt := Q (port_key i kt) @ [tid]) else Q) (s\<lparr>tsys := t\<rparr>)" "ok \<Longrightarrow> cond"
proof -
  note m = may_blockD [OF b [unfolded ready_to_block_def] chanD(5) [OF c]]
  note p = port_enqueue_step [OF chanD(5) [OF c] m(1-3) kt m(4) e]
  show "chan i a q (if ok then Q(port_key i kt := Q (port_key i kt) @ [tid]) else Q) (s\<lparr>tsys := t\<rparr>)" by (rule chan_tsys [OF c p(1)])
  show "ok \<Longrightarrow> cond" by (rule p(2))
qed

lemma send_turn_step:
  assumes c: "chan i a q Q s" and st: "settled i Q q" and b: "ready_to_block i KEY_PORT_SEND tid s" and r: "send_turn i tid killed m s = (r, s')"
  shows "carries i a q s (if r = Return True then [m] else []) [] s'" "r = Return True \<longleftrightarrow> length (contents q) < unat (q_capacity q)"
    "r = Block \<Longrightarrow> length (contents q) = unat (q_capacity q)"
proof -
  obtain ok s1 where ds: "do_send a m s = (ok, s1)" by fastforce
  note d = do_send_step [OF c st ds]
  have cap: "length (contents q) \<le> unat (q_capacity q)" by (rule quietD(2) [OF chanD(4) [OF c]])
  have "carries i a q s (if r = Return True then [m] else []) [] s' \<and> (r = Return True \<longleftrightarrow> length (contents q) < unat (q_capacity q)) \<and>
    (r = Block \<longrightarrow> length (contents q) = unat (q_capacity q))"
  proof (cases "ok \<or> killed")
    case True
    then show ?thesis using r ds d chanD(1) [OF c] by (auto simp: send_turn_def split: if_splits)
  next
    case False
    then have s1: "s1 = s" using d(2) by simp
    obtain enq t where e: "port_enqueue_with_check i KEY_PORT_SEND tid (queue_is is_full i s1) (tsys s1) = (enq, t)" by fastforce
    have rr: "r = (if enq then Block else Again)" "s' = (if enq then log_ipc (BlockSend tid i) (s\<lparr>tsys := t\<rparr>) else s\<lparr>tsys := t\<rparr>)"
      using r ds False e chanD(1) [OF c] s1 by (auto simp: send_turn_def split: bool.splits if_splits)
    note es = enqueue_step [OF c b key_types(2) e [unfolded s1]]
    have "settled i (if enq then Q(port_key i KEY_PORT_SEND := Q (port_key i KEY_PORT_SEND) @ [tid]) else Q) q" using st by (simp add: settled_def)
    then have "carries i a q s [] [] s'" using es(1) rr(2) by (intro carries_none) auto
    moreover have "\<not> length (contents q) < unat (q_capacity q)" using d(1) False by simp
    ultimately show ?thesis using rr cap by auto
  qed
  then show "carries i a q s (if r = Return True then [m] else []) [] s'" "r = Return True \<longleftrightarrow> length (contents q) < unat (q_capacity q)"
    "r = Block \<Longrightarrow> length (contents q) = unat (q_capacity q)" by blast+
qed

lemma recv_turn_step:
  assumes c: "chan i a q Q s" and st: "settled i Q q" and b: "ready_to_block i KEY_PORT_RECV tid s" and r: "recv_turn i tid killed s = (r, s')"
  shows "carries i a q s [] (case r of Return ro \<Rightarrow> msgs_of ro | _ \<Rightarrow> []) s'" "r = Block \<Longrightarrow> contents q = []"
proof -
  obtain ro s1 where qr: "queue_recv a s = (ro, s1)" by fastforce
  have "carries i a q s [] (case r of Return ro \<Rightarrow> msgs_of ro | _ \<Rightarrow> []) s' \<and> (r = Block \<longrightarrow> contents q = [])"
  proof (cases ro)
    case (Some m)
    then have "r = Return (Some m)" "s' = wake_one i KEY_PORT_SEND s1" using r qr chanD(1-3) [OF c] by (auto simp: recv_turn_def)
    then show ?thesis using taken_step [OF c st] qr Some by simp
  next
    case None
    note n = nothing_taken [OF c qr [unfolded None]]
    obtain enq t where e: "port_enqueue_with_check i KEY_PORT_RECV tid (queue_is is_empty i s1) (tsys s1) = (enq, t)" by fastforce
    have b1: "ready_to_block i KEY_PORT_RECV tid s1" using b n(4) by (simp add: ready_to_block_def)
    have rr: "r = (if killed then Return None else if enq then Block else Again)"
      "s' = (if killed then s1 else if enq then log_ipc (BlockRecv tid i) (s1\<lparr>tsys := t\<rparr>) else s1\<lparr>tsys := t\<rparr>)"
      using r qr None e chanD(1-3) [OF c] by (auto simp: recv_turn_def split: bool.splits if_splits)
    note es = enqueue_step [OF n(2) b1 key_types(1) e]
    have "settled i (if enq then Q(port_key i KEY_PORT_RECV := Q (port_key i KEY_PORT_RECV) @ [tid]) else Q) q" using st by (simp add: settled_def)
    then have "carries i a q s [] [] (if enq then log_ipc (BlockRecv tid i) (s1\<lparr>tsys := t\<rparr>) else s1\<lparr>tsys := t\<rparr>)"
      using es(1) n(3) by (intro carries_none) auto
    then show ?thesis using rr n carries_none [OF n(2) st] by auto
  qed
  then show "carries i a q s [] (case r of Return ro \<Rightarrow> msgs_of ro | _ \<Rightarrow> []) s'" "r = Block \<Longrightarrow> contents q = []" by blast+
qed

lemma chan_recv_entry: "chan i a q Q s \<Longrightarrow> chan i a q Q (recv_entry tid s)"
  unfolding recv_entry_def by (rule chan_emit)

text \<open>Memory for a turnstile is at hand when the thread would have to park.\<close>

definition can_park :: "u64 \<Rightarrow> u32 \<Rightarrow> PortSys \<Rightarrow> bool" where
  "can_park i tid s \<longleftrightarrow> ready_to_block i KEY_PORT_RECV_PARK tid s \<and>
     (queue_is is_empty i s \<longrightarrow> fst (port_enqueue_with_check i KEY_PORT_RECV_PARK tid True (emit (ResetPriority tid) (tsys s))))"

lemma may_block_emit [simp]: "may_block k tid (emit e s) = may_block k tid s"
  by (simp add: may_block_def sys_lookup_look look_def cong: option.case_cong)

lemma recv_or_park_step:
  assumes c: "chan i a q Q s" and st: "settled i Q q" and p: "can_park i tid s"
  shows "\<exists>r s'. recv_or_park i tid s = Some (r, s') \<and> r = (case contents q of [] \<Rightarrow> None | m # ms \<Rightarrow> Some m) \<and> carries i a q s [] (msgs_of r) s'"
proof -
  define s0 where "s0 = recv_entry tid s"
  have c0: "chan i a q Q s0" "ipc_log s0 = ipc_log s" "tsys s0 = emit (ResetPriority tid) (tsys s)"
    using chan_recv_entry [OF c] by (simp_all add: s0_def) (simp add: recv_entry_def)
  obtain ro s1 where qr: "queue_recv a s0 = (ro, s1)" by fastforce
  have ro: "ro = (case contents q of [] \<Rightarrow> None | m # ms \<Rightarrow> Some m)" using queue_recv_step [OF c0(1) qr] by auto
  have cs: "carries i a q s0 x y z = carries i a q s x y z" for x y z by (simp add: carries_def c0(2))
  show ?thesis
  proof (cases ro)
    case (Some m)
    then have "recv_or_park i tid s = Some (Some m, received i s1)"
      using qr chanD(1-3) [OF c0(1)] by (subst recv_or_park.simps) (simp add: s0_def [symmetric] Let_def)
    then show ?thesis using taken_step [OF c0(1) st] qr Some ro unfolding cs by (auto simp: received_def Let_def)
  next
    case None
    note n = nothing_taken [OF c0(1) qr [unfolded None]]
    define s2 where "s2 = log_ipc (PreSaveFrame tid) s1"
    have c2: "chan i a q Q s2" "delivered s2 = delivered s" "tsys s2 = tsys s0" using n c0(2) by (simp_all add: s2_def)
    have em: "queue_is is_empty i s2" "queue_is is_empty i s" using n(1) quiet_empty [OF chanD(4) [OF c]] by (simp_all add: queue_is_chan [OF c2(1)] queue_is_chan [OF c])
    then obtain t where e: "port_enqueue_with_check i KEY_PORT_RECV_PARK tid True (tsys s2) = (True, t)"
      using p c0(3) c2(3) unfolding can_park_def by (metis prod.collapse)
    have r: "recv_or_park i tid s = Some (None, log_ipc (ParkCurrent tid i) (s2\<lparr>tsys := t\<rparr>))"
      using qr None chanD(1-3) [OF c0(1)] e em unfolding s2_def by (subst recv_or_park.simps) (simp add: s0_def [symmetric] Let_def)
    have "ready_to_block i KEY_PORT_RECV_PARK tid s2" using p c0(3) c2(3) by (simp add: ready_to_block_def can_park_def)
    from enqueue_step(1) [OF c2(1) this key_types(3) e]
    have "carries i a q s [] [] (log_ipc (ParkCurrent tid i) (s2\<lparr>tsys := t\<rparr>))"
      unfolding carries_def settled_def using n(1) c2(2) by (intro exI [of _ q] exI conjI; assumption?) auto
    then show ?thesis using r None ro by auto
  qed
qed

lemma drain_step:
  assumes "quiet old" "quiet new" "length (contents new) + length (contents old) \<le> unat (q_capacity new)"
  shows "\<exists>old' new'. drain old new = Some (old', new') \<and> quiet old' \<and> contents old' = [] \<and> page_backed old' = page_backed old \<and>
    quiet new' \<and> contents new' = contents new @ contents old \<and> q_capacity new' = q_capacity new \<and> page_backed new' = page_backed new"
  using assms
proof (induction "contents old" arbitrary: old new)
  case Nil
  obtain r old' where o: "mpsc_recv old = (r, old')" by fastforce
  note m = mpsc_recv_quiet [OF Nil.prems(1) o]
  have "r = None" using m(2) Nil.hyps by (simp split: list.splits)
  then show ?case using o m Nil.hyps Nil.prems by (subst drain.simps) (auto simp: Nil.hyps [symmetric])
next
  case (Cons x xs)
  obtain r old' where o: "mpsc_recv old = (r, old')" by fastforce
  obtain ok new' where n: "mpsc_send x new = (ok, new')" by fastforce
  note m = mpsc_recv_quiet [OF Cons.prems(1) o]
  note k = mpsc_send_quiet [OF Cons.prems(2) n]
  have r: "r = Some x" "contents old' = xs" using m(2,3) by (simp_all add: Cons.hyps(2) [symmetric])
  have ok: "ok" using k(2) Cons.prems(3) by (simp add: Cons.hyps(2) [symmetric])
  have "length (contents new') + length (contents old') \<le> unat (q_capacity new')" using k(3,4) ok r(2) Cons.prems(3) by (simp add: Cons.hyps(2) [symmetric])
  from Cons.hyps(1) [OF r(2) [symmetric] m(1) k(1) this] show ?case
    using o n r ok k m by (subst drain.simps) (auto simp: Cons.hyps(2) [symmetric])
qed

lemma resize_step:
  assumes c: "chan i a q Q s" and st: "settled i Q q"
    and ps: "HEADER_SIZE + MESSAGE_SIZE < page_size" "page_size < 2 ^ 32" "unat (q_capacity q) \<le> unat (mpsc_capacity_for_size page_size)"
  shows "\<exists>ok s'. resize page_size i n s = Some (ok, s') \<and> carries i a q s [] [] s' \<and> (ok \<longrightarrow> n \<le> queue_capacity s' i)"
proof -
  note nq = new_queue_quiet [OF ps(1,2), where pb = True and zero = empty_message]
  have len: "length (contents q) \<le> unat (q_capacity q)" by (rule quietD(2) [OF chanD(4) [OF c]])
  have same: "carries i a q s [] [] s" by (rule carries_none [OF c st]) simp
  have qc: "queue_capacity s' i = unat (q_capacity q')" if "chan i a q' Q s'" for q' s'
    using chanD(1,3) [OF that] by (simp add: queue_capacity_def port_queue_capacity_def)
  note e = chanD(2,3,7,8) [OF c]
  show ?thesis
  proof (cases "n \<le> unat (mpsc_capacity_for_size page_size) \<and> \<not> (page_backed q \<and> n \<le> unat (q_capacity q))")
    case False
    then show ?thesis using e same qc [OF c] by (auto simp: resize_def Let_def)
  next
    case True
    obtain ro s1 where al: "alloc_mpsc_page_queue page_size s = (ro, s1)" by fastforce
    have s1: "chan i a q Q s1" "ipc_log s1 = ipc_log s" "ro = None \<or> ro = Some (new_queue page_size True empty_message)"
      using al c by (auto simp: alloc_mpsc_page_queue_def split: list.splits bool.splits)
    show ?thesis
    proof (cases ro)
      case None
      then show ?thesis using True al e s1 carries_none [OF s1(1) st] by (auto simp: resize_def Let_def)
    next
      case (Some q1)
      then have q1: "q1 = new_queue page_size True empty_message" using s1(3) by simp
      have "length (contents q1) + length (contents q) \<le> unat (q_capacity q1)" using nq(2,3) q1 len ps(3) by simp
      then obtain old' q2 where d: "drain q q1 = Some (old', q2)" "quiet q2" "contents q2 = contents q" "q_capacity q2 = q_capacity q1"
        using drain_step [OF chanD(4) [OF c] nq(1) [folded q1]] nq(2) q1 by auto
      define s2 where "s2 = log_ipc GracePeriod (set_queue a q1 s1)"
      define s' where "s' = free_mpsc_queue old' (set_queue a q2 s2)"
      have "chan i a q1 Q s2" using chan_set_queue [OF s1(1) nq(1) [folded q1]] by (simp add: s2_def)
      then have c': "chan i a q2 Q s'" using chan_set_queue [OF _ d(2)] by (simp add: s'_def free_mpsc_queue_def)
      have r: "resize page_size i n s = Some (True, s')" using True al Some e d(1) by (auto simp: resize_def Let_def s'_def s2_def)
      have "carries i a q s [] [] s'"
        unfolding carries_def using c' st d(3) s1(2) by (intro exI [of _ q2] exI [of _ Q] exI [of _ "[]"]) (simp add: settled_def s'_def s2_def free_mpsc_queue_def)
      then show ?thesis using r qc [OF c'] d(4) nq(3) q1 True by (intro exI [of _ True] exI [of _ s']) simp
    qed
  qed
qed

section \<open>Mail in order\<close>

text \<open>
  The contract of a mailbox: every permitted call finishes, keeps the invariant, and moves messages from what it accepts
  through what is pending to what it hands out without changing their order.
\<close>

locale mailbox =
  fixes inv :: "'s \<Rightarrow> bool" and pend :: "'s \<Rightarrow> 'm list" and may :: "'o \<Rightarrow> 's \<Rightarrow> bool" and step :: "'o \<Rightarrow> 's \<Rightarrow> ('m list \<times> 'm list \<times> 's) option"
  assumes carry: "inv s \<Longrightarrow> may x s \<Longrightarrow> \<exists>sent got s'. step x s = Some (sent, got, s') \<and> inv s' \<and> pend s @ sent = got @ pend s'"
begin

fun steps :: "'o list \<Rightarrow> 's \<Rightarrow> ('m list \<times> 'm list \<times> 's) option" where
  "steps [] s = Some ([], [], s)"
| "steps (x # xs) s =
     (case step x s of
        None \<Rightarrow> None
      | Some (sent, got, s1) \<Rightarrow> map_option (\<lambda>(sent', got', s2). (sent @ sent', got @ got', s2)) (steps xs s1))"

fun all_may :: "'o list \<Rightarrow> 's \<Rightarrow> bool" where
  "all_may [] s = True"
| "all_may (x # xs) s = (may x s \<and> (case step x s of None \<Rightarrow> True | Some (sent, got, s1) \<Rightarrow> all_may xs s1))"

lemma in_order:
  "inv s \<Longrightarrow> all_may xs s \<Longrightarrow> \<exists>sent got s'. steps xs s = Some (sent, got, s') \<and> inv s' \<and> pend s @ sent = got @ pend s'"
proof (induction xs arbitrary: s)
  case (Cons x xs)
  obtain sent got s1 where s1: "step x s = Some (sent, got, s1)" "inv s1" "pend s @ sent = got @ pend s1"
    using carry [of s x] Cons.prems by auto
  have "all_may xs s1" using Cons.prems(2) s1(1) by simp
  then obtain sent' got' s' where s': "steps xs s1 = Some (sent', got', s')" "inv s'" "pend s1 @ sent' = got' @ pend s'"
    using Cons.IH [OF s1(2)] by blast
  have "pend s @ sent @ sent' = got @ got' @ pend s'" using s1(3) s'(3) by (metis append.assoc)
  then show ?case using s1(1) s'(1,2) by simp
qed simp

end

datatype mail_op =
    MSendNb Message
  | MSendKernel Message
  | MTrySend Message
  | MSendDirect Message
  | MSendTurn u32 bool Message
  | MRecvNb
  | MRecvTurn u32 bool
  | MPark u32
  | MResize nat nat

definition new_deliveries :: "PortSys \<Rightarrow> PortSys \<Rightarrow> Message list" where
  "new_deliveries s s' = drop (length (delivered s)) (delivered s')"

text \<open>A call on port \<open>i\<close>: the messages it accepted, those it handed to receivers, and the state.\<close>

fun mail_step :: "u64 \<Rightarrow> mail_op \<Rightarrow> PortSys \<Rightarrow> (Message list \<times> Message list \<times> PortSys) option" where
  "mail_step i (MSendNb m) s = (case send_nb i m s of (r, s1) \<Rightarrow> Some (if r = Inr () then [m] else [], new_deliveries s s1, s1))"
| "mail_step i (MSendKernel m) s = (case send_from_kernel i m s of (ok, s1) \<Rightarrow> Some (if ok then [m] else [], new_deliveries s s1, s1))"
| "mail_step i (MTrySend m) s = (case try_send i m s of (ok, s1) \<Rightarrow> Some (if ok then [m] else [], new_deliveries s s1, s1))"
| "mail_step i (MSendDirect m) s =
     (case send_direct i m s of
        (Queued, s1) \<Rightarrow> Some ([m], new_deliveries s s1, s1)
      | (DirectTransfer tid, s1) \<Rightarrow> Some ([m], new_deliveries s s1 @ [m], s1)
      | (_, s1) \<Rightarrow> Some ([], new_deliveries s s1, s1))"
| "mail_step i (MSendTurn tid killed m) s =
     (case send_turn i tid killed m s of (r, s1) \<Rightarrow> Some (if r = Return True then [m] else [], new_deliveries s s1, s1))"
| "mail_step i MRecvNb s = (case recv_nb i s of (r, s1) \<Rightarrow> Some ([], new_deliveries s s1 @ msgs_of r, s1))"
| "mail_step i (MRecvTurn tid killed) s =
     (case recv_turn i tid killed s of
        (r, s1) \<Rightarrow> Some ([], new_deliveries s s1 @ (case r of Return ro \<Rightarrow> msgs_of ro | _ \<Rightarrow> []), s1))"
| "mail_step i (MPark tid) s = map_option (\<lambda>(r, s1). ([], new_deliveries s s1 @ msgs_of r, s1)) (recv_or_park i tid s)"
| "mail_step i (MResize page_size n) s = map_option (\<lambda>(ok, s1). ([], new_deliveries s s1, s1)) (resize page_size i n s)"

text \<open>What the kernel guarantees of a call: a thread that blocks or parks is running and there is memory for it to wait, and
  a page holds no smaller queue than the port has.\<close>

fun mail_may :: "u64 \<Rightarrow> mail_op \<Rightarrow> PortSys \<Rightarrow> bool" where
  "mail_may i (MSendTurn tid killed m) s = ready_to_block i KEY_PORT_SEND tid s"
| "mail_may i (MRecvTurn tid killed) s = ready_to_block i KEY_PORT_RECV tid s"
| "mail_may i (MPark tid) s = can_park i tid s"
| "mail_may i (MResize page_size n) s = (HEADER_SIZE + MESSAGE_SIZE < page_size \<and> page_size < 4294967296 \<and>
     queue_capacity s i \<le> unat (mpsc_capacity_for_size page_size))"
| "mail_may i op s = True"

definition mail_ok :: "u64 \<Rightarrow> PortSys \<Rightarrow> bool" where
  "mail_ok i s \<longleftrightarrow> (\<exists>a q Q. chan i a q Q s \<and> settled i Q q)"

definition pending_msgs :: "u64 \<Rightarrow> PortSys \<Rightarrow> Message list" where
  "pending_msgs i s = (case port_ref s i of Some a \<Rightarrow> (case mpsc (port_mem s a) of Some q \<Rightarrow> contents q | None \<Rightarrow> []) | None \<Rightarrow> [])"

lemma pending_chan: "chan i a q Q s \<Longrightarrow> pending_msgs i s = contents q"
  using chanD(1,3) [of i a q Q s] by (simp add: pending_msgs_def)

lemma carries_mail:
  assumes "chan i a q Q s" "carries i a q s sent ret s'"
  shows "mail_ok i s'" "pending_msgs i s @ sent = (new_deliveries s s' @ ret) @ pending_msgs i s'"
  using assms pending_chan [OF assms(1)] by (auto simp: carries_def mail_ok_def new_deliveries_def dest: pending_chan)

lemma mail_step_carries:
  assumes "mail_ok i s" "mail_may i x s"
  shows "\<exists>sent got s'. mail_step i x s = Some (sent, got, s') \<and> mail_ok i s' \<and> pending_msgs i s @ sent = got @ pending_msgs i s'"
proof -
  obtain a q Q where c: "chan i a q Q s" and st: "settled i Q q" using assms(1) by (auto simp: mail_ok_def)
  note e = chanD(1,2) [OF c]
  note cm = carries_mail [OF c]
  have plain: "mail_ok i s' \<and> pending_msgs i s @ (if ok then [m] else []) = new_deliveries s s' @ pending_msgs i s'" if "do_send a m s = (ok, s')" for m ok s'
    using cm [OF do_send_step(3) [OF c st that]] by simp
  show ?thesis
  proof (cases x)
    case (MSendNb m)
    then show ?thesis using e plain [of m] by (cases "do_send a m s") (auto simp: send_nb_def split: bool.splits if_splits)
  next
    case (MSendKernel m)
    then show ?thesis using e plain [of m] by (cases "do_send a m s") (auto simp: send_from_kernel_def)
  next
    case (MTrySend m)
    then show ?thesis using e plain [of m] by (cases "do_send a m s") (auto simp: try_send_def)
  next
    case (MSendDirect m)
    obtain r s' where sd: "send_direct i m s = (r, s')" by fastforce
    show ?thesis using send_direct_step [OF c st sd] sd MSendDirect cm by (cases r) fastforce+
  next
    case (MSendTurn tid killed m)
    obtain r s' where sd: "send_turn i tid killed m s = (r, s')" by fastforce
    show ?thesis using cm [OF send_turn_step(1) [OF c st _ sd]] sd MSendTurn assms(2) by simp
  next
    case MRecvNb
    obtain r s' where rc: "recv_nb i s = (r, s')" by fastforce
    show ?thesis using cm [OF recv_nb_step(2) [OF c st rc]] rc MRecvNb by simp
  next
    case (MRecvTurn tid killed)
    obtain r s' where rc: "recv_turn i tid killed s = (r, s')" by fastforce
    show ?thesis using cm [OF recv_turn_step(1) [OF c st _ rc]] rc MRecvTurn assms(2) by simp
  next
    case (MPark tid)
    then have "can_park i tid s" using assms(2) by simp
    then obtain r s' where rp: "recv_or_park i tid s = Some (r, s')" "carries i a q s [] (msgs_of r) s'"
      using recv_or_park_step [OF c st] by blast
    show ?thesis using cm [OF rp(2)] rp(1) MPark by simp
  next
    case (MResize page_size n)
    have "unat (q_capacity q) \<le> unat (mpsc_capacity_for_size page_size)"
      using assms(2) MResize e(1) chanD(3) [OF c] by (simp add: queue_capacity_def port_queue_capacity_def)
    then obtain ok s' where rs: "resize page_size i n s = Some (ok, s')" "carries i a q s [] [] s'"
      using resize_step [OF c st, of page_size n] assms(2) MResize by auto
    show ?thesis using cm [OF rs(2)] rs(1) MResize by simp
  qed
qed

interpretation mail: mailbox "mail_ok i" "pending_msgs i" "mail_may i" "mail_step i" for i
  by unfold_locales (rule mail_step_carries)

fun mail_run :: "u64 \<Rightarrow> mail_op list \<Rightarrow> PortSys \<Rightarrow> (Message list \<times> Message list \<times> PortSys) option" where
  "mail_run i [] s = Some ([], [], s)"
| "mail_run i (x # xs) s =
     (case mail_step i x s of
        None \<Rightarrow> None
      | Some (sent, got, s1) \<Rightarrow> map_option (\<lambda>(sent', got', s2). (sent @ sent', got @ got', s2)) (mail_run i xs s1))"

fun mail_all_may :: "u64 \<Rightarrow> mail_op list \<Rightarrow> PortSys \<Rightarrow> bool" where
  "mail_all_may i [] s = True"
| "mail_all_may i (x # xs) s = (mail_may i x s \<and> (case mail_step i x s of None \<Rightarrow> True | Some (sent, got, s1) \<Rightarrow> mail_all_may i xs s1))"

lemma mail_steps: "mail.steps i xs s = mail_run i xs s" "mail.all_may i xs s = mail_all_may i xs s"
  by (induction xs arbitrary: s) (auto split: option.splits prod.splits)

abbreviation default_queue :: "Message MpscQueue" where
  "default_queue \<equiv> new_queue PORT_QUEUE_SLAB_SIZE False empty_message"

lemma default_size: "HEADER_SIZE + MESSAGE_SIZE < PORT_QUEUE_SLAB_SIZE" "PORT_QUEUE_SLAB_SIZE < 2 ^ 32"
  by (simp_all add: HEADER_SIZE_def MESSAGE_SIZE_def PORT_QUEUE_SLAB_SIZE_def)

lemma create_opens:
  assumes inv: "port_inv s" and room: "room_for_port s" and Q: "ts_rep (tsys s) Q" and c: "create t s = (Some i, s')"
  shows "\<exists>a. chan i a default_queue Q s'" "i = next_port_id s" "tsys s' = tsys s"
proof -
  have f: "fills (\<lambda>p. p\<lparr>creator_task := t\<rparr>)" by (simp add: fills_def)
  obtain a where a: "i = next_port_id s" "table_lookup s' = (table_lookup s)(i \<mapsto> a)" "tsys s' = tsys s"
    "port_mem s' = (port_mem s)(a := (new_port i (fresh_queue True))\<lparr>creator_task := t\<rparr>)"
    using create_with_step [OF inv room f c [unfolded create_as]] by auto
  have l: "port_local i = i" using port_local_small room a(1) by (simp add: room_for_port_def)
  have "chan i a default_queue Q s'"
    using a l Q new_queue_quiet(1) [OF default_size] by (simp add: chan_def fresh_queue_def new_port_def is_alive_def PORT_ALIVE_def)
  then show "\<exists>a. chan i a default_queue Q s'" by blast
  show "i = next_port_id s" "tsys s' = tsys s" by (rule a(1), rule a(3))
qed

section \<open>Parking without memory\<close>

definition starving :: "u64 \<Rightarrow> u32 \<Rightarrow> PortSys \<Rightarrow> bool" where
  "starving i tid s \<longleftrightarrow> (\<exists>a q Q. chan i a q Q s \<and> contents q = [] \<and> parked i Q = []) \<and> tid \<noteq> TS_NIL \<and> ts_blocked_on (thr (tsys s) tid) = 0 \<and>
     turnstile (thr (tsys s) tid) = 0 \<and> ts_answers (tsys s) = []"

lemma no_memory_no_turnstile:
  assumes "look s (port_key i KEY_PORT_RECV_PARK) = None" "turnstile (thr s tid) = 0" "ts_answers s = []"
    "port_enqueue_with_check i KEY_PORT_RECV_PARK tid True s = (ok, t)"
  shows "\<not> ok" "turnstile (thr t tid) = 0" "ts_answers t = []" "ts_blocked_on (thr t tid) = ts_blocked_on (thr s tid)"
proof -
  let ?s = "emit (ClearWakeup tid) s"
  have l: "sys_lookup (port_key_hash i KEY_PORT_RECV_PARK) (port_key i KEY_PORT_RECV_PARK) ?s = None"
    using assms(1) by (simp add: port_hash sys_lookup_look)
  have "turnstile_for (port_key_hash i KEY_PORT_RECV_PARK) (port_key i KEY_PORT_RECV_PARK) tid ?s = (None, upd_thr tid (\<lambda>t. t\<lparr>turnstile := 0\<rparr>) ?s)"
    using l assms(2,3) by (simp add: turnstile_for_def take_or_alloc_turnstile_def alloc_turnstile_def Let_def upd_thr_def)
  then have "ok = False" "t = upd_thr tid (\<lambda>t. t\<lparr>turnstile := 0\<rparr>) ?s" using assms(4) by (simp_all add: port_enqueue_with_check_def Let_def)
  then show "\<not> ok" "turnstile (thr t tid) = 0" "ts_answers t = []" "ts_blocked_on (thr t tid) = ts_blocked_on (thr s tid)"
    using assms(3) by (simp_all add: upd_thr_def)
qed

lemma starving_turn:
  assumes "starving i tid s"
  obtains a s1 t s3 where "port_ref (recv_entry tid s) i = Some a" "\<not> is_kernel_held (port_mem (recv_entry tid s) a)" "mpsc (port_mem (recv_entry tid s) a) \<noteq> None"
    "queue_recv a (recv_entry tid s) = (None, s1)" "queue_is is_empty i (log_ipc (PreSaveFrame tid) s1)"
    "port_enqueue_with_check i KEY_PORT_RECV_PARK tid True (tsys s1) = (False, t)"
    "queue_recv a (log_ipc (ParkReset tid) (log_ipc (PreSaveFrame tid) s1\<lparr>tsys := t\<rparr>)) = (None, s3)" "starving i tid s3"
proof -
  obtain a q Q where c: "chan i a q Q s" and em: "contents q = []" "parked i Q = []" and t: "tid \<noteq> TS_NIL" "ts_blocked_on (thr (tsys s) tid) = 0"
    "turnstile (thr (tsys s) tid) = 0" "ts_answers (tsys s) = []" using assms by (auto simp: starving_def)
  define s0 where "s0 = recv_entry tid s"
  have c0: "chan i a q Q s0" "tsys s0 = emit (ResetPriority tid) (tsys s)" unfolding s0_def by (rule chan_recv_entry [OF c]) (simp add: recv_entry_def)
  obtain ro s1 where qr: "queue_recv a s0 = (ro, s1)" by fastforce
  have ro: "ro = None" using queue_recv_step [OF c0(1) qr] em(1) by auto
  note n = nothing_taken [OF c0(1) qr [unfolded ro]]
  have ie: "is_empty q" using quiet_empty [OF chanD(4) [OF c]] em(1) by simp
  obtain ok t where e: "port_enqueue_with_check i KEY_PORT_RECV_PARK tid True (tsys s1) = (ok, t)" by fastforce
  have lk: "look (tsys s1) (port_key i KEY_PORT_RECV_PARK) = None" using rep_queue [OF chanD(5) [OF n(2)]] em(2) by simp
  have ts1: "turnstile (thr (tsys s1) tid) = 0" "ts_answers (tsys s1) = []" "ts_blocked_on (thr (tsys s1) tid) = 0" using t n(4) c0(2) by simp_all
  note nm = no_memory_no_turnstile [OF lk ts1(1,2) e]
  have rep: "ts_rep t Q"
    using port_enqueue_step(1) [OF chanD(5) [OF n(2)] alloc_ok_none [OF ts1(2)] t(1) ts1(3) key_types(3) _ e] em(2) nm(1) by simp
  define s2 where "s2 = log_ipc (ParkReset tid) (log_ipc (PreSaveFrame tid) s1\<lparr>tsys := t\<rparr>)"
  have "chan i a q Q (log_ipc (PreSaveFrame tid) s1)" using n(2) by simp
  from chan_tsys [OF this rep] have c2: "chan i a q Q s2" by (simp add: s2_def)
  obtain ro2 s3 where qr3: "queue_recv a s2 = (ro2, s3)" by fastforce
  have ro2: "ro2 = None" using queue_recv_step [OF c2 qr3] em(1) by auto
  note n3 = nothing_taken [OF c2 qr3 [unfolded ro2]]
  have "tsys s3 = t" using n3(4) by (simp add: s2_def log_ipc_def)
  then have "starving i tid s3" using n3(2) em t(1) nm(2-4) ts1(3) by (auto simp: starving_def)
  moreover have "queue_is is_empty i (log_ipc (PreSaveFrame tid) s1)" using queue_is_chan [of i a q Q "log_ipc (PreSaveFrame tid) s1"] n(2) ie by simp
  ultimately show ?thesis
    using that [of a s1 t s3] chanD(1-3) [OF c0(1)] qr ro e nm(1) qr3 ro2 unfolding s0_def s2_def by simp
qed

lemma starving_never_returns:
  assumes "recv_or_park i tid s = Some y"
  shows "\<not> starving i tid s"
  apply (rule recv_or_park.raw_induct [where P = "\<lambda>i tid s y. \<not> starving i tid s", OF _ assms])
  subgoal premises p for f i tid s y
  proof
    assume "starving i tid s"
    then obtain a s1 t s3 where st: "port_ref (recv_entry tid s) i = Some a" "\<not> is_kernel_held (port_mem (recv_entry tid s) a)"
      "mpsc (port_mem (recv_entry tid s) a) \<noteq> None" "queue_recv a (recv_entry tid s) = (None, s1)" "queue_is is_empty i (log_ipc (PreSaveFrame tid) s1)"
      "port_enqueue_with_check i KEY_PORT_RECV_PARK tid True (tsys s1) = (False, t)"
      "queue_recv a (log_ipc (ParkReset tid) (log_ipc (PreSaveFrame tid) s1\<lparr>tsys := t\<rparr>)) = (None, s3)" "starving i tid s3"
      by (rule starving_turn)
    have "f i tid s3 = Some y" using p(2) st(1-7) by (simp add: Let_def)
    then show False using p(1) st(8) by blast
  qed
  done

lemma join_parked:
  assumes "look s (port_key i KEY_PORT_RECV_PARK) = Some p"
  shows "fst (port_enqueue_with_check i KEY_PORT_RECV_PARK tid True (emit e s))"
  using assms by (simp add: port_enqueue_with_check_def turnstile_for_def port_hash sys_lookup_look Let_def)

section \<open>Properties\<close>


definition mail_boot :: "(u32 \<times> nat) list \<Rightarrow> PortSys" where
  "mail_boot own = port_boot (ts_boot (\<lambda>_. 0) own [] [] (\<lambda>_ _. None)) [True, True] [Some 256] [True]"

lemma mail_boot_ok:
  assumes "own_slots own"
  shows "port_inv (mail_boot own)" "ts_rep (tsys (mail_boot own)) (\<lambda>_. [])" "tsys (mail_boot own) = ts_boot (\<lambda>_. 0) own [] [] (\<lambda>_ _. None)"
    "next_port_id (mail_boot own) = 0"
proof -
  have "ts_rep (ts_boot (\<lambda>_. 0) own [] [] (\<lambda>_ _. None)) (\<lambda>_. [])" using ts_boot_ok(1) [OF assms] by (simp add: sim_def)
  then show "port_inv (mail_boot own)" "ts_rep (tsys (mail_boot own)) (\<lambda>_. [])" "tsys (mail_boot own) = ts_boot (\<lambda>_. 0) own [] [] (\<lambda>_ _. None)"
    "next_port_id (mail_boot own) = 0"
    using port_boot_inv(1) unfolding mail_boot_def by (auto simp: port_boot_def)
qed

definition note_msg :: "u64 \<Rightarrow> Message" where
  "note_msg n = \<lparr>msg_tag = n, msg_data = replicate 6 0\<rparr>"

definition mail_sample :: "mail_op list" where
  "mail_sample = [MPark 1, MSendNb (note_msg 1), MSendDirect (note_msg 2), MTrySend (note_msg 3), MRecvNb]"

fun never_blocks :: "mail_op \<Rightarrow> bool" where
  "never_blocks (MSendTurn tid killed m) = False"
| "never_blocks (MRecvTurn tid killed) = False"
| "never_blocks (MPark tid) = False"
| "never_blocks (MResize page_size n) = False"
| "never_blocks op = True"

lemma never_blocks_may: "list_all never_blocks ops \<Longrightarrow> mail_all_may i ops s"
proof (induction ops arbitrary: s)
  case (Cons op ops)
  then have "mail_may i op s" for s by (cases op) simp_all
  then show ?case using Cons by (auto split: option.splits)
qed simp

lemma sample_created: "fst (create 4 (mail_boot [(1, 64)])) = Some 0" "room_for_port (mail_boot [(1, 64)])"
  by code_simp+


text \<open>C14 Parking without memory. A thread that calls \<open>recv_or_park\<close> on a live port when it has no turnstile of its own and no
  more can be allocated gets its call back if and only if a message is queued or another thread is already parked there.
  Otherwise the call repeats for ever: the refused turnstile is taken for a message that arrived meanwhile, and the call
  calls itself again.\<close>

theorem recv_or_park_needs_memory:
  assumes "chan i a q Q s" "settled i Q q" "tid \<noteq> TS_NIL" "ts_blocked_on (thr (tsys s) tid) = 0" "turnstile (thr (tsys s) tid) = 0"
    "ts_answers (tsys s) = []" "length (parked i Q) < 65535"
  shows "recv_or_park i tid s \<noteq> None \<longleftrightarrow> contents q \<noteq> [] \<or> parked i Q \<noteq> []"
proof
  assume "recv_or_park i tid s \<noteq> None"
  then have "\<not> starving i tid s" using starving_never_returns by blast
  then show "contents q \<noteq> [] \<or> parked i Q \<noteq> []" using assms(1,3-6) unfolding starving_def by blast
next
  assume w: "contents q \<noteq> [] \<or> parked i Q \<noteq> []"
  have qs: "queues_ok (tsys s) Q" using repD(1) [OF chanD(5) [OF assms(1)]] by (simp add: ts_part_def)
  have "ready_to_block i KEY_PORT_RECV_PARK tid s"
    using assms(3-7) queuesD(4) [OF qs] alloc_ok_none [OF assms(6)]
    by (fastforce simp: ready_to_block_def may_block_def sys_lookup_look queued_def split: option.splits)
  moreover have "fst (port_enqueue_with_check i KEY_PORT_RECV_PARK tid True (emit (ResetPriority tid) (tsys s)))" if "queue_is is_empty i s"
  proof -
    have "contents q = []" using that quiet_empty [OF chanD(4) [OF assms(1)]] by (simp add: queue_is_chan [OF assms(1)])
    then obtain p where "look (tsys s) (port_key i KEY_PORT_RECV_PARK) = Some p"
      using w rep_queue [OF chanD(5) [OF assms(1)], of "port_key i KEY_PORT_RECV_PARK"] by auto
    then show ?thesis by (rule join_parked)
  qed
  ultimately have "can_park i tid s" by (simp add: can_park_def)
  then show "recv_or_park i tid s \<noteq> None" using recv_or_park_step [OF assms(1,2)] by fastforce
qed

theorem recv_or_park_needs_memory_witness: "\<exists>s. fst (create 4 (mail_boot [])) = Some 0 \<and> s = snd (create 4 (mail_boot [])) \<and> recv_or_park 0 1 s = None"
proof -
  let ?s = "snd (create 4 (mail_boot []))"
  have ow: "own_slots []" by (simp add: own_slots_def)
  have cr: "fst (create 4 (mail_boot [])) = Some 0" "room_for_port (mail_boot [])" by code_simp+
  then have c: "create 4 (mail_boot []) = (Some 0, ?s)" by (metis prod.collapse)
  note op = create_opens [OF mail_boot_ok(1) [OF ow] cr(2) mail_boot_ok(2) [OF ow] c]
  obtain a where ch: "chan 0 a default_queue (\<lambda>_. []) ?s" using op(1) by blast
  have "settled 0 (\<lambda>_. []) default_queue" by (simp add: settled_def)
  moreover have "ts_blocked_on (thr (tsys ?s) 1) = 0" "turnstile (thr (tsys ?s) 1) = 0" "ts_answers (tsys ?s) = []"
    using op(3) mail_boot_ok(3) [OF ow] by (simp_all add: ts_boot_def slot_of_def)
  moreover have "contents default_queue = []" by (rule new_queue_quiet(2) [OF default_size])
  ultimately show ?thesis using recv_or_park_needs_memory [OF ch, of 1] cr(1) by (cases "recv_or_park 0 1 ?s") (simp_all add: TS_NIL_def)
qed

end
