(* ===== verification/PortSets.thy ===== *)
theory PortSets
  imports PortIpc "HOL-Library.Multiset"
begin

text \<open>
  Port sets, \<open>ipc/port_set.rs\<close>: a thread waits for a message on any port of a set. The page of a set's port list is a list of
  its capacity, of which the first \<open>port_count\<close> entries port_count; the answers of the page allocator and of the table's growth are
  lists. Every call runs under the lock of the table and is one step; the blocking receive takes the lock twice in every
  turn, so it is two steps.
\<close>

section \<open>One set\<close>

definition ports_per_page :: "nat \<Rightarrow> nat" where
  "ports_per_page page_size = page_size div 8"

definition new_set :: "u32 \<Rightarrow> PortSet" where
  "new_set i = \<lparr>set_id = i, active = True, ports = None, ports_cap = 0, port_count = 0, waiter = None\<rparr>"

definition ensure_ports :: "nat \<Rightarrow> PortSet \<Rightarrow> PortSys \<Rightarrow> bool \<times> PortSet \<times> PortSys" where
  "ensure_ports page_size ps s =
     (if ports ps \<noteq> None then (True, ps, s)
      else case page_answers s of
             True # as \<Rightarrow>
               (True, ps\<lparr>ports := Some (replicate (ports_per_page page_size) 0), ports_cap := ports_per_page page_size\<rparr>,
                s\<lparr>page_answers := as, set_pages := set_pages s + 1\<rparr>)
           | False # as \<Rightarrow> (False, ps, s\<lparr>page_answers := as\<rparr>)
           | [] \<Rightarrow> (False, ps, s))"

definition set_add :: "nat \<Rightarrow> u64 \<Rightarrow> PortSet \<Rightarrow> PortSys \<Rightarrow> bool \<times> PortSet \<times> PortSys" where
  "set_add page_size i ps s =
     (case ensure_ports page_size ps s of
        (False, ps1, s1) \<Rightarrow> (False, ps1, s1)
      | (True, ps1, s1) \<Rightarrow>
          if port_count ps1 < ports_cap ps1
          then (True, ps1\<lparr>ports := map_option (\<lambda>xs. xs[port_count ps1 := i]) (ports ps1), port_count := port_count ps1 + 1\<rparr>, s1)
          else (False, ps1, s1))"

definition port_at :: "PortSet \<Rightarrow> nat \<Rightarrow> u64" where
  "port_at ps j = (case ports ps of Some xs \<Rightarrow> xs ! j | None \<Rightarrow> 0)"

fun set_remove_loop :: "u64 \<Rightarrow> nat list \<Rightarrow> PortSet \<Rightarrow> bool \<times> PortSet" where
  "set_remove_loop i [] ps = (False, ps)"
| "set_remove_loop i (j # js) ps =
     (if port_at ps j = i
      then let ps1 = ps\<lparr>port_count := port_count ps - 1\<rparr>
           in (True, if j < port_count ps1 then ps1\<lparr>ports := map_option (\<lambda>xs. xs[j := port_at ps1 (port_count ps1)]) (ports ps1)\<rparr> else ps1)
      else set_remove_loop i js ps)"

definition set_remove :: "u64 \<Rightarrow> PortSet \<Rightarrow> bool \<times> PortSet" where
  "set_remove i ps = set_remove_loop i [0..<port_count ps] ps"

definition members :: "PortSet \<Rightarrow> u64 list" where
  "members ps = map (port_at ps) [0..<port_count ps]"

definition set_destroy :: "PortSet \<Rightarrow> PortSys \<Rightarrow> PortSet \<times> PortSys" where
  "set_destroy ps s =
     (let s1 = fold (\<lambda>j. set_port_set (port_at ps j) NONE32) [0..<port_count ps] s;
          s2 = (if ports ps \<noteq> None then s1\<lparr>set_pages := set_pages s1 - 1\<rparr> else s1);
          s3 = (case waiter ps of Some tid \<Rightarrow> s2\<lparr>tsys := emit (WakeThread tid) (tsys s2)\<rparr> | None \<Rightarrow> s2)
      in (ps\<lparr>ports := None, port_count := 0, ports_cap := 0, active := False, waiter := None\<rparr>, s3))"

fun try_recv_loop :: "PortSet \<Rightarrow> nat list \<Rightarrow> PortSys \<Rightarrow> (u64 \<times> Message) option \<times> PortSys" where
  "try_recv_loop ps [] s = (None, s)"
| "try_recv_loop ps (j # js) s =
     (case recv_nb (port_at ps j) s of
        (Some msg, s1) \<Rightarrow> (Some (port_at ps j, msg), s1)
      | (None, s1) \<Rightarrow> try_recv_loop ps js s1)"

definition set_try_recv :: "PortSet \<Rightarrow> PortSys \<Rightarrow> (u64 \<times> Message) option \<times> PortSys" where
  "set_try_recv ps s = try_recv_loop ps [0..<port_count ps] s"

section \<open>The table of sets\<close>

definition put_set :: "u32 \<Rightarrow> PortSet \<Rightarrow> PortSys \<Rightarrow> PortSys" where
  "put_set sid ps s = s\<lparr>sets := (sets s)[unat sid := ps]\<rparr>"

definition create_set :: "PortSys \<Rightarrow> u32 option \<times> PortSys" where
  "create_set s =
     (case set_answers s of
        True # as \<Rightarrow>
          let i = of_nat (length (sets s)) in (Some i, s\<lparr>set_answers := as, sets := sets s @ [new_set i]\<rparr>)
      | False # as \<Rightarrow> (None, s\<lparr>set_answers := as\<rparr>)
      | [] \<Rightarrow> (None, s))"

definition add_port :: "nat \<Rightarrow> u32 \<Rightarrow> u64 \<Rightarrow> PortSys \<Rightarrow> bool \<times> PortSys" where
  "add_port page_size sid i s =
     (if unat sid < length (sets s)
      then case set_add page_size i (sets s ! unat sid) s of
             (ok, ps, s1) \<Rightarrow> (ok, if ok then set_port_set i sid (put_set sid ps s1) else put_set sid ps s1)
      else (False, s))"

definition remove_port :: "u32 \<Rightarrow> u64 \<Rightarrow> PortSys \<Rightarrow> bool \<times> PortSys" where
  "remove_port sid i s =
     (if unat sid < length (sets s) \<and> active (sets s ! unat sid)
      then case set_remove i (sets s ! unat sid) of
             (ok, ps) \<Rightarrow> (ok, if ok then set_port_set i NONE32 (put_set sid ps s) else put_set sid ps s)
      else (False, s))"

definition destroy_set :: "u32 \<Rightarrow> PortSys \<Rightarrow> bool \<times> PortSys" where
  "destroy_set sid s =
     (if unat sid < length (sets s) \<and> active (sets s ! unat sid)
      then case set_destroy (sets s ! unat sid) s of (ps, s1) \<Rightarrow> (True, put_set sid ps s1)
      else (False, s))"

definition recv_set :: "u32 \<Rightarrow> PortSys \<Rightarrow> (u64 \<times> Message) option \<times> PortSys" where
  "recv_set sid s = (if unat sid < length (sets s) then set_try_recv (sets s ! unat sid) s else (None, s))"

text \<open>A turn of the blocking receive: the poll under the first lock, and, if it has to wait, the registration under the second.\<close>

definition set_poll :: "u32 \<Rightarrow> PortSys \<Rightarrow> (u64 \<times> Message) option turn \<times> PortSys" where
  "set_poll sid s =
     (if length (sets s) \<le> unat sid \<or> \<not> active (sets s ! unat sid) then (Return None, s)
      else case set_try_recv (sets s ! unat sid) s of
             (Some r, s1) \<Rightarrow> (Return (Some r), s1)
           | (None, s1) \<Rightarrow> (Again, s1))"

definition set_register :: "u32 \<Rightarrow> u32 \<Rightarrow> PortSys \<Rightarrow> (u64 \<times> Message) option turn \<times> PortSys" where
  "set_register sid tid s =
     (case set_try_recv (sets s ! unat sid) s of
        (Some r, s1) \<Rightarrow> (Return (Some r), log_ipc (BoostFromSender tid) s1)
      | (None, s1) \<Rightarrow>
          let s2 = s1\<lparr>tsys := emit (ClearWakeup tid) (tsys s1)\<rparr>
          in (Block, log_ipc (BlockSet tid sid) (put_set sid ((sets s2 ! unat sid)\<lparr>waiter := Some tid\<rparr>) s2)))"

section \<open>Membership\<close>

definition set_ok :: "PortSet \<Rightarrow> bool" where
  "set_ok ps \<longleftrightarrow> port_count ps \<le> ports_cap ps \<and> (case ports ps of None \<Rightarrow> ports_cap ps = 0 | Some xs \<Rightarrow> length xs = ports_cap ps)"

lemma members_cong: "ports ps' = ports ps \<Longrightarrow> port_count ps' = port_count ps \<Longrightarrow> members ps' = members ps"
  by (simp add: members_def port_at_def)

lemma map_nth_take: "n \<le> length xs \<Longrightarrow> map ((!) xs) [0..<n] = take n xs"
  by (rule nth_equalityI) simp_all

lemma members_take:
  assumes "set_ok ps"
  shows "members ps = take (port_count ps) (case ports ps of Some xs \<Rightarrow> xs | None \<Rightarrow> [])"
proof (cases "ports ps")
  case None
  then show ?thesis using assms by (simp add: set_ok_def members_def)
next
  case (Some xs)
  then have "port_at ps = (!) xs" by (simp add: port_at_def fun_eq_iff)
  then show ?thesis using Some assms map_nth_take [of "port_count ps" xs] by (simp add: set_ok_def members_def)
qed

lemma set_add_step:
  assumes "set_ok ps" "set_add page_size i ps s = (ok, ps', s')"
  shows "set_ok ps'" "members ps' = (if ok then members ps @ [i] else members ps)" "active ps' = active ps" "waiter ps' = waiter ps"
proof -
  obtain g ps1 s1 where e: "ensure_ports page_size ps s = (g, ps1, s1)" by (metis prod_cases3)
  have p1: "set_ok ps1" "members ps1 = members ps" "active ps1 = active ps" "waiter ps1 = waiter ps" "g \<Longrightarrow> ports ps1 \<noteq> None"
    using e assms(1) by (auto simp: ensure_ports_def set_ok_def members_def port_at_def split: list.splits bool.splits if_splits option.splits)
  have full: "set_ok p \<and> members p = members ps1 @ [i]"
    if pp: "p = ps1\<lparr>ports := map_option (\<lambda>xs. xs[port_count ps1 := i]) (ports ps1), port_count := port_count ps1 + 1\<rparr>" and lt: "port_count ps1 < ports_cap ps1" for p
  proof -
    obtain xs where xs: "ports ps1 = Some xs" "length xs = ports_cap ps1" using p1(1) lt by (auto simp: set_ok_def split: option.splits)
    have ok: "set_ok p" using pp lt xs by (simp add: set_ok_def)
    show ?thesis using ok members_take [OF ok] members_take [OF p1(1)] pp lt xs by (simp add: take_Suc_conv_app_nth)
  qed
  have "set_ok ps' \<and> members ps' = (if ok then members ps @ [i] else members ps) \<and> active ps' = active ps \<and> waiter ps' = waiter ps"
  proof (cases "g \<and> port_count ps1 < ports_cap ps1")
    case True
    have r: "ok" "ps' = ps1\<lparr>ports := map_option (\<lambda>xs. xs[port_count ps1 := i]) (ports ps1), port_count := port_count ps1 + 1\<rparr>"
      using assms(2) e True by (simp_all add: set_add_def)
    have "set_ok ps' \<and> members ps' = members ps1 @ [i]" by (rule full [OF r(2)]) (use True in simp)
    then show ?thesis using r p1(2-4) by simp
  next
    case False
    then have "\<not> ok" "ps' = ps1" using assms(2) e by (auto simp: set_add_def split: bool.splits if_splits)
    then show ?thesis using p1 by simp
  qed
  then show "set_ok ps'" "members ps' = (if ok then members ps @ [i] else members ps)" "active ps' = active ps" "waiter ps' = waiter ps" by blast+
qed

lemma set_remove_find:
  "set_remove_loop i js ps =
     (case find (\<lambda>j. port_at ps j = i) js of
        None \<Rightarrow> (False, ps)
      | Some j \<Rightarrow> (True, if j < port_count ps - 1
          then ps\<lparr>port_count := port_count ps - 1, ports := map_option (\<lambda>xs. xs[j := port_at ps (port_count ps - 1)]) (ports ps)\<rparr>
          else ps\<lparr>port_count := port_count ps - 1\<rparr>))"
  by (induction js) (simp_all add: Let_def port_at_def)

lemma set_remove_loop_step:
  assumes r: "set_remove_loop i js ps = (ok, ps')"
  shows "ok \<longleftrightarrow> i \<in> port_at ps ` set js" "\<not> ok \<Longrightarrow> ps' = ps"
    "ok \<Longrightarrow> \<exists>j\<in>set js. port_at ps j = i \<and> port_count ps' = port_count ps - 1 \<and> ports_cap ps' = ports_cap ps \<and>
       ports ps' = (if j < port_count ps - 1 then map_option (\<lambda>xs. xs[j := port_at ps (port_count ps - 1)]) (ports ps) else ports ps)"
proof -
  show "ok \<longleftrightarrow> i \<in> port_at ps ` set js" "\<not> ok \<Longrightarrow> ps' = ps"
    using r by (auto simp: set_remove_find find_None_iff find_Some_iff split: option.splits)
  assume ok
  then obtain j where j: "find (\<lambda>j. port_at ps j = i) js = Some j"
    "ps' = (if j < port_count ps - 1
          then ps\<lparr>port_count := port_count ps - 1, ports := map_option (\<lambda>xs. xs[j := port_at ps (port_count ps - 1)]) (ports ps)\<rparr>
          else ps\<lparr>port_count := port_count ps - 1\<rparr>)"
    using r by (auto simp: set_remove_find split: option.splits)
  have "j \<in> set js" "port_at ps j = i" using j(1) by (auto simp: find_Some_iff)
  then show "\<exists>j\<in>set js. port_at ps j = i \<and> port_count ps' = port_count ps - 1 \<and> ports_cap ps' = ports_cap ps \<and>
       ports ps' = (if j < port_count ps - 1 then map_option (\<lambda>xs. xs[j := port_at ps (port_count ps - 1)]) (ports ps) else ports ps)"
    using j(2) by (intro bexI [of _ j]) simp_all
qed

lemma mset_swap_remove:
  assumes "j < n" "n \<le> length xs"
  shows "mset (take (n - 1) (if j < n - 1 then xs[j := xs ! (n - 1)] else xs)) = mset (take n xs) - {#xs ! j#}"
proof -
  have t: "take n xs = take (n - 1) xs @ [xs ! (n - 1)]" using assms by (cases n) (auto simp: take_Suc_conv_app_nth)
  show ?thesis
  proof (cases "j < n - 1")
    case True
    then have "take (n - 1) (xs[j := xs ! (n - 1)]) = (take (n - 1) xs)[j := xs ! (n - 1)]" by (simp add: take_update_swap)
    moreover have "mset ((take (n - 1) xs)[j := xs ! (n - 1)]) = add_mset (xs ! (n - 1)) (mset (take (n - 1) xs) - {#xs ! j#})"
      using True assms(2) by (subst mset_update) auto
    moreover have "xs ! j \<in># mset (take (n - 1) xs)" using True assms(2) by (auto simp: in_set_conv_nth)
    ultimately show ?thesis using True t by simp
  next
    case False
    then have "j = n - 1" using assms(1) by simp
    then show ?thesis using t by simp
  qed
qed

lemma set_remove_step:
  assumes ok: "set_ok ps" and r: "set_remove i ps = (found, ps')"
  shows "found \<longleftrightarrow> i \<in> set (members ps)" "set_ok ps'" "mset (members ps') = mset (members ps) - {#i#}"
proof -
  note l = set_remove_loop_step [OF r [unfolded set_remove_def]]
  show f: "found \<longleftrightarrow> i \<in> set (members ps)" using l(1) by (auto simp: members_def)
  have "set_ok ps' \<and> mset (members ps') = mset (members ps) - {#i#}"
  proof (cases found)
    case False
    then show ?thesis using l(2) ok f by (simp add: diff_single_trivial)
  next
    case True
    then obtain j where j: "j < port_count ps" "port_at ps j = i" "port_count ps' = port_count ps - 1" "ports_cap ps' = ports_cap ps"
      "ports ps' = (if j < port_count ps - 1 then map_option (\<lambda>xs. xs[j := port_at ps (port_count ps - 1)]) (ports ps) else ports ps)" using l(3) by auto
    obtain xs where xs: "ports ps = Some xs" using ok j(1) by (cases "ports ps") (auto simp: set_ok_def)
    have n: "port_count ps \<le> length xs" using ok xs by (simp add: set_ok_def)
    have ok': "set_ok ps'" using ok j xs by (auto simp: set_ok_def)
    have "members ps' = take (port_count ps - 1) (if j < port_count ps - 1 then xs[j := xs ! (port_count ps - 1)] else xs)"
      using members_take [OF ok'] j(3,5) xs by (simp add: port_at_def)
    then show ?thesis using mset_swap_remove [OF j(1) n] members_take [OF ok] xs j(2) ok' by (simp add: port_at_def)
  qed
  then show "set_ok ps'" "mset (members ps') = mset (members ps) - {#i#}" by blast+
qed

section \<open>Receiving from a set\<close>

lemma set_queue_same:
  assumes "mpsc (port_mem s a) = Some q"
  shows "set_queue a q s = s"
proof -
  have "(port_mem s a)\<lparr>mpsc := Some q\<rparr> = port_mem s a" using assms by (cases "port_mem s a") simp
  then show ?thesis by (cases s) (simp add: set_queue_def upd_port_def)
qed

lemma mpsc_recv_none: "mpsc_recv q = (None, q') \<Longrightarrow> q' = q"
  by (auto simp: mpsc_recv_def Let_def split: if_splits)

lemma recv_nb_none: "recv_nb i s = (None, s') \<Longrightarrow> s' = s"
  by (auto simp: recv_nb_def queue_recv_def Let_def set_queue_same dest: mpsc_recv_none split: option.splits if_splits prod.splits)

definition dead_or_ok :: "PortSys \<Rightarrow> u64 \<Rightarrow> bool" where
  "dead_or_ok s i \<longleftrightarrow> mail_ok i s \<or> port_ref s i = None"

lemma recv_nb_pending:
  assumes "dead_or_ok s i" "recv_nb i s = (r, s')"
  shows "r = (case pending_msgs i s of [] \<Rightarrow> None | m # ms \<Rightarrow> Some m)"
proof (cases "mail_ok i s")
  case True
  then obtain a q Q where c: "chan i a q Q s" "settled i Q q" by (auto simp: mail_ok_def)
  show ?thesis using recv_nb_step(1) [OF c assms(2)] pending_chan [OF c(1)] by simp
next
  case False
  then show ?thesis using assms by (auto simp: dead_or_ok_def recv_nb_def pending_msgs_def)
qed

lemma recv_nb_takes:
  assumes "dead_or_ok s i" "recv_nb i s = (Some m, s')"
  shows "pending_msgs i s = m # pending_msgs i s'"
proof -
  have "port_ref s i \<noteq> None" using assms(2) by (auto simp: recv_nb_def split: option.splits)
  then obtain a q Q where c: "chan i a q Q s" "settled i Q q" using assms(1) by (auto simp: dead_or_ok_def mail_ok_def)
  obtain q' Q' inj where q': "chan i a q' Q' s'" "contents q = inj @ [m] @ contents q'" "delivered s' = delivered s @ inj"
    using recv_nb_step(2) [OF c assms(2)] by (auto simp: carries_def)
  have "ipc_log s' = ipc_log s"
    using assms(2) by (auto simp: recv_nb_def queue_recv_def Let_def split: option.splits if_splits prod.splits)
  then show ?thesis using q' pending_chan [OF c(1)] pending_chan [OF q'(1)] by simp
qed

lemma try_recv_loop_first:
  assumes "\<And>j. j \<in> set js \<Longrightarrow> dead_or_ok s (port_at ps j)"
  shows "try_recv_loop ps js s =
    (case find (\<lambda>i. pending_msgs i s \<noteq> []) (map (port_at ps) js) of
       None \<Rightarrow> (None, s)
     | Some i \<Rightarrow> (Some (i, hd (pending_msgs i s)), snd (recv_nb i s)))"
  using assms
proof (induction js)
  case (Cons j js)
  obtain r s1 where r: "recv_nb (port_at ps j) s = (r, s1)" by fastforce
  have "dead_or_ok s (port_at ps j)" using Cons.prems by simp
  then have p: "r = (case pending_msgs (port_at ps j) s of [] \<Rightarrow> None | m # ms \<Rightarrow> Some m)" by (rule recv_nb_pending [OF _ r])
  show ?case
  proof (cases "pending_msgs (port_at ps j) s")
    case Nil
    then have "r = None" using p by simp
    then have "s1 = s" using recv_nb_none [of "port_at ps j" s s1] r by simp
    then show ?thesis using Cons r Nil \<open>r = None\<close> by simp
  next
    case (Cons m ms)
    then show ?thesis using p r by simp
  qed
qed simp

lemma set_try_recv_first:
  assumes "\<And>i. i \<in> set (members ps) \<Longrightarrow> dead_or_ok s i"
  shows "set_try_recv ps s =
    (case find (\<lambda>i. pending_msgs i s \<noteq> []) (members ps) of
       None \<Rightarrow> (None, s)
     | Some i \<Rightarrow> (Some (i, hd (pending_msgs i s)), snd (recv_nb i s)))"
  unfolding set_try_recv_def members_def by (rule try_recv_loop_first) (use assms in \<open>auto simp: members_def\<close>)

lemma pending_cong:
  assumes "port_art s' = port_art s" "port_mem s' = port_mem s"
  shows "pending_msgs i s' = pending_msgs i s"
  unfolding pending_msgs_def port_ref_def table_lookup_def assms ..

text \<open>Waking the receivers of a port changes neither the tags of the ports nor the sets.\<close>

definition same_tags :: "PortSys \<Rightarrow> PortSys \<Rightarrow> bool" where
  "same_tags s s' \<longleftrightarrow> (\<forall>a. port_set_id (port_mem s' a) = port_set_id (port_mem s a)) \<and> sets s' = sets s"

lemma same_tags_trans: "same_tags s s' \<Longrightarrow> same_tags s' s'' \<Longrightarrow> same_tags s s''"
  by (simp add: same_tags_def)

lemma same_tags_simps:
  "same_tags s (s\<lparr>tsys := t\<rparr>)" "same_tags s (wake_one i kt s)" "same_tags s (log_ipc e s)" "same_tags s (set_queue a q s)"
  "(\<And>p. port_set_id (f p) = port_set_id p) \<Longrightarrow> same_tags s (with_port f i s)"
  by (simp_all add: same_tags_def wake_one_def log_ipc_def set_queue_def upd_port_def with_port_def split: option.splits)

lemma same_tags_queue_recv: "same_tags s (snd (queue_recv a s))"
  using same_tags_simps(4) [of s a] by (auto simp: queue_recv_def same_tags_def split: option.splits prod.splits)

lemma recv_nb_sets:
  assumes "recv_nb i s = (r, s')"
  shows "sets s' = sets s"
proof (cases "port_ref s i")
  case None
  then show ?thesis using assms by (simp add: recv_nb_def)
next
  case (Some a)
  obtain ro s1 where q: "queue_recv a s = (ro, s1)" by fastforce
  have "sets s1 = sets s" using same_tags_queue_recv [of s a] q by (simp add: same_tags_def)
  then show ?thesis using assms Some q by (auto simp: recv_nb_def wake_one_def Let_def split: option.splits if_splits)
qed

lemma same_tags_inject: "inject_into i tid s = (ok, s') \<Longrightarrow> same_tags s s'"
proof -
  have q: "same_tags s (snd (queue_recv a s))" for a by (rule same_tags_queue_recv)
  assume "inject_into i tid s = (ok, s')"
  then show ?thesis
    using q same_tags_simps(2,3) same_tags_trans unfolding inject_into_def
    by (auto split: option.splits prod.splits) (auto simp: same_tags_def, (metis snd_conv)+)
qed

lemma same_tags_wake: "same_tags s (wake_recv_waiter i s)"
proof -
  define s0 where "s0 = with_port (\<lambda>p. p\<lparr>diag_wake_calls := diag_wake_calls p + 1\<rparr>) i s"
  have t0: "same_tags s s0" unfolding s0_def by (rule same_tags_simps(5)) simp
  obtain r t where d: "port_dequeue_one i KEY_PORT_RECV_PARK (tsys s0) = (r, t)" by fastforce
  have t1: "same_tags s (s0\<lparr>tsys := t\<rparr>)" using t0 same_tags_simps(1) same_tags_trans by blast
  show ?thesis
  proof (cases r)
    case None
    have "same_tags (s0\<lparr>tsys := t\<rparr>) (with_port (\<lambda>p. p\<lparr>diag_wake_no_parker := diag_wake_no_parker p + 1\<rparr>) i (s0\<lparr>tsys := t\<rparr>))"
      by (rule same_tags_simps(5)) simp
    then show ?thesis using None d t1 same_tags_simps(2) same_tags_trans unfolding wake_recv_waiter_def s0_def [symmetric] Let_def by simp
  next
    case (Some tid)
    obtain ok s1 where j: "inject_into i tid (s0\<lparr>tsys := t\<rparr>) = (ok, s1)" by fastforce
    have t2: "same_tags s s1" by (rule same_tags_trans [OF t1 same_tags_inject [OF j]])
    have w: "same_tags s1 (with_port (\<lambda>p. p\<lparr>diag_wake_inject_ok := diag_wake_inject_ok p + 1\<rparr>) i s1)"
      "same_tags s1 (with_port (\<lambda>p. p\<lparr>diag_wake_reenq := diag_wake_reenq p + 1\<rparr>) i s1)" by (rule same_tags_simps(5); simp)+
    show ?thesis
      using Some d j t2 w same_tags_simps(1,3) same_tags_trans unfolding wake_recv_waiter_def s0_def [symmetric] Let_def by (cases ok) simp_all
  qed
qed

section \<open>Properties\<close>


text \<open>A set with one port, which is live and tagged with it.\<close>

definition set_sample :: "u32 option \<Rightarrow> PortSys" where
  "set_sample w =
     set_port_set 0 0 ((snd (create 4 (mail_boot [])))
       \<lparr>sets := [(new_set 0)\<lparr>ports := Some [0], ports_cap := 1, port_count := 1, waiter := w\<rparr>]\<rparr>)"

lemma set_sample_chan:
  "\<exists>a. chan 0 a default_queue (\<lambda>_. []) (set_sample w) \<and> port_set_id (port_mem (set_sample w) a) = 0"
  "sets (set_sample w) = [(new_set 0)\<lparr>ports := Some [0], ports_cap := 1, port_count := 1, waiter := w\<rparr>]"
proof -
  let ?b = "snd (create 4 (mail_boot []))"
  let ?z = "?b\<lparr>sets := [(new_set 0)\<lparr>ports := Some [0], ports_cap := 1, port_count := 1, waiter := w\<rparr>]\<rparr>"
  have ow: "own_slots []" by (simp add: own_slots_def)
  have cr: "fst (create 4 (mail_boot [])) = Some 0" "room_for_port (mail_boot [])" by code_simp+
  then have c: "create 4 (mail_boot []) = (Some 0, ?b)" by (metis prod.collapse)
  obtain a where "chan 0 a default_queue (\<lambda>_. []) ?b" using create_opens(1) [OF mail_boot_ok(1) [OF ow] cr(2) mail_boot_ok(2) [OF ow] c] by blast
  then have z: "chan 0 a default_queue (\<lambda>_. []) ?z" by simp
  have "harmless (\<lambda>p. p\<lparr>port_set_id := 0\<rparr>)" by (simp add: harmless_def)
  from chan_with_port [OF z this] have "chan 0 a default_queue (\<lambda>_. []) (set_sample w)" by (simp add: set_sample_def set_port_set_def)
  moreover have "port_set_id (port_mem (set_sample w) a) = 0" using chanD(1) [OF z] by (simp add: set_sample_def set_port_set_def with_port_def upd_port_def)
  ultimately show "\<exists>a. chan 0 a default_queue (\<lambda>_. []) (set_sample w) \<and> port_set_id (port_mem (set_sample w) a) = 0" by blast
  show "sets (set_sample w) = [(new_set 0)\<lparr>ports := Some [0], ports_cap := 1, port_count := 1, waiter := w\<rparr>]"
    by (simp add: set_sample_def set_port_set_def with_port_def upd_port_def split: option.splits)
qed




text \<open>C39 A set remembers one waiter. If a second thread blocks on a set, the record of the first is overwritten: the next
  wake-up of the set wakes the second thread, and no later one wakes the first.\<close>

theorem second_waiter_replaces_first:
  assumes "unat sid < length (sets s)" "set_register sid t1 s = (Block, s1)" "set_register sid t2 s1 = (Block, s2)"
  shows "events (tsys (wake_set_waiter sid s2)) = events (tsys s2) @ [WakeThread t2] \<and>
    wake_set_waiter sid (wake_set_waiter sid s2) = wake_set_waiter sid s2"
proof -
  have len: "length (sets s') = length (sets z)" if "set_register sid t z = (Block, s')" for t z s'
  proof -
    have l: "length (sets (snd (try_recv_loop ps js z))) = length (sets z)" for ps js
    proof (induction js arbitrary: z)
      case (Cons j js)
      obtain r z1 where r: "recv_nb (port_at ps j) z = (r, z1)" by fastforce
      have "sets z1 = sets z" using recv_nb_sets [OF r] .
      then show ?case using Cons [of z1] r by (simp split: option.splits)
    qed simp
    obtain r z1 where tr: "set_try_recv (sets z ! unat sid) z = (r, z1)" by fastforce
    have "length (sets z1) = length (sets z)" using l [of "sets z ! unat sid" "[0..<port_count (sets z ! unat sid)]"] tr by (simp add: set_try_recv_def)
    then show ?thesis using that tr by (auto simp: set_register_def Let_def log_ipc_def put_set_def split: option.splits)
  qed
  have w: "waiter (sets s2 ! unat sid) = Some t2"
    using assms(1,3) len [OF assms(2)] len [OF assms(3)]
    by (auto simp: set_register_def Let_def log_ipc_def put_set_def split: option.splits prod.splits)
  have lt: "unat sid < length (sets s2)" using assms(1) len [OF assms(2)] len [OF assms(3)] by simp
  define p where "p = (sets s2 ! unat sid)\<lparr>waiter := None\<rparr>"
  define z where "z = wake_set_waiter sid s2"
  have z: "z = s2\<lparr>sets := (sets s2)[unat sid := p], tsys := emit (WakeThread t2) (tsys s2)\<rparr>"
    using lt w by (simp add: z_def wake_set_waiter_def Let_def p_def)
  have "p\<lparr>waiter := None\<rparr> = p" by (simp add: p_def)
  then have "wake_set_waiter sid z = z" using lt by (simp add: wake_set_waiter_def Let_def z p_def)
  then show ?thesis using z by (simp add: z_def [symmetric] emit_def)
qed

theorem second_waiter_replaces_first_witness:
  "\<exists>s1 s2. set_register 0 1 (mail_boot []\<lparr>sets := [new_set 0]\<rparr>) = (Block, s1) \<and> set_register 0 2 s1 = (Block, s2) \<and>
     events (tsys (wake_set_waiter 0 s2)) = events (tsys s2) @ [WakeThread 2]"
proof -
  let ?s = "mail_boot []\<lparr>sets := [new_set 0]\<rparr>"
  obtain s1 where s1: "set_register 0 1 ?s = (Block, s1)" "sets s1 = [(new_set 0)\<lparr>waiter := Some 1\<rparr>]"
    by (simp add: set_register_def set_try_recv_def new_set_def put_set_def log_ipc_def Let_def)
  obtain s2 where s2: "set_register 0 2 s1 = (Block, s2)"
    using s1(2) by (simp add: set_register_def set_try_recv_def new_set_def put_set_def log_ipc_def Let_def)
  show ?thesis using second_waiter_replaces_first [OF _ s1(1) s2] s1(1) s2 by simp
qed

text \<open>Adding a port to a destroyed set succeeds. The set gets a page again, the port is tagged with it, and because the set
  stays inactive it can never be destroyed a second time: the page is lost and the port stays tagged.\<close>

theorem add_to_destroyed_set:
  assumes "destroy_set sid s = (True, s1)" "page_answers s1 = True # as" "8 \<le> page_size" "add_port page_size sid i s1 = (ok, s2)"
  shows "ok \<and> set_pages s2 = set_pages s1 + 1 \<and> destroy_set sid s2 = (False, s2) \<and> remove_port sid i s2 = (False, s2) \<and>
    (port_ref s1 i \<noteq> None \<longrightarrow> (\<exists>a. port_ref s2 i = Some a \<and> port_set_id (port_mem s2 a) = sid))"
proof -
  let ?n = "unat sid"
  have sets_fold: "sets (fold (\<lambda>j. set_port_set (f j) x) js z) = sets z" for f x js z
    by (induction js arbitrary: z) (auto simp: set_port_set_def with_port_def upd_port_def split: option.splits)
  have d: "?n < length (sets s)" using assms(1) by (simp add: destroy_set_def split: if_splits)
  have s1: "?n < length (sets s1)" "\<not> active (sets s1 ! ?n)" "ports (sets s1 ! ?n) = None" "port_count (sets s1 ! ?n) = 0"
    using assms(1) d sets_fold [of "port_at (sets s ! ?n)" NONE32 "[0..<port_count (sets s ! ?n)]" s] by (auto simp: destroy_set_def set_destroy_def put_set_def Let_def split: if_splits option.splits)
  have cap: "0 < ports_per_page page_size" using assms(3) by (simp add: ports_per_page_def)
  define ps where "ps = (sets s1 ! ?n)\<lparr>ports_cap := ports_per_page page_size, ports := Some ((replicate (ports_per_page page_size) 0)[0 := i]), port_count := 1\<rparr>"
  define z where "z = put_set sid ps (s1\<lparr>page_answers := as, set_pages := set_pages s1 + 1\<rparr>)"
  have r: "ok" "s2 = set_port_set i sid z"
    using assms(2,4) s1 cap by (simp_all add: add_port_def set_add_def ensure_ports_def ps_def z_def)
  have z: "sets z = (sets s1)[?n := ps]" "set_pages z = set_pages s1 + 1" "port_ref z i = port_ref s1 i"
    by (simp_all add: z_def put_set_def port_ref_def table_lookup_def split: option.splits)
  have s2: "sets s2 = sets z" "set_pages s2 = set_pages z" using r(2) by (simp_all add: set_port_set_def with_port_def upd_port_def split: option.splits)
  have ina: "\<not> active (sets s2 ! ?n)" using s2(1) z(1) s1 by (simp add: ps_def)
  have tag: "\<exists>a. port_ref s2 i = Some a \<and> port_set_id (port_mem s2 a) = sid" if live: "port_ref s1 i \<noteq> None"
  proof -
    obtain a where a: "port_ref z i = Some a" using live z(3) by auto
    then have s2a: "s2 = upd_port a (\<lambda>p. p\<lparr>port_set_id := sid\<rparr>) z" using r(2) by (simp add: set_port_set_def with_port_def)
    have "port_ref s2 i = Some a" using a unfolding s2a by (auto simp: port_ref_def upd_port_def is_alive_def split: option.splits if_splits)
    then show ?thesis unfolding s2a by (auto simp: upd_port_def)
  qed
  show ?thesis using r(1) s2(2) z(2) ina tag by (simp add: destroy_set_def remove_port_def)
qed


theorem add_to_destroyed_set_witness:
  "\<exists>s1 s2. destroy_set 0 (mail_boot []\<lparr>sets := [new_set 0], page_answers := [True]\<rparr>) = (True, s1) \<and> add_port 4096 0 5 s1 = (True, s2) \<and>
     destroy_set 0 s2 = (False, s2)"
proof -
  let ?s = "mail_boot []\<lparr>sets := [new_set 0], page_answers := [True]\<rparr>"
  obtain s1 where s1: "destroy_set 0 ?s = (True, s1)" "page_answers s1 = [True]"
    by (simp add: destroy_set_def set_destroy_def put_set_def new_set_def Let_def)
  obtain ok s2 where s2: "add_port 4096 0 5 s1 = (ok, s2)" by fastforce
  show ?thesis using add_to_destroyed_set [OF s1 _ s2] s1(1) s2 by auto
qed

end
