(* ===== verification/SpinLock.thy ===== *)
theory SpinLock
  imports Telix_Prelude
begin

text \<open>
  The two spin locks of \<open>sync/spinlock.rs\<close>: the compare-exchange lock and the ticket lock, each with its
  paravirtual variant that opens the interrupts now and then while it waits. A CPU inside an acquire or a release has a
  program counter, the saved interrupt state is in it, and a history is any interleaving of the CPUs' single accesses.
  A flag of a step says that a weak compare-exchange fails for no reason. The locks hold no data here: what they promise
  their users is that at most one CPU is between acquire and release.
\<close>

section \<open>The contract of a lock\<close>

locale mutex =
  fixes inv :: "'s \<Rightarrow> bool"
    and act :: "'a \<Rightarrow> 's \<Rightarrow> 's"
    and holds :: "'s \<Rightarrow> 'c \<Rightarrow> bool"
    and masked :: "'s \<Rightarrow> 'c \<Rightarrow> bool"
  assumes act_inv: "inv s \<Longrightarrow> inv (act a s)"
    and exclusive: "inv s \<Longrightarrow> holds s c \<Longrightarrow> holds s d \<Longrightarrow> c = d"
    and held_masked: "inv s \<Longrightarrow> holds s c \<Longrightarrow> masked s c"
begin

definition after :: "'a list \<Rightarrow> 's \<Rightarrow> 's" where
  "after as s = fold act as s"

lemma after_inv: "inv s \<Longrightarrow> inv (after as s)"
  unfolding after_def by (induction as arbitrary: s) (auto intro: act_inv)

text \<open>Whatever the other CPUs do, the CPU that holds the lock is the only one, and it runs without interrupts.\<close>

lemma always_exclusive:
  assumes "inv s" "holds (after as s) c"
  shows "(\<forall>d. holds (after as s) d \<longrightarrow> d = c) \<and> masked (after as s) c"
  using exclusive held_masked after_inv [OF assms(1)] assms(2) by blast

end

section \<open>The compare-exchange lock\<close>

datatype lock_pc =
    Unlocked | Spin bool | SpinPv bool nat | Window bool | Trying bool | TryFailed bool | Locked bool | Dropping bool

record 'c spin_lock =
  lock_word :: u32
  lock_pc :: "'c \<Rightarrow> lock_pc"
  irqs_on :: "'c \<Rightarrow> bool"
  irqs_before :: "'c \<Rightarrow> bool"

definition SPIN_BUDGET :: nat where "SPIN_BUDGET = 1024"

datatype 'c lock_act = Lock 'c | LockPv 'c | TryLock 'c | LockStep 'c bool | Unlock 'c

definition at_pc :: "'c \<Rightarrow> lock_pc \<Rightarrow> 'c spin_lock \<Rightarrow> 'c spin_lock" where
  "at_pc c pc s = s\<lparr>lock_pc := (lock_pc s)(c := pc)\<rparr>"

definition set_irqs :: "'c \<Rightarrow> bool \<Rightarrow> 'c spin_lock \<Rightarrow> 'c spin_lock" where
  "set_irqs c b s = s\<lparr>irqs_on := (irqs_on s)(c := b)\<rparr>"

text \<open>The entry of an acquire: the interrupts go off and their state is saved. \<open>irqs_before\<close> is ghost.\<close>

definition begin_lock :: "'c \<Rightarrow> (bool \<Rightarrow> lock_pc) \<Rightarrow> 'c spin_lock \<Rightarrow> 'c spin_lock" where
  "begin_lock c pc s =
     (if lock_pc s c = Unlocked
      then at_pc c (pc (irqs_on s c)) (set_irqs c False (s\<lparr>irqs_before := (irqs_before s)(c := irqs_on s c)\<rparr>)) else s)"

definition cas_lock :: "'c \<Rightarrow> bool \<Rightarrow> lock_pc \<Rightarrow> lock_pc \<Rightarrow> 'c spin_lock \<Rightarrow> 'c spin_lock" where
  "cas_lock c fails won lost s =
     (if lock_word s = 0 \<and> \<not> fails then at_pc c won (s\<lparr>lock_word := 1\<rparr>) else at_pc c lost s)"

definition lock_step :: "'c \<Rightarrow> bool \<Rightarrow> 'c spin_lock \<Rightarrow> 'c spin_lock" where
  "lock_step c weak s =
     (case lock_pc s c of
        Spin saved \<Rightarrow> cas_lock c weak (Locked saved) (Spin saved) s
      | SpinPv saved n \<Rightarrow>
          if lock_word s = 0 \<and> \<not> weak then at_pc c (Locked saved) (s\<lparr>lock_word := 1\<rparr>)
          else if n + 1 = SPIN_BUDGET then at_pc c (Window saved) (set_irqs c saved s) else at_pc c (SpinPv saved (n + 1)) s
      | Window saved \<Rightarrow> at_pc c (SpinPv saved 0) (set_irqs c False s)
      | Trying saved \<Rightarrow> cas_lock c False (Locked saved) (TryFailed saved) s
      | TryFailed saved \<Rightarrow> at_pc c Unlocked (set_irqs c saved s)
      | Dropping saved \<Rightarrow> at_pc c Unlocked (set_irqs c saved s)
      | _ \<Rightarrow> s)"

definition unlock :: "'c \<Rightarrow> 'c spin_lock \<Rightarrow> 'c spin_lock" where
  "unlock c s = (case lock_pc s c of Locked saved \<Rightarrow> at_pc c (Dropping saved) (s\<lparr>lock_word := 0\<rparr>) | _ \<Rightarrow> s)"

fun spin_act :: "'c lock_act \<Rightarrow> 'c spin_lock \<Rightarrow> 'c spin_lock" where
  "spin_act (Lock c) s = begin_lock c Spin s"
| "spin_act (LockPv c) s = begin_lock c (\<lambda>saved. SpinPv saved 0) s"
| "spin_act (TryLock c) s = begin_lock c Trying s"
| "spin_act (LockStep c weak) s = lock_step c weak s"
| "spin_act (Unlock c) s = unlock c s"

definition spin_new :: "('c \<Rightarrow> bool) \<Rightarrow> 'c spin_lock" where
  "spin_new irqs = \<lparr>lock_word = 0, lock_pc = (\<lambda>_. Unlocked), irqs_on = irqs, irqs_before = irqs\<rparr>"

definition locked :: "lock_pc \<Rightarrow> bool" where
  "locked pc = (case pc of Locked _ \<Rightarrow> True | _ \<Rightarrow> False)"

definition spin_holds :: "'c spin_lock \<Rightarrow> 'c \<Rightarrow> bool" where
  "spin_holds s c = locked (lock_pc s c)"

definition spin_masked :: "'c spin_lock \<Rightarrow> 'c \<Rightarrow> bool" where
  "spin_masked s c = (\<not> irqs_on s c)"

definition pc_ok :: "lock_pc \<Rightarrow> bool \<Rightarrow> bool \<Rightarrow> bool" where
  "pc_ok pc on before =
     (case pc of
        Unlocked \<Rightarrow> on = before
      | Window saved \<Rightarrow> saved = before \<and> on = before
      | SpinPv saved n \<Rightarrow> saved = before \<and> \<not> on \<and> n < SPIN_BUDGET
      | Spin saved \<Rightarrow> saved = before \<and> \<not> on
      | Trying saved \<Rightarrow> saved = before \<and> \<not> on
      | TryFailed saved \<Rightarrow> saved = before \<and> \<not> on
      | Locked saved \<Rightarrow> saved = before \<and> \<not> on
      | Dropping saved \<Rightarrow> saved = before \<and> \<not> on)"

definition spin_inv :: "'c spin_lock \<Rightarrow> bool" where
  "spin_inv s \<longleftrightarrow> (lock_word s = 0 \<longleftrightarrow> (\<forall>c. \<not> spin_holds s c)) \<and> (\<forall>c d. spin_holds s c \<longrightarrow> spin_holds s d \<longrightarrow> c = d) \<and>
     (\<forall>c. pc_ok (lock_pc s c) (irqs_on s c) (irqs_before s c))"

lemma spin_new_inv: "spin_inv (spin_new irqs)"
  by (simp add: spin_inv_def spin_new_def spin_holds_def locked_def pc_ok_def)

lemma spin_frame:
  assumes inv: "spin_inv s" and other: "\<And>d. d \<noteq> c \<Longrightarrow> lock_pc s' d = lock_pc s d \<and> irqs_on s' d = irqs_on s d \<and> irqs_before s' d = irqs_before s d"
    and pc: "pc_ok (lock_pc s' c) (irqs_on s' c) (irqs_before s' c)"
    and hold: "locked (lock_pc s' c) \<longrightarrow> lock_word s' \<noteq> 0 \<and> (locked (lock_pc s c) \<or> lock_word s = 0)"
    and free: "\<not> locked (lock_pc s' c) \<longrightarrow> (if locked (lock_pc s c) then lock_word s' = 0 else lock_word s' = lock_word s)"
  shows "spin_inv s'"
proof -
  have h: "spin_holds s' d = spin_holds s d" if "d \<noteq> c" for d using other [OF that] by (simp add: spin_holds_def)
  have w: "lock_word s = 0 \<longleftrightarrow> (\<forall>c. \<not> spin_holds s c)" and u: "spin_holds s a \<Longrightarrow> spin_holds s b \<Longrightarrow> a = b" for a b
    using inv by (auto simp: spin_inv_def)
  have p: "pc_ok (lock_pc s' d) (irqs_on s' d) (irqs_before s' d)" for d
    using inv other pc by (cases "d = c") (auto simp: spin_inv_def)
  have alone: "\<not> spin_holds s' d" if "locked (lock_pc s' c) \<or> locked (lock_pc s c)" "d \<noteq> c" for d
    using that h [OF that(2)] hold w u [of d c] by (auto simp: spin_holds_def)
  have uu: "a = b" if "spin_holds s' a" "spin_holds s' b" for a b
    using that alone h u [of a b] by (metis spin_holds_def)
  have "lock_word s' = 0 \<longleftrightarrow> (\<forall>c. \<not> spin_holds s' c)"
  proof (cases "locked (lock_pc s' c)")
    case True
    then show ?thesis using hold by (auto simp: spin_holds_def)
  next
    case False
    then show ?thesis using free w h alone by (metis spin_holds_def)
  qed
  then show ?thesis unfolding spin_inv_def using p uu by blast
qed

lemma spin_pc: "spin_inv s \<Longrightarrow> pc_ok (lock_pc s c) (irqs_on s c) (irqs_before s c)"
  by (simp add: spin_inv_def)

lemma spin_word: "spin_inv s \<Longrightarrow> locked (lock_pc s c) \<Longrightarrow> lock_word s \<noteq> 0"
  by (auto simp: spin_inv_def spin_holds_def)

lemmas lock_defs = at_pc_def set_irqs_def begin_lock_def cas_lock_def lock_step_def unlock_def locked_def

lemma begin_lock_inv:
  assumes "spin_inv s" "\<And>b. pc_ok (pc b) False b" "\<And>b. \<not> locked (pc b)"
  shows "spin_inv (begin_lock c pc s)"
proof (cases "lock_pc s c = Unlocked")
  case True
  show ?thesis by (rule spin_frame [OF assms(1), where c = c]) (use True assms(2,3) in \<open>auto simp: lock_defs\<close>)
qed (use assms in \<open>simp add: begin_lock_def\<close>)

lemma spin_act_inv:
  assumes inv: "spin_inv s"
  shows "spin_inv (spin_act a s)"
proof (cases a)
  case (Lock c)
  then show ?thesis using begin_lock_inv [OF inv, of Spin] by (simp add: pc_ok_def locked_def)
next
  case (LockPv c)
  then show ?thesis using begin_lock_inv [OF inv, of "\<lambda>b. SpinPv b 0"] by (simp add: pc_ok_def locked_def SPIN_BUDGET_def)
next
  case (TryLock c)
  then show ?thesis using begin_lock_inv [OF inv, of Trying] by (simp add: pc_ok_def locked_def)
next
  case (LockStep c weak)
  have "spin_inv (lock_step c weak s)"
    by (rule spin_frame [OF inv, where c = c]; insert spin_pc [OF inv, of c] spin_word [OF inv, of c]; cases "lock_pc s c")
      (auto simp: lock_defs pc_ok_def SPIN_BUDGET_def)
  then show ?thesis by (simp add: LockStep)
next
  case (Unlock c)
  have "spin_inv (unlock c s)"
    by (rule spin_frame [OF inv, where c = c]; insert spin_pc [OF inv, of c] spin_word [OF inv, of c]; cases "lock_pc s c") (auto simp: lock_defs pc_ok_def)
  then show ?thesis by (simp add: Unlock)
qed

interpretation spin: mutex spin_inv spin_act spin_holds spin_masked
proof
  show "spin_inv (spin_act a s)" if "spin_inv s" for s :: "'c spin_lock" and a using spin_act_inv that .
  show "c = d" if "spin_inv s" "spin_holds s c" "spin_holds s d" for s :: "'c spin_lock" and c d using that by (auto simp: spin_inv_def)
  show "spin_masked s c" if "spin_inv s" "spin_holds s c" for s :: "'c spin_lock" and c
    using spin_pc [OF that(1), of c] that(2) by (auto simp: spin_masked_def spin_holds_def locked_def pc_ok_def split: lock_pc.splits)
qed

section \<open>The ticket lock\<close>

datatype ticket_pc =
    TOut | TDraw bool bool | TWait bool u32 | TWaitPv bool u32 nat | TWindow bool u32 | THeld bool | TDropping bool

text \<open>
  Ghost fields: the CPUs in the order of their tickets, the number of releases, the CPUs in the order in which they got
  the lock, the position of a CPU's ticket, and the interrupt state before the acquire.
\<close>

record 'c ticket_lock =
  next_ticket :: u32
  now_serving :: u32
  ticket_pc :: "'c \<Rightarrow> ticket_pc"
  t_irqs_on :: "'c \<Rightarrow> bool"
  t_irqs_before :: "'c \<Rightarrow> bool"
  drawn :: "'c list"
  released :: nat
  entered :: "'c list"
  pos :: "'c \<Rightarrow> nat"

datatype 'c ticket_act = TLock 'c bool | TStep 'c | TUnlock 'c

definition t_at :: "'c \<Rightarrow> ticket_pc \<Rightarrow> 'c ticket_lock \<Rightarrow> 'c ticket_lock" where
  "t_at c pc s = s\<lparr>ticket_pc := (ticket_pc s)(c := pc)\<rparr>"

definition t_irqs :: "'c \<Rightarrow> bool \<Rightarrow> 'c ticket_lock \<Rightarrow> 'c ticket_lock" where
  "t_irqs c b s = s\<lparr>t_irqs_on := (t_irqs_on s)(c := b)\<rparr>"

definition t_enter :: "'c \<Rightarrow> bool \<Rightarrow> 'c ticket_lock \<Rightarrow> 'c ticket_lock" where
  "t_enter c saved s = t_at c (THeld saved) (s\<lparr>entered := entered s @ [c]\<rparr>)"

definition ticket_step :: "'c \<Rightarrow> 'c ticket_lock \<Rightarrow> 'c ticket_lock" where
  "ticket_step c s =
     (case ticket_pc s c of
        TDraw saved pv \<Rightarrow>
          let my = next_ticket s
          in t_at c (if pv then TWaitPv saved my 0 else TWait saved my)
               (s\<lparr>next_ticket := my + 1, pos := (pos s)(c := length (drawn s)), drawn := drawn s @ [c]\<rparr>)
      | TWait saved my \<Rightarrow> if now_serving s \<noteq> my then s else t_enter c saved s
      | TWaitPv saved my n \<Rightarrow>
          if now_serving s = my then t_enter c saved s
          else if n + 1 = SPIN_BUDGET then t_at c (TWindow saved my) (t_irqs c saved s) else t_at c (TWaitPv saved my (n + 1)) s
      | TWindow saved my \<Rightarrow> t_at c (TWaitPv saved my 0) (t_irqs c False s)
      | TDropping saved \<Rightarrow> t_at c TOut (t_irqs c saved s)
      | _ \<Rightarrow> s)"

fun ticket_do :: "'c ticket_act \<Rightarrow> 'c ticket_lock \<Rightarrow> 'c ticket_lock" where
  "ticket_do (TLock c pv) s =
     (if ticket_pc s c = TOut
      then t_at c (TDraw (t_irqs_on s c) pv) (t_irqs c False (s\<lparr>t_irqs_before := (t_irqs_before s)(c := t_irqs_on s c)\<rparr>)) else s)"
| "ticket_do (TStep c) s = ticket_step c s"
| "ticket_do (TUnlock c) s =
     (case ticket_pc s c of
        THeld saved \<Rightarrow> t_at c (TDropping saved) (s\<lparr>now_serving := now_serving s + 1, released := released s + 1\<rparr>)
      | _ \<Rightarrow> s)"

definition ticket_new :: "('c \<Rightarrow> bool) \<Rightarrow> 'c ticket_lock" where
  "ticket_new irqs = \<lparr>next_ticket = 0, now_serving = 0, ticket_pc = (\<lambda>_. TOut), t_irqs_on = irqs, t_irqs_before = irqs,
     drawn = [], released = 0, entered = [], pos = (\<lambda>_. 0)\<rparr>"

definition waiting :: "ticket_pc \<Rightarrow> u32 option" where
  "waiting pc = (case pc of TWait saved my \<Rightarrow> Some my | TWaitPv saved my n \<Rightarrow> Some my | TWindow saved my \<Rightarrow> Some my | _ \<Rightarrow> None)"

definition t_held :: "ticket_pc \<Rightarrow> bool" where
  "t_held pc = (case pc of THeld _ \<Rightarrow> True | _ \<Rightarrow> False)"

definition pending :: "ticket_pc \<Rightarrow> bool" where
  "pending pc \<longleftrightarrow> waiting pc \<noteq> None \<or> t_held pc"

definition t_pc_ok :: "ticket_pc \<Rightarrow> bool \<Rightarrow> bool \<Rightarrow> bool" where
  "t_pc_ok pc on before =
     (case pc of
        TOut \<Rightarrow> on = before
      | TWindow saved my \<Rightarrow> saved = before \<and> on = before
      | TDraw saved pv \<Rightarrow> saved = before \<and> \<not> on
      | TWait saved my \<Rightarrow> saved = before \<and> \<not> on
      | TWaitPv saved my n \<Rightarrow> saved = before \<and> \<not> on \<and> n < SPIN_BUDGET
      | THeld saved \<Rightarrow> saved = before \<and> \<not> on
      | TDropping saved \<Rightarrow> saved = before \<and> \<not> on)"

definition t_holds :: "'c ticket_lock \<Rightarrow> 'c \<Rightarrow> bool" where
  "t_holds s c = t_held (ticket_pc s c)"

definition t_masked :: "'c ticket_lock \<Rightarrow> 'c \<Rightarrow> bool" where
  "t_masked s c = (\<not> t_irqs_on s c)"

definition cpu_ok :: "'c ticket_lock \<Rightarrow> 'c \<Rightarrow> bool" where
  "cpu_ok s c \<longleftrightarrow> t_pc_ok (ticket_pc s c) (t_irqs_on s c) (t_irqs_before s c) \<and>
     (pending (ticket_pc s c) \<longrightarrow> released s \<le> pos s c \<and> pos s c < length (drawn s) \<and> drawn s ! pos s c = c) \<and>
     (\<forall>my. waiting (ticket_pc s c) = Some my \<longrightarrow> my = of_nat (pos s c)) \<and> (t_held (ticket_pc s c) \<longrightarrow> pos s c = released s)"

definition ticket_inv :: "('c :: finite) ticket_lock \<Rightarrow> bool" where
  "ticket_inv s \<longleftrightarrow> CARD('c) < 2 ^ 32 \<and> next_ticket s = of_nat (length (drawn s)) \<and> now_serving s = of_nat (released s) \<and>
     released s \<le> length (drawn s) \<and> (\<forall>c. cpu_ok s c) \<and>
     (\<forall>i. released s \<le> i \<longrightarrow> i < length (drawn s) \<longrightarrow> pending (ticket_pc s (drawn s ! i)) \<and> pos s (drawn s ! i) = i) \<and>
     entered s = take (if \<exists>c. t_holds s c then released s + 1 else released s) (drawn s)"

lemma ticketD:
  fixes s :: "('c :: finite) ticket_lock"
  assumes "ticket_inv s"
  shows "CARD('c) < 2 ^ 32" "next_ticket s = of_nat (length (drawn s))" "now_serving s = of_nat (released s)" "released s \<le> length (drawn s)"
    "cpu_ok s c" "released s \<le> i \<Longrightarrow> i < length (drawn s) \<Longrightarrow> pending (ticket_pc s (drawn s ! i)) \<and> pos s (drawn s ! i) = i"
    "entered s = take (if \<exists>c. t_holds s c then released s + 1 else released s) (drawn s)"
  using assms unfolding ticket_inv_def by blast+

lemma cpu_okD:
  assumes "cpu_ok s c"
  shows "t_pc_ok (ticket_pc s c) (t_irqs_on s c) (t_irqs_before s c)"
    "pending (ticket_pc s c) \<Longrightarrow> released s \<le> pos s c \<and> pos s c < length (drawn s) \<and> drawn s ! pos s c = c"
    "waiting (ticket_pc s c) = Some my \<Longrightarrow> my = of_nat (pos s c)" "t_held (ticket_pc s c) \<Longrightarrow> pos s c = released s"
  using assms by (simp_all add: cpu_ok_def)

text \<open>Tickets that are out belong to different CPUs, so fewer than \<open>2 ^ 32\<close> are out.\<close>

lemma tickets_out:
  fixes s :: "('c :: finite) ticket_lock"
  assumes "ticket_inv s"
  shows "length (drawn s) - released s \<le> CARD('c)"
proof -
  have inj: "inj_on (\<lambda>i. drawn s ! i) {released s..<length (drawn s)}"
    using ticketD(6) [OF assms] by (intro inj_onI) (metis atLeastLessThan_iff)
  have "card ((\<lambda>i. drawn s ! i) ` {released s..<length (drawn s)}) \<le> CARD('c)" by (rule card_mono) auto
  then show ?thesis by (simp add: card_image [OF inj])
qed

lemma serving_mine:
  assumes inv: "ticket_inv s" and w: "waiting (ticket_pc s c) = Some my" and eq: "now_serving s = my"
  shows "pos s c = released s"
proof -
  note ck = cpu_okD [OF ticketD(5) [OF inv, of c]]
  have p: "released s \<le> pos s c" "pos s c < length (drawn s)" using ck(2) w by (auto simp: pending_def)
  have "(of_nat (released s) :: u32) = of_nat (pos s c)" using ck(3) [OF w] eq ticketD(3) [OF inv] by simp
  then have "unat (of_nat (released s) :: u32) = unat (of_nat (pos s c) :: u32)" by simp
  then have "released s mod 2 ^ 32 = pos s c mod 2 ^ 32" by (simp add: unsigned_of_nat take_bit_eq_mod)
  then have "2 ^ 32 dvd pos s c - released s" using p(1) by (metis mod_eq_dvd_iff_nat)
  moreover have "pos s c - released s < 2 ^ 32" using p tickets_out [OF inv] ticketD(1) [OF inv] by linarith
  ultimately have "pos s c - released s = 0" by (metis nat_dvd_not_less neq0_conv)
  then show ?thesis using p(1) by simp
qed

lemma holder:
  assumes "ticket_inv s" "t_holds s c"
  shows "pos s c = released s" "released s < length (drawn s)" "drawn s ! released s = c"
proof -
  note ck = cpu_okD [OF ticketD(5) [OF assms(1), of c]]
  show "pos s c = released s" using ck(4) assms(2) by (simp add: t_holds_def)
  then show "released s < length (drawn s)" "drawn s ! released s = c" using ck(2) assms(2) by (auto simp: t_holds_def pending_def)
qed

lemma ticket_exclusive: "ticket_inv s \<Longrightarrow> t_holds s c \<Longrightarrow> t_holds s d \<Longrightarrow> c = d"
  using holder(3) by metis

text \<open>A step of one CPU that draws no ticket and neither gets nor gives up the lock.\<close>

lemma ticket_quiet:
  assumes inv: "ticket_inv s"
    and sh: "next_ticket s' = next_ticket s" "now_serving s' = now_serving s" "drawn s' = drawn s" "released s' = released s" "entered s' = entered s" "pos s' = pos s"
    and other: "\<And>d. d \<noteq> c \<Longrightarrow> ticket_pc s' d = ticket_pc s d \<and> t_irqs_on s' d = t_irqs_on s d \<and> t_irqs_before s' d = t_irqs_before s d"
    and pc: "waiting (ticket_pc s' c) = waiting (ticket_pc s c)" "t_held (ticket_pc s' c) = t_held (ticket_pc s c)"
      "t_pc_ok (ticket_pc s' c) (t_irqs_on s' c) (t_irqs_before s' c)"
  shows "ticket_inv s'"
proof -
  have w: "waiting (ticket_pc s' d) = waiting (ticket_pc s d)" "t_held (ticket_pc s' d) = t_held (ticket_pc s d)" for d
    using other [of d] pc(1,2) by (cases "d = c"; simp)+
  have p: "pending (ticket_pc s' d) = pending (ticket_pc s d)" for d by (simp add: pending_def w)
  have "cpu_ok s' d" for d
    using cpu_okD [OF ticketD(5) [OF inv, of d]] other [of d] pc(3) unfolding cpu_ok_def w p sh by (cases "d = c") auto
  then show ?thesis using inv unfolding ticket_inv_def sh p t_holds_def w by blast
qed

lemma ticket_enter:
  assumes inv: "ticket_inv s" and w: "waiting (ticket_pc s c) = Some my" and eq: "now_serving s = my"
    and ok: "t_pc_ok (THeld saved) (t_irqs_on s c) (t_irqs_before s c)"
  shows "ticket_inv (t_enter c saved s)"
proof -
  note td = ticketD [OF inv] and ck = cpu_okD [OF ticketD(5) [OF inv]]
  define s' where "s' = t_enter c saved s"
  have r: "pos s c = released s" "released s < length (drawn s)" "drawn s ! released s = c" using serving_mine [OF inv w eq] ck(2) [of c] w by (auto simp: pending_def)
  have nh: "\<not> t_holds s d" for d
  proof
    assume h: "t_holds s d"
    then have "d = c" using holder(3) [OF inv] r(3) by metis
    then show False using h w by (auto simp: t_holds_def t_held_def waiting_def split: ticket_pc.splits)
  qed
  have eqs: "next_ticket s' = next_ticket s" "now_serving s' = now_serving s" "drawn s' = drawn s" "released s' = released s" "pos s' = pos s"
    "entered s' = entered s @ [c]" "t_irqs_on s' = t_irqs_on s" "t_irqs_before s' = t_irqs_before s"
    by (simp_all add: s'_def t_enter_def t_at_def)
  have pcs: "ticket_pc s' d = (if d = c then THeld saved else ticket_pc s d)" for d by (simp add: s'_def t_enter_def t_at_def)
  have th: "t_holds s' d \<longleftrightarrow> d = c" for d using nh [of d] by (simp add: t_holds_def pcs t_held_def)
  have pn: "pending (ticket_pc s' d) = pending (ticket_pc s d)" for d using w by (auto simp: pcs pending_def t_held_def waiting_def)
  have "cpu_ok s' d" for d
    using cpu_okD [OF ticketD(5) [OF inv, of d]] ok r by (cases "d = c") (simp_all add: cpu_ok_def eqs pcs pending_def t_held_def waiting_def)
  moreover have "entered s @ [c] = take (released s + 1) (drawn s)" using td(7) nh r by (simp add: take_Suc_conv_app_nth)
  ultimately show ?thesis using td(1-4,6) unfolding s'_def [symmetric] ticket_inv_def eqs pn th by auto
qed

lemma ticket_draw:
  assumes inv: "ticket_inv s" and pc: "ticket_pc s c = TDraw saved pv"
  shows "ticket_inv (ticket_step c s)"
proof -
  note td = ticketD [OF inv] and ck = cpu_okD [OF ticketD(5) [OF inv]]
  define s' where "s' = ticket_step c s"
  let ?n = "length (drawn s)" and ?pc = "if pv then TWaitPv saved (next_ticket s) 0 else TWait saved (next_ticket s)"
  have eqs: "next_ticket s' = next_ticket s + 1" "now_serving s' = now_serving s" "drawn s' = drawn s @ [c]" "released s' = released s"
    "pos s' = (pos s)(c := ?n)" "entered s' = entered s" "t_irqs_on s' = t_irqs_on s" "t_irqs_before s' = t_irqs_before s"
    by (simp_all add: s'_def ticket_step_def pc Let_def t_at_def)
  have pcs: "ticket_pc s' d = (if d = c then ?pc else ticket_pc s d)" for d by (simp add: s'_def ticket_step_def pc Let_def t_at_def)
  have np: "\<not> pending (ticket_pc s c)" "\<not> t_held (ticket_pc s c)" by (simp_all add: pc pending_def waiting_def t_held_def)
  have th: "t_holds s' d = t_holds s d" for d using np(2) by (simp add: t_holds_def pcs) (simp add: t_held_def)
  have pw: "pending ?pc" "waiting ?pc = Some (next_ticket s)" "\<not> t_held ?pc" by (simp_all add: pending_def waiting_def t_held_def)
  have cpu: "cpu_ok s' d" for d
  proof (cases "d = c")
    case True
    have "t_pc_ok ?pc (t_irqs_on s c) (t_irqs_before s c)" using ck(1) [of c] by (simp add: pc t_pc_ok_def SPIN_BUDGET_def)
    then show ?thesis using True pw td(2,4) unfolding cpu_ok_def eqs pcs by simp
  next
    case False
    then show ?thesis using cpu_okD [OF td(5) [of d]] unfolding cpu_ok_def eqs pcs by (auto simp: nth_append)
  qed
  have ent: "entered s = take (if \<exists>c. t_holds s c then released s + 1 else released s) (drawn s @ [c])"
  proof (cases "\<exists>d. t_holds s d")
    case True
    then obtain d where "t_holds s d" by blast
    then have "released s < ?n" using holder(2) [OF inv] by blast
    then show ?thesis using td(7) True by simp
  next
    case False
    then show ?thesis using td(4,7) by simp
  qed
  have "pending (ticket_pc s' ((drawn s @ [c]) ! i)) \<and> ((pos s)(c := ?n)) ((drawn s @ [c]) ! i) = i" if i: "released s \<le> i" "i < length (drawn s @ [c])" for i
  proof (cases "i = ?n")
    case True
    then show ?thesis using pw(1) by (simp add: pcs)
  next
    case False
    then have "i < ?n" using i(2) by simp
    moreover have "drawn s ! i \<noteq> c" using td(6) [OF i(1) calculation] np(1) by auto
    ultimately show ?thesis using td(6) [OF i(1)] by (simp add: pcs nth_append)
  qed
  moreover have "\<forall>d. cpu_ok s' d" using cpu by blast
  ultimately show ?thesis using td(1,2,3,4) ent unfolding s'_def [symmetric] ticket_inv_def eqs th by auto
qed

lemma ticket_release:
  assumes inv: "ticket_inv s" and pc: "ticket_pc s c = THeld saved"
  shows "ticket_inv (ticket_do (TUnlock c) s)"
proof -
  note td = ticketD [OF inv] and ck = cpu_okD [OF ticketD(5) [OF inv]]
  define s' where "s' = ticket_do (TUnlock c) s"
  have h: "t_holds s c" by (simp add: t_holds_def pc t_held_def)
  have r: "pos s c = released s" "released s < length (drawn s)" "drawn s ! released s = c" using holder [OF inv h] .
  have eqs: "next_ticket s' = next_ticket s" "now_serving s' = now_serving s + 1" "drawn s' = drawn s" "released s' = Suc (released s)"
    "pos s' = pos s" "entered s' = entered s" "t_irqs_on s' = t_irqs_on s" "t_irqs_before s' = t_irqs_before s"
    by (simp_all add: s'_def pc t_at_def)
  have pcs: "ticket_pc s' d = (if d = c then TDropping saved else ticket_pc s d)" for d by (simp add: s'_def pc t_at_def)
  have nh: "\<not> t_holds s' d" for d using ticket_exclusive [OF inv h, of d] by (auto simp: t_holds_def pcs) (simp_all add: t_held_def)
  have cpu: "cpu_ok s' d" for d
  proof (cases "d = c")
    case True
    then show ?thesis using ck(1) [of c] unfolding cpu_ok_def eqs pcs by (simp add: pending_def waiting_def t_held_def t_pc_ok_def pc)
  next
    case False
    have "pos s d \<noteq> released s" if "pending (ticket_pc s d)" using ck(2) [OF that] r(3) False by metis
    moreover have "\<not> t_held (ticket_pc s d)" using ticket_exclusive [OF inv h, of d] False by (auto simp: t_holds_def)
    ultimately show ?thesis using cpu_okD [OF td(5) [of d]] False unfolding cpu_ok_def eqs pcs by (auto simp: le_Suc_eq not_less_eq_eq)
  qed
  have "pending (ticket_pc s' (drawn s ! i)) \<and> pos s (drawn s ! i) = i" if i: "Suc (released s) \<le> i" "i < length (drawn s)" for i
  proof -
    have "released s \<le> i" using i(1) by simp
    note q = td(6) [OF this i(2)]
    then have "drawn s ! i \<noteq> c" using r(1) i(1) by auto
    then show ?thesis using q by (simp add: pcs)
  qed
  moreover have "entered s = take (Suc (released s)) (drawn s)" using td(7) h by auto
  moreover have "\<forall>d. cpu_ok s' d" using cpu by blast
  ultimately show ?thesis using td(1,2,3) r(2) nh unfolding s'_def [symmetric] ticket_inv_def eqs by auto
qed

lemma ticket_new_inv: "CARD('c :: finite) < 2 ^ 32 \<Longrightarrow> ticket_inv (ticket_new irqs :: 'c ticket_lock)"
  by (simp add: ticket_inv_def ticket_new_def cpu_ok_def t_pc_ok_def pending_def waiting_def t_held_def t_holds_def)

lemma ticket_step_inv:
  assumes inv: "ticket_inv s"
  shows "ticket_inv (ticket_step c s)"
proof (cases "ticket_pc s c")
  case (TDraw saved pv)
  then show ?thesis using ticket_draw [OF inv] by blast
next
  case (TWait saved my)
  have "t_pc_ok (THeld saved) (t_irqs_on s c) (t_irqs_before s c)"
    using cpu_okD(1) [OF ticketD(5) [OF inv, of c]] by (simp add: TWait t_pc_ok_def)
  then show ?thesis using ticket_enter [OF inv, of c my saved] inv by (auto simp: ticket_step_def TWait waiting_def)
next
  case (TWaitPv saved my n)
  note ok = cpu_okD(1) [OF ticketD(5) [OF inv, of c]]
  have h: "t_pc_ok (THeld saved) (t_irqs_on s c) (t_irqs_before s c)" using ok by (simp add: TWaitPv t_pc_ok_def)
  have "ticket_inv (t_at c (TWindow saved my) (t_irqs c saved s))" "n + 1 \<noteq> SPIN_BUDGET \<Longrightarrow> ticket_inv (t_at c (TWaitPv saved my (n + 1)) s)"
    by (rule ticket_quiet [OF inv, where c = c]; use ok in \<open>simp add: t_at_def t_irqs_def TWaitPv waiting_def t_held_def t_pc_ok_def\<close>)+
  then show ?thesis using ticket_enter [OF inv, of c my saved] h by (auto simp: ticket_step_def TWaitPv waiting_def)
next
  case (TWindow saved my)
  note ok = cpu_okD(1) [OF ticketD(5) [OF inv, of c]]
  show ?thesis
    by (rule ticket_quiet [OF inv, where c = c]; use ok in \<open>simp add: ticket_step_def t_at_def t_irqs_def TWindow waiting_def t_held_def t_pc_ok_def SPIN_BUDGET_def\<close>)
next
  case (TDropping saved)
  note ok = cpu_okD(1) [OF ticketD(5) [OF inv, of c]]
  show ?thesis
    by (rule ticket_quiet [OF inv, where c = c]; use ok in \<open>simp add: ticket_step_def t_at_def t_irqs_def TDropping waiting_def t_held_def t_pc_ok_def\<close>)
qed (use inv in \<open>simp_all add: ticket_step_def\<close>)

lemma ticket_do_inv:
  assumes inv: "ticket_inv s"
  shows "ticket_inv (ticket_do a s)"
proof (cases a)
  case (TLock c pv)
  note ok = cpu_okD(1) [OF ticketD(5) [OF inv, of c]]
  have "ticket_inv (t_at c (TDraw (t_irqs_on s c) pv) (t_irqs c False (s\<lparr>t_irqs_before := (t_irqs_before s)(c := t_irqs_on s c)\<rparr>)))" if "ticket_pc s c = TOut"
    by (rule ticket_quiet [OF inv, where c = c]; use ok that in \<open>simp add: t_at_def t_irqs_def waiting_def t_held_def t_pc_ok_def\<close>)
  then show ?thesis using inv by (simp add: TLock)
next
  case (TStep c)
  then show ?thesis using ticket_step_inv [OF inv] by simp
next
  case (TUnlock c)
  show ?thesis
  proof (cases "ticket_pc s c")
    case (THeld saved)
    then show ?thesis using ticket_release [OF inv] TUnlock by blast
  qed (use inv in \<open>simp_all add: TUnlock\<close>)
qed

interpretation ticket: mutex ticket_inv ticket_do t_holds t_masked
proof
  show "ticket_inv (ticket_do a s)" if "ticket_inv s" for s :: "('c :: finite) ticket_lock" and a using ticket_do_inv that .
  show "c = d" if "ticket_inv s" "t_holds s c" "t_holds s d" for s :: "('c :: finite) ticket_lock" and c d using ticket_exclusive that .
  show "t_masked s c" if "ticket_inv s" "t_holds s c" for s :: "('c :: finite) ticket_lock" and c
    using cpu_okD(1) [OF ticketD(5) [OF that(1), of c]] that(2)
    by (auto simp: t_masked_def t_holds_def t_held_def t_pc_ok_def split: ticket_pc.splits)
qed

section \<open>Properties\<close>

text \<open>C2 The spin lock excludes. In any interleaving of the accesses of any CPUs to a new lock, through the plain, the
  trying and the paravirtual acquire, at most one CPU is between acquire and release, it runs with interrupts off, and a
  CPU that has no business with the lock has its interrupts as they were before its last acquire.\<close>

theorem spin_lock_excludes:
  assumes "lock_pc (fold spin_act as (spin_new irqs)) c = Locked saved"
  shows "(\<forall>d. spin_holds (fold spin_act as (spin_new irqs)) d \<longrightarrow> d = c) \<and> \<not> irqs_on (fold spin_act as (spin_new irqs)) c \<and>
    (\<forall>d. lock_pc (fold spin_act as (spin_new irqs)) d = Unlocked \<longrightarrow>
       irqs_on (fold spin_act as (spin_new irqs)) d = irqs_before (fold spin_act as (spin_new irqs)) d)"
proof -
  let ?s = "fold spin_act as (spin_new irqs)"
  have inv: "spin_inv ?s" using spin.after_inv [OF spin_new_inv] unfolding spin.after_def .
  have h: "spin_holds ?s c" using assms by (simp add: spin_holds_def locked_def)
  have "(\<forall>d. spin_holds ?s d \<longrightarrow> d = c) \<and> spin_masked ?s c"
    by (rule spin.always_exclusive [OF spin_new_inv, unfolded spin.after_def]) (rule h)
  moreover have "irqs_on ?s d = irqs_before ?s d" if "lock_pc ?s d = Unlocked" for d using spin_pc [OF inv, of d] that by (simp add: pc_ok_def)
  ultimately show ?thesis by (auto simp: spin_masked_def)
qed

theorem spin_lock_excludes_witness:
  "let s = fold spin_act [Lock 1, LockPv 2, LockStep 1 False, LockStep 2 False] (spin_new (\<lambda>_. True))
   in lock_pc s (1::nat) = Locked True \<and> \<not> spin_holds s 2 \<and> \<not> irqs_on s 1"
proof -
  have "lock_pc (fold spin_act [Lock 1, LockPv 2, LockStep 1 False, LockStep 2 False] (spin_new (\<lambda>_. True))) (1::nat) = Locked True"
    by code_simp
  moreover have "(2::nat) \<noteq> 1" by simp
  ultimately show ?thesis using spin_lock_excludes [of "[Lock 1, LockPv 2, LockStep 1 False, LockStep 2 False]" "\<lambda>_. True" "1::nat" True]
    unfolding Let_def by blast
qed

text \<open>C3 The ticket lock excludes and is fair. With fewer than \<open>2 ^ 32\<close> CPUs, in any interleaving of plain and paravirtual
  acquires on a new lock and with wrapping counters, at most one CPU holds the lock, it runs with interrupts off, and
  the CPUs get the lock exactly in the order in which they drew their tickets.\<close>

theorem ticket_lock_fair:
  assumes "CARD('c :: finite) < 2 ^ 32"
  shows "let s = fold ticket_do as (ticket_new irqs :: 'c ticket_lock) in
    (\<forall>c d. t_holds s c \<longrightarrow> t_holds s d \<longrightarrow> c = d) \<and> (\<forall>c. t_holds s c \<longrightarrow> \<not> t_irqs_on s c \<and> entered s \<noteq> [] \<and> last (entered s) = c) \<and>
    entered s = take (length (entered s)) (drawn s) \<and> length (entered s) \<le> released s + 1"
proof -
  define s where "s = fold ticket_do as (ticket_new irqs :: 'c ticket_lock)"
  have inv: "ticket_inv s" using ticket.after_inv [OF ticket_new_inv [OF assms]] unfolding ticket.after_def s_def .
  note e = ticketD(7) [OF inv]
  have "t_masked s c \<and> entered s \<noteq> [] \<and> last (entered s) = c" if h: "t_holds s c" for c
  proof -
    have "entered s = take (released s) (drawn s) @ [c]"
      using e h holder(2,3) [OF inv h] by (auto simp: take_Suc_conv_app_nth)
    then show ?thesis using ticket.held_masked [OF inv h] by simp
  qed
  moreover have "entered s = take (length (entered s)) (drawn s)" using e by (metis length_take min.cobounded2 take_all take_take min.commute min_def)
  moreover have "length (entered s) \<le> released s + 1" using e by (simp add: min_le_iff_disj)
  ultimately show ?thesis using ticket_exclusive [OF inv] unfolding s_def [symmetric] Let_def t_masked_def by blast
qed

theorem ticket_lock_fair_witness:
  "let s = fold ticket_do [TLock True False, TStep True, TLock False True, TStep False, TStep False, TStep True] (ticket_new (\<lambda>_. True))
   in entered s = [True] \<and> drawn s = [True, False] \<and> (\<forall>d. t_holds s d \<longrightarrow> d = True)"
proof -
  let ?as = "[TLock True False, TStep True, TLock False True, TStep False, TStep False, TStep True]"
  have c: "entered (fold ticket_do ?as (ticket_new (\<lambda>_. True))) = [True]" "drawn (fold ticket_do ?as (ticket_new (\<lambda>_. True))) = [True, False]"
    by code_simp+
  have "CARD(bool) < 2 ^ 32" by simp
  from ticket_lock_fair [OF this, of ?as "\<lambda>_. True"] c show ?thesis by (auto simp: Let_def)
qed

end
