(* ===== verification/Spec2Isabelle.thy ===== *)
theory Spec2Isabelle
  imports CapSystem CpuMask Heap4 Radix PortSets SpinLock
begin

text \<open>
  Verification of core data structures of the Telix microkernel.
\<close>

section \<open>The ports that the capability operations see\<close>

text \<open>
  The capability operations know of the ports only which are live and who may receive from them. This is what the port table
  holds, seen from there.
\<close>

definition port_holders :: "PortSys \<Rightarrow> u64 \<Rightarrow> nat option" where
  "port_holders s l =
     (case table_lookup s l of
        Some a \<Rightarrow> if is_alive (port_mem s a) then Some (unat (recv_holder (port_mem s a))) else None
      | None \<Rightarrow> None)"

lemma holders_ok: "table_ok s \<Longrightarrow> port_holders s l = map_option (\<lambda>a. unat (recv_holder (port_mem s a))) (table_lookup s l)"
  by (auto simp: port_holders_def dest: table_okD(3) split: option.splits)

lemma none32: "unat NONE32 = U32_MAX"
  by (simp add: NONE32_def U32_MAX_def unsigned_minus_1_eq_mask mask_eq_exp_minus_1)

lemma holders_set:
  assumes inv: "port_inv s"
  shows "port_holders (set_port_recv_holder i t s) =
    (if port_holders s (port_local i) \<noteq> None then (port_holders s)(port_local i \<mapsto> unat t) else port_holders s)"
proof -
  have t: "table_ok s" using inv by (simp add: port_inv_def)
  show ?thesis
  proof (cases "table_lookup s (port_local i)")
    case None
    then show ?thesis using port_ref_lookup [OF t, of i] by (simp add: set_port_recv_holder_def with_port_def port_holders_def)
  next
    case (Some a)
    have s': "set_port_recv_holder i t s = upd_port a (\<lambda>p. p\<lparr>recv_holder := t\<rparr>) s"
      using Some port_ref_lookup [OF t, of i] by (simp add: set_port_recv_holder_def with_port_def)
    have f: "table_lookup (set_port_recv_holder i t s) = table_lookup s"
      "port_mem (set_port_recv_holder i t s) = (port_mem s)(a := (port_mem s a)\<lparr>recv_holder := t\<rparr>)" unfolding s' by (simp_all add: upd_port_def)
    have "port_holders (set_port_recv_holder i t s) l = ((port_holders s)(port_local i \<mapsto> unat t)) l" for l
    proof (cases "table_lookup s l")
      case None
      then show ?thesis using Some by (auto simp: port_holders_def f)
    next
      case (Some b)
      show ?thesis
      proof (cases "l = port_local i")
        case True
        then show ?thesis using Some \<open>table_lookup s (port_local i) = Some a\<close> table_okD(3) [OF t Some] by (simp add: port_holders_def f is_alive_def)
      next
        case False
        then have "b \<noteq> a" using lookup_inj [OF inv Some, of "port_local i"] \<open>table_lookup s (port_local i) = Some a\<close> by auto
        then show ?thesis using False Some by (simp add: port_holders_def f)
      qed
    qed
    moreover have "port_holders s (port_local i) \<noteq> None" using holders_ok [OF t] Some by simp
    ultimately show ?thesis by (simp add: fun_eq_iff)
  qed
qed

lemma holders_destroy:
  assumes inv: "port_inv s"
  shows "\<exists>s'. destroy i s = Some s' \<and> port_holders s' = (port_holders s)(port_local i := None)"
proof -
  obtain Q where Q: "ts_rep (tsys s) Q" using inv by (auto simp: port_inv_def)
  have t: "table_ok s" using inv by (simp add: port_inv_def)
  obtain s' where d: "destroy i s = Some s'" "port_inv s'" "table_lookup s' = (table_lookup s)(port_local i := None)"
    "\<forall>a. port_ref s i \<noteq> Some a \<longrightarrow> port_mem s' a = port_mem s a" using destroy_step [OF inv Q, of i] by blast
  have t': "table_ok s'" using d(2) by (simp add: port_inv_def)
  have "port_holders s' l = ((port_holders s)(port_local i := None)) l" for l
  proof (cases "l = port_local i")
    case False
    then have "port_mem s' a = port_mem s a" if "table_lookup s l = Some a" for a
      using d(4) lookup_inj [OF inv that] port_ref_lookup [OF t, of i] by metis
    then show ?thesis using False d(3) holders_ok [OF t, of l] holders_ok [OF t', of l] by (cases "table_lookup s l") auto
  qed (use d(3) holders_ok [OF t'] in simp)
  then show ?thesis using d(1) by blast
qed

section \<open>Properties across components\<close>



end
